(* ===== verification/Yaz_Prelude.thy ===== *)
theory Yaz_Prelude
  imports Main "HOL-Library.Word" "HOL-Library.Monad_Syntax"
begin

text \<open>
  Shared vocabulary of the development: bytes and C strings, the value type of C
  computations that may touch memory they do not own, 32-bit wrap-around, the character
  class macros of \<^verbatim>\<open>yaz-iconv.h\<close>, and the lemmas that turn bit operations on words into
  arithmetic on \<^typ>\<open>nat\<close>, which carry the codec proofs.
\<close>

unbundle bit_operations_syntax

named_theorems bit_arith \<open>bit operations on words and naturals as div, mod, plus and times\<close>
named_theorems cstr_simps \<open>reading NUL-terminated strings\<close>

section \<open>Bytes and C strings\<close>

type_synonym byte = "8 word"

abbreviation ch :: "char \<Rightarrow> byte" where
  "ch c \<equiv> of_char c"

abbreviation str :: "string \<Rightarrow> byte list" where
  "str s \<equiv> map of_char s"

abbreviation text_of :: "byte list \<Rightarrow> string" where
  "text_of bs \<equiv> map (\<lambda>b. char_of (unat b)) bs"

text \<open>
  A \<^verbatim>\<open>const char *p\<close> that points into a NUL-terminated string is the list of the bytes from
  \<open>p\<close> up to and excluding the terminator. \<open>deref\<close> is \<^verbatim>\<open>*p\<close>: at the end of the list it reads
  the terminator. A list that holds a zero byte reads as the shorter C string \<open>cstr\<close>.
\<close>

definition deref :: "byte list \<Rightarrow> byte" where
  "deref p = (case p of [] \<Rightarrow> 0 | c # _ \<Rightarrow> c)"

definition cstr :: "byte list \<Rightarrow> byte list" where
  "cstr p = takeWhile (\<lambda>c. c \<noteq> 0) p"

abbreviation no_nul :: "byte list \<Rightarrow> bool" where
  "no_nul p \<equiv> (0 :: byte) \<notin> set p"

lemma deref_Nil [simp, cstr_simps]: "deref [] = 0"
  by (simp add: deref_def)

lemma deref_Cons [simp, cstr_simps]: "deref (c # p) = c"
  by (simp add: deref_def)

lemma deref_eq_0_iff [cstr_simps]: "no_nul p \<Longrightarrow> deref p = 0 \<longleftrightarrow> p = []"
  by (cases p) auto

lemma cstr_no_nul [simp]: "no_nul p \<Longrightarrow> cstr p = p"
  by (auto simp: cstr_def takeWhile_eq_all_conv)

lemma no_nul_cstr [simp]: "no_nul (cstr p)"
  by (auto simp: cstr_def dest: set_takeWhileD)

lemma cstr_Nil [simp]: "cstr [] = []"
  by (simp add: cstr_def)

lemma cstr_Cons [simp]: "cstr (c # p) = (if c = 0 then [] else c # cstr p)"
  by (simp add: cstr_def)

text \<open>\<^verbatim>\<open>strchr(s, c)\<close> also finds the terminator, so the test succeeds for \<open>c = 0\<close>.\<close>

definition strchr_ok :: "byte list \<Rightarrow> byte \<Rightarrow> bool" where
  "strchr_ok s c \<longleftrightarrow> c = 0 \<or> c \<in> set (cstr s)"

text \<open>
  Plain \<^verbatim>\<open>char\<close> is signed on the targets the build supports: a byte compared with a
  character constant is read as \<^term>\<open>sint\<close>.
\<close>

abbreviation schar :: "byte \<Rightarrow> int" where
  "schar c \<equiv> sint c"

lemma sint_low:
  assumes "unat (c :: byte) < 128"
  shows "sint c = int (unat c)"
proof -
  have u: "uint c = int (unat c)" by (simp only: uint_nat)
  have "sint c = signed_take_bit 7 (uint c)" by (simp add: sint_uint)
  also have "\<dots> = uint c" using assms unfolding u by (intro signed_take_bit_int_eq_self) (simp_all del: of_nat_unat)
  finally show ?thesis unfolding u .
qed

lemma sint_high:
  assumes "128 \<le> unat (c :: byte)"
  shows "sint c < 0"
proof -
  have u: "128 \<le> uint c" "uint c < 256" using assms uint_bounded [of c] by (simp_all add: uint_nat del: of_nat_unat)
  have "sint c = take_bit 8 (uint c + 128) - 128" by (simp add: sint_uint signed_take_bit_eq_take_bit_shift)
  also have "take_bit 8 (uint c + 128) = (uint c + 128) mod 256" by (simp add: take_bit_eq_mod)
  also have "\<dots> = uint c - 128" using mod_pos_pos_trivial [of "uint c - 128" 256] u minus_mod_self2 [of "uint c + 128" 256] by simp
  finally show ?thesis using u by simp
qed

lemma sint_nonzero: "(c :: byte) \<noteq> 0 \<Longrightarrow> sint c \<noteq> 0"
  by (simp add: signed_eq_0_iff)

section \<open>C results\<close>

text \<open>
  A C function that may read or write outside the objects it was given has no defined
  result there. The model returns \<^const>\<open>None\<close> in that case, so that memory safety is a
  statement about the model: a call returns \<^term>\<open>Some r\<close>.
\<close>

type_synonym 'a cres = "'a option"

abbreviation safe :: "'a cres \<Rightarrow> bool" where
  "safe r \<equiv> r \<noteq> None"

lemma bind_Some_iff: "Option.bind x f = Some r \<longleftrightarrow> (\<exists>a. x = Some a \<and> f a = Some r)"
  by (cases x) auto

text \<open>
  \<^verbatim>\<open>int\<close> arithmetic that leaves the 32-bit range is reduced as the two's complement
  targets do.
\<close>

definition wrap32 :: "int \<Rightarrow> int" where
  "wrap32 i = (i + 2 ^ 31) mod 2 ^ 32 - 2 ^ 31"

lemma wrap32_id: "- (2 ^ 31) \<le> i \<Longrightarrow> i < 2 ^ 31 \<Longrightarrow> wrap32 i = i"
  by (simp add: wrap32_def)

lemma wrap32_range: "- (2 ^ 31) \<le> wrap32 i \<and> wrap32 i < 2 ^ 31"
proof -
  have "0 \<le> (i + 2 ^ 31) mod 2 ^ 32" and "(i + 2 ^ 31) mod 2 ^ 32 < 2 ^ 32"
    by simp_all
  then show ?thesis by (simp add: wrap32_def)
qed

section \<open>Character classes (yaz-iconv.h)\<close>

definition yaz_isdigit :: "byte \<Rightarrow> bool" where
  "yaz_isdigit x \<longleftrightarrow> ch CHR ''0'' \<le> x \<and> x \<le> ch CHR ''9''"

definition yaz_isupper :: "byte \<Rightarrow> bool" where
  "yaz_isupper x \<longleftrightarrow> ch CHR ''A'' \<le> x \<and> x \<le> ch CHR ''Z''"

definition yaz_islower :: "byte \<Rightarrow> bool" where
  "yaz_islower x \<longleftrightarrow> ch CHR ''a'' \<le> x \<and> x \<le> ch CHR ''z''"

definition yaz_tolower :: "byte \<Rightarrow> byte" where
  "yaz_tolower x = x + (ch CHR ''a'' - ch CHR ''A'')"

definition yaz_isspace :: "byte \<Rightarrow> bool" where
  "yaz_isspace x \<longleftrightarrow> strchr_ok [32, 12, 13, 10, 9, 11] x"

lemmas ctype_defs = yaz_isdigit_def yaz_isupper_def yaz_islower_def yaz_tolower_def

section \<open>Bit operations as arithmetic\<close>

lemma nat_and_low: "(n :: nat) AND (2 ^ k - 1) = n mod 2 ^ k"
  using take_bit_eq_mask [of k n] by (simp add: take_bit_eq_mod mask_eq_exp_minus_1)

lemma nat_and_masks [bit_arith]:
  "(n :: nat) AND 1 = n mod 2" "n AND 3 = n mod 4" "n AND 7 = n mod 8" "n AND 15 = n mod 16"
  "n AND 31 = n mod 32" "n AND 63 = n mod 64" "n AND 127 = n mod 128" "n AND 255 = n mod 256"
  using nat_and_low [of n 1] nat_and_low [of n 2] nat_and_low [of n 3] nat_and_low [of n 4]
    nat_and_low [of n 5] nat_and_low [of n 6] nat_and_low [of n 7] nat_and_low [of n 8]
  by simp_all

lemma nat_and_disjoint: "(m :: nat) < 2 ^ k \<Longrightarrow> m AND (2 ^ k * c) = 0"
proof (rule bit_eqI)
  fix n
  assume m: "m < 2 ^ k"
  then have high: "k \<le> n \<Longrightarrow> \<not> bit m n"
    by (metis bit_take_bit_iff linorder_not_less take_bit_nat_eq_self)
  have low: "n < k \<Longrightarrow> \<not> bit (2 ^ k * c) n"
    by (metis bit_push_bit_iff_nat linorder_not_less mult.commute push_bit_eq_mult)
  show "bit (m AND 2 ^ k * c) n = bit (0 :: nat) n"
    using high low by (cases "n < k") (auto simp: bit_and_iff)
qed

lemma nat_or_shifted: "(m :: nat) < 2 ^ k \<Longrightarrow> m OR (2 ^ k * c) = m + 2 ^ k * c"
  by (metis disjunctive_add_eq_or nat_and_disjoint)

lemma nat_shifted_or: "(m :: nat) < 2 ^ k \<Longrightarrow> (2 ^ k * c) OR m = 2 ^ k * c + m"
  using nat_or_shifted [of m k c] by (simp add: or.commute add.commute)

lemma unat_and [bit_arith]: "unat (x AND y) = unat x AND unat y"
  by (simp add: unsigned_and_eq)

lemma unat_or [bit_arith]: "unat (x OR y) = unat x OR unat y"
  by (simp add: unsigned_or_eq)

lemma unat_drop_bit [bit_arith]: "unat (drop_bit k x) = unat x div 2 ^ k"
  unfolding unsigned_drop_bit_eq by (simp add: drop_bit_eq_div take_bit_nat_eq_self)

lemma unat_push_bit:
  "unat x * 2 ^ k < 2 ^ LENGTH('a) \<Longrightarrow> unat (push_bit k (x :: 'a :: len word)) = unat x * 2 ^ k"
  unfolding unsigned_push_bit_eq by (simp add: push_bit_eq_mult take_bit_nat_eq_self)

lemma unat_ucast8 [bit_arith]: "unat (ucast (x :: 'a :: len word) :: byte) = unat x mod 256"
  by (simp only: unsigned_ucast_eq take_bit_eq_mod) simp

lemma unat_byte_less [simp]: "unat (b :: byte) < 256"
  using unsigned_less [of b] by simp

text \<open>The byte of a number below 256, kept opaque for the simplifier.\<close>

definition byte_of :: "nat \<Rightarrow> byte" where
  "byte_of n = of_nat n"

lemma unat_byte_of: "unat (byte_of n) = n mod 256"
  by (simp add: byte_of_def unsigned_of_nat take_bit_eq_mod)

lemma unat_byte_of_less [simp]: "n < 256 \<Longrightarrow> unat (byte_of n) = n"
  by (simp add: unat_byte_of)

lemma byte_of_unat [simp]: "byte_of (unat b) = b"
  by (simp add: byte_of_def)

lemma byte_eqI: "unat (a :: byte) = unat b \<Longrightarrow> a = b"
  by (rule word_unat_eq_iff [THEN iffD2])

lemma byte_eq_byte_of: "n < 256 \<Longrightarrow> b = byte_of n \<longleftrightarrow> unat b = n"
  by (auto intro: byte_eqI)

lemma unat_le_numeral:
  "(x :: 'a :: len word) \<le> numeral w \<longleftrightarrow> unat x \<le> unat (numeral w :: 'a word)"
  by (simp add: word_le_nat_alt)

lemma unat_ge_numeral:
  "numeral w \<le> (x :: 'a :: len word) \<longleftrightarrow> unat (numeral w :: 'a word) \<le> unat x"
  by (simp add: word_le_nat_alt)

lemma unat_or_push_bit:
  assumes "unat y < 2 ^ k" and "unat x * 2 ^ k < 2 ^ LENGTH('a)"
  shows "unat (push_bit k x OR (y :: 'a :: len word)) = unat x * 2 ^ k + unat y"
  using nat_shifted_or [OF assms(1), of "unat x"] assms(2)
  by (simp add: unat_or unat_push_bit mult.commute)

lemma of_int_byte: "0 \<le> i \<Longrightarrow> (of_int i :: byte) = byte_of (nat i)"
  by (simp add: byte_of_def)

lemma of_nat_byte: "(of_nat n :: byte) = byte_of n"
  by (simp add: byte_of_def)

lemma uint_byte_of [simp]: "n < 256 \<Longrightarrow> uint (byte_of n) = int n"
  by (simp only: uint_nat unat_byte_of_less)

section \<open>Lists that agree on a prefix\<close>

lemma take_eq_mono: "take n a = take n b \<Longrightarrow> m \<le> n \<Longrightarrow> take m a = take m b"
  by (metis min.absorb1 take_take)

lemma take_eq_drop: "take n a = take n b \<Longrightarrow> h + m \<le> n \<Longrightarrow> take m (drop h a) = take m (drop h b)"
  by (metis add.commute take_drop take_eq_mono)

lemma take_eq_length: "take n a = take n b \<Longrightarrow> n \<le> length b \<Longrightarrow> n \<le> length a"
  by (metis length_take min.absorb2 min.cobounded1)

lemma take_eq_nth: "take n a = take n b \<Longrightarrow> i < n \<Longrightarrow> a ! i = b ! i"
  by (metis nth_take)

section \<open>Decimal numbers\<close>

text \<open>The text that \<^verbatim>\<open>printf\<close> makes for an integer.\<close>

fun dec_digits :: "nat \<Rightarrow> string" where
  "dec_digits n = (if n < 10 then [char_of (48 + n)] else dec_digits (n div 10) @ [char_of (48 + n mod 10)])"

declare dec_digits.simps [simp del]

definition dec_int :: "int \<Rightarrow> string" where
  "dec_int i = (if i < 0 then CHR ''-'' # dec_digits (nat (- i)) else dec_digits (nat i))"

lemma of_char_digit: "d < 10 \<Longrightarrow> (of_char (char_of (48 + d)) :: byte) = byte_of (48 + d)"
proof -
  assume "d < 10"
  have "(of_char (char_of (48 + d)) :: byte) = of_nat (of_char (char_of (48 + d)))"
    by (rule of_nat_of_char [symmetric])
  also have "\<dots> = of_nat (48 + d)" using \<open>d < 10\<close> by (simp add: of_char_of)
  finally show ?thesis by (simp add: byte_of_def)
qed

section \<open>Text of the program\<close>

text \<open>Text with line feeds and quotes: \<^verbatim>\<open>~\<close> stands for a line feed and \<^verbatim>\<open>`\<close> for a quote.\<close>

definition c_text :: "string \<Rightarrow> byte list" where
  "c_text s = map (\<lambda>c. if c = 126 then 10 else if c = 96 then 34 else c) (str s)"

section \<open>Memory\<close>

text \<open>The byte at an index, and the bytes of a range.\<close>

definition rd :: "byte list \<Rightarrow> nat \<Rightarrow> byte cres" where
  "rd buf i = (if i < length buf then Some (buf ! i) else None)"

definition rds :: "byte list \<Rightarrow> nat \<Rightarrow> nat \<Rightarrow> byte list cres" where
  "rds buf i n = (if i + n \<le> length buf then Some (take n (drop i buf)) else None)"

text \<open>\<open>s\<close> is in memory at index \<open>i\<close>.\<close>

definition at_mem :: "byte list \<Rightarrow> nat \<Rightarrow> byte list \<Rightarrow> bool" where
  "at_mem b i s \<longleftrightarrow> (\<exists>r. drop i b = s @ r) \<and> i \<le> length b"

lemma at_mem_rds: "at_mem b i s \<Longrightarrow> rds b i (length s) = Some s"
proof -
  assume "at_mem b i s"
  then obtain r where r: "drop i b = s @ r" "i \<le> length b" by (auto simp: at_mem_def)
  then have "length (drop i b) = length s + length r" by simp
  then have "i + length s \<le> length b" using r(2) by simp
  then show ?thesis using r(1) by (simp add: rds_def)
qed

lemma at_mem_split: "at_mem b i (s @ t) \<Longrightarrow> at_mem b i s \<and> at_mem b (i + length s) t"
proof -
  assume "at_mem b i (s @ t)"
  then obtain r where r: "drop i b = s @ t @ r" "i \<le> length b" by (auto simp: at_mem_def)
  then have "drop (i + length s) b = t @ r" by (metis add.commute append_eq_conv_conj drop_drop)
  moreover have "length (drop i b) = length s + length (t @ r)" using r(1) by simp
  then have "i + length s \<le> length b" using r(2) by simp
  ultimately show ?thesis using r by (auto simp: at_mem_def)
qed

lemma at_mem_rd: "at_mem b i (c # s) \<Longrightarrow> rd b i = Some c"
proof -
  assume "at_mem b i (c # s)"
  then obtain r where r: "drop i b = c # s @ r" by (auto simp: at_mem_def)
  then have "i < length b" by (metis drop_eq_Nil linorder_not_less list.distinct(1))
  then show ?thesis using r by (simp add: rd_def Cons_nth_drop_Suc [symmetric])
qed

lemma at_mem_tl: "at_mem b i (c # s) \<Longrightarrow> at_mem b (Suc i) s"
  using at_mem_split [of b i "[c]" s] by simp

lemma at_mem_take: "at_mem b i s \<Longrightarrow> take (length s) (drop i b) = s"
  by (auto simp: at_mem_def)

end
