(* ===== verification/Yaz_Utf8.thy ===== *)
theory Yaz_Utf8
  imports Yaz_Prelude
begin

text \<open>
  \<^verbatim>\<open>src/utf8.c\<close>: reading and writing one UTF-8 character, the decoder's byte-order-mark
  test and the validity check of a C string. \<open>utf8_ref\<close> is the reference encoding (RFC 2279,
  up to six bytes and 31 bits); the lemmas show that the writer produces it, that the reader
  inverts it and accepts nothing else, and what \<open>yaz_utf8_check\<close> decides.
\<close>

section \<open>Model\<close>

datatype iconv_errno = ICONV_NONE | YAZ_ICONV_UNKNOWN | YAZ_ICONV_E2BIG
  | YAZ_ICONV_EILSEQ | YAZ_ICONV_EINVAL

text \<open>
  \<open>init_utf8\<close>: \<open>inp\<close> is \<^const>\<open>None\<close> for a null pointer; otherwise the list holds the
  \<open>inbytesleft\<close> bytes it points to. The result is (return value \<open>-1\<close>?, bytes to skip, errno).
\<close>

definition init_utf8 :: "byte list option \<Rightarrow> iconv_errno \<Rightarrow> (bool \<times> nat \<times> iconv_errno) cres" where
  "init_utf8 inp0 errno =
     (case inp0 of None \<Rightarrow> Some (False, 0, errno)
      | Some inp \<Rightarrow>
         if inp = [] then None
         else if inp ! 0 \<noteq> 0xef then Some (False, 0, errno)
         else if length inp < 3 then Some (True, 0, YAZ_ICONV_EINVAL)
         else if inp ! 1 \<noteq> 0xbb \<and> inp ! 2 = 0xbf then Some (False, 3, errno)
         else Some (False, 0, errno))"

abbreviation cont :: "byte \<Rightarrow> bool" where
  "cont b \<equiv> b AND 0xc0 = 0x80"

definition lead_bits :: "byte \<Rightarrow> byte \<Rightarrow> nat \<Rightarrow> 64 word" where
  "lead_bits m b k = push_bit k (ucast (b AND m))"

text \<open>
  \<open>yaz_read_UTF8_char inp err\<close> returns \<open>(x, no_read, err)\<close>; \<open>length inp\<close> is \<open>inbytesleft\<close>.
\<close>

definition yaz_read_UTF8_char :: "byte list \<Rightarrow> iconv_errno \<Rightarrow> (64 word \<times> nat \<times> iconv_errno) cres" where
  "yaz_read_UTF8_char inp err =
     (if inp = [] then None
      else let b = (\<lambda>i. inp ! i); left = length inp in Some (
        if b 0 \<le> 0x7f then (ucast (b 0), 1, err)
        else if b 0 \<le> 0xbf \<or> b 0 \<ge> 0xfe then (0, 0, YAZ_ICONV_EILSEQ)
        else if b 0 \<le> 0xdf \<and> left \<ge> 2 then
          (if cont (b 1) then
             let x = lead_bits 0x1f (b 0) 6 OR lead_bits 0x3f (b 1) 0
             in if x \<ge> 0x80 then (x, 2, err) else (x, 0, YAZ_ICONV_EILSEQ)
           else (0, 0, YAZ_ICONV_EILSEQ))
        else if b 0 \<le> 0xef \<and> left \<ge> 3 then
          (if cont (b 1) \<and> cont (b 2) then
             let x = lead_bits 0x0f (b 0) 12 OR lead_bits 0x3f (b 1) 6 OR lead_bits 0x3f (b 2) 0
             in if x \<ge> 0x800 then (x, 3, err) else (x, 0, YAZ_ICONV_EILSEQ)
           else (0, 0, YAZ_ICONV_EILSEQ))
        else if b 0 \<le> 0xf7 \<and> left \<ge> 4 then
          (if cont (b 1) \<and> cont (b 2) \<and> cont (b 3) then
             let x = lead_bits 0x07 (b 0) 18 OR lead_bits 0x3f (b 1) 12 OR
                     lead_bits 0x3f (b 2) 6 OR lead_bits 0x3f (b 3) 0
             in if x \<ge> 0x10000 then (x, 4, err) else (x, 0, YAZ_ICONV_EILSEQ)
           else (0, 0, YAZ_ICONV_EILSEQ))
        else if b 0 \<le> 0xfb \<and> left \<ge> 5 then
          (if cont (b 1) \<and> cont (b 2) \<and> cont (b 3) \<and> cont (b 4) then
             let x = lead_bits 0x03 (b 0) 24 OR lead_bits 0x3f (b 1) 18 OR
                     lead_bits 0x3f (b 2) 12 OR lead_bits 0x3f (b 3) 6 OR lead_bits 0x3f (b 4) 0
             in if x \<ge> 0x200000 then (x, 5, err) else (x, 0, YAZ_ICONV_EILSEQ)
           else (0, 0, YAZ_ICONV_EILSEQ))
        else if b 0 \<le> 0xfd \<and> left \<ge> 6 then
          (if cont (b 1) \<and> cont (b 2) \<and> cont (b 3) \<and> cont (b 4) \<and> cont (b 5) then
             let x = lead_bits 0x01 (b 0) 30 OR lead_bits 0x3f (b 1) 24 OR
                     lead_bits 0x3f (b 2) 18 OR lead_bits 0x3f (b 3) 12 OR
                     lead_bits 0x3f (b 4) 6 OR lead_bits 0x3f (b 5) 0
             in if x \<ge> 0x4000000 then (x, 6, err) else (x, 0, YAZ_ICONV_EILSEQ)
           else (0, 0, YAZ_ICONV_EILSEQ))
        else (0, 0, YAZ_ICONV_EINVAL)))"

text \<open>
  \<open>yaz_write_UTF8_char x out left err\<close> returns (return value \<open>-1\<close>?, output so far, room left,
  errno).
\<close>

definition tail6 :: "64 word \<Rightarrow> nat \<Rightarrow> byte" where
  "tail6 x k = ucast ((drop_bit k x AND 0x3f) OR 0x80)"

definition lead6 :: "64 word \<Rightarrow> nat \<Rightarrow> 64 word \<Rightarrow> byte" where
  "lead6 x k m = ucast (drop_bit k x OR m)"

definition yaz_write_UTF8_char ::
    "64 word \<Rightarrow> byte list \<Rightarrow> nat \<Rightarrow> iconv_errno \<Rightarrow> bool \<times> byte list \<times> nat \<times> iconv_errno" where
  "yaz_write_UTF8_char x out left err =
     (if x \<le> 0x7f \<and> left \<ge> 1 then (False, out @ [ucast x], left - 1, err)
      else if x \<le> 0x7ff \<and> left \<ge> 2 then
        (False, out @ [lead6 x 6 0xc0, tail6 x 0], left - 2, err)
      else if x \<le> 0xffff \<and> left \<ge> 3 then
        (False, out @ [lead6 x 12 0xe0, tail6 x 6, tail6 x 0], left - 3, err)
      else if x \<le> 0x1fffff \<and> left \<ge> 4 then
        (False, out @ [lead6 x 18 0xf0, tail6 x 12, tail6 x 6, tail6 x 0], left - 4, err)
      else if x \<le> 0x3ffffff \<and> left \<ge> 5 then
        (False, out @ [lead6 x 24 0xf8, tail6 x 18, tail6 x 12, tail6 x 6, tail6 x 0], left - 5, err)
      else if left \<ge> 6 then
        (False, out @ [lead6 x 30 0xfc, tail6 x 24, tail6 x 18, tail6 x 12, tail6 x 6, tail6 x 0],
         left - 6, err)
      else (True, out, left, YAZ_ICONV_E2BIG))"

text \<open>The decoder and encoder handles: errno is set from the call, also when it is 0.\<close>

definition read_utf8 :: "byte list \<Rightarrow> (64 word \<times> nat \<times> iconv_errno) cres" where
  "read_utf8 inp = yaz_read_UTF8_char inp ICONV_NONE"

definition write_UTF8 :: "64 word \<Rightarrow> byte list \<Rightarrow> nat \<Rightarrow> bool \<times> byte list \<times> nat \<times> iconv_errno" where
  "write_UTF8 x out left = yaz_write_UTF8_char x out left ICONV_NONE"

text \<open>
  \<open>yaz_utf8_check\<close>: the loop over \<open>inp\<close> and \<open>inbytesleft\<close>. The fuel is the number of rounds;
  \<open>yaz_utf8_check\<close> supplies \<open>strlen(str)\<close> of them, enough by \<open>utf8_check_loop_returns\<close>.
\<close>

fun utf8_check_loop :: "nat \<Rightarrow> byte list \<Rightarrow> bool cres" where
  "utf8_check_loop fuel inp =
     (if inp = [] then Some True
      else case fuel of 0 \<Rightarrow> None
      | Suc fuel' \<Rightarrow>
         (case yaz_read_UTF8_char inp ICONV_NONE of None \<Rightarrow> None
          | Some (x, no_read, error) \<Rightarrow>
              if error \<noteq> ICONV_NONE then Some False
              else utf8_check_loop fuel' (drop no_read inp)))"

definition yaz_utf8_check :: "byte list \<Rightarrow> bool cres" where
  "yaz_utf8_check s = utf8_check_loop (length (cstr s)) (cstr s)"

declare utf8_check_loop.simps [simp del]

section \<open>The reference encoding\<close>

definition utf8_ref :: "nat \<Rightarrow> byte list" where
  "utf8_ref n =
     (if n < 0x80 then [byte_of n]
      else if n < 0x800 then [byte_of (0xc0 + n div 2 ^ 6), byte_of (0x80 + n div 2 ^ 0 mod 64)]
      else if n < 0x10000 then
        [byte_of (0xe0 + n div 2 ^ 12), byte_of (0x80 + n div 2 ^ 6 mod 64),
         byte_of (0x80 + n div 2 ^ 0 mod 64)]
      else if n < 0x200000 then
        [byte_of (0xf0 + n div 2 ^ 18), byte_of (0x80 + n div 2 ^ 12 mod 64),
         byte_of (0x80 + n div 2 ^ 6 mod 64), byte_of (0x80 + n div 2 ^ 0 mod 64)]
      else if n < 0x4000000 then
        [byte_of (0xf8 + n div 2 ^ 24), byte_of (0x80 + n div 2 ^ 18 mod 64),
         byte_of (0x80 + n div 2 ^ 12 mod 64), byte_of (0x80 + n div 2 ^ 6 mod 64),
         byte_of (0x80 + n div 2 ^ 0 mod 64)]
      else
        [byte_of (0xfc + n div 2 ^ 30), byte_of (0x80 + n div 2 ^ 24 mod 64),
         byte_of (0x80 + n div 2 ^ 18 mod 64), byte_of (0x80 + n div 2 ^ 12 mod 64),
         byte_of (0x80 + n div 2 ^ 6 mod 64), byte_of (0x80 + n div 2 ^ 0 mod 64)])"

lemma utf8_ranges:
  assumes "n < (2 :: nat) ^ 31"
  obtains (one) "n < 0x80"
  | (two) "0x80 \<le> n" "n < 0x800"
  | (three) "0x800 \<le> n" "n < 0x10000"
  | (four) "0x10000 \<le> n" "n < 0x200000"
  | (five) "0x200000 \<le> n" "n < 0x4000000"
  | (six) "0x4000000 \<le> n" "n < 0x80000000"
  using assms by fastforce

lemma unat_tail6: "unat (tail6 x k) = 0x80 + unat x div 2 ^ k mod 64"
proof -
  have "unat x div 2 ^ k mod 64 OR 128 = unat x div 2 ^ k mod 64 + 128"
    using nat_or_shifted [of "unat x div 2 ^ k mod 64" 6 2] by simp
  then show ?thesis by (simp add: tail6_def bit_arith)
qed

lemma tail6_eq: "tail6 x k = byte_of (0x80 + unat x div 2 ^ k mod 64)"
  by (rule byte_eqI) (simp add: unat_tail6 unat_byte_of)

lemma lead6_eq:
  assumes "unat x div 2 ^ k < 2 ^ j" and "unat m = 2 ^ j * c" and "2 ^ j + 2 ^ j * c \<le> (256 :: nat)"
  shows "lead6 x k m = byte_of (2 ^ j * c + unat x div 2 ^ k)"
  using assms nat_or_shifted [OF assms(1), of c]
  by (intro byte_eqI) (simp add: lead6_def bit_arith unat_byte_of)

text \<open>The writer produces the reference encoding when it has room.\<close>

lemma write_UTF8_ref:
  assumes "unat x < 2 ^ 31" and "length (utf8_ref (unat x)) \<le> left"
  shows "yaz_write_UTF8_char x out left err =
           (False, out @ utf8_ref (unat x), left - length (utf8_ref (unat x)), err)"
  using assms(1)
proof (cases rule: utf8_ranges)
  case one
  then have "ucast x = byte_of (unat x)" by (intro byte_eqI) (simp add: bit_arith unat_byte_of)
  with one assms(2) show ?thesis
    by (simp add: yaz_write_UTF8_char_def utf8_ref_def unat_le_numeral)
next
  case two
  with assms(2) show ?thesis
    using lead6_eq [of x 6 5 "0xc0" 6]
    by (simp add: yaz_write_UTF8_char_def utf8_ref_def unat_le_numeral tail6_eq
        div_less_iff_less_mult)
next
  case three
  with assms(2) show ?thesis
    using lead6_eq [of x 12 4 "0xe0" 14]
    by (simp add: yaz_write_UTF8_char_def utf8_ref_def unat_le_numeral tail6_eq
        div_less_iff_less_mult)
next
  case four
  with assms(2) show ?thesis
    using lead6_eq [of x 18 3 "0xf0" 30]
    by (simp add: yaz_write_UTF8_char_def utf8_ref_def unat_le_numeral tail6_eq
        div_less_iff_less_mult)
next
  case five
  with assms(2) show ?thesis
    using lead6_eq [of x 24 2 "0xf8" 62]
    by (simp add: yaz_write_UTF8_char_def utf8_ref_def unat_le_numeral tail6_eq
        div_less_iff_less_mult)
next
  case six
  with assms(2) show ?thesis
    using lead6_eq [of x 30 1 "0xfc" 126]
    by (simp add: yaz_write_UTF8_char_def utf8_ref_def unat_le_numeral tail6_eq
        div_less_iff_less_mult)
qed


section \<open>Reading\<close>

lemma nat_and_push_bit: "(n :: nat) AND push_bit k c = push_bit k (drop_bit k n AND c)"
  by (rule bit_eqI) (auto simp: bit_and_iff bit_push_bit_iff_nat bit_drop_bit_eq)

lemma nat_and_192: "(n :: nat) AND 192 = n div 64 mod 4 * 64"
  using nat_and_push_bit [of n 6 3] by (simp add: push_bit_eq_mult drop_bit_eq_div nat_and_masks)

lemma cont_iff: "cont b \<longleftrightarrow> 0x80 \<le> unat b \<and> unat b < 0xc0"
proof -
  have "cont b \<longleftrightarrow> unat b div 64 mod 4 = 2"
    by (auto simp: word_unat_eq_iff bit_arith nat_and_192)
  also have "\<dots> \<longleftrightarrow> unat b div 64 = 2"
    using unat_byte_less [of b] by (simp add: div_less_iff_less_mult)
  also have "\<dots> \<longleftrightarrow> 0x80 \<le> unat b \<and> unat b < 0xc0"
    by (auto simp: div_nat_eqI dest: arg_cong [where f = "(*) 64"])
  finally show ?thesis .
qed

lemma unat_lead_bits:
  assumes "unat m = 2 ^ j - 1" and "j + k < 64"
  shows "unat (lead_bits m b k) = unat b mod 2 ^ j * 2 ^ k"
proof -
  have "unat b mod 2 ^ j * 2 ^ k < 2 ^ j * 2 ^ k" by simp
  also have "\<dots> = (2 :: nat) ^ (j + k)" by (simp add: power_add)
  also have "\<dots> \<le> 2 ^ 64" using assms(2) by (intro power_increasing) simp_all
  finally have less: "unat b mod 2 ^ j * 2 ^ k < 2 ^ 64" .
  have "unat (b AND m) = unat b mod 2 ^ j"
    using assms(1) nat_and_low [of "unat b" j] by (simp add: unat_and)
  moreover have "unat (b AND m) < 2 ^ 64"
    by (rule less_trans [OF unat_byte_less]) simp
  ultimately have "unat (ucast (b AND m) :: 64 word) = unat b mod 2 ^ j"
    by (simp add: unsigned_ucast_eq take_bit_nat_eq_self)
  then show ?thesis
    using less by (simp add: lead_bits_def unat_push_bit)
qed

lemma unat_lead_bits_or:
  assumes "unat m = 2 ^ j - 1" and "j + k < 64" and "unat y < 2 ^ k"
  shows "unat (lead_bits m b k OR y) = unat b mod 2 ^ j * 2 ^ k + unat y"
  using nat_shifted_or [OF assms(3), of "unat b mod 2 ^ j"] unat_lead_bits [OF assms(1,2), of b]
  by (simp add: unat_or mult.commute)

abbreviation dig :: "byte \<Rightarrow> nat" where
  "dig b \<equiv> unat b mod 64"

lemma horner_less:
  assumes "a < (64 :: nat)" "b < 64" "c < 64" "d < 64" "e < 64"
  shows "a * 64 + b < 2 ^ 12" "(a * 64 + b) * 64 + c < 2 ^ 18"
    "((a * 64 + b) * 64 + c) * 64 + d < 2 ^ 24"
    "(((a * 64 + b) * 64 + c) * 64 + d) * 64 + e < 2 ^ 30"
  using assms by simp_all

lemma dig_less:
  "dig a * 64 + dig b < 2 ^ 12" "(dig a * 64 + dig b) * 64 + dig c < 2 ^ 18"
  "((dig a * 64 + dig b) * 64 + dig c) * 64 + dig d < 2 ^ 24"
  "(((dig a * 64 + dig b) * 64 + dig c) * 64 + dig d) * 64 + dig e < 2 ^ 30"
  by (rule horner_less [where c = 0 and d = 0 and e = 0]; simp; fail)
    (rule horner_less [where d = 0 and e = 0]; simp; fail |
     rule horner_less [where e = 0]; simp; fail | rule horner_less; simp; fail)+

lemma unat_lead_value:
  assumes "unat y = v" and "v < 2 ^ k" and "unat m = 2 ^ j - 1" and "j + k < 64"
  shows "unat (lead_bits m a k OR y) = unat a mod 2 ^ j * 2 ^ k + v"
  using assms unat_lead_bits_or [of m j k y a] by simp

lemma horner_sums:
  "q * 2 ^ 6 + b = q * 64 + (b :: nat)"
  "q * 2 ^ 12 + (a * 64 + b) = (q * 64 + a) * 64 + b"
  "q * 2 ^ 18 + ((c * 64 + a) * 64 + b) = ((q * 64 + c) * 64 + a) * 64 + b"
  "q * 2 ^ 24 + (((d * 64 + c) * 64 + a) * 64 + b) = (((q * 64 + d) * 64 + c) * 64 + a) * 64 + b"
  "q * 2 ^ 30 + ((((e * 64 + d) * 64 + c) * 64 + a) * 64 + b)
     = ((((q * 64 + e) * 64 + d) * 64 + c) * 64 + a) * 64 + b"
  by simp_all

text \<open>The value a sequence of two to six bytes denotes, in Horner form.\<close>

lemma unat_lead_horner:
  assumes "unat m = 2 ^ j - 1" and "j \<le> 6"
  shows
  "unat (lead_bits m q 6 OR lead_bits 63 b 0) = unat q mod 2 ^ j * 64 + dig b" (is ?one)
  "unat (lead_bits m q 12 OR lead_bits 63 a 6 OR lead_bits 63 b 0)
     = (unat q mod 2 ^ j * 64 + dig a) * 64 + dig b" (is ?two)
  "unat (lead_bits m q 18 OR lead_bits 63 c 12 OR lead_bits 63 a 6 OR lead_bits 63 b 0)
     = ((unat q mod 2 ^ j * 64 + dig c) * 64 + dig a) * 64 + dig b" (is ?three)
  "unat (lead_bits m q 24 OR lead_bits 63 d 18 OR lead_bits 63 c 12 OR lead_bits 63 a 6 OR
     lead_bits 63 b 0)
     = (((unat q mod 2 ^ j * 64 + dig d) * 64 + dig c) * 64 + dig a) * 64 + dig b" (is ?four)
  "unat (lead_bits m q 30 OR lead_bits 63 e 24 OR lead_bits 63 d 18 OR lead_bits 63 c 12 OR
     lead_bits 63 a 6 OR lead_bits 63 b 0)
     = ((((unat q mod 2 ^ j * 64 + dig e) * 64 + dig d) * 64 + dig c) * 64 + dig a) * 64 + dig b"
    (is ?five)
proof -
  have s: "unat (63 :: byte) = 2 ^ 6 - 1" by simp
  have 0: "unat (lead_bits 63 b 0) = dig b" using unat_lead_bits [OF s, of 0 b] by simp
  have 1: "unat (lead_bits w x 6 OR lead_bits 63 b 0) = unat x mod 2 ^ i * 64 + dig b"
    if "unat w = 2 ^ i - 1" "i \<le> 6" for w x i
    using unat_lead_value [where k = 6 and a = x, OF 0 _ that(1)] that(2) by simp
  have 2: "unat (lead_bits w x 12 OR lead_bits 63 a 6 OR lead_bits 63 b 0)
      = (unat x mod 2 ^ i * 64 + dig a) * 64 + dig b"
    if "unat w = 2 ^ i - 1" "i \<le> 6" for w x i
    using unat_lead_value [where k = 12 and a = x, OF 1 [OF s order_refl, of a] _ that(1)]
      that(2) dig_less(1) [of a b]
    by (simp add: horner_sums [simplified])
  have 3: "unat (lead_bits w x 18 OR lead_bits 63 c 12 OR lead_bits 63 a 6 OR lead_bits 63 b 0)
      = ((unat x mod 2 ^ i * 64 + dig c) * 64 + dig a) * 64 + dig b"
    if "unat w = 2 ^ i - 1" "i \<le> 6" for w x i
    using unat_lead_value [where k = 18 and a = x, OF 2 [OF s order_refl, of c] _ that(1)]
      that(2) dig_less(2) [of c a b]
    by (simp add: horner_sums [simplified])
  have 4: "unat (lead_bits w x 24 OR lead_bits 63 d 18 OR lead_bits 63 c 12 OR lead_bits 63 a 6 OR
        lead_bits 63 b 0)
      = (((unat x mod 2 ^ i * 64 + dig d) * 64 + dig c) * 64 + dig a) * 64 + dig b"
    if "unat w = 2 ^ i - 1" "i \<le> 6" for w x i
    using unat_lead_value [where k = 24 and a = x, OF 3 [OF s order_refl, of d] _ that(1)]
      that(2) dig_less(3) [of d c a b]
    by (simp add: horner_sums [simplified])
  show ?one by (rule 1 [OF assms])
  show ?two by (rule 2 [OF assms])
  show ?three by (rule 3 [OF assms])
  show ?four by (rule 4 [OF assms])
  show ?five
    using unat_lead_value [where k = 30 and a = q, OF 4 [OF s order_refl, of e] _ assms(1)]
      assms(2) dig_less(4) [of e d c a b]
    by (simp add: horner_sums [simplified])
qed

lemma read_values:
  "unat (lead_bits 31 q 6 OR lead_bits 63 b 0) = unat q mod 32 * 64 + dig b"
  "unat (lead_bits 15 q 12 OR lead_bits 63 a 6 OR lead_bits 63 b 0)
     = (unat q mod 16 * 64 + dig a) * 64 + dig b"
  "unat (lead_bits 7 q 18 OR lead_bits 63 c 12 OR lead_bits 63 a 6 OR lead_bits 63 b 0)
     = ((unat q mod 8 * 64 + dig c) * 64 + dig a) * 64 + dig b"
  "unat (lead_bits 3 q 24 OR lead_bits 63 d 18 OR lead_bits 63 c 12 OR lead_bits 63 a 6 OR
     lead_bits 63 b 0)
     = (((unat q mod 4 * 64 + dig d) * 64 + dig c) * 64 + dig a) * 64 + dig b"
  "unat (lead_bits 1 q 30 OR lead_bits 63 e 24 OR lead_bits 63 d 18 OR lead_bits 63 c 12 OR
     lead_bits 63 a 6 OR lead_bits 63 b 0)
     = ((((unat q mod 2 * 64 + dig e) * 64 + dig d) * 64 + dig c) * 64 + dig a) * 64 + dig b"
proof -
  have pow: "32 = (2 :: nat) ^ 5" "16 = (2 :: nat) ^ 4" "8 = (2 :: nat) ^ 3" "4 = (2 :: nat) ^ 2"
    "2 = (2 :: nat) ^ 1" by simp_all
  show "unat (lead_bits 31 q 6 OR lead_bits 63 b 0) = unat q mod 32 * 64 + dig b"
    unfolding pow(1) by (rule unat_lead_horner; simp)
  show "unat (lead_bits 15 q 12 OR lead_bits 63 a 6 OR lead_bits 63 b 0)
     = (unat q mod 16 * 64 + dig a) * 64 + dig b"
    unfolding pow(2) by (rule unat_lead_horner; simp)
  show "unat (lead_bits 7 q 18 OR lead_bits 63 c 12 OR lead_bits 63 a 6 OR lead_bits 63 b 0)
     = ((unat q mod 8 * 64 + dig c) * 64 + dig a) * 64 + dig b"
    unfolding pow(3) by (rule unat_lead_horner; simp)
  show "unat (lead_bits 3 q 24 OR lead_bits 63 d 18 OR lead_bits 63 c 12 OR lead_bits 63 a 6 OR
     lead_bits 63 b 0)
     = (((unat q mod 4 * 64 + dig d) * 64 + dig c) * 64 + dig a) * 64 + dig b"
    unfolding pow(4) by (rule unat_lead_horner; simp)
  show "unat (lead_bits 1 q 30 OR lead_bits 63 e 24 OR lead_bits 63 d 18 OR lead_bits 63 c 12 OR
     lead_bits 63 a 6 OR lead_bits 63 b 0)
     = ((((unat q mod 2 * 64 + dig e) * 64 + dig d) * 64 + dig c) * 64 + dig a) * 64 + dig b"
    by (rule unat_lead_horner(5) [of 1 1, unfolded power_one_right]) simp_all
qed

lemma mod_add_multiple: "m = j * c \<Longrightarrow> (m + t) mod j = t mod (j :: nat)"
  by simp

lemma marker_mod [simp]:
  "(128 + t) mod 64 = t mod (64 :: nat)" "(192 + t) mod 32 = t mod (32 :: nat)"
  "(224 + t) mod 16 = t mod (16 :: nat)" "(240 + t) mod 8 = t mod (8 :: nat)"
  "(248 + t) mod 4 = t mod (4 :: nat)" "(252 + t) mod 2 = t mod (2 :: nat)"
  by (rule mod_add_multiple [where c = 2], simp)
    (rule mod_add_multiple [where c = 6], simp, rule mod_add_multiple [where c = 14], simp,
     rule mod_add_multiple [where c = 30], simp, rule mod_add_multiple [where c = 62], simp,
     rule mod_add_multiple [where c = 126], simp)

lemma div_iterate64:
  "(n :: nat) div 2 ^ 12 = n div 64 div 64" "n div 2 ^ 18 = n div 64 div 64 div 64"
  "n div 2 ^ 24 = n div 64 div 64 div 64 div 64"
  "n div 2 ^ 30 = n div 64 div 64 div 64 div 64 div 64"
  "n div 2 ^ 6 = n div 64" "n div 2 ^ 0 = n"
  by (simp_all add: div_mult2_eq [symmetric])

abbreviation tb :: "nat \<Rightarrow> byte" where
  "tb n \<equiv> byte_of (128 + n mod 64)"

lemma utf8_ref_unfold:
  "0x80 \<le> n \<Longrightarrow> n < 0x800 \<Longrightarrow> utf8_ref n = [byte_of (192 + n div 64), tb n]"
  "0x800 \<le> n \<Longrightarrow> n < 0x10000 \<Longrightarrow>
     utf8_ref n = [byte_of (224 + n div 64 div 64), tb (n div 64), tb n]"
  "0x10000 \<le> n \<Longrightarrow> n < 0x200000 \<Longrightarrow>
     utf8_ref n = [byte_of (240 + n div 64 div 64 div 64), tb (n div 64 div 64), tb (n div 64), tb n]"
  "0x200000 \<le> n \<Longrightarrow> n < 0x4000000 \<Longrightarrow>
     utf8_ref n = [byte_of (248 + n div 64 div 64 div 64 div 64), tb (n div 64 div 64 div 64),
       tb (n div 64 div 64), tb (n div 64), tb n]"
  "0x4000000 \<le> n \<Longrightarrow>
     utf8_ref n = [byte_of (252 + n div 64 div 64 div 64 div 64 div 64),
       tb (n div 64 div 64 div 64 div 64), tb (n div 64 div 64 div 64),
       tb (n div 64 div 64), tb (n div 64), tb n]"
  by (simp_all only: utf8_ref_def div_iterate64 if_False if_True) simp_all

lemma word64_eqI: "unat (x :: 64 word) = n \<Longrightarrow> x = of_nat n"
  by auto

lemmas read_defs = yaz_read_UTF8_char_def Let_def unat_le_numeral unat_ge_numeral cont_iff

text \<open>The branches of the reader, one lemma per sequence length.\<close>

lemma read_two:
  "\<lbrakk>192 \<le> unat q; unat q < 224; cont a; x = lead_bits 31 q 6 OR lead_bits 63 a 0; 0x80 \<le> unat x\<rbrakk>
   \<Longrightarrow> yaz_read_UTF8_char (q # a # rest) err = Some (x, 2, err)"
  by (simp add: read_defs)

lemma read_three:
  "\<lbrakk>224 \<le> unat q; unat q < 240; cont a; cont b;
    x = lead_bits 15 q 12 OR lead_bits 63 a 6 OR lead_bits 63 b 0; 0x800 \<le> unat x\<rbrakk>
   \<Longrightarrow> yaz_read_UTF8_char (q # a # b # rest) err = Some (x, 3, err)"
  by (simp add: read_defs)

lemma read_four:
  "\<lbrakk>240 \<le> unat q; unat q < 248; cont a; cont b; cont c;
    x = lead_bits 7 q 18 OR lead_bits 63 a 12 OR lead_bits 63 b 6 OR lead_bits 63 c 0;
    0x10000 \<le> unat x\<rbrakk>
   \<Longrightarrow> yaz_read_UTF8_char (q # a # b # c # rest) err = Some (x, 4, err)"
  by (simp add: read_defs)

lemma read_five:
  "\<lbrakk>248 \<le> unat q; unat q < 252; cont a; cont b; cont c; cont d;
    x = lead_bits 3 q 24 OR lead_bits 63 a 18 OR lead_bits 63 b 12 OR lead_bits 63 c 6 OR
      lead_bits 63 d 0; 0x200000 \<le> unat x\<rbrakk>
   \<Longrightarrow> yaz_read_UTF8_char (q # a # b # c # d # rest) err = Some (x, 5, err)"
  by (simp add: read_defs)

lemma read_six:
  "\<lbrakk>252 \<le> unat q; unat q < 254; cont a; cont b; cont c; cont d; cont e;
    x = lead_bits 1 q 30 OR lead_bits 63 a 24 OR lead_bits 63 b 18 OR lead_bits 63 c 12 OR
      lead_bits 63 d 6 OR lead_bits 63 e 0; 0x4000000 \<le> unat x\<rbrakk>
   \<Longrightarrow> yaz_read_UTF8_char (q # a # b # c # d # e # rest) err = Some (x, 6, err)"
  by (simp add: read_defs)

lemma cont_tb: "cont (tb n)"
  by (simp add: cont_iff)

lemma lead_ranges:
  "t < 32 \<Longrightarrow> 192 \<le> unat (byte_of (192 + t)) \<and> unat (byte_of (192 + t)) < 224"
  "t < 16 \<Longrightarrow> 224 \<le> unat (byte_of (224 + t)) \<and> unat (byte_of (224 + t)) < 240"
  "t < 8 \<Longrightarrow> 240 \<le> unat (byte_of (240 + t)) \<and> unat (byte_of (240 + t)) < 248"
  "t < 4 \<Longrightarrow> 248 \<le> unat (byte_of (248 + t)) \<and> unat (byte_of (248 + t)) < 252"
  "t < 2 \<Longrightarrow> 252 \<le> unat (byte_of (252 + t)) \<and> unat (byte_of (252 + t)) < 254"
  by simp_all

lemma dig_byte_of: "dig (byte_of (128 + t mod 64)) = t mod 64"
  by simp

lemma lead_byte_of:
  "t < 32 \<Longrightarrow> unat (byte_of (192 + t)) mod 32 = t" "t < 16 \<Longrightarrow> unat (byte_of (224 + t)) mod 16 = t"
  "t < 8 \<Longrightarrow> unat (byte_of (240 + t)) mod 8 = t" "t < 4 \<Longrightarrow> unat (byte_of (248 + t)) mod 4 = t"
  "t < 2 \<Longrightarrow> unat (byte_of (252 + t)) mod 2 = t"
  by simp_all

lemmas read_value_simps = read_values dig_byte_of lead_byte_of div_mult_mod_eq

text \<open>The reader inverts the reference encoding, whatever follows it in the input.\<close>

lemma read_ref:
  assumes "n < 2 ^ 31"
  shows "yaz_read_UTF8_char (utf8_ref n @ rest) err = Some (of_nat n, length (utf8_ref n), err)"
  using assms
proof (cases rule: utf8_ranges)
  case one
  then show ?thesis
    by (auto simp: read_defs utf8_ref_def unsigned_ucast_eq take_bit_nat_eq_self intro!: word64_eqI)
next
  case two
  have q: "n div 64 < 32" using two by (simp add: div_less_iff_less_mult)
  let ?x = "lead_bits 31 (byte_of (192 + n div 64)) 6 OR lead_bits 63 (tb n) 0"
  have v: "unat ?x = n" by (simp only: read_value_simps q)
  have "yaz_read_UTF8_char (utf8_ref n @ rest) err = Some (?x, 2, err)"
    unfolding utf8_ref_unfold(1) [OF two] append_Cons append_Nil
    by (rule read_two [OF _ _ cont_tb refl])
      (use lead_ranges(1) [OF q] two in \<open>simp_all only: v\<close>)
  with two show ?thesis
    by (simp only: word64_eqI [OF v] utf8_ref_unfold(1) [OF two]) simp
next
  case three
  have q: "n div 64 div 64 < 16" using three by (simp add: div_less_iff_less_mult)
  let ?x = "lead_bits 15 (byte_of (224 + n div 64 div 64)) 12 OR lead_bits 63 (tb (n div 64)) 6 OR lead_bits 63 (tb n) 0"
  have v: "unat ?x = n" by (simp only: read_value_simps q)
  have "yaz_read_UTF8_char (utf8_ref n @ rest) err = Some (?x, 3, err)"
    unfolding utf8_ref_unfold(2) [OF three] append_Cons append_Nil
    by (rule read_three [OF _ _ cont_tb cont_tb refl])
      (use lead_ranges(2) [OF q] three in \<open>simp_all only: v\<close>)
  with three show ?thesis
    by (simp only: word64_eqI [OF v] utf8_ref_unfold(2) [OF three]) simp
next
  case four
  have q: "n div 64 div 64 div 64 < 8" using four by (simp add: div_less_iff_less_mult)
  let ?x = "lead_bits 7 (byte_of (240 + n div 64 div 64 div 64)) 18 OR lead_bits 63 (tb (n div 64 div 64)) 12
      OR lead_bits 63 (tb (n div 64)) 6 OR lead_bits 63 (tb n) 0"
  have v: "unat ?x = n" by (simp only: read_value_simps q)
  have "yaz_read_UTF8_char (utf8_ref n @ rest) err = Some (?x, 4, err)"
    unfolding utf8_ref_unfold(3) [OF four] append_Cons append_Nil
    by (rule read_four [OF _ _ cont_tb cont_tb cont_tb refl])
      (use lead_ranges(3) [OF q] four in \<open>simp_all only: v\<close>)
  with four show ?thesis
    by (simp only: word64_eqI [OF v] utf8_ref_unfold(3) [OF four]) simp
next
  case five
  have q: "n div 64 div 64 div 64 div 64 < 4" using five by (simp add: div_less_iff_less_mult)
  let ?x = "lead_bits 3 (byte_of (248 + n div 64 div 64 div 64 div 64)) 24 OR lead_bits 63 (tb (n div 64 div 64 div 64)) 18 OR lead_bits 63 (tb (n div 64 div 64)) 12
      OR lead_bits 63 (tb (n div 64)) 6 OR lead_bits 63 (tb n) 0"
  have v: "unat ?x = n" by (simp only: read_value_simps q)
  have "yaz_read_UTF8_char (utf8_ref n @ rest) err = Some (?x, 5, err)"
    unfolding utf8_ref_unfold(4) [OF five] append_Cons append_Nil
    by (rule read_five [OF _ _ cont_tb cont_tb cont_tb cont_tb refl])
      (use lead_ranges(4) [OF q] five in \<open>simp_all only: v\<close>)
  with five show ?thesis
    by (simp only: word64_eqI [OF v] utf8_ref_unfold(4) [OF five]) simp
next
  case six
  have q: "n div 64 div 64 div 64 div 64 div 64 < 2" using six by (simp add: div_less_iff_less_mult)
  let ?x = "lead_bits 1 (byte_of (252 + n div 64 div 64 div 64 div 64 div 64)) 30 OR lead_bits 63 (tb (n div 64 div 64 div 64 div 64)) 24 OR lead_bits 63 (tb (n div 64 div 64 div 64)) 18 OR lead_bits 63 (tb (n div 64 div 64)) 12
      OR lead_bits 63 (tb (n div 64)) 6 OR lead_bits 63 (tb n) 0"
  have v: "unat ?x = n" by (simp only: read_value_simps q)
  have "yaz_read_UTF8_char (utf8_ref n @ rest) err = Some (?x, 6, err)"
    unfolding utf8_ref_unfold(5) [OF six(1)] append_Cons append_Nil
    by (rule read_six [OF _ _ cont_tb cont_tb cont_tb cont_tb cont_tb refl])
      (use lead_ranges(5) [OF q] six in \<open>simp_all only: v\<close>)
  with six show ?thesis
    by (simp only: word64_eqI [OF v] utf8_ref_unfold(5) [OF six(1)]) simp
qed

section \<open>Canonicity\<close>

lemma horner64:
  "t < 64 \<Longrightarrow> (q * 64 + t) div 64 = (q :: nat)" "t < 64 \<Longrightarrow> (q * 64 + t) mod 64 = (t :: nat)"
  by simp_all

lemma range_mod:
  assumes "j * c \<le> m" and "m < j * c + j" shows "j * c + m mod j = (m :: nat)"
proof -
  have "m div j = c" using assms by (intro div_nat_eqI) simp_all
  then show ?thesis using mult_div_mod_eq [of j m] by simp
qed

lemma byte_of_range:
  "m = j * c \<Longrightarrow> m \<le> unat b \<Longrightarrow> unat b < m + j \<Longrightarrow> byte_of (m + unat b mod j) = b"
  by (simp only: range_mod byte_of_unat)

lemma byte_of_ranges:
  "128 \<le> unat b \<Longrightarrow> unat b < 192 \<Longrightarrow> byte_of (128 + dig b) = b"
  "192 \<le> unat b \<Longrightarrow> unat b < 224 \<Longrightarrow> byte_of (192 + unat b mod 32) = b"
  "224 \<le> unat b \<Longrightarrow> unat b < 240 \<Longrightarrow> byte_of (224 + unat b mod 16) = b"
  "240 \<le> unat b \<Longrightarrow> unat b < 248 \<Longrightarrow> byte_of (240 + unat b mod 8) = b"
  "248 \<le> unat b \<Longrightarrow> unat b < 252 \<Longrightarrow> byte_of (248 + unat b mod 4) = b"
  "252 \<le> unat b \<Longrightarrow> unat b < 254 \<Longrightarrow> byte_of (252 + unat b mod 2) = b"
  by (rule byte_of_range [where c = 2], simp, assumption, simp)
    (rule byte_of_range [where c = 6], simp, assumption, simp,
     rule byte_of_range [where c = 14], simp, assumption, simp,
     rule byte_of_range [where c = 30], simp, assumption, simp,
     rule byte_of_range [where c = 62], simp, assumption, simp,
     rule byte_of_range [where c = 126], simp, assumption, simp)

text \<open>
  A number given by its lead digit and \<open>k\<close> six-bit digits: its digits, and its bound.
\<close>

lemma digits:
  assumes "a < (64 :: nat)" "b < 64" "c < 64" "d < 64" "e < 64" "q < k"
  shows "q * 64 + a < k * 64" "(q * 64 + a) * 64 + b < k * 4096"
    "((q * 64 + a) * 64 + b) * 64 + c < k * 262144"
    "(((q * 64 + a) * 64 + b) * 64 + c) * 64 + d < k * 16777216"
    "((((q * 64 + a) * 64 + b) * 64 + c) * 64 + d) * 64 + e < k * 1073741824"
  using assms by simp_all

lemma ref_two:
  assumes "x = unat q mod 32 * 64 + dig a" "0x80 \<le> x" "192 \<le> unat q" "unat q < 224" "cont a"
  shows "utf8_ref x = [q, a]"
proof -
  have "x < 0x800"
    using digits(1) [of "dig a" 0 0 0 0 "unat q mod 32" 32] assms(1) by simp
  moreover have "x div 64 = unat q mod 32" "x mod 64 = dig a"
    unfolding assms(1) by (simp_all only: horner64 mod_less_divisor zero_less_numeral)
  ultimately show ?thesis
    using assms(2-) by (simp only: utf8_ref_unfold cont_iff byte_of_ranges simp_thms)
qed

lemma ref_three:
  assumes "x = (unat q mod 16 * 64 + dig a) * 64 + dig b" "0x800 \<le> x" "224 \<le> unat q" "unat q < 240"
    "cont a" "cont b"
  shows "utf8_ref x = [q, a, b]"
proof -
  have "x < 0x10000"
    using digits(2) [of "dig a" "dig b" 0 0 0 "unat q mod 16" 16] assms(1) by simp
  moreover have "x div 64 div 64 = unat q mod 16" "x div 64 mod 64 = dig a" "x mod 64 = dig b"
    unfolding assms(1) by (simp_all only: horner64 mod_less_divisor zero_less_numeral)
  ultimately show ?thesis
    using assms(2-) by (simp only: utf8_ref_unfold cont_iff byte_of_ranges simp_thms)
qed

lemma ref_four:
  assumes "x = ((unat q mod 8 * 64 + dig a) * 64 + dig b) * 64 + dig c" "0x10000 \<le> x"
    "240 \<le> unat q" "unat q < 248" "cont a" "cont b" "cont c"
  shows "utf8_ref x = [q, a, b, c]"
proof -
  have "x < 0x200000"
    using digits(3) [of "dig a" "dig b" "dig c" 0 0 "unat q mod 8" 8] assms(1) by simp
  moreover have "x div 64 div 64 div 64 = unat q mod 8" "x div 64 div 64 mod 64 = dig a"
    "x div 64 mod 64 = dig b" "x mod 64 = dig c"
    unfolding assms(1) by (simp_all only: horner64 mod_less_divisor zero_less_numeral)
  ultimately show ?thesis
    using assms(2-) by (simp only: utf8_ref_unfold cont_iff byte_of_ranges simp_thms)
qed

lemma ref_five:
  assumes "x = (((unat q mod 4 * 64 + dig a) * 64 + dig b) * 64 + dig c) * 64 + dig d"
    "0x200000 \<le> x" "248 \<le> unat q" "unat q < 252" "cont a" "cont b" "cont c" "cont d"
  shows "utf8_ref x = [q, a, b, c, d]"
proof -
  have "x < 0x4000000"
    using digits(4) [of "dig a" "dig b" "dig c" "dig d" 0 "unat q mod 4" 4] assms(1) by simp
  moreover have "x div 64 div 64 div 64 div 64 = unat q mod 4"
    "x div 64 div 64 div 64 mod 64 = dig a" "x div 64 div 64 mod 64 = dig b"
    "x div 64 mod 64 = dig c" "x mod 64 = dig d"
    unfolding assms(1) by (simp_all only: horner64 mod_less_divisor zero_less_numeral)
  ultimately show ?thesis
    using assms(2-) by (simp only: utf8_ref_unfold cont_iff byte_of_ranges simp_thms)
qed

lemma ref_six:
  assumes "x = ((((unat q mod 2 * 64 + dig a) * 64 + dig b) * 64 + dig c) * 64 + dig d) * 64 + dig e"
    "0x4000000 \<le> x" "252 \<le> unat q" "unat q < 254" "cont a" "cont b" "cont c" "cont d" "cont e"
  shows "utf8_ref x = [q, a, b, c, d, e]"
proof -
  have "x div 64 div 64 div 64 div 64 div 64 = unat q mod 2"
    "x div 64 div 64 div 64 div 64 mod 64 = dig a"
    "x div 64 div 64 div 64 mod 64 = dig b" "x div 64 div 64 mod 64 = dig c"
    "x div 64 mod 64 = dig d" "x mod 64 = dig e"
    unfolding assms(1) by (simp_all only: horner64 mod_less_divisor zero_less_numeral)
  then show ?thesis
    using assms(2-) by (simp only: utf8_ref_unfold cont_iff byte_of_ranges simp_thms)
qed

lemma read_success_cases:
  assumes "yaz_read_UTF8_char inp err = Some (x, k, e)" and "0 < k"
  obtains (one) q rest where "inp = q # rest" "unat q \<le> 0x7f" "x = ucast q" "k = 1"
  | (two) q a rest where "inp = q # a # rest" "192 \<le> unat q" "unat q < 224" "cont a"
      "x = lead_bits 31 q 6 OR lead_bits 63 a 0" "0x80 \<le> unat x" "k = 2"
  | (three) q a b rest where "inp = q # a # b # rest" "224 \<le> unat q" "unat q < 240" "cont a" "cont b"
      "x = lead_bits 15 q 12 OR lead_bits 63 a 6 OR lead_bits 63 b 0" "0x800 \<le> unat x" "k = 3"
  | (four) q a b c rest where "inp = q # a # b # c # rest" "240 \<le> unat q" "unat q < 248"
      "cont a" "cont b" "cont c"
      "x = lead_bits 7 q 18 OR lead_bits 63 a 12 OR lead_bits 63 b 6 OR lead_bits 63 c 0"
      "0x10000 \<le> unat x" "k = 4"
  | (five) q a b c d rest where "inp = q # a # b # c # d # rest" "248 \<le> unat q" "unat q < 252"
      "cont a" "cont b" "cont c" "cont d"
      "x = lead_bits 3 q 24 OR lead_bits 63 a 18 OR lead_bits 63 b 12 OR lead_bits 63 c 6 OR
        lead_bits 63 d 0" "0x200000 \<le> unat x" "k = 5"
  | (six) q a b c d e' rest where "inp = q # a # b # c # d # e' # rest" "252 \<le> unat q" "unat q < 254"
      "cont a" "cont b" "cont c" "cont d" "cont e'"
      "x = lead_bits 1 q 30 OR lead_bits 63 a 24 OR lead_bits 63 b 18 OR lead_bits 63 c 12 OR
        lead_bits 63 d 6 OR lead_bits 63 e' 0" "0x4000000 \<le> unat x" "k = 6"
proof -
  obtain q t where inp: "inp = q # t"
    using assms(1) by (cases inp) (auto simp: yaz_read_UTF8_char_def)
  have nth: "\<And>i. (q # t) ! Suc i = t ! i" by simp
  note r = assms(1) [unfolded inp yaz_read_UTF8_char_def Let_def]
  consider "unat q \<le> 127" | "192 \<le> unat q" "unat q < 224" "1 \<le> length t"
    | "224 \<le> unat q" "unat q < 240" "2 \<le> length t" | "240 \<le> unat q" "unat q < 248" "3 \<le> length t"
    | "248 \<le> unat q" "unat q < 252" "4 \<le> length t" | "252 \<le> unat q" "unat q < 254" "5 \<le> length t"
    using r assms(2) by (force simp: unat_le_numeral unat_ge_numeral split: if_splits)
  then show thesis
  proof cases
    case 1
    with r inp show thesis by (intro one) (auto simp: unat_le_numeral)
  next
    case 2
    then obtain a t' where "t = a # t'" by (cases t) auto
    with 2 r inp assms(2) show thesis
      by (intro two [of q a t']) (auto simp: unat_le_numeral unat_ge_numeral split: if_splits)
  next
    case 3
    then obtain a b t' where "t = a # b # t'" by (cases t; cases "tl t") auto
    with 3 r inp assms(2) show thesis
      by (intro three [of q a b t']) (auto simp: unat_le_numeral unat_ge_numeral split: if_splits)
  next
    case 4
    then obtain a b c t' where "t = a # b # c # t'" by (auto simp: numeral_eq_Suc Suc_le_length_iff)
    with 4 r inp assms(2) show thesis
      by (intro four [of q a b c t']) (auto simp: unat_le_numeral unat_ge_numeral split: if_splits)
  next
    case 5
    then obtain a b c d t' where "t = a # b # c # d # t'"
      by (auto simp: numeral_eq_Suc Suc_le_length_iff)
    with 5 r inp assms(2) show thesis
      by (intro five [of q a b c d t']) (auto simp: unat_le_numeral unat_ge_numeral split: if_splits)
  next
    case 6
    then obtain a b c d e' t' where "t = a # b # c # d # e' # t'"
      by (auto simp: numeral_eq_Suc Suc_le_length_iff)
    with 6 r inp assms(2) show thesis
      by (intro six [of q a b c d e' t']) (auto simp: unat_le_numeral unat_ge_numeral split: if_splits)
  qed
qed

lemma read_canonical:
  assumes "yaz_read_UTF8_char inp err = Some (x, k, e)" and "0 < k"
  shows "take k inp = utf8_ref (unat x) \<and> unat x < 2 ^ 31 \<and> k \<le> length inp"
  using assms
proof (cases rule: read_success_cases)
  case (one q rest)
  have "unat x = unat q"
    using one(3) by (simp add: unsigned_ucast_eq take_bit_nat_eq_self less_trans [OF unat_byte_less])
  with one(1,2,4) show ?thesis by (simp add: utf8_ref_def)
next
  case (two q a rest)
  note v = read_values(1) [of q a, folded two(5)]
  have "unat x < 32 * 64"
    using digits(1) [of "dig a" 0 0 0 0 "unat q mod 32" 32] v by simp
  with ref_two [OF v two(6,2,3,4)] two(1,7) show ?thesis by simp
next
  case (three q a b rest)
  note v = read_values(2) [of q a b, folded three(6)]
  have "unat x < 16 * 4096"
    using digits(2) [of "dig a" "dig b" 0 0 0 "unat q mod 16" 16] v by simp
  with ref_three [OF v three(7,2,3,4,5)] three(1,8) show ?thesis by simp
next
  case (four q a b c rest)
  note v = read_values(3) [of q a b c, folded four(7)]
  have "unat x < 8 * 262144"
    using digits(3) [of "dig a" "dig b" "dig c" 0 0 "unat q mod 8" 8] v by simp
  with ref_four [OF v four(8,2,3,4,5,6)] four(1,9) show ?thesis by simp
next
  case (five q a b c d rest)
  note v = read_values(4) [of q a b c d, folded five(8)]
  have "unat x < 4 * 16777216"
    using digits(4) [of "dig a" "dig b" "dig c" "dig d" 0 "unat q mod 4" 4] v by simp
  with ref_five [OF v five(9,2,3,4,5,6,7)] five(1,10) show ?thesis by simp
next
  case (six q a b c d e' rest)
  note v = read_values(5) [of q a b c d e', folded six(9)]
  have "unat x < 2 * 1073741824"
    using digits(5) [of "dig a" "dig b" "dig c" "dig d" "dig e'" "unat q mod 2" 2] v by simp
  with ref_six [OF v six(10,2,3,4,5,6,7,8)] six(1,11) show ?thesis by simp
qed

definition read_outcome :: "iconv_errno \<Rightarrow> 64 word \<times> nat \<times> iconv_errno \<Rightarrow> bool" where
  "read_outcome err r \<longleftrightarrow> (case r of (x, k, e) \<Rightarrow>
     0 < k \<and> e = err \<or> k = 0 \<and> (e = YAZ_ICONV_EILSEQ \<or> e = YAZ_ICONV_EINVAL))"

lemma read_outcome_if:
  "read_outcome err a \<Longrightarrow> read_outcome err b \<Longrightarrow> read_outcome err (if c then a else b)"
  by simp

lemma read_total: "inp \<noteq> [] \<Longrightarrow> \<exists>r. yaz_read_UTF8_char inp err = Some r \<and> read_outcome err r"
  unfolding yaz_read_UTF8_char_def Let_def
  by (simp only: if_False option.inject ex_simps simp_thms)
    (intro read_outcome_if; simp add: read_outcome_def; fail)

lemma read_result:
  assumes "inp \<noteq> []"
  obtains x k where "yaz_read_UTF8_char inp err = Some (x, k, err)" "0 < k"
  | x e where "yaz_read_UTF8_char inp err = Some (x, 0, e)" "e = YAZ_ICONV_EILSEQ \<or> e = YAZ_ICONV_EINVAL"
  using read_total [OF assms, of err] by (auto simp: read_outcome_def)

section \<open>The validity check\<close>

lemma utf8_ref_not_Nil [simp]: "utf8_ref n \<noteq> []"
  by (simp add: utf8_ref_def)

text \<open>The language \<open>yaz_utf8_check\<close> decides: sequences of reference encodings.\<close>

definition utf8_text :: "byte list \<Rightarrow> bool" where
  "utf8_text s \<longleftrightarrow> (\<exists>ns. s = concat (map utf8_ref ns) \<and> list_all (\<lambda>n. n < 2 ^ 31) ns)"

lemma utf8_text_Nil [simp]: "utf8_text []"
  unfolding utf8_text_def by (rule exI [of _ "[]"]) simp

lemma utf8_text_append: "n < 2 ^ 31 \<Longrightarrow> utf8_text s \<Longrightarrow> utf8_text (utf8_ref n @ s)"
  unfolding utf8_text_def by (metis concat.simps(2) list.simps(9) list.pred_inject(2))

lemma utf8_text_cases:
  assumes "utf8_text s" and "s \<noteq> []"
  obtains n t where "s = utf8_ref n @ t" "n < 2 ^ 31" "utf8_text t"
proof -
  from assms(1) obtain ns where ns: "s = concat (map utf8_ref ns)" "list_all (\<lambda>n. n < 2 ^ 31) ns"
    unfolding utf8_text_def by blast
  with assms(2) obtain n ns' where "ns = n # ns'" by (cases ns) auto
  with ns that [of n "concat (map utf8_ref ns')"] show thesis
    by (auto simp: utf8_text_def)
qed

lemma utf8_text_read:
  assumes "yaz_read_UTF8_char inp err = Some (x, k, e)" and "0 < k"
  shows "utf8_text inp \<longleftrightarrow> utf8_text (drop k inp)"
proof -
  from read_canonical [OF assms] have r: "inp = utf8_ref (unat x) @ drop k inp" "unat x < 2 ^ 31"
    by (metis append_take_drop_id)+
  show ?thesis
  proof
    assume "utf8_text inp"
    then obtain n t where n: "inp = utf8_ref n @ t" "n < 2 ^ 31" "utf8_text t"
      using r(1) utf8_text_cases by (metis append_is_Nil_conv utf8_ref_not_Nil)
    then have "k = length (utf8_ref n)" using assms(1) read_ref [OF n(2), of t err] by simp
    with n show "utf8_text (drop k inp)" by simp
  next
    assume "utf8_text (drop k inp)"
    with r show "utf8_text inp" by (metis utf8_text_append)
  qed
qed

lemma utf8_check_loop_decides:
  "length inp \<le> fuel \<Longrightarrow> utf8_check_loop fuel inp = Some (utf8_text inp)"
proof (induction fuel arbitrary: inp)
  case 0
  then show ?case by (simp add: utf8_check_loop.simps)
next
  case (Suc fuel)
  show ?case
  proof (cases "inp = []")
    case True
    then show ?thesis by (simp add: utf8_check_loop.simps)
  next
    case False
    then show ?thesis
    proof (cases rule: read_result [where err = ICONV_NONE])
      case (1 x k)
      have "length (drop k inp) \<le> fuel" using Suc.prems 1(2) by simp
      from Suc.IH [OF this] show ?thesis
        using False 1(1) utf8_text_read [OF 1] by (simp add: utf8_check_loop.simps [of "Suc fuel"])
    next
      case (2 x e)
      have "\<not> utf8_text inp"
      proof
        assume "utf8_text inp"
        then obtain n t where "inp = utf8_ref n @ t" "n < 2 ^ 31" using False utf8_text_cases by metis
        with read_ref [of n t ICONV_NONE] 2 show False by auto
      qed
      with False 2 show ?thesis by (auto simp: utf8_check_loop.simps [of "Suc fuel"])
    qed
  qed
qed

section \<open>Properties\<close>

text \<open>
  C37: a code point below 2^31 that is written with room for six bytes is read back as the same
  code point, and the reader consumes exactly the bytes the writer produced, whatever follows.
\<close>

theorem utf8_write_read:
  assumes "unat x < 2 ^ 31" and "6 \<le> left"
  shows "\<exists>bs. yaz_write_UTF8_char x out left err = (False, out @ bs, left - length bs, err)
    \<and> yaz_read_UTF8_char (bs @ rest) err' = Some (x, length bs, err')"
proof (intro exI conjI)
  have "length (utf8_ref (unat x)) \<le> 6" by (simp add: utf8_ref_def)
  with assms show "yaz_write_UTF8_char x out left err =
      (False, out @ utf8_ref (unat x), left - length (utf8_ref (unat x)), err)"
    by (intro write_UTF8_ref) simp_all
  show "yaz_read_UTF8_char (utf8_ref (unat x) @ rest) err' = Some (x, length (utf8_ref (unat x)), err')"
    using read_ref [OF assms(1), of rest err'] by simp
qed

theorem utf8_write_read_witness:
  "\<exists>bs. yaz_write_UTF8_char 0x20ac [] 6 ICONV_NONE = (False, [] @ bs, 6 - length bs, ICONV_NONE)
    \<and> yaz_read_UTF8_char (bs @ [0x41]) ICONV_NONE = Some (0x20ac, length bs, ICONV_NONE)"
  by (rule utf8_write_read) simp_all

text \<open>
  C38: the reader accepts only shortest-form sequences: whenever it consumes bytes, those bytes
  are the reference encoding of the value it returns, and it stays inside its input.
\<close>

theorem utf8_read_shortest_form:
  assumes "yaz_read_UTF8_char inp err = Some (x, k, e)" and "0 < k"
  shows "k \<le> length inp \<and> take k inp = utf8_ref (unat x) \<and> unat x < 2 ^ 31"
  using read_canonical [OF assms] by simp

theorem utf8_read_shortest_form_witness:
  "2 \<le> length [0xc3, 0xa6 :: byte] \<and> take 2 [0xc3, 0xa6] = utf8_ref (unat (0xe6 :: 64 word))
    \<and> unat (0xe6 :: 64 word) < 2 ^ 31"
  by (rule utf8_read_shortest_form [of _ ICONV_NONE _ _ ICONV_NONE])
    (simp_all add: yaz_read_UTF8_char_def lead_bits_def)

text \<open>
  C39: \<open>yaz_utf8_check\<close> always returns, never reads outside the string, and answers true exactly
  for the strings that are sequences of shortest-form encodings.
\<close>

theorem yaz_utf8_check_decides: "yaz_utf8_check s = Some (utf8_text (cstr s))"
  unfolding yaz_utf8_check_def by (rule utf8_check_loop_decides) simp

text \<open>
  The byte order mark test of the UTF-8 decoder is inverted in its second byte: a real mark
  EF BB BF is not skipped, while any other sequence EF xx BF is dropped from the input.
\<close>

lemma init_utf8_bom:
  "init_utf8 (Some (0xef # 0xbb # b # rest)) e = Some (False, 0, e) \<and>
   init_utf8 (Some (0xef # 0x80 # 0xbf # rest)) e = Some (False, 3, e)"
  by (simp add: init_utf8_def)

end
