(* ===== verification/Yaz_Odr.thy ===== *)
theory Yaz_Odr
  imports Yaz_Prelude
begin

text \<open>
  The ODR handle (\<^verbatim>\<open>struct odr\<close> and \<^verbatim>\<open>struct Odr_private\<close> of \<^verbatim>\<open>yaz/odr.h\<close> and
  \<^verbatim>\<open>odr-priv.h\<close>), its error state and buffer life cycle (\<^verbatim>\<open>odr.c\<close>) and the memory
  management of the encoding buffer (\<^verbatim>\<open>odr_mem.c\<close>). The lemmas describe the buffer as an
  append-only byte sequence: \<open>out\<close> is what has been written, \<open>appended o bs o'\<close> says that
  \<open>o'\<close> is \<open>o\<close> with \<open>bs\<close> written at the end and nothing else changed.
\<close>

named_theorems odr_simps \<open>unfolding of the small operations on an ODR handle\<close>

section \<open>The handle\<close>

datatype direction = ODR_DECODE | ODR_ENCODE | ODR_PRINT | ODR_BAD_DIRECTION

datatype odr_error = ONONE | OMEMORY | OSYSERR | OSPACE | OREQUIRED | OUNEXPECTED | OOTHER
  | OPROTO | ODATA | OSTACK | OCONLEN | OLENOV | OHTTP

text \<open>
  An entry of the stack of constructed items. \<open>con_base\<close> is a decoding position, \<open>con_base_offset\<close>
  and \<open>con_len_offset\<close> are encoding positions, \<open>con_len\<close> is -1 for the indefinite form.
\<close>

record constack =
  con_base :: nat
  con_base_offset :: nat
  con_len :: int
  con_len_offset :: nat
  con_lenlen :: int
  con_name :: string

text \<open>
  \<open>buf\<close> holds the \<open>size\<close> bytes of the buffer; \<open>bp\<close>, a pointer into it in the code, is an
  index. \<open>junk i\<close> is the content of freshly allocated memory at index \<open>i\<close>; it is arbitrary.
  The doubly linked list of stack entries is split at the top: \<open>stack\<close> has the entries in
  use, top first, and \<open>reuse\<close> the popped entries that follow it and are used again before new
  ones are allocated. Output in the printing direction is collected in \<open>printed\<close>.
  \<open>overflowed\<close> is not a member of the code's structure: it is set where the size of the buffer,
  an \<open>int\<close>, overflows. From there on the code has no defined result (in practice \<^verbatim>\<open>xrealloc\<close> gets a
  negative size and ends the program).
\<close>

record odr =
  direction :: direction
  error :: odr_error
  error_id :: int
  element :: string
  buf :: "byte list"
  junk :: "nat \<Rightarrow> byte"
  bp :: nat
  pos :: nat
  top :: nat
  can_grow :: bool
  overflowed :: bool
  stack :: "constack list"
  reuse :: "constack list"
  stack_depth :: nat
  lclass :: int
  ltag :: int
  br :: int
  lcons :: bool
  t_class :: int
  t_tag :: int
  enable_bias :: bool
  choice_bias :: int
  op_lenlen :: int
  indent :: nat
  printed :: string

definition odr_max :: "odr \<Rightarrow> int" where
  "odr_max o' = int (length (buf o')) - int (bp o')"

text \<open>Reading one byte of the buffer: undefined outside it.\<close>

definition odr_get :: "odr \<Rightarrow> nat \<Rightarrow> byte cres" where
  "odr_get o' i = (if i < length (buf o') then Some (buf o' ! i) else None)"

section \<open>Errors (odr.c)\<close>

definition odr_seterror :: "odr \<Rightarrow> odr_error \<Rightarrow> int \<Rightarrow> odr" where
  "odr_seterror o' e i = o'\<lparr>error := e, error_id := i, element := []\<rparr>"

definition odr_setelement :: "odr \<Rightarrow> string option \<Rightarrow> odr" where
  "odr_setelement o' name =
     (case name of None \<Rightarrow> o' | Some n \<Rightarrow> o'\<lparr>element := take 79 n\<rparr>)"

definition odr_geterrorx :: "odr \<Rightarrow> odr_error \<times> int" where
  "odr_geterrorx o' = (error o', error_id o')"

definition odr_get_element_path :: "odr \<Rightarrow> string list" where
  "odr_get_element_path o' = rev (map con_name (stack o'))"

section \<open>Memory for encoding (odr_mem.c)\<close>

definition int_max :: nat where
  "int_max = 2 ^ 31 - 1"

text \<open>
  Growing doubles the buffer. The new size \<open>size += togrow\<close> is an \<open>int\<close>: a buffer of \<open>2 ^ 30\<close> bytes
  or more cannot be doubled. The overflow is recorded in the handle and nothing is allocated.
\<close>

definition odr_grow_block :: "odr \<Rightarrow> nat \<Rightarrow> bool \<times> odr" where
  "odr_grow_block b min_bytes =
     (if \<not> can_grow b then (False, b)
      else let size = length (buf b);
               togrow0 = (if size = 0 then 1024 else size);
               togrow = (if togrow0 < min_bytes then min_bytes else togrow0)
           in if size + togrow > int_max then (False, b\<lparr>overflowed := True\<rparr>)
              else (True, b\<lparr>buf := buf b @ map (junk b) [size..<size + togrow]\<rparr>))"

text \<open>The macro \<open>odr_putc\<close>; \<open>True\<close> is the return value 0, \<open>False\<close> is -1.\<close>

definition odr_putc :: "odr \<Rightarrow> byte \<Rightarrow> bool \<times> odr" where
  "odr_putc o' c =
     (let (ok, o1) = (if pos o' < length (buf o') then (True, o') else odr_grow_block o' 1) in
      if \<not> ok then (False, o1\<lparr>error := OSPACE\<rparr>)
      else let o2 = o1\<lparr>buf := (buf o1)[pos o1 := c], pos := Suc (pos o1)\<rparr>
           in (True, if pos o2 > top o2 then o2\<lparr>top := pos o2\<rparr> else o2))"

definition odr_write :: "odr \<Rightarrow> byte list \<Rightarrow> bool \<times> odr" where
  "odr_write o' bs =
     (let bytes = length bs in
      if pos o' + bytes > int_max then (False, odr_seterror o' OSPACE 40)
      else let (ok, o1) = (if pos o' + bytes \<ge> length (buf o') then odr_grow_block o' bytes
                           else (True, o'))
           in if \<not> ok then (False, odr_seterror o1 OSPACE 40)
              else let o2 = o1\<lparr>buf := take (pos o1) (buf o1) @ bs @ drop (pos o1 + bytes) (buf o1),
                               pos := pos o1 + bytes\<rparr>
                   in (True, if pos o2 > top o2 then o2\<lparr>top := pos o2\<rparr> else o2))"

datatype whence = ODR_S_SET | ODR_S_CUR | ODR_S_END

definition odr_seek :: "odr \<Rightarrow> whence \<Rightarrow> nat \<Rightarrow> bool \<times> odr" where
  "odr_seek o' w offset0 =
     (let offset = (case w of ODR_S_SET \<Rightarrow> offset0 | ODR_S_CUR \<Rightarrow> offset0 + pos o'
                    | ODR_S_END \<Rightarrow> offset0 + top o');
          size = length (buf o');
          (ok, o1) = (if offset > size then odr_grow_block o' (offset - size) else (True, o'))
      in if \<not> ok then (False, odr_seterror o1 OSPACE 41)
         else (True, o1\<lparr>pos := offset\<rparr>))"

abbreviation odr_tell :: "odr \<Rightarrow> nat" where
  "odr_tell o' \<equiv> pos o'"

section \<open>Life cycle (odr.c)\<close>

definition odr_reset :: "odr \<Rightarrow> odr" where
  "odr_reset o' =
     (snd (odr_seek ((odr_seterror o' ONONE 0)\<lparr>bp := 0\<rparr>) ODR_S_SET 0))
       \<lparr>top := 0, t_class := -1, t_tag := -1, indent := 0, stack := [], reuse := [],
        stack_depth := 0, choice_bias := -1, op_lenlen := 1\<rparr>"

definition odr_createmem :: "(nat \<Rightarrow> byte) \<Rightarrow> direction \<Rightarrow> odr" where
  "odr_createmem heap dir =
     odr_reset \<lparr>direction = dir, error = ONONE, error_id = 0, element = [], buf = [], junk = heap,
       bp = 0, pos = 0, top = 0, can_grow = True, overflowed = False, stack = [], reuse = [], stack_depth = 0,
       lclass = -1, ltag = 0, br = 0, lcons = False, t_class = 0, t_tag = 0, enable_bias = True,
       choice_bias = 0, op_lenlen = 0, indent = 0, printed = []\<rparr>"

definition odr_setbuf :: "odr \<Rightarrow> byte list \<Rightarrow> bool \<Rightarrow> odr" where
  "odr_setbuf o' b grow =
     (odr_seterror o' ONONE 0)\<lparr>bp := 0, buf := b, can_grow := grow, top := 0, pos := 0\<rparr>"

definition odr_getbuf :: "odr \<Rightarrow> byte list \<times> nat \<times> nat" where
  "odr_getbuf o' = (buf o', top o', length (buf o'))"

definition odr_offset :: "odr \<Rightarrow> nat" where
  "odr_offset o' = bp o'"

section \<open>Printing support\<close>

text \<open>\<open>odr_printf\<close>: the formatted text, cut to the 4096-byte buffer, goes to the stream.\<close>

definition odr_printf :: "odr \<Rightarrow> string \<Rightarrow> odr" where
  "odr_printf o' s = o'\<lparr>printed := printed o' @ take 4095 s\<rparr>"

definition pad_right :: "nat \<Rightarrow> string \<Rightarrow> string" where
  "pad_right n s = s @ replicate (n - length s) CHR '' ''"

definition odr_prname :: "odr \<Rightarrow> string option \<Rightarrow> odr" where
  "odr_prname o' name =
     (let o1 = (if indent o' < 16 then odr_printf o' (replicate (indent o' * 2) CHR '' '')
                else odr_printf o' (''level='' @ pad_right 7 (dec_int (int (indent o'))) @
                       replicate (2 * (indent o' mod 8)) CHR '' ''))
      in case name of None \<Rightarrow> o1 | Some n \<Rightarrow> odr_printf o1 (n @ '' ''))"

definition odr_missing :: "odr \<Rightarrow> bool \<Rightarrow> string option \<Rightarrow> bool \<times> odr" where
  "odr_missing o' opt name =
     (if error o' \<noteq> ONONE then (False, o')
      else if \<not> opt then (opt, odr_setelement (odr_seterror o' OREQUIRED 53) name)
      else (opt, o'))"

declare odr_seterror_def [odr_simps] odr_setelement_def [odr_simps] odr_max_def [odr_simps]
  odr_get_def [odr_simps]

section \<open>The written output\<close>

definition out :: "odr \<Rightarrow> byte list" where
  "out o' = take (top o') (buf o')"

text \<open>The encoding invariant: write position and top stay inside the buffer.\<close>

definition odr_wf :: "odr \<Rightarrow> bool" where
  "odr_wf o' \<longleftrightarrow> pos o' \<le> top o' \<and> top o' \<le> length (buf o')"

definition at_end :: "odr \<Rightarrow> bool" where
  "at_end o' \<longleftrightarrow> pos o' = top o' \<and> top o' \<le> length (buf o')"

definition appended :: "odr \<Rightarrow> byte list \<Rightarrow> odr \<Rightarrow> bool" where
  "appended o1 bs o2 \<longleftrightarrow> at_end o1 \<and> at_end o2 \<and> out o2 = out o1 @ bs \<and>
     (\<exists>B. o2 = o1\<lparr>buf := B, pos := top o1 + length bs, top := top o1 + length bs\<rparr>)"

lemma at_end_wf: "at_end o' \<Longrightarrow> odr_wf o'"
  by (simp add: at_end_def odr_wf_def)

lemma length_out: "at_end o' \<Longrightarrow> length (out o') = top o'"
  by (simp add: at_end_def out_def)

lemma appended_Nil: "at_end o' \<Longrightarrow> appended o' [] o'"
  by (auto simp: appended_def at_end_def intro!: exI [of _ "buf o'"])

lemma appended_trans: "appended o1 xs o2 \<Longrightarrow> appended o2 ys o3 \<Longrightarrow> appended o1 (xs @ ys) o3"
  by (auto simp: appended_def at_end_def out_def add.assoc)

lemma appended_at_end: "appended o1 bs o2 \<Longrightarrow> at_end o2"
  by (simp add: appended_def)

lemma appended_frame:
  assumes "appended o1 bs o2"
  shows "direction o2 = direction o1" "error o2 = error o1" "can_grow o2 = can_grow o1"
    "stack o2 = stack o1" "reuse o2 = reuse o1" "stack_depth o2 = stack_depth o1"
    "t_class o2 = t_class o1" "t_tag o2 = t_tag o1" "op_lenlen o2 = op_lenlen o1" "lclass o2 = lclass o1"
    "top o2 = top o1 + length bs" "pos o2 = top o1 + length bs" "bp o2 = bp o1"
    "choice_bias o2 = choice_bias o1" "indent o2 = indent o1"
  using assms by (auto simp: appended_def)

text \<open>
  Up to \<open>odr_limit\<close> bytes of output a buffer can be doubled whenever it has to grow. Beyond it
  the encoder works only while the buffer happens to be large enough.
\<close>

definition odr_limit :: nat where
  "odr_limit = 2 ^ 30 - 1"

lemma odr_limit_le: "n \<le> odr_limit \<Longrightarrow> n \<le> int_max"
  by (simp add: odr_limit_def int_max_def)

lemma grow_block_ok:
  assumes "can_grow o'" and "length (buf o') \<le> odr_limit" and "n \<le> odr_limit"
  obtains B where "odr_grow_block o' n = (True, o'\<lparr>buf := buf o' @ B\<rparr>)" "n \<le> length B" "0 < length B"
proof -
  define t where "t = (if length (buf o') = 0 then 1024 else length (buf o'))"
  define g where "g = (if t < n then n else t)"
  have "length (buf o') + g \<le> int_max" "n \<le> g" "0 < g"
    using assms(2,3) by (auto simp: g_def t_def odr_limit_def int_max_def)
  moreover from this assms(1) have "odr_grow_block o' n =
      (True, o'\<lparr>buf := buf o' @ map (junk o') [length (buf o')..<length (buf o') + g]\<rparr>)"
    by (simp only: odr_grow_block_def Let_def t_def [symmetric] g_def [symmetric]) simp
  ultimately show thesis
    by (intro that [of "map (junk o') [length (buf o')..<length (buf o') + g]"]) simp_all
qed

text \<open>
  Writing \<open>bs\<close> at the current position of a well-formed handle: the bytes under it are
  overwritten, the buffer is extended at the end, nothing else changes.
\<close>

definition wrote :: "odr \<Rightarrow> byte list \<Rightarrow> odr \<Rightarrow> bool" where
  "wrote o1 bs o2 \<longleftrightarrow> odr_wf o1 \<and> odr_wf o2 \<and>
     out o2 = take (pos o1) (out o1) @ bs @ drop (pos o1 + length bs) (out o1) \<and>
     (\<exists>B. o2 = o1\<lparr>buf := B, pos := pos o1 + length bs, top := max (top o1) (pos o1 + length bs)\<rparr>)"

lemma wrote_Nil: "odr_wf o' \<Longrightarrow> wrote o' [] o'"
  by (auto simp: wrote_def odr_wf_def intro!: exI [of _ "buf o'"])

lemma wrote_trans:
  assumes "wrote o1 xs o2" and "wrote o2 ys o3"
  shows "wrote o1 (xs @ ys) o3"
proof -
  have p2: "pos o2 = pos o1 + length xs" "length (take (pos o1) (out o1)) = pos o1"
    using assms by (auto simp: wrote_def odr_wf_def out_def)
  have "out o3 = take (pos o1) (out o1) @ (xs @ ys) @ drop (pos o1 + length (xs @ ys)) (out o1)"
    using assms p2 by (simp add: wrote_def ac_simps)
  with assms show ?thesis
    by (auto simp: wrote_def add.assoc max.assoc)
qed

lemma wrote_overwrite:
  assumes "wrote o1 (xs @ ys) o2" and "wrote (o2\<lparr>pos := pos o1\<rparr>) xs' o3" and "length xs' = length xs"
  shows "wrote o1 (xs' @ ys) (o3\<lparr>pos := pos o2\<rparr>)"
proof -
  have p: "pos o2 = pos o1 + length xs + length ys" "length (take (pos o1) (out o1)) = pos o1"
    using assms by (auto simp: wrote_def odr_wf_def out_def)
  have "out o3 = take (pos o1) (out o1) @ (xs' @ ys) @ drop (pos o1 + length (xs' @ ys)) (out o1)"
    using assms p by (simp add: wrote_def out_def ac_simps)
  moreover have "\<exists>B. o3\<lparr>pos := pos o2\<rparr> = o1\<lparr>buf := B, pos := pos o1 + length (xs' @ ys),
      top := max (top o1) (pos o1 + length (xs' @ ys))\<rparr>"
    using assms by (intro exI [of _ "buf o3"]) (auto simp: wrote_def ac_simps intro!: odr.equality)
  moreover have "odr_wf o1" and "odr_wf (o3\<lparr>pos := pos o2\<rparr>)"
    using assms by (auto simp: wrote_def odr_wf_def)
  ultimately show ?thesis by (simp add: wrote_def out_def)
qed

lemma wrote_frame:
  assumes "wrote o1 bs o2"
  shows "direction o2 = direction o1" "error o2 = error o1" "can_grow o2 = can_grow o1"
    "stack o2 = stack o1" "pos o2 = pos o1 + length bs" "odr_wf o2"
    "top o2 = max (top o1) (pos o1 + length bs)"
  using assms by (auto simp: wrote_def)

lemma wrote_appended: "at_end o1 \<Longrightarrow> wrote o1 bs o2 \<longleftrightarrow> appended o1 bs o2"
  by (auto simp: wrote_def appended_def at_end_def odr_wf_def out_def)

lemma putc_over:
  assumes "odr_wf o'" and True: "pos o' < length (buf o')"
  obtains o2 where "odr_putc o' c = (True, o2)" "wrote o' [c] o2"
proof -
  let ?o2 = "o'\<lparr>buf := (buf o')[pos o' := c], pos := Suc (pos o'), top := max (top o') (Suc (pos o'))\<rparr>"
  have "take (max (top o') (Suc (pos o'))) ((buf o')[pos o' := c]) =
      take (pos o') (out o') @ [c] @ drop (Suc (pos o')) (out o')"
    using True assms(1)
    by (auto simp: odr_wf_def out_def upd_conv_take_nth_drop min_def max_def drop_take take_Cons')
  then have "wrote o' [c] ?o2"
    using True assms(1) by (auto simp: wrote_def odr_wf_def out_def)
  moreover have "odr_putc o' c = (True, ?o2)"
    using True by (auto simp: odr_putc_def Let_def max_def intro!: odr.equality)
  ultimately show thesis using that by blast
qed

lemma putc_wrote:
  assumes "odr_wf o'" and "can_grow o'" and "pos o' + 1 \<le> odr_limit"
  obtains o2 where "odr_putc o' c = (True, o2)" "wrote o' [c] o2"
proof (cases "pos o' < length (buf o')")
  case True
  show thesis using putc_over [OF assms(1) True] that by blast
next
  case False
  with assms have "length (buf o') \<le> odr_limit" "1 \<le> odr_limit"
    by (simp_all add: odr_wf_def odr_limit_def)
  with assms(2) obtain B where B: "odr_grow_block o' 1 = (True, o'\<lparr>buf := buf o' @ B\<rparr>)" "0 < length B"
    by (rule grow_block_ok)
  have len: "pos o' = length (buf o')" "top o' = length (buf o')"
    using False assms(1) by (simp_all add: odr_wf_def)
  let ?o2 = "o'\<lparr>buf := (buf o' @ B)[pos o' := c], pos := Suc (pos o'), top := Suc (pos o')\<rparr>"
  have "wrote o' [c] ?o2"
    using B(2) len by (cases B) (auto simp: wrote_def odr_wf_def out_def list_update_append)
  moreover have "odr_putc o' c = (True, ?o2)"
    using False B(1) len by (simp add: odr_putc_def)
  ultimately show thesis using that by blast
qed

lemma write_wrote:
  assumes "odr_wf o'" and "can_grow o'" and "pos o' + length bs \<le> odr_limit"
  obtains o2 where "odr_write o' bs = (True, o2)" "wrote o' bs o2"
proof -
  have pt: "pos o' \<le> top o'" "top o' \<le> length (buf o')" using assms(1) by (simp_all add: odr_wf_def)
  obtain B where B: "(if pos o' + length bs \<ge> length (buf o') then odr_grow_block o' (length bs)
        else (True, o')) = (True, o'\<lparr>buf := buf o' @ B\<rparr>)"
      "pos o' + length bs \<le> length (buf o' @ B)"
  proof (cases "pos o' + length bs \<ge> length (buf o')")
    case True
    obtain B where "odr_grow_block o' (length bs) = (True, o'\<lparr>buf := buf o' @ B\<rparr>)" "length bs \<le> length B"
      using grow_block_ok [OF assms(2), of "length bs"] True assms(3) by force
    with True pt that show thesis by simp
  next
    case False
    with that [of "[]"] pt show thesis by simp
  qed
  let ?b = "take (pos o') (buf o' @ B) @ bs @ drop (pos o' + length bs) (buf o' @ B)"
  let ?o2 = "o'\<lparr>buf := ?b, pos := pos o' + length bs, top := max (top o') (pos o' + length bs)\<rparr>"
  have "take (max (top o') (pos o' + length bs)) ?b =
      take (pos o') (out o') @ bs @ drop (pos o' + length bs) (out o')"
    using B(2) pt by (auto simp: out_def min_def max_def drop_take)
  then have "wrote o' bs ?o2"
    using B(2) pt assms(1) by (auto simp: wrote_def odr_wf_def out_def)
  moreover have "odr_write o' bs = (True, ?o2)"
    using odr_limit_le [OF assms(3)] B(1) by (auto simp: odr_write_def Let_def max_def intro!: odr.equality)
  ultimately show thesis using that by blast
qed

lemma write_append:
  assumes "at_end o'" and "can_grow o'" and "top o' + length bs \<le> odr_limit"
  obtains o2 where "odr_write o' bs = (True, o2)" "appended o' bs o2"
  using write_wrote [OF at_end_wf [OF assms(1)] assms(2), of bs] assms(1,3)
  by (auto simp: at_end_def wrote_appended)

lemma putc_append:
  assumes "at_end o'" and "can_grow o'" and "top o' + 1 \<le> odr_limit"
  obtains o2 where "odr_putc o' c = (True, o2)" "appended o' [c] o2"
  using putc_wrote [OF at_end_wf [OF assms(1)] assms(2), of c] assms(1,3)
  by (metis wrote_appended at_end_def)

lemma seek_set: "n \<le> length (buf o') \<Longrightarrow> odr_seek o' ODR_S_SET n = (True, o'\<lparr>pos := n\<rparr>)"
  by (simp add: odr_seek_def)

lemma seek_end: "odr_wf o' \<Longrightarrow> odr_seek o' ODR_S_END 0 = (True, o'\<lparr>pos := top o'\<rparr>)"
  by (simp add: odr_seek_def odr_wf_def)

lemma createmem_ready [simp]:
  "at_end (odr_createmem h d)" "can_grow (odr_createmem h d)" "top (odr_createmem h d) = 0"
  "pos (odr_createmem h d) = 0" "out (odr_createmem h d) = []" "direction (odr_createmem h d) = d"
  "stack (odr_createmem h d) = []" "error (odr_createmem h d) = ONONE" "t_class (odr_createmem h d) = -1"
  by (simp_all add: odr_createmem_def odr_reset_def odr_seek_def odr_seterror_def at_end_def out_def)

end
