(* ===== verification/Yaz_Ber.thy ===== *)
theory Yaz_Ber
  imports Yaz_Odr
begin

text \<open>
  The BER layer: identifier octets (\<^verbatim>\<open>ber_tag.c\<close>), length octets (\<^verbatim>\<open>ber_len.c\<close>), INTEGER
  (\<^verbatim>\<open>ber_int.c\<close>), BOOLEAN (\<^verbatim>\<open>ber_bool.c\<close>), NULL (\<^verbatim>\<open>ber_null.c\<close>), and the recogniser of a
  complete element (\<^verbatim>\<open>ber_any.c\<close>). A decoder gets the bytes from the read pointer to the end
  of the memory it may touch, and the \<open>max\<close> argument of the code.
\<close>

section \<open>Identifier octets (ber_tag.c)\<close>

text \<open>Least significant group first, at least one group: \<^verbatim>\<open>do octs[n++] = t & 0x7F; while (t >>= 7)\<close>.\<close>

fun base128 :: "nat \<Rightarrow> byte list" where
  "base128 t = byte_of (t mod 128) # (if t div 128 = 0 then [] else base128 (t div 128))"

declare base128.simps [simp del]

text \<open>The groups in the order they are written, with the continuation bit on all but the last.\<close>

definition cont_octets :: "byte list \<Rightarrow> byte list" where
  "cont_octets octs = map (\<lambda>c. c OR 0x80) (rev (tl octs)) @ [hd octs]"

text \<open>A loop of \<open>odr_putc\<close> that stops at the first failure.\<close>

fun put_all :: "odr \<Rightarrow> byte list \<Rightarrow> bool \<times> odr" where
  "put_all o' [] = (True, o')"
| "put_all o' (c # cs) =
     (case odr_putc o' c of (ok, o1) \<Rightarrow> if ok then put_all o1 cs else (False, o1))"

definition tag_first :: "int \<Rightarrow> bool \<Rightarrow> byte" where
  "tag_first zclass cons = (push_bit 6 (of_int zclass) AND 0xC0) OR (if cons then 0x20 else 0)"

text \<open>
  \<open>ber_enctag\<close>: undefined when the four-byte array \<open>octs\<close> is overrun.
\<close>

definition ber_enctag :: "odr \<Rightarrow> int \<Rightarrow> int \<Rightarrow> bool \<Rightarrow> (int \<times> odr) cres" where
  "ber_enctag o' zclass tag constructed =
     (let b = tag_first zclass constructed in
      if tag \<le> 30 then
        (case odr_putc o' (b OR (of_int tag AND 0x1F)) of (ok, o1) \<Rightarrow>
           Some (if ok then 1 else -1, o1))
      else (case odr_putc o' (b OR 0x1F) of (ok, o1) \<Rightarrow>
        if \<not> ok then Some (-1, o1)
        else let octs = base128 (nat tag) in
          if length octs > 4 then None
          else (case put_all o1 (cont_octets octs) of (ok2, o2) \<Rightarrow>
            Some (if ok2 then 0 else -1, o2))))"

fun dectag_loop :: "byte list \<Rightarrow> int \<Rightarrow> nat \<Rightarrow> int \<Rightarrow> (int \<times> int) cres" where
  "dectag_loop bs mx l tag =
     (if int l \<ge> mx then Some (-1, tag)
      else case bs of [] \<Rightarrow> None
      | c # cs \<Rightarrow>
         let tag' = wrap32 (tag * 128) OR uint (c AND 0x7F) in
         if c AND 0x80 \<noteq> 0 then dectag_loop cs mx (Suc l) tag' else Some (int l + 1, tag'))"

declare dectag_loop.simps [simp del]

text \<open>\<open>ber_dectag\<close> returns (return value, zclass, tag, constructed).\<close>

definition ber_dectag :: "byte list \<Rightarrow> int \<times> int \<times> bool \<Rightarrow> int \<Rightarrow> (int \<times> int \<times> int \<times> bool) cres" where
  "ber_dectag b outs mx =
     (if 1 > mx then Some (-1, outs)
      else case b of [] \<Rightarrow> None
      | c # cs \<Rightarrow>
         let zclass = uint (drop_bit 6 c); cons = (drop_bit 5 c AND 1 \<noteq> 0); tag = uint (c AND 0x1F) in
         if tag \<le> 30 then Some (1, zclass, tag, cons)
         else map_option (\<lambda>(l, t). (l, zclass, t, cons)) (dectag_loop cs mx 1 0))"

section \<open>Length octets (ber_len.c)\<close>

text \<open>\<^verbatim>\<open>do octs[n++] = len; while (len >>= 8)\<close>, least significant first.\<close>

fun base256 :: "nat \<Rightarrow> byte list" where
  "base256 t = byte_of (t mod 256) # (if t div 256 = 0 then [] else base256 (t div 256))"

declare base256.simps [simp del]

definition ber_enclen :: "odr \<Rightarrow> int \<Rightarrow> int \<Rightarrow> bool \<Rightarrow> int \<times> odr" where
  "ber_enclen o' len lenlen exact =
     (if len < 0 then (0, snd (odr_putc o' 0x80))
      else if len \<le> 127 \<and> (lenlen = 1 \<or> \<not> exact) then
        (case odr_putc o' (of_int len) of (ok, o1) \<Rightarrow> (if ok then 1 else 0, o1))
      else if lenlen = 1 then (0, snd (odr_putc o' 0x80))
      else let octs = base256 (nat len); n = length octs in
        if int n \<ge> lenlen then (-1, o')
        else let lenpos = odr_tell o';
                 pad = (if exact then replicate (nat (lenlen - 1) - n) 0 else [])
             in case put_all o' (0 # pad @ rev octs) of (ok, o1) \<Rightarrow>
               if \<not> ok then (0, o1)
               else let end = odr_tell o1;
                        o2 = snd (odr_seek o1 ODR_S_SET lenpos)
                    in case odr_putc o2 (of_nat (end - lenpos - 1) OR 0x80) of (ok2, o3) \<Rightarrow>
                      if \<not> ok2 then (0, o3)
                      else let o4 = snd (odr_seek o3 ODR_S_END 0)
                           in (int (odr_tell o4) - int lenpos, o4))"

definition declen_step :: "byte \<Rightarrow> int \<Rightarrow> int" where
  "declen_step c l = wrap32 (l * 256) OR uint c"

text \<open>\<open>ber_declen\<close> returns (return value, length).\<close>

definition ber_declen :: "byte list \<Rightarrow> int \<Rightarrow> int \<Rightarrow> (int \<times> int) cres" where
  "ber_declen b len0 mx =
     (if mx < 1 then Some (-1, len0)
      else case b of [] \<Rightarrow> None
      | c # cs \<Rightarrow>
         if c = 0x80 then Some (1, -1)
         else if c AND 0x80 = 0 then Some (1, uint c)
         else if c = 0xFF then Some (-2, len0)
         else let n = unat (c AND 0x7F) in
           if int n \<ge> mx then Some (-1, len0)
           else if n > 3 then Some (-2, len0)
           else if n > length cs then None
           else Some (1 + int n, fold declen_step (take n cs) 0))"

section \<open>INTEGER (ber_int.c)\<close>

definition be_bytes :: "64 word \<Rightarrow> byte list" where
  "be_bytes v = map (\<lambda>i. ucast (drop_bit (8 * (7 - i)) v)) [0..<8]"

fun skip_redundant :: "byte list \<Rightarrow> byte list" where
  "skip_redundant (a # b # r) =
     (if a = 0 \<and> b AND 0x80 = 0 \<or> a = 0xFF \<and> b AND 0x80 \<noteq> 0 then skip_redundant (b # r)
      else a # b # r)"
| "skip_redundant xs = xs"

definition ber_encinteger :: "odr \<Rightarrow> 64 word \<Rightarrow> int \<times> odr" where
  "ber_encinteger o' val =
     (let tmp = skip_redundant (be_bytes val) in
      case ber_enclen o' (int (length tmp)) 1 True of (r, o1) \<Rightarrow>
        if r \<noteq> 1 then (-1, o1)
        else case odr_write o1 tmp of (ok, o2) \<Rightarrow> (if ok then 0 else -1, o2))"

definition decint_step :: "byte \<Rightarrow> 64 word \<Rightarrow> 64 word" where
  "decint_step c u = push_bit 8 u + ucast c"

text \<open>\<open>ber_decinteger\<close> returns (return value, value); the value is unchanged on error.\<close>

definition ber_decinteger :: "byte list \<Rightarrow> 64 word \<Rightarrow> int \<Rightarrow> (int \<times> 64 word) cres" where
  "ber_decinteger b val0 mx = do {
     (res, len) \<leftarrow> ber_declen b 0 mx;
     if res < 0 then Some (-1, val0)
     else if len + res > mx \<or> len < 0 then Some (-1, val0)
     else if len > 8 then Some (-1, val0)
     else let b1 = drop (nat res) b; n = nat len in
       if b1 = [] \<or> n > length b1 then None
       else let uval = (if hd b1 AND 0x80 \<noteq> 0 then fold decint_step (replicate (8 - n) 0xFF) 0 else 0)
            in Some (res + len, fold decint_step (take n b1) uval)}"

abbreviation rest_of :: "odr \<Rightarrow> byte list" where
  "rest_of o' \<equiv> drop (bp o') (buf o')"

definition odr_advance :: "odr \<Rightarrow> int \<Rightarrow> odr" where
  "odr_advance o' n = o'\<lparr>bp := nat (int (bp o') + n)\<rparr>"

definition ber_integer :: "odr \<Rightarrow> 64 word \<Rightarrow> (bool \<times> 64 word \<times> odr) cres" where
  "ber_integer o' val =
     (case direction o' of
        ODR_DECODE \<Rightarrow> do {
          (res, v) \<leftarrow> ber_decinteger (rest_of o') val (odr_max o');
          if res \<le> 0 then Some (False, v, odr_seterror o' OPROTO 50)
          else Some (True, v, odr_advance o' res)}
      | ODR_ENCODE \<Rightarrow>
          (case ber_encinteger o' val of (res, o1) \<Rightarrow> Some (res \<ge> 0, val, o1))
      | ODR_PRINT \<Rightarrow> Some (True, val, o')
      | ODR_BAD_DIRECTION \<Rightarrow> Some (False, val, odr_seterror o' OOTHER 51))"

section \<open>BOOLEAN (ber_bool.c) and NULL (ber_null.c)\<close>

text \<open>
  A boolean is an \<^verbatim>\<open>int\<close>: its low byte is written, and a signed byte is read.
\<close>

definition ber_boolean :: "odr \<Rightarrow> int \<Rightarrow> (bool \<times> int \<times> odr) cres" where
  "ber_boolean o' val =
     (case direction o' of
        ODR_ENCODE \<Rightarrow>
          (case ber_enclen o' 1 1 True of (r, o1) \<Rightarrow>
             if r \<noteq> 1 then Some (False, val, o1)
             else case odr_putc o1 (of_int val) of (ok, o2) \<Rightarrow> Some (ok, val, o2))
      | ODR_DECODE \<Rightarrow> do {
          (res, len) \<leftarrow> ber_declen (rest_of o') 0 (odr_max o');
          if res < 0 then Some (False, val, odr_seterror o' OPROTO 9)
          else let o1 = odr_advance o' res in
            if len \<noteq> 1 \<or> odr_max o1 < len then Some (False, val, odr_seterror o1 OPROTO 10)
            else do {c \<leftarrow> odr_get o1 (bp o1); Some (True, schar c, odr_advance o1 1)}}
      | ODR_PRINT \<Rightarrow> Some (True, val, o')
      | ODR_BAD_DIRECTION \<Rightarrow> Some (False, val, odr_seterror o' OOTHER 11))"

definition ber_null :: "odr \<Rightarrow> (bool \<times> odr) cres" where
  "ber_null o' =
     (case direction o' of
        ODR_ENCODE \<Rightarrow> Some (odr_putc o' 0)
      | ODR_DECODE \<Rightarrow>
          if odr_max o' < 1 then Some (False, odr_seterror o' OPROTO 39)
          else do {
            c \<leftarrow> odr_get o' (bp o');
            let o1 = odr_advance o' 1 in
            if c \<noteq> 0 then Some (False, odr_seterror o1 OPROTO 12) else Some (True, o1)}
      | ODR_PRINT \<Rightarrow> Some (True, o')
      | ODR_BAD_DIRECTION \<Rightarrow> Some (False, odr_seterror o' OOTHER 13))"

section \<open>Complete elements (ber_any.c)\<close>

text \<open>
  \<open>completeBER_n\<close>: \<open>cp\<close> holds the \<open>len\<close> bytes of the code's buffer. \<open>complete_kids\<close> is the
  loop over the members of an indefinite-length element; it returns the error result of a
  member, or the rest of the buffer at the end of the loop. The recursion depth is bounded by
  the code's own check \<open>level > 1000\<close>.
\<close>

function completeBER_n :: "byte list \<Rightarrow> nat \<Rightarrow> int cres"
  and complete_kids :: "byte list \<Rightarrow> nat \<Rightarrow> (int + byte list) cres" where
  "completeBER_n cp level =
     (let len = int (length cp) in
      if level > 1000 then Some (-1)
      else if len < 2 then Some 0
      else if cp ! 0 = 0 \<and> cp ! 1 = 0 then Some (-1)
      else do {
        (res, zclass, tag, cons) \<leftarrow> ber_dectag cp (0, 0, False) len;
        if res \<le> 0 then Some 0
        else let b = drop (nat res) cp; len1 = len - res in
          if len1 < 0 then Some (-1)
          else do {
            (res2, ll) \<leftarrow> ber_declen b 0 len1;
            if res2 = -2 then Some (-1)
            else if res2 = -1 then Some 0
            else let b2 = drop (nat res2) b; len2 = len1 - res2 in
              if ll \<ge> 0 then (if len2 < ll then Some 0 else Some (ll + (len - len2)))
              else if \<not> cons then Some (-1)
              else do {
                r \<leftarrow> complete_kids b2 (Suc level);
                case r of Inl e \<Rightarrow> Some e
                | Inr b3 \<Rightarrow> if length b3 < 2 then Some 0
                            else Some (len - int (length b3) + 2)}}})"
| "complete_kids b level =
     (if length b < 2 then Some (Inr b)
      else if b ! 0 = 0 \<and> b ! 1 = 0 then Some (Inr b)
      else do {
        res \<leftarrow> completeBER_n b level;
        if res \<le> 0 then Some (Inl res)
        else complete_kids (drop (nat res) b) level})"
  by pat_completeness auto
termination
  by (relation "measures [\<lambda>x. case x of Inl (b, l) \<Rightarrow> 1002 - l | Inr (b, l) \<Rightarrow> 1002 - l,
        \<lambda>x. case x of Inl (b, l) \<Rightarrow> 0 | Inr (b, l) \<Rightarrow> Suc (length b)]") auto

declare completeBER_n.simps [simp del] complete_kids.simps [simp del]

definition completeBER :: "byte list \<Rightarrow> int cres" where
  "completeBER cp =
     map_option (\<lambda>res. if res < 0 then int (length cp) else res) (completeBER_n cp 0)"


section \<open>Writing octets\<close>

lemma put_all_wrote:
  "odr_wf o' \<Longrightarrow> can_grow o' \<Longrightarrow> pos o' + length bs \<le> odr_limit \<Longrightarrow>
    \<exists>o2. put_all o' bs = (True, o2) \<and> wrote o' bs o2"
proof (induction bs arbitrary: o')
  case Nil
  then show ?case by (simp add: wrote_Nil)
next
  case (Cons c bs)
  obtain o1 where o1: "odr_putc o' c = (True, o1)" "wrote o' [c] o1"
    using putc_wrote [OF Cons.prems(1,2), of c] Cons.prems(3) by auto
  moreover obtain o2 where "put_all o1 bs = (True, o2)" "wrote o1 bs o2"
    using Cons.IH [of o1] Cons.prems(2,3) wrote_frame(3,5,6) [OF o1(2)] by auto
  ultimately show ?case using wrote_trans [of o' "[c]" o1 bs o2] by simp
qed

lemma put_all_append:
  assumes "at_end o'" and "can_grow o'" and "top o' + length bs \<le> odr_limit"
  obtains o2 where "put_all o' bs = (True, o2)" "appended o' bs o2"
  using put_all_wrote [OF at_end_wf [OF assms(1)] assms(2), of bs] assms(1,3)
  by (auto simp: wrote_appended at_end_def)

section \<open>Identifier octets: round trip\<close>

lemma unat_or_shifted_byte:
  assumes "unat (v :: byte) < 2 ^ k" and "unat (b :: byte) = 2 ^ k * c"
  shows "unat (b OR v) = 2 ^ k * c + unat v"
  using nat_shifted_or [OF assms(1), of c] assms(2) by (simp add: unat_or)

lemma unat_tag_first:
  assumes "0 \<le> zc" and "zc \<le> 3"
  shows "unat (tag_first zc cons) = 32 * (2 * nat zc + (if cons then 1 else 0))"
proof -
  have "zc = 0 \<or> zc = 1 \<or> zc = 2 \<or> zc = 3" using assms by arith
  then show ?thesis by (cases cons) (auto simp: tag_first_def)
qed

lemma unat_first_octet:
  assumes "0 \<le> zc" and "zc \<le> 3" and "unat v < 32"
  shows "unat (tag_first zc cons OR v) = 32 * (2 * nat zc + (if cons then 1 else 0)) + unat v"
proof -
  have "unat v < 2 ^ 5" and "unat (tag_first zc cons) = 2 ^ 5 * (2 * nat zc + (if cons then 1 else 0))"
    using assms(3) unat_tag_first [OF assms(1,2)] by simp_all
  from unat_or_shifted_byte [OF this] show ?thesis by simp
qed

lemma nat_div_mod_small:
  "(v :: nat) < m \<Longrightarrow> (m * q + v) div m = q" "(v :: nat) < m \<Longrightarrow> (m * q + v) mod m = v"
  by simp_all

lemma first_octet_fields:
  fixes c :: byte
  assumes "unat c = 32 * (2 * z + (if cons then 1 else 0)) + v" and "v < 32"
  shows "uint (drop_bit 6 c) = int z" "drop_bit 5 c AND 1 \<noteq> 0 \<longleftrightarrow> cons" "uint (c AND 0x1F) = int v"
proof -
  let ?k = "if cons then 1 else 0 :: nat"
  have d5: "unat c div 32 = 2 * z + ?k"
    unfolding assms(1) by (rule nat_div_mod_small(1) [OF assms(2)])
  have m5: "unat c mod 32 = v"
    unfolding assms(1) by (rule nat_div_mod_small(2) [OF assms(2)])
  have "unat (drop_bit 6 c) = unat c div 32 div 2"
    by (simp add: unat_drop_bit div_mult2_eq)
  also have "\<dots> = z" unfolding d5 by simp
  finally show "uint (drop_bit 6 c) = int z" by (simp add: uint_nat)
  have "unat (drop_bit 5 c AND 1) = unat c div 32 mod 2"
    by (simp add: unat_and unat_drop_bit nat_and_masks)
  also have "\<dots> = ?k" unfolding d5 by simp
  finally show "drop_bit 5 c AND 1 \<noteq> 0 \<longleftrightarrow> cons"
    by (metis unat_0 unat_1 zero_neq_one word_unat_eq_iff)
  have "unat (c AND 0x1F) = unat c mod 32" by (simp add: unat_and nat_and_masks)
  then show "uint (c AND 0x1F) = int v" by (simp only: m5 uint_nat)
qed


text \<open>The octets \<open>ber_enctag\<close> is meant to produce.\<close>

definition tag_octets :: "int \<Rightarrow> int \<Rightarrow> bool \<Rightarrow> byte list" where
  "tag_octets zc tag cons =
     (if tag \<le> 30 then [tag_first zc cons OR byte_of (nat tag)]
      else (tag_first zc cons OR 0x1F) # cont_octets (base128 (nat tag)))"

lemma base128_small: "t < 128 \<Longrightarrow> base128 t = [byte_of t]"
  by (subst base128.simps) simp

lemma base128_large: "128 \<le> t \<Longrightarrow> base128 t = byte_of (t mod 128) # base128 (t div 128)"
  by (subst base128.simps) (simp add: div_eq_0_iff)

lemma length_base128_bound: "t < 128 ^ Suc n \<Longrightarrow> length (base128 t) \<le> Suc n"
proof (induction n arbitrary: t)
  case (Suc n)
  show ?case
  proof (cases "t < 128")
    case False
    have "t div 128 < 128 ^ Suc n" using Suc.prems by (simp add: less_mult_imp_div_less mult.commute)
    from Suc.IH [OF this] False show ?thesis by (simp add: base128_large)
  qed (simp add: base128_small)
qed (simp add: base128_small)

lemma byte_AND_1F: "0 \<le> tag \<Longrightarrow> tag \<le> 30 \<Longrightarrow> (of_int tag :: byte) AND 0x1F = byte_of (nat tag)"
proof -
  assume t: "0 \<le> tag" "tag \<le> 30"
  have "unat (of_int tag :: byte) = nat tag" using t by (simp add: of_int_byte)
  then have "unat ((of_int tag :: byte) AND 0x1F) = nat tag mod 32"
    by (simp add: unat_and nat_and_masks)
  with t show ?thesis by (intro byte_eqI) simp
qed

lemma tag_octets_le: "0 \<le> tag \<Longrightarrow> tag < 2 ^ 28 \<Longrightarrow> length (tag_octets zc tag cons) \<le> 5"
  using length_base128_bound [of "nat tag" 3] by (auto simp: tag_octets_def nat_less_iff cont_octets_def)

lemma enctag_append:
  assumes "at_end o'" and "can_grow o'" and "0 \<le> tag" and "tag < 2 ^ 28"
    and room: "top o' + length (tag_octets zc tag cons) \<le> odr_limit"
  obtains r o2 where "ber_enctag o' zc tag cons = Some (r, o2)" "0 \<le> r" "appended o' (tag_octets zc tag cons) o2"
proof (cases "tag \<le> 30")
  case True
  obtain o2 where "odr_putc o' (tag_first zc cons OR (of_int tag AND 0x1F)) = (True, o2)"
      "appended o' [tag_first zc cons OR (of_int tag AND 0x1F)] o2"
    by (rule putc_append [OF assms(1,2)]) (use room True in \<open>simp add: tag_octets_def\<close>)
  with True that [of 1 o2] show thesis
    by (simp add: ber_enctag_def tag_octets_def byte_AND_1F [OF assms(3) True] Let_def)
next
  case False
  obtain o1 where o1: "odr_putc o' (tag_first zc cons OR 0x1F) = (True, o1)"
      "appended o' [tag_first zc cons OR 0x1F] o1"
    by (rule putc_append [OF assms(1,2)]) (use room False in \<open>simp add: tag_octets_def\<close>)
  obtain o2 where o2: "put_all o1 (cont_octets (base128 (nat tag))) = (True, o2)"
      "appended o1 (cont_octets (base128 (nat tag))) o2"
    by (rule put_all_append [OF appended_at_end [OF o1(2)]])
      (use appended_frame(3,11) [OF o1(2)] assms(2) room False in \<open>simp_all add: tag_octets_def\<close>)
  have "length (base128 (nat tag)) \<le> 4"
    using length_base128_bound [of "nat tag" 3] assms(4) by (simp add: nat_less_iff)
  with False o1(1) o2(1) have "ber_enctag o' zc tag cons = Some (0, o2)"
    by (simp add: ber_enctag_def Let_def)
  moreover have "appended o' (tag_octets zc tag cons) o2"
    using appended_trans [OF o1(2) o2(2)] False by (simp add: tag_octets_def)
  ultimately show thesis using that by simp
qed


text \<open>All groups of \<open>t\<close>, each with the continuation bit.\<close>

definition hi_octets :: "nat \<Rightarrow> byte list" where
  "hi_octets t = map (\<lambda>c. c OR 0x80) (rev (base128 t))"

lemma hi_octets_small: "t < 128 \<Longrightarrow> hi_octets t = [byte_of t OR 0x80]"
  by (simp add: hi_octets_def base128_small)

lemma hi_octets_large: "128 \<le> t \<Longrightarrow> hi_octets t = hi_octets (t div 128) @ [byte_of (t mod 128) OR 0x80]"
  by (simp add: hi_octets_def base128_large)

lemma cont_octets_base128:
  "cont_octets (base128 t) = (if t < 128 then [] else hi_octets (t div 128)) @ [byte_of (t mod 128)]"
  by (simp add: cont_octets_def hi_octets_def base128_small base128_large)

lemma cont_bit:
  assumes "t < 128"
  shows "(byte_of t OR 0x80) AND 0x80 \<noteq> 0" "(byte_of t OR 0x80) AND 0x7F = byte_of t"
    "byte_of t AND 0x80 = 0" "byte_of t AND 0x7F = byte_of t"
proof -
  have low: "byte_of t AND 0x7F = byte_of t"
    using assms by (intro byte_eqI) (simp add: unat_and nat_and_masks)
  have "byte_of t AND 0x80 = (byte_of t AND 0x7F) AND 0x80" by (simp only: low)
  also have "\<dots> = 0" by (simp add: and.assoc)
  finally show "byte_of t AND 0x80 = 0" .
  then show "(byte_of t OR 0x80) AND 0x80 \<noteq> 0" by (simp add: and.commute [of _ "0x80"] bit.conj_disj_distrib)
  show "(byte_of t OR 0x80) AND 0x7F = byte_of t" using low by (simp add: bit.conj_disj_distrib2)
  show "byte_of t AND 0x7F = byte_of t" by (rule low)
qed

lemma wrap32_shift_or:
  assumes "0 \<le> t" and "t < 2 ^ (31 - k)" and "0 \<le> d" and "d < 2 ^ k" and "k \<le> 31"
  shows "wrap32 (t * 2 ^ k) OR d = t * 2 ^ k + d"
proof -
  have "t * 2 ^ k < 2 ^ (31 - k) * 2 ^ k" using assms(2) by simp
  also have "\<dots> = 2 ^ 31" using assms(5) by (simp flip: power_add)
  finally have "t * 2 ^ k < 2 ^ 31" .
  moreover have "0 \<le> t * 2 ^ k" using assms(1) by simp
  ultimately have "wrap32 (t * 2 ^ k) = t * 2 ^ k" by (intro wrap32_id) linarith+
  moreover have "int (2 ^ k * nat t OR nat d) = int (2 ^ k * nat t + nat d)"
    using nat_shifted_or [of "nat d" k "nat t"] assms by (simp add: nat_less_iff)
  ultimately show ?thesis using assms(1,3)
    by (simp add: of_nat_or_eq mult.commute)
qed

lemma dectag_step:
  assumes "int l < mx" and "0 \<le> t" and "t < 2 ^ 24" and "d < 128"
  shows "dectag_loop ((byte_of d OR 0x80) # cs) mx l t = dectag_loop cs mx (Suc l) (t * 128 + int d)"
    "dectag_loop (byte_of d # cs) mx l t = Some (int l + 1, t * 128 + int d)"
proof -
  have "wrap32 (t * 128) OR int d = t * 128 + int d"
    using wrap32_shift_or [of t 7 "int d"] assms by simp
  then show "dectag_loop ((byte_of d OR 0x80) # cs) mx l t = dectag_loop cs mx (Suc l) (t * 128 + int d)"
    "dectag_loop (byte_of d # cs) mx l t = Some (int l + 1, t * 128 + int d)"
    using assms(1,4) cont_bit [OF assms(4)]
    by (simp_all add: dectag_loop.simps [of "_ # _"] Let_def)
qed

lemma dectag_hi_octets:
  "int (l + length (hi_octets t)) \<le> mx \<Longrightarrow> t < 2 ^ 24 \<Longrightarrow>
   dectag_loop (hi_octets t @ cs) mx l 0 = dectag_loop cs mx (l + length (hi_octets t)) (int t)"
proof (induction t arbitrary: cs rule: less_induct)
  case (less t)
  show ?case
  proof (cases "t < 128")
    case True
    then show ?thesis using less.prems dectag_step(1) [of l mx 0 t cs] by (simp add: hi_octets_small)
  next
    case False
    let ?d = "t div 128"
    have "?d < t" "int ?d < 2 ^ 24" using False less.prems by (simp_all add: less_mult_imp_div_less)
    have "dectag_loop (hi_octets t @ cs) mx l 0 =
        dectag_loop ((byte_of (t mod 128) OR 0x80) # cs) mx (l + length (hi_octets ?d)) (int ?d)"
      using less.IH [OF \<open>?d < t\<close>] less.prems False \<open>int ?d < 2 ^ 24\<close> by (simp add: hi_octets_large)
    also have "\<dots> = dectag_loop cs mx (Suc (l + length (hi_octets ?d))) (int ?d * 128 + int (t mod 128))"
      using less.prems False \<open>int ?d < 2 ^ 24\<close> by (intro dectag_step(1)) (simp_all add: hi_octets_large)
    also have "int ?d * 128 + int (t mod 128) = int t"
      by (metis div_mult_mod_eq of_nat_add of_nat_mult of_nat_numeral)
    finally show ?thesis using False by (simp add: hi_octets_large)
  qed
qed

lemma dectag_cont_octets:
  assumes "int (l + length (cont_octets (base128 t))) \<le> mx" and "t < 2 ^ 31"
  shows "dectag_loop (cont_octets (base128 t) @ cs) mx l 0 =
    Some (int (l + length (cont_octets (base128 t))), int t)"
proof (cases "t < 128")
  case True
  then show ?thesis using assms dectag_step(2) [of l mx 0 t cs]
    by (simp add: cont_octets_base128)
next
  case False
  let ?d = "t div 128"
  have d: "?d < 2 ^ 24" using assms(2) by (simp add: less_mult_imp_div_less)
  have "int ?d * 128 + int (t mod 128) = int t"
    by (metis div_mult_mod_eq of_nat_add of_nat_mult of_nat_numeral)
  moreover have "dectag_loop (cont_octets (base128 t) @ cs) mx l 0 =
      Some (int (l + length (hi_octets ?d)) + 1, int ?d * 128 + int (t mod 128))"
    using False assms(1) d dectag_hi_octets [of l ?d mx] dectag_step(2) [of "l + length (hi_octets ?d)" mx "int ?d" "t mod 128" cs]
    by (simp add: cont_octets_base128)
  ultimately show ?thesis using False by (simp add: cont_octets_base128)
qed

lemma dectag_tag_octets:
  assumes "0 \<le> zc" and "zc \<le> 3" and "0 \<le> tag" and "tag < 2 ^ 28"
    and "int (length (tag_octets zc tag cons)) \<le> mx"
  shows "ber_dectag (tag_octets zc tag cons @ rest) outs mx =
    Some (int (length (tag_octets zc tag cons)), zc, tag, cons)"
proof (cases "tag \<le> 30")
  case True
  have u: "unat (tag_first zc cons OR byte_of (nat tag)) =
      32 * (2 * nat zc + (if cons then 1 else 0)) + nat tag"
    using True unat_first_octet [OF assms(1,2), of "byte_of (nat tag)"] assms(3) by simp
  show ?thesis
    using True assms first_octet_fields [OF u] by (simp add: ber_dectag_def tag_octets_def Let_def)
next
  case False
  have u: "unat (tag_first zc cons OR 0x1F) = 32 * (2 * nat zc + (if cons then 1 else 0)) + 31"
    using unat_first_octet [OF assms(1,2), of "0x1F"] by simp
  show ?thesis
    using False assms first_octet_fields [OF u] dectag_cont_octets [of 1 "nat tag" mx rest]
    by (simp add: ber_dectag_def tag_octets_def Let_def nat_less_iff)
qed


section \<open>Length octets: round trip\<close>

definition pad_octets :: "int \<Rightarrow> int \<Rightarrow> bool \<Rightarrow> byte list" where
  "pad_octets len lenlen exact =
     (if exact then replicate (nat (lenlen - 1) - length (base256 (nat len))) 0 else [])"

definition long_length :: "int \<Rightarrow> int \<Rightarrow> bool \<Rightarrow> byte list" where
  "long_length len lenlen exact =
     (let ds = pad_octets len lenlen exact @ rev (base256 (nat len))
      in (byte_of (length ds) OR 0x80) # ds)"

lemma base256_small: "t < 256 \<Longrightarrow> base256 t = [byte_of t]"
  by (subst base256.simps) simp

lemma base256_large: "256 \<le> t \<Longrightarrow> base256 t = byte_of (t mod 256) # base256 (t div 256)"
  by (subst base256.simps) (simp add: div_eq_0_iff)

lemma length_base256_bound: "t < 256 ^ Suc n \<Longrightarrow> length (base256 t) \<le> Suc n"
proof (induction n arbitrary: t)
  case (Suc n)
  show ?case
  proof (cases "t < 256")
    case False
    have "t div 256 < 256 ^ Suc n" using Suc.prems by (simp add: less_mult_imp_div_less mult.commute)
    from Suc.IH [OF this] False show ?thesis by (simp add: base256_large)
  qed (simp add: base256_small)
qed (simp add: base256_small)

lemma enclen_long:
  assumes "odr_wf o'" and "can_grow o'" and "0 \<le> len" and "\<not> (len \<le> 127 \<and> (lenlen = 1 \<or> \<not> exact))"
    and "lenlen \<noteq> 1" and "int (length (base256 (nat len))) < lenlen"
    and room: "pos o' + length (long_length len lenlen exact) \<le> odr_limit"
  obtains o2 where "ber_enclen o' len lenlen exact = (int (top o2) - int (pos o'), o2\<lparr>pos := top o2\<rparr>)"
    "wrote o' (long_length len lenlen exact) o2"
proof -
  let ?ds = "pad_octets len lenlen exact @ rev (base256 (nat len))"
  obtain o1 where o1: "put_all o' (0 # ?ds) = (True, o1)" "wrote o' ([0] @ ?ds) o1"
    using put_all_wrote [OF assms(1,2), of "0 # ?ds"] room by (auto simp: long_length_def Let_def)
  have p1: "pos o1 = pos o' + 1 + length ?ds" and w1: "odr_wf o1" and g1: "can_grow o1"
    using wrote_frame [OF o1(2)] assms(2) by simp_all
  have seek1: "odr_seek o1 ODR_S_SET (pos o') = (True, o1\<lparr>pos := pos o'\<rparr>)"
    using w1 p1 by (intro seek_set) (simp add: odr_wf_def)
  have "odr_wf (o1\<lparr>pos := pos o'\<rparr>)" using w1 p1 by (simp add: odr_wf_def)
  then obtain o3 where o3: "odr_putc (o1\<lparr>pos := pos o'\<rparr>) (of_nat (length ?ds) OR 0x80) = (True, o3)"
      "wrote (o1\<lparr>pos := pos o'\<rparr>) [of_nat (length ?ds) OR 0x80] o3"
    by (rule putc_wrote [where c = "of_nat (length ?ds) OR 0x80"])
      (use room in \<open>simp_all add: g1 long_length_def Let_def\<close>)
  have w: "wrote o' (long_length len lenlen exact) (o3\<lparr>pos := pos o1\<rparr>)"
    using wrote_overwrite [OF o1(2) o3(2)] by (simp add: long_length_def Let_def of_nat_byte)
  have seek3: "odr_seek o3 ODR_S_END 0 = (True, o3\<lparr>pos := top o3\<rparr>)"
    using o3(2) by (intro seek_end) (simp add: wrote_def)
  have "ber_enclen o' len lenlen exact = (int (top o3) - int (pos o'), o3\<lparr>pos := top o3\<rparr>)"
    using assms(3-6) o1(1) p1 seek1 o3(1) seek3
    by (auto simp: ber_enclen_def Let_def pad_octets_def simp del: put_all.simps)
  with that [OF _ w] show thesis by simp
qed


text \<open>
  The octets of a definite length as \<^const>\<open>ber_enclen\<close> writes them for its arguments \<open>lenlen\<close> and
  \<open>exact\<close>, and \<open>len_octets\<close>, the form the encoder takes when it may choose (\<open>lenlen = 5\<close>, not exact).
\<close>

definition form_octets :: "int \<Rightarrow> int \<Rightarrow> bool \<Rightarrow> byte list" where
  "form_octets len lenlen exact =
     (if len \<le> 127 \<and> (lenlen = 1 \<or> \<not> exact) then [byte_of (nat len)] else long_length len lenlen exact)"

definition len_octets :: "int \<Rightarrow> byte list" where
  "len_octets len = (if len \<le> 127 then [byte_of (nat len)] else long_length len 5 False)"

lemma len_octets_form: "len_octets len = form_octets len 5 False"
  by (simp add: len_octets_def form_octets_def)

lemma enclen_form:
  assumes "at_end o'" and "can_grow o'" and "0 \<le> len"
    and form: "len \<le> 127 \<and> (lenlen = 1 \<or> \<not> exact) \<or>
      lenlen \<noteq> 1 \<and> int (length (base256 (nat len))) < lenlen"
    and room: "top o' + length (form_octets len lenlen exact) \<le> odr_limit"
  obtains r o2 where "ber_enclen o' len lenlen exact = (r, o2)" "0 < r"
    "appended o' (form_octets len lenlen exact) o2"
proof (cases "len \<le> 127 \<and> (lenlen = 1 \<or> \<not> exact)")
  case True
  obtain o2 where "odr_putc o' (byte_of (nat len)) = (True, o2)" "appended o' [byte_of (nat len)] o2"
    by (rule putc_append [OF assms(1,2)]) (use room True in \<open>auto simp: form_octets_def\<close>)
  with that [of 1 o2] True assms(3) show thesis
    by (simp add: ber_enclen_def form_octets_def of_int_byte)
next
  case False
  have f: "form_octets len lenlen exact = long_length len lenlen exact"
    using False by (auto simp: form_octets_def)
  have p: "pos o' = top o'" using assms(1) by (simp add: at_end_def)
  obtain o2 where o2: "ber_enclen o' len lenlen exact = (int (top o2) - int (pos o'), o2\<lparr>pos := top o2\<rparr>)"
      "wrote o' (long_length len lenlen exact) o2"
    by (rule enclen_long [OF at_end_wf [OF assms(1)] assms(2,3) False])
      (use form False room f p in auto)
  have a: "appended o' (long_length len lenlen exact) o2" using o2(2) wrote_appended [OF assms(1)] by simp
  then have "o2\<lparr>pos := top o2\<rparr> = o2" by (auto simp: appended_def at_end_def intro!: odr.equality)
  with that [of "int (top o2) - int (pos o')" o2] o2(1) a f show thesis
    using appended_frame(11) [OF a] p by (simp add: long_length_def Let_def)
qed

lemma enclen_append:
  assumes "at_end o'" and "can_grow o'" and "0 \<le> len" and "len < 2 ^ 31"
    and "top o' + length (len_octets len) \<le> odr_limit"
  obtains r o2 where "ber_enclen o' len 5 False = (r, o2)" "0 < r" "appended o' (len_octets len) o2"
proof -
  have "length (base256 (nat len)) \<le> 4"
    using length_base256_bound [of "nat len" 3] assms(4) by (simp add: nat_less_iff)
  then have f: "len \<le> 127 \<and> (5 = (1 :: int) \<or> \<not> False) \<or>
      5 \<noteq> (1 :: int) \<and> int (length (base256 (nat len))) < 5" by simp
  show thesis
    by (rule enclen_form [OF assms(1-3) f]) (use assms(5) that in \<open>simp_all add: len_octets_form\<close>)
qed

lemma enclen_short:
  assumes "at_end o'" and "can_grow o'" and "0 \<le> len" and "len \<le> 127" and "top o' + 1 \<le> odr_limit"
  obtains o2 where "ber_enclen o' len 1 exact = (1, o2)" "appended o' [byte_of (nat len)] o2"
proof -
  obtain o2 where "odr_putc o' (byte_of (nat len)) = (True, o2)" "appended o' [byte_of (nat len)] o2"
    by (rule putc_append [OF assms(1,2,5)])
  with that [of o2] assms(3,4) show thesis by (simp add: ber_enclen_def of_int_byte)
qed

lemma declen_fold_base256:
  "t < 2 ^ 31 \<Longrightarrow> fold declen_step (rev (base256 t)) 0 = int t"
proof (induction t rule: less_induct)
  case (less t)
  show ?case
  proof (cases "t < 256")
    case True
    then show ?thesis using wrap32_shift_or [of 0 8 "int t"]
      by (simp add: base256_small declen_step_def)
  next
    case False
    let ?d = "t div 256"
    have d: "?d < t" "?d < 2 ^ 23" using False less.prems by (simp_all add: less_mult_imp_div_less)
    have "fold declen_step (rev (base256 t)) 0 = wrap32 (int ?d * 256) OR int (t mod 256)"
      using less.IH [OF d(1)] d(2) False
      by (simp add: base256_large declen_step_def [of "byte_of (t mod 256)"])
    also have "\<dots> = int ?d * 256 + int (t mod 256)"
      using wrap32_shift_or [of "int ?d" 8 "int (t mod 256)"] d(2) by simp
    also have "\<dots> = int t" by (metis div_mult_mod_eq of_nat_add of_nat_mult of_nat_numeral)
    finally show ?thesis .
  qed
qed

lemma declen_fold_zeros: "fold declen_step (replicate k 0) 0 = 0"
  by (induction k) (simp_all add: declen_step_def wrap32_def)

lemma declen_long:
  assumes "ds = replicate k 0 @ rev (base256 t)" and "length ds \<le> 3" and "t < 2 ^ 31"
    and "1 + int (length ds) \<le> mx"
  shows "ber_declen (((byte_of (length ds) OR 0x80) # ds) @ rest) len0 mx = Some (1 + int (length ds), int t)"
proof -
  have n: "length ds < 128" "0 < length ds"
    using assms(1,2) base256.simps [of t] by simp_all
  have u: "unat (byte_of (length ds) OR 0x80) = 128 + length ds"
    using unat_or_shifted_byte [of "byte_of (length ds)" 7 "0x80" 1] n by (simp add: or.commute)
  then have "byte_of (length ds) OR 0x80 \<noteq> 0x80" "byte_of (length ds) OR 0x80 \<noteq> 0xFF"
    using n assms(2) by auto
  moreover have "fold declen_step ds 0 = int t"
    by (simp only: assms(1) fold_append o_apply declen_fold_zeros declen_fold_base256 [OF assms(3)])
  ultimately show ?thesis
    using cont_bit [OF n(1)] n assms(2,4) by (simp add: ber_declen_def Let_def)
qed

lemma len_octets_le: "0 \<le> len \<Longrightarrow> len < 2 ^ 24 \<Longrightarrow> length (len_octets len) \<le> 5"
  using length_base256_bound [of "nat len" 2]
  by (simp add: len_octets_def long_length_def pad_octets_def nat_less_iff Let_def)

lemma declen_len_octets:
  assumes "0 \<le> len" and "len < 2 ^ 24" and "int (length (len_octets len)) \<le> mx"
  shows "ber_declen (len_octets len @ rest) len0 mx = Some (int (length (len_octets len)), len)"
proof (cases "len \<le> 127")
  case True
  then have "byte_of (nat len) \<noteq> 0x80" using assms(1) by (auto dest: arg_cong [where f = unat])
  with True assms cont_bit(3) [of "nat len"] show ?thesis
    by (simp add: len_octets_def ber_declen_def)
next
  case False
  have "length (base256 (nat len)) \<le> 3"
    using length_base256_bound [of "nat len" 2] assms(2) by (simp add: nat_less_iff)
  with False assms declen_long [of "rev (base256 (nat len))" 0 "nat len" mx rest len0] show ?thesis
    by (simp add: len_octets_def long_length_def pad_octets_def Let_def nat_less_iff)
qed


text \<open>
  The forms of a definite length that the decoder reads: the short form, and the long form with
  at most three octets of length (more are refused with -2).
\<close>

definition readable_form :: "nat \<Rightarrow> int \<Rightarrow> bool \<Rightarrow> bool" where
  "readable_form n lenlen exact \<longleftrightarrow>
     n \<le> 127 \<and> (lenlen = 1 \<or> \<not> exact) \<or>
     2 \<le> lenlen \<and> n < 256 ^ nat (lenlen - 1) \<and> n < 2 ^ 24 \<and> (exact \<longrightarrow> lenlen \<le> 4)"

lemma readable_length:
  assumes "2 \<le> lenlen" and "n < 256 ^ nat (lenlen - 1)" and "n < 2 ^ 24" and "exact \<longrightarrow> lenlen \<le> 4"
  shows "int (length (base256 n)) < lenlen" "length (pad_octets (int n) lenlen exact @ rev (base256 n)) \<le> 3"
proof -
  obtain k where k: "nat (lenlen - 1) = Suc k" using assms(1) by (cases "nat (lenlen - 1)") auto
  have b: "length (base256 n) \<le> Suc k" using length_base256_bound [of n k] assms(2) k by simp
  then show "int (length (base256 n)) < lenlen" using k by linarith
  have "length (base256 n) \<le> 3" using length_base256_bound [of n 2] assms(3) by simp
  with b k assms(1,4) show "length (pad_octets (int n) lenlen exact @ rev (base256 n)) \<le> 3"
    by (auto simp: pad_octets_def)
qed

lemma enclen_readable:
  assumes "readable_form n lenlen exact"
  shows "int n \<le> 127 \<and> (lenlen = 1 \<or> \<not> exact) \<or>
    lenlen \<noteq> 1 \<and> int (length (base256 (nat (int n)))) < lenlen"
  using assms readable_length(1) [of lenlen n exact] by (auto simp: readable_form_def)

lemma length_form_octets:
  assumes "readable_form n lenlen exact"
  shows "length (form_octets (int n) lenlen exact) \<le> 4"
  using assms readable_length(2) [of lenlen n exact]
  by (auto simp: readable_form_def form_octets_def long_length_def Let_def)

lemma declen_form_octets:
  assumes "readable_form n lenlen exact" and "int (length (form_octets (int n) lenlen exact)) \<le> mx"
  shows "ber_declen (form_octets (int n) lenlen exact @ rest) len0 mx =
    Some (int (length (form_octets (int n) lenlen exact)), int n)"
proof (cases "n \<le> 127 \<and> (lenlen = 1 \<or> \<not> exact)")
  case True
  then have "byte_of n \<noteq> 0x80" by (auto dest: arg_cong [where f = unat])
  with True assms cont_bit(3) [of n] show ?thesis
    by (auto simp: form_octets_def ber_declen_def)
next
  case False
  then have r: "2 \<le> lenlen" "n < 256 ^ nat (lenlen - 1)" "n < 2 ^ 24" "exact \<longrightarrow> lenlen \<le> 4"
    using assms(1) by (auto simp: readable_form_def)
  have f: "form_octets (int n) lenlen exact = long_length (int n) lenlen exact"
    using False by (auto simp: form_octets_def)
  obtain k where k: "pad_octets (int n) lenlen exact = replicate k 0" by (cases exact) (auto simp: pad_octets_def)
  show ?thesis
    using declen_long [OF refl, of k n mx rest len0] readable_length(2) [OF r] r(3) assms(2)
    by (simp add: f long_length_def k Let_def)
qed

section \<open>INTEGER: round trip\<close>

lemma decint_step_drop: "decint_step (ucast (drop_bit k v)) (drop_bit (8 + k) v) = drop_bit k v"
proof -
  let ?w = "drop_bit k v"
  have "drop_bit (8 + k) v = drop_bit 8 ?w" by (simp add: add.commute)
  moreover have "(ucast (ucast ?w :: byte) :: 64 word) = take_bit 8 ?w"
    by (rule bit_word_eqI) (auto simp: bit_ucast_iff bit_take_bit_iff)
  moreover have "push_bit 8 (drop_bit 8 ?w) + take_bit 8 ?w = ?w"
    by (rule bits_ident)
  ultimately show ?thesis by (simp add: decint_step_def)
qed

lemma fold_be_bytes: "fold decint_step (be_bytes v) 0 = v"
proof -
  have "drop_bit 64 v = 0" by (rule bit_word_eqI) (auto simp: bit_drop_bit_eq dest: bit_imp_le_length)
  then have "fold decint_step (be_bytes v) 0 = fold decint_step (be_bytes v) (drop_bit (8 + 56) v)"
    by simp
  also have "\<dots> = v"
    using decint_step_drop [of 56 v] decint_step_drop [of 48 v] decint_step_drop [of 40 v]
      decint_step_drop [of 32 v] decint_step_drop [of 24 v] decint_step_drop [of 16 v]
      decint_step_drop [of 8 v] decint_step_drop [of 0 v]
    by (simp add: be_bytes_def upt_rec)
  finally show ?thesis .
qed

text \<open>What \<open>ber_decinteger\<close> computes from the content octets.\<close>

definition int_of_octets :: "byte list \<Rightarrow> 64 word" where
  "int_of_octets bs = fold decint_step bs
     (if hd bs AND 0x80 \<noteq> 0 then fold decint_step (replicate (8 - length bs) 0xFF) 0 else 0)"

lemma fold_replicate_Suc: "f x (fold f (replicate k x) y) = fold f (replicate (Suc k) x) y"
  by (induction k arbitrary: y) simp_all

lemma int_of_octets_drop_redundant:
  assumes "a = 0 \<and> b AND 0x80 = 0 \<or> a = 0xFF \<and> b AND 0x80 \<noteq> 0" and "length r \<le> 6"
  shows "int_of_octets (a # b # r) = int_of_octets (b # r)"
  using assms(1)
proof
  assume "a = 0 \<and> b AND 0x80 = 0"
  then show ?thesis by (simp add: int_of_octets_def decint_step_def [of 0])
next
  assume a: "a = 0xFF \<and> b AND 0x80 \<noteq> 0"
  have "8 - length (b # r) = Suc (8 - length (a # b # r))" using assms(2) by simp
  with a show ?thesis
    using fold_replicate_Suc [of decint_step "0xFF" "8 - length (a # b # r)" 0]
    by (simp add: int_of_octets_def del: fold_simps(2) replicate.simps)
qed

lemma int_of_octets_skip:
  "length bs \<le> 8 \<Longrightarrow> int_of_octets (skip_redundant bs) = int_of_octets bs"
  by (induction bs rule: skip_redundant.induct) (auto simp: int_of_octets_drop_redundant)

lemma length_skip_redundant:
  "length (skip_redundant bs) \<le> length bs" "bs \<noteq> [] \<Longrightarrow> skip_redundant bs \<noteq> []"
  by (induction bs rule: skip_redundant.induct) auto

definition int_content :: "64 word \<Rightarrow> byte list" where
  "int_content v = skip_redundant (be_bytes v)"

lemma length_int_content: "0 < length (int_content v)" "length (int_content v) \<le> 8"
  using length_skip_redundant [of "be_bytes v"] by (auto simp: int_content_def be_bytes_def)

lemma int_of_octets_content: "int_of_octets (int_content v) = v"
proof -
  have "length (be_bytes v) = 8" by (simp add: be_bytes_def)
  then have "int_of_octets (int_content v) = int_of_octets (be_bytes v)"
    by (simp add: int_content_def int_of_octets_skip)
  also have "\<dots> = fold decint_step (be_bytes v) 0"
    using \<open>length (be_bytes v) = 8\<close> by (simp add: int_of_octets_def)
  finally show ?thesis by (simp add: fold_be_bytes)
qed

definition int_octets :: "64 word \<Rightarrow> byte list" where
  "int_octets v = byte_of (length (int_content v)) # int_content v"

lemma declen_short:
  assumes "n < 128" and "1 \<le> mx"
  shows "ber_declen (byte_of n # rest) len0 mx = Some (1, int n)"
  using declen_len_octets [of "int n" mx rest len0] assms by (simp add: len_octets_def)

lemma decinteger_int_octets:
  assumes "int (length (int_octets v)) \<le> mx"
  shows "ber_decinteger (int_octets v @ rest) v0 mx = Some (int (length (int_octets v)), v)"
proof -
  have "ber_declen (int_octets v @ rest) 0 mx = Some (1, int (length (int_content v)))"
    using declen_short [of "length (int_content v)" mx "int_content v @ rest" 0] length_int_content [of v] assms
    by (simp add: int_octets_def)
  then show ?thesis
    using assms length_int_content [of v] int_of_octets_content [of v]
    by (cases "int_content v") (auto simp: ber_decinteger_def int_octets_def int_of_octets_def Let_def nat_add_distrib)
qed

lemma encinteger_append:
  assumes "at_end o'" and "can_grow o'" and "top o' + length (int_octets v) \<le> odr_limit"
  obtains o2 where "ber_encinteger o' v = (0, o2)" "appended o' (int_octets v) o2"
proof -
  note l = length_int_content [of v]
  obtain o1 where o1: "ber_enclen o' (int (length (int_content v))) 1 True = (1, o1)"
      "appended o' [byte_of (length (int_content v))] o1"
    using enclen_short [OF assms(1,2), of "int (length (int_content v))" True] l assms(3)
    by (auto simp: int_octets_def)
  obtain o2 where o2: "odr_write o1 (int_content v) = (True, o2)" "appended o1 (int_content v) o2"
    using write_append [of o1 "int_content v"] appended_at_end [OF o1(2)] appended_frame(3,11) [OF o1(2)]
      assms(2,3) l by (auto simp: int_octets_def)
  with that o1 appended_trans [OF o1(2) o2(2)] show thesis
    by (simp add: ber_encinteger_def Let_def int_octets_def flip: int_content_def)
qed


section \<open>Complete elements: safety, framing\<close>

lemma dectag_loop_Nil: "dectag_loop [] mx l t = (if int l \<ge> mx then Some (-1, t) else None)"
  by (simp add: dectag_loop.simps)

lemma dectag_loop_Cons:
  "dectag_loop (c # cs) mx l t =
     (if int l \<ge> mx then Some (-1, t)
      else let tag' = wrap32 (t * 128) OR uint (c AND 0x7F) in
        if c AND 0x80 \<noteq> 0 then dectag_loop cs mx (Suc l) tag' else Some (int l + 1, tag'))"
  by (subst dectag_loop.simps) simp

lemma dectag_loop_safe: "mx \<le> int (l + length bs) \<Longrightarrow> safe (dectag_loop bs mx l t)"
  by (induction bs arbitrary: l t) (simp_all add: dectag_loop_Nil dectag_loop_Cons Let_def)

lemma dectag_loop_range:
  "dectag_loop bs mx l t = Some (r, t') \<Longrightarrow> r = -1 \<or> int l < r \<and> r \<le> mx \<and> nat r \<le> l + length bs"
proof (induction bs arbitrary: l t)
  case (Cons c cs)
  from Cons.prems Cons.IH [of "Suc l"] show ?case
    by (fastforce simp: dectag_loop_Cons Let_def split: if_splits)
qed (simp add: dectag_loop_Nil split: if_splits)

lemma dectag_loop_prefix:
  "dectag_loop bs mx l t = Some (r, t') \<Longrightarrow> 0 < r \<Longrightarrow> r \<le> mx' \<Longrightarrow>
   take (nat r - l) bs' = take (nat r - l) bs \<Longrightarrow> dectag_loop bs' mx' l t = Some (r, t')"
proof (induction bs arbitrary: l t bs')
  case (Cons c cs)
  have "int l < r" using dectag_loop_range [OF Cons.prems(1)] Cons.prems(2) by auto
  then have "nat r - l = Suc (nat r - Suc l)" by simp
  then obtain cs' where b: "bs' = c # cs'" "take (nat r - Suc l) cs' = take (nat r - Suc l) cs"
    using Cons.prems(4) by (cases bs') auto
  show ?case
    using Cons.prems(1,2,3) Cons.IH [of "Suc l" _ cs'] b(2) \<open>int l < r\<close> unfolding b(1)
    by (auto simp: dectag_loop_Cons Let_def split: if_splits)
qed (simp add: dectag_loop_Nil split: if_splits)

lemma dectag_safe: "mx \<le> int (length b) \<Longrightarrow> safe (ber_dectag b outs mx)"
  using dectag_loop_safe [of mx 1 "tl b" 0] by (cases b; cases outs) (auto simp: ber_dectag_def Let_def)

lemma dectag_range:
  "ber_dectag b outs mx = Some (r, z) \<Longrightarrow> r = -1 \<or> 1 \<le> r \<and> r \<le> mx \<and> nat r \<le> length b"
  by (cases b) (auto simp: ber_dectag_def Let_def split: if_splits dest!: dectag_loop_range)

lemma take_common:
  assumes "take n b' = take n b" and "1 \<le> n" and "n \<le> length b"
  obtains c cs cs' where "b = c # cs" "b' = c # cs'" "take (n - 1) cs' = take (n - 1) cs" "n - 1 \<le> length cs'"
proof -
  obtain k where n: "n = Suc k" using assms(2) by (cases n) auto
  have "n \<le> length b'" using assms(1,3) by (metis length_take min.absorb2 min.cobounded1)
  with assms that n show thesis by (cases b; cases b') auto
qed

lemma dectag_prefix:
  assumes "ber_dectag b outs mx = Some (r, z)" and "0 < r" and "r \<le> mx'" and "take (nat r) b' = take (nat r) b"
  shows "ber_dectag b' outs' mx' = Some (r, z)"
proof -
  have "1 \<le> nat r" and "nat r \<le> length b" using dectag_range [OF assms(1)] assms(2) by auto
  with assms(4) obtain c cs cs' where "b = c # cs" "b' = c # cs'" "take (nat r - 1) cs' = take (nat r - 1) cs"
    by (rule take_common)
  with assms(1-3) dectag_loop_prefix [of cs mx 1 0 r _ mx' cs'] show ?thesis
    by (fastforce simp: ber_dectag_def Let_def split: if_splits)
qed

lemma declen_safe: "mx \<le> int (length b) \<Longrightarrow> safe (ber_declen b l0 mx)"
  by (cases b) (auto simp: ber_declen_def Let_def uint_nat simp del: of_nat_unat)

lemma declen_range:
  "ber_declen b l0 mx = Some (r, l) \<Longrightarrow> r = -1 \<or> r = -2 \<or> 1 \<le> r \<and> r \<le> mx \<and> nat r \<le> length b"
  by (cases b) (auto simp: ber_declen_def Let_def uint_nat nat_add_distrib simp del: of_nat_unat split: if_splits)

lemma declen_prefix:
  assumes "ber_declen b l0 mx = Some (r, l)" and "0 < r" and "r \<le> mx'" and "take (nat r) b' = take (nat r) b"
  shows "ber_declen b' l0' mx' = Some (r, l)"
proof -
  have "1 \<le> nat r" and "nat r \<le> length b" using declen_range [OF assms(1)] assms(2) by auto
  with assms(4) obtain c cs cs' where b: "b = c # cs" "b' = c # cs'" "take (nat r - 1) cs' = take (nat r - 1) cs"
      "nat r - 1 \<le> length cs'"
    by (rule take_common)
  with assms(1-3) b show ?thesis
    by (auto simp: ber_declen_def Let_def uint_nat nat_add_distrib simp del: of_nat_unat split: if_splits)
qed



lemma header_obtains:
  obtains r z t c where "ber_dectag cp outs (int (length cp)) = Some (r, z, t, c)"
    "r = -1 \<or> 1 \<le> r \<and> nat r \<le> length cp"
proof -
  have "safe (ber_dectag cp outs (int (length cp)))" by (simp add: dectag_safe)
  then obtain r z t c where "ber_dectag cp outs (int (length cp)) = Some (r, z, t, c)" by auto
  with dectag_range [OF this] that show thesis by blast
qed

lemma length_obtains:
  obtains r l where "ber_declen b l0 (int (length b)) = Some (r, l)"
    "r = -1 \<or> r = -2 \<or> 1 \<le> r \<and> nat r \<le> length b"
proof -
  have "safe (ber_declen b l0 (int (length b)))" by (simp add: declen_safe)
  then obtain r l where "ber_declen b l0 (int (length b)) = Some (r, l)" by auto
  with declen_range [OF this] that show thesis by blast
qed

lemma complete_kids_total:
  assumes "\<And>cp. \<exists>r. completeBER_n cp level = Some r \<and> -1 \<le> r \<and> r \<le> int (length cp)"
  shows "\<exists>x. complete_kids b level = Some x \<and>
    (case x of Inl e \<Rightarrow> -1 \<le> e \<and> e \<le> 0 | Inr b3 \<Rightarrow> \<exists>k. b3 = drop k b)"
proof (induction b rule: length_induct)
  case (1 b)
  show ?case
  proof (cases "length b < 2 \<or> b ! 0 = 0 \<and> b ! 1 = 0")
    case True
    then show ?thesis by (subst complete_kids.simps) (auto intro!: exI [of _ 0])
  next
    case False
    obtain r where r: "completeBER_n b level = Some r" "-1 \<le> r" "r \<le> int (length b)"
      using assms by blast
    show ?thesis
    proof (cases "r \<le> 0")
      case True
      with False r show ?thesis by (subst complete_kids.simps) auto
    next
      case pos: False
      then have "length (drop (nat r) b) < length b" using r(3) by simp
      with 1 obtain x where x: "complete_kids (drop (nat r) b) level = Some x"
          "case x of Inl e \<Rightarrow> -1 \<le> e \<and> e \<le> 0 | Inr b3 \<Rightarrow> \<exists>k. b3 = drop k (drop (nat r) b)"
        by blast
      have "complete_kids b level = Some x"
        using False r(1) pos x(1) by (subst complete_kids.simps) auto
      moreover have "case x of Inl e \<Rightarrow> -1 \<le> e \<and> e \<le> 0 | Inr b3 \<Rightarrow> \<exists>k. b3 = drop k b"
        using x(2) r(3) pos by (auto split: sum.splits)
      ultimately show ?thesis by blast
    qed
  qed
qed

lemma completeBER_n_total:
  "\<exists>r. completeBER_n cp level = Some r \<and> -1 \<le> r \<and> r \<le> int (length cp)"
proof (induction "1001 - level" arbitrary: level cp rule: less_induct)
  case less
  show ?case
  proof (cases "level > 1000 \<or> length cp < 2 \<or> cp ! 0 = 0 \<and> cp ! 1 = 0")
    case True
    then show ?thesis by (subst completeBER_n.simps) (auto simp: Let_def)
  next
    case False
    obtain r z t c where h: "ber_dectag cp (0, 0, False) (int (length cp)) = Some (r, z, t, c)"
        "r = -1 \<or> 1 \<le> r \<and> nat r \<le> length cp"
      by (rule header_obtains)
    obtain r2 ll where l: "ber_declen (drop (nat r) cp) 0 (int (length (drop (nat r) cp))) = Some (r2, ll)"
        "r2 = -1 \<or> r2 = -2 \<or> 1 \<le> r2 \<and> nat r2 \<le> length (drop (nat r) cp)"
      by (rule length_obtains)
    obtain x where k: "complete_kids (drop (nat r2) (drop (nat r) cp)) (Suc level) = Some x"
        "case x of Inl e \<Rightarrow> -1 \<le> e \<and> e \<le> 0
         | Inr b3 \<Rightarrow> \<exists>k. b3 = drop k (drop (nat r2) (drop (nat r) cp))"
      using complete_kids_total [of "Suc level"] less False by fastforce
    from False h l k show ?thesis
      by (subst completeBER_n.simps) (auto simp: Let_def split: sum.splits)
  qed
qed


definition definite_part :: "byte list \<Rightarrow> int \<Rightarrow> int \<Rightarrow> int \<Rightarrow> int \<Rightarrow> bool" where
  "definite_part cp h r2 ll r \<longleftrightarrow> 0 \<le> ll \<and> r = h + r2 + ll \<and> r \<le> int (length cp)"

definition indefinite_part :: "byte list \<Rightarrow> nat \<Rightarrow> int \<Rightarrow> int \<Rightarrow> int \<Rightarrow> int \<Rightarrow> bool" where
  "indefinite_part cp level h r2 ll r \<longleftrightarrow> ll < 0 \<and>
     (\<exists>b3. complete_kids (drop (nat (h + r2)) cp) (Suc level) = Some (Inr b3) \<and> 2 \<le> length b3 \<and>
        r = int (length cp) - int (length b3) + 2)"

lemma complete_elim:
  assumes "completeBER_n cp level = Some r" and "0 < r"
  obtains h z t c r2 ll where "level \<le> 1000" "2 \<le> length cp" "\<not> (cp ! 0 = 0 \<and> cp ! 1 = 0)"
    "ber_dectag cp (0, 0, False) (int (length cp)) = Some (h, z, t, c)" "1 \<le> h" "nat h \<le> length cp"
    "ber_declen (drop (nat h) cp) 0 (int (length cp) - h) = Some (r2, ll)" "1 \<le> r2" "nat h + nat r2 \<le> length cp"
    "definite_part cp h r2 ll r \<or> indefinite_part cp level h r2 ll r \<and> c"
proof -
  have pre1: "level \<le> 1000"
    by (rule ccontr) (use assms in \<open>simp add: completeBER_n.simps [of cp level] Let_def\<close>)
  have pre2: "2 \<le> length cp"
    by (rule ccontr) (use assms pre1 in \<open>simp add: completeBER_n.simps [of cp level] Let_def\<close>)
  have pre3: "\<not> (cp ! 0 = 0 \<and> cp ! 1 = 0)"
    using assms pre1 pre2 by (auto simp: completeBER_n.simps [of cp level] Let_def)
  note pre = pre1 pre2 pre3
  obtain h z t c where h: "ber_dectag cp (0, 0, False) (int (length cp)) = Some (h, z, t, c)"
      "h = -1 \<or> 1 \<le> h \<and> nat h \<le> length cp"
    by (rule header_obtains)
  obtain r2 ll where l: "ber_declen (drop (nat h) cp) 0 (int (length (drop (nat h) cp))) = Some (r2, ll)"
      "r2 = -1 \<or> r2 = -2 \<or> 1 \<le> r2 \<and> nat r2 \<le> length (drop (nat h) cp)"
    by (rule length_obtains)
  have h1: "1 \<le> h" "nat h \<le> length cp"
    using assms pre h by (auto simp: completeBER_n.simps [of cp level] Let_def)
  then have len: "int (length (drop (nat h) cp)) = int (length cp) - h" and hi: "\<not> int (length cp) < h"
    by simp_all
  have l1: "1 \<le> r2" "nat h + nat r2 \<le> length cp"
    using assms pre h l h1 hi unfolding len by (auto simp: completeBER_n.simps [of cp level] Let_def)
  obtain x where k: "complete_kids (drop (nat r2) (drop (nat h) cp)) (Suc level) = Some x"
      "case x of Inl e \<Rightarrow> -1 \<le> e \<and> e \<le> 0
       | Inr b3 \<Rightarrow> \<exists>k. b3 = drop k (drop (nat r2) (drop (nat h) cp))"
    using complete_kids_total [OF completeBER_n_total] by blast
  have r: "(if 0 \<le> ll then if int (length cp) - h - r2 < ll then Some 0 else Some (ll + (h + r2))
      else if \<not> c then Some (-1)
      else case x of Inl e \<Rightarrow> Some e
        | Inr b3 \<Rightarrow> if length b3 < 2 then Some 0 else Some (int (length cp) - int (length b3) + 2)) = Some r"
    using assms pre h(1) l(1) h1 hi l1 k(1) unfolding len
    by (auto simp: completeBER_n.simps [of cp level] Let_def split: if_splits)
  have d: "drop (nat r2) (drop (nat h) cp) = drop (nat (h + r2)) cp"
    using h1(1) l1(1) by (simp add: nat_add_distrib add.commute)
  have "definite_part cp h r2 ll r \<or> indefinite_part cp level h r2 ll r \<and> c"
    using r k assms(2) unfolding d definite_part_def indefinite_part_def
    by (cases x) (auto split: if_splits)
  with that pre h(1) h1 l(1) l1 len show thesis by simp
qed

lemma complete_intro:
  assumes "level \<le> 1000" "2 \<le> length cp" "\<not> (cp ! 0 = 0 \<and> cp ! 1 = 0)"
    "ber_dectag cp (0, 0, False) (int (length cp)) = Some (h, z, t, c)" "1 \<le> h" "nat h \<le> length cp"
    "ber_declen (drop (nat h) cp) 0 (int (length cp) - h) = Some (r2, ll)" "1 \<le> r2" "nat h + nat r2 \<le> length cp"
    "definite_part cp h r2 ll r \<or> indefinite_part cp level h r2 ll r \<and> c"
  shows "completeBER_n cp level = Some r"
  using assms
  by (subst completeBER_n.simps)
    (auto simp: Let_def definite_part_def indefinite_part_def nat_add_distrib add.commute)


lemma complete_kids_step:
  assumes "complete_kids b level = Some (Inr b3)" and "2 \<le> length b3" and "\<not> (b ! 0 = 0 \<and> b ! 1 = 0)"
  obtains r where "completeBER_n b level = Some r" "0 < r" "r \<le> int (length b)" "2 \<le> length b"
    "complete_kids (drop (nat r) b) level = Some (Inr b3)"
proof -
  obtain r where r: "completeBER_n b level = Some r" "r \<le> int (length b)"
    using completeBER_n_total by blast
  have "2 \<le> length b"
    by (rule ccontr) (use assms in \<open>simp add: complete_kids.simps [of b level]\<close>)
  with assms r that show thesis
    by (auto simp: complete_kids.simps [of b level] split: if_splits)
qed

lemma complete_kids_suffix:
  assumes "complete_kids b level = Some (Inr b3)"
  obtains k where "b3 = drop k b"
  using complete_kids_total [OF completeBER_n_total, where b = b and level = level] assms by auto

lemma complete_kids_stops:
  assumes "complete_kids b level = Some (Inr b3)" and "b ! 0 = 0 \<and> b ! 1 = 0"
  shows "b3 = b"
  using assms by (auto simp: complete_kids.simps [of b level] split: if_splits)

lemma complete_kids_prefix:
  assumes IH: "\<And>cp cp' r. completeBER_n cp level = Some r \<Longrightarrow> 0 < r \<Longrightarrow>
      take (nat r) cp' = take (nat r) cp \<Longrightarrow> completeBER_n cp' level = Some r"
  shows "complete_kids b level = Some (Inr b3) \<Longrightarrow> 2 \<le> length b3 \<Longrightarrow> k = length b - length b3 \<Longrightarrow>
    take (k + 2) b' = take (k + 2) b \<Longrightarrow> complete_kids b' level = Some (Inr (drop k b'))"
proof (induction b arbitrary: b' k rule: length_induct)
  case (1 b)
  note prems = "1.prems"
  obtain d where d: "b3 = drop d b" using prems(1) by (rule complete_kids_suffix)
  then have kl: "k + 2 \<le> length b" using prems(2,3) by simp
  have l': "2 \<le> length b'" using take_eq_length [OF prems(4) kl] by simp
  have heads: "b' ! 0 = b ! 0" "b' ! 1 = b ! 1" using take_eq_nth [OF prems(4)] by simp_all
  show ?case
  proof (cases "b ! 0 = 0 \<and> b ! 1 = 0")
    case True
    then have "k = 0" using complete_kids_stops [OF prems(1)] prems(3) by simp
    with True heads l' show ?thesis by (simp add: complete_kids.simps [of b' level])
  next
    case False
    obtain r where r: "completeBER_n b level = Some r" "0 < r" "r \<le> int (length b)"
        "complete_kids (drop (nat r) b) level = Some (Inr b3)"
      using complete_kids_step [OF prems(1,2) False] by metis
    obtain e where "b3 = drop e (drop (nat r) b)" using r(4) by (rule complete_kids_suffix)
    then have rk: "nat r \<le> k" using prems(2,3) r(3) by auto
    have "take (nat r) b' = take (nat r) b" using take_eq_mono [OF prems(4)] rk by simp
    then have b': "completeBER_n b' level = Some r" using IH r(1,2) by blast
    have "length (drop (nat r) b) < length b" and "k - nat r = length (drop (nat r) b) - length b3"
      using r(2,3) prems(3) by simp_all
    moreover have "take (k - nat r + 2) (drop (nat r) b') = take (k - nat r + 2) (drop (nat r) b)"
      using take_eq_drop [OF prems(4)] rk by simp
    ultimately have "complete_kids (drop (nat r) b') level = Some (Inr (drop (k - nat r) (drop (nat r) b')))"
      using "1.IH" r(4) prems(2) by blast
    with b' False heads l' rk r(2) show ?thesis by (auto simp: complete_kids.simps [of b' level])
  qed
qed

lemma complete_prefix:
  "completeBER_n cp level = Some r \<Longrightarrow> 0 < r \<Longrightarrow> take (nat r) cp' = take (nat r) cp \<Longrightarrow>
   completeBER_n cp' level = Some r"
proof (induction "1001 - level" arbitrary: level cp cp' r rule: less_induct)
  case less
  note agree = less.prems(3)
  have rl: "nat r \<le> length cp" using completeBER_n_total [of cp level] less.prems(1) by auto
  then have rl': "nat r \<le> length cp'" using take_eq_length [OF agree] by simp
  from less.prems(1,2) show ?case
  proof (rule complete_elim)
    fix h z t c r2 ll
    assume lev: "level \<le> 1000" and two: "2 \<le> length cp" and nz: "\<not> (cp ! 0 = 0 \<and> cp ! 1 = 0)"
      and tag: "ber_dectag cp (0, 0, False) (int (length cp)) = Some (h, z, t, c)"
      and h: "1 \<le> h" "nat h \<le> length cp"
      and len: "ber_declen (drop (nat h) cp) 0 (int (length cp) - h) = Some (r2, ll)"
      and r2: "1 \<le> r2" "nat h + nat r2 \<le> length cp"
      and parts: "definite_part cp h r2 ll r \<or> indefinite_part cp level h r2 ll r \<and> c"
    have hr: "h + r2 \<le> r"
      using parts h r2 by (auto simp: definite_part_def indefinite_part_def nat_add_distrib elim!: complete_kids_suffix)
    have ge2: "2 \<le> nat r" using hr h r2 by simp
    have parts': "definite_part cp' h r2 ll r \<or> indefinite_part cp' level h r2 ll r \<and> c"
      using parts
    proof
      assume "definite_part cp h r2 ll r"
      then show ?thesis using rl' by (simp add: definite_part_def nat_le_iff)
    next
      assume ind: "indefinite_part cp level h r2 ll r \<and> c"
      let ?b = "drop (nat (h + r2)) cp" and ?b' = "drop (nat (h + r2)) cp'"
      obtain b3 where b3: "complete_kids ?b (Suc level) = Some (Inr b3)" "2 \<le> length b3"
          "r = int (length cp) - int (length b3) + 2"
        using ind by (auto simp: indefinite_part_def)
      obtain d where "b3 = drop d ?b" using b3(1) by (rule complete_kids_suffix)
      then have k: "nat (h + r2) + (length ?b - length b3 + 2) = nat r"
        using b3(2,3) h r2 by (auto simp: nat_add_distrib)
      have "complete_kids ?b' (Suc level) = Some (Inr (drop (length ?b - length b3) ?b'))"
      proof (rule complete_kids_prefix [OF _ b3(1,2) refl])
        show "completeBER_n x' (Suc level) = Some q"
          if "completeBER_n x (Suc level) = Some q" "0 < q" "take (nat q) x' = take (nat q) x" for x x' q
          using less.hyps [OF _ that] lev by simp
        show "take (length ?b - length b3 + 2) ?b' = take (length ?b - length b3 + 2) ?b"
          using k by (intro take_eq_drop [OF agree]) simp
      qed
      then show ?thesis using ind k rl' ge2 b3(2)
        by (auto simp: indefinite_part_def)
    qed
    show ?thesis
    proof (rule complete_intro [OF lev _ _ _ h(1) _ _ r2(1) _ parts'])
      show "2 \<le> length cp'" using rl' ge2 by simp
      show "\<not> (cp' ! 0 = 0 \<and> cp' ! 1 = 0)" using nz take_eq_nth [OF agree] ge2 by simp
      show "nat h \<le> length cp'" "nat h + nat r2 \<le> length cp'" using hr h r2 rl' by auto
      show "ber_dectag cp' (0, 0, False) (int (length cp')) = Some (h, z, t, c)"
        using hr h r2 rl' by (intro dectag_prefix [OF tag] take_eq_mono [OF agree]) auto
      show "ber_declen (drop (nat h) cp') 0 (int (length cp') - h) = Some (r2, ll)"
        using hr h r2 rl' by (intro declen_prefix [OF len] take_eq_drop [OF agree]) auto
    qed
  qed
qed


lemma tag_octets_nonzero:
  assumes "0 \<le> zc" and "zc \<le> 3" and "0 \<le> tag" and "zc \<noteq> 0 \<or> tag \<noteq> 0"
  shows "tag_octets zc tag cons \<noteq> [] \<and> hd (tag_octets zc tag cons) \<noteq> 0"
proof (cases "tag \<le> 30")
  case True
  have "unat (tag_first zc cons OR byte_of (nat tag)) =
      32 * (2 * nat zc + (if cons then 1 else 0)) + nat tag"
    using True unat_first_octet [OF assms(1,2), of "byte_of (nat tag)"] assms(3) by simp
  then have "unat (tag_first zc cons OR byte_of (nat tag)) \<noteq> 0" using assms by auto
  then have "tag_first zc cons OR byte_of (nat tag) \<noteq> 0" by (metis unat_0)
  with True show ?thesis by (simp add: tag_octets_def)
next
  case False
  have "unat (tag_first zc cons OR 0x1F) = 32 * (2 * nat zc + (if cons then 1 else 0)) + 31"
    using unat_first_octet [OF assms(1,2), of "0x1F"] by simp
  then have "tag_first zc cons OR 0x1F \<noteq> 0" by (metis add_is_0 unat_0 zero_neq_numeral)
  with False show ?thesis by (simp add: tag_octets_def)
qed

lemma complete_element:
  assumes zc: "0 \<le> zc" "zc \<le> 3" and tag: "0 \<le> tag" "tag < 2 ^ 28" and nz: "zc \<noteq> 0 \<or> tag \<noteq> 0"
    and form: "readable_form (length content) lenlen exact" and lev: "level \<le> 1000"
    and cp: "cp = tag_octets zc tag cons @ form_octets (int (length content)) lenlen exact @ content @ rest"
  shows "completeBER_n cp level =
    Some (int (length (tag_octets zc tag cons @ form_octets (int (length content)) lenlen exact @ content)))"
proof -
  let ?t = "tag_octets zc tag cons" and ?l = "form_octets (int (length content)) lenlen exact"
  have t: "?t \<noteq> []" "hd ?t \<noteq> 0" using tag_octets_nonzero [OF zc tag(1) nz] by simp_all
  then have nz0: "cp ! 0 \<noteq> 0" by (cases ?t) (simp_all add: cp)
  have lt: "1 \<le> int (length ?t)" "1 \<le> int (length ?l)"
    using t(1) by (simp_all add: Suc_le_eq form_octets_def long_length_def Let_def)
  have dt: "ber_dectag cp (0, 0, False) (int (length cp)) = Some (int (length ?t), zc, tag, cons)"
    unfolding cp using zc tag by (intro dectag_tag_octets) simp_all
  have dl: "ber_declen (drop (nat (int (length ?t))) cp) 0 (int (length cp) - int (length ?t)) =
      Some (int (length ?l), int (length content))"
    using declen_form_octets [OF form, of "int (length cp) - int (length ?t)" "content @ rest" 0]
    by (simp add: cp)
  show ?thesis
    by (rule complete_intro [OF lev _ _ dt lt(1) _ dl lt(2), THEN trans])
      (use nz0 lt in \<open>simp_all add: cp definite_part_def\<close>)
qed

lemma complete_tlv:
  assumes "0 \<le> zc" "zc \<le> 3" "0 \<le> tag" "tag < 2 ^ 28" "zc \<noteq> 0 \<or> tag \<noteq> 0"
    and len: "length content < 2 ^ 24" and "level \<le> 1000"
    and "cp = tag_octets zc tag cons @ len_octets (int (length content)) @ content @ rest"
  shows "completeBER_n cp level =
    Some (int (length (tag_octets zc tag cons) + length (len_octets (int (length content))) + length content))"
proof -
  have "readable_form (length content) 5 False" using len by (simp add: readable_form_def)
  from complete_element [OF assms(1-5) this assms(7), of cp cons rest] assms(8) show ?thesis
    by (simp add: len_octets_form)
qed

section \<open>Properties\<close>

text \<open>
  C13: identifier octets. For every class and every tag below 2^28 the encoder appends octets to
  the output, and the decoder reads back class, tag and constructed bit, consuming exactly
  those octets, whatever follows them. As in all round trips below the output stays below 2^30 octets, where the
  buffer can always be doubled.
\<close>

theorem ber_tag_roundtrip:
  assumes "at_end o1" and "can_grow o1" and "0 \<le> zc" and "zc \<le> 3" and "0 \<le> tag" and "tag < 2 ^ 28"
    and "top o1 + 5 \<le> odr_limit"
  shows "\<exists>r o2 bs. ber_enctag o1 zc tag cons = Some (r, o2) \<and> 0 \<le> r \<and> out o2 = out o1 @ bs \<and>
    (\<forall>rest outs. ber_dectag (bs @ rest) outs (int (length (bs @ rest))) = Some (int (length bs), zc, tag, cons))"
proof -
  obtain r o2 where e: "ber_enctag o1 zc tag cons = Some (r, o2)" "0 \<le> r"
      "appended o1 (tag_octets zc tag cons) o2"
    by (rule enctag_append [OF assms(1,2,5,6), of zc cons])
      (use assms(7) tag_octets_le [OF assms(5,6), of zc cons] in simp)
  then have "out o2 = out o1 @ tag_octets zc tag cons" by (simp add: appended_def)
  moreover have "ber_dectag (tag_octets zc tag cons @ rest) outs (int (length (tag_octets zc tag cons @ rest))) =
      Some (int (length (tag_octets zc tag cons)), zc, tag, cons)" for rest outs
    using assms by (intro dectag_tag_octets) simp_all
  ultimately show ?thesis using e by blast
qed

theorem ber_tag_roundtrip_witness:
  "\<exists>r o2 bs. ber_enctag (odr_createmem (\<lambda>_. 0) ODR_ENCODE) 2 1000 True = Some (r, o2) \<and> 0 \<le> r \<and>
    out o2 = out (odr_createmem (\<lambda>_. 0) ODR_ENCODE) @ bs \<and>
    (\<forall>rest outs. ber_dectag (bs @ rest) outs (int (length (bs @ rest))) = Some (int (length bs), 2, 1000, True))"
  by (rule ber_tag_roundtrip) (simp_all add: odr_limit_def)

text \<open>
  C14: length octets. A length below 2^24 that is written with room for four length octets is read
  back by the decoder, which consumes exactly the octets written (output below 2^30 octets).
\<close>

theorem ber_len_roundtrip:
  assumes "at_end o1" and "can_grow o1" and "0 \<le> n" and "n < 2 ^ 24" and "top o1 + 5 \<le> odr_limit"
  shows "\<exists>r o2 bs. ber_enclen o1 n 5 False = (r, o2) \<and> 0 < r \<and> out o2 = out o1 @ bs \<and>
    (\<forall>rest l0. ber_declen (bs @ rest) l0 (int (length (bs @ rest))) = Some (int (length bs), n))"
proof -
  obtain r o2 where e: "ber_enclen o1 n 5 False = (r, o2)" "0 < r" "appended o1 (len_octets n) o2"
    by (rule enclen_append [OF assms(1,2,3)])
      (use assms(4,5) len_octets_le [OF assms(3,4)] in simp_all)
  then have "out o2 = out o1 @ len_octets n" by (simp add: appended_def)
  moreover have "ber_declen (len_octets n @ rest) l0 (int (length (len_octets n @ rest))) =
      Some (int (length (len_octets n)), n)" for rest l0
    using assms by (intro declen_len_octets) simp_all
  ultimately show ?thesis using e by blast
qed

theorem ber_len_roundtrip_witness:
  "\<exists>r o2 bs. ber_enclen (odr_createmem (\<lambda>_. 0) ODR_ENCODE) 70000 5 False = (r, o2) \<and> 0 < r \<and>
    out o2 = out (odr_createmem (\<lambda>_. 0) ODR_ENCODE) @ bs \<and>
    (\<forall>rest l0. ber_declen (bs @ rest) l0 (int (length (bs @ rest))) = Some (int (length bs), 70000))"
  by (rule ber_len_roundtrip) (simp_all add: odr_limit_def)

text \<open>
  C15: INTEGER. Every 64-bit value is written as at most nine octets and read back unchanged,
  sign included, whatever follows them (output below 2^30 octets).
\<close>

theorem ber_integer_roundtrip:
  assumes "at_end o1" and "can_grow o1" and "top o1 + 9 \<le> odr_limit"
  shows "\<exists>o2 bs. ber_encinteger o1 v = (0, o2) \<and> out o2 = out o1 @ bs \<and> length bs \<le> 9 \<and>
    (\<forall>rest v0. ber_decinteger (bs @ rest) v0 (int (length (bs @ rest))) = Some (int (length bs), v))"
proof -
  have "top o1 + length (int_octets v) \<le> odr_limit"
    using assms(3) length_int_content(2) [of v] by (simp add: int_octets_def)
  with assms(1,2) obtain o2 where e: "ber_encinteger o1 v = (0, o2)" "appended o1 (int_octets v) o2"
    by (rule encinteger_append)
  then have "out o2 = out o1 @ int_octets v" by (simp add: appended_def)
  moreover have "ber_decinteger (int_octets v @ rest) v0 (int (length (int_octets v @ rest))) =
      Some (int (length (int_octets v)), v)" for rest v0
    by (intro decinteger_int_octets) simp
  moreover have "length (int_octets v) \<le> 9" using length_int_content [of v] by (simp add: int_octets_def)
  ultimately show ?thesis using e by blast
qed

theorem ber_integer_roundtrip_witness:
  "\<exists>o2 bs. ber_encinteger (odr_createmem (\<lambda>_. 0) ODR_ENCODE) (- 129) = (0, o2) \<and>
    out o2 = out (odr_createmem (\<lambda>_. 0) ODR_ENCODE) @ bs \<and> length bs \<le> 9 \<and>
    (\<forall>rest v0. ber_decinteger (bs @ rest) v0 (int (length (bs @ rest))) = Some (int (length bs), - 129))"
  by (rule ber_integer_roundtrip) (simp_all add: odr_limit_def)

text \<open>
  C11: framing is total and in bounds. On every buffer the recogniser of complete elements returns
  without touching memory outside the buffer, and its answer is -1, 0 (incomplete) or the size
  of an element that fits the buffer.
\<close>

theorem completeBER_in_bounds:
  "\<exists>r. completeBER_n cp level = Some r \<and> -1 \<le> r \<and> r \<le> int (length cp)"
  by (rule completeBER_n_total)

text \<open>
  C10: framing is stable. Once an element is recognised as complete, its size depends on its own
  octets only: bytes that arrive later do not change it, and the element alone is complete.
\<close>

theorem completeBER_stable:
  assumes "completeBER_n cp level = Some r" and "0 < r"
  shows "completeBER_n (take (nat r) cp @ rest) level = Some r"
proof -
  have "nat r \<le> length cp" using completeBER_n_total [of cp level] assms by auto
  then show ?thesis by (intro complete_prefix [OF assms]) simp
qed

theorem completeBER_stable_witness:
  "completeBER_n (take (nat 4) [0x02, 0x02, 0x01, 0x00, 0x05] @ [7, 8, 9]) 0 = Some 4"
  by (rule completeBER_stable)
    (simp_all add: completeBER_n.simps [of "[2, 2, 1, 0, 5]" 0] ber_dectag_def ber_declen_def)

text \<open>
  C12: an element as the encoder writes it is complete. On a handle with room for it (at most
  2^30 - 1 octets of output) \<^const>\<open>ber_enctag\<close>, \<^const>\<open>ber_enclen\<close> and \<^const>\<open>odr_write\<close>
  write identifier, length and content: any tag below 2^28 but universal 0, any content below
  2^24 octets, the length in short form, in minimal long form or padded to an exact number of
  octets, as \<open>lenlen\<close> and \<open>exact\<close> ask (exact lengths of four and more octets are left out: the
  decoder refuses them). The recogniser accepts what was written with its exact size, whatever
  follows it.
\<close>

theorem completeBER_accepts_encoding:
  assumes "at_end o1" and "can_grow o1" and "top o1 + 10 + length content \<le> odr_limit"
    and "0 \<le> zc" and "zc \<le> 3" and "0 \<le> tag" and "tag < 2 ^ 28" and "zc \<noteq> 0 \<or> tag \<noteq> 0"
    and "readable_form (length content) lenlen exact"
  shows "\<exists>r1 o2 r2 o3 o4 e. ber_enctag o1 zc tag cons = Some (r1, o2) \<and> 0 \<le> r1 \<and>
    ber_enclen o2 (int (length content)) lenlen exact = (r2, o3) \<and> 0 < r2 \<and>
    odr_write o3 content = (True, o4) \<and> out o4 = out o1 @ e \<and>
    (\<forall>rest. completeBER (e @ rest) = Some (int (length e)))"
proof -
  let ?t = "tag_octets zc tag cons" and ?l = "form_octets (int (length content)) lenlen exact"
  have lt: "length ?t \<le> 5" "length ?l \<le> 4"
    using tag_octets_le [OF assms(6,7)] length_form_octets [OF assms(9)] by simp_all
  obtain r1 o2 where o2: "ber_enctag o1 zc tag cons = Some (r1, o2)" "0 \<le> r1" "appended o1 ?t o2"
    by (rule enctag_append [OF assms(1,2,6,7), of zc cons]) (use assms(3) lt in auto)
  note f2 = appended_at_end [OF o2(3)] appended_frame(3,11) [OF o2(3)]
  obtain r2 o3 where o3: "ber_enclen o2 (int (length content)) lenlen exact = (r2, o3)" "0 < r2" "appended o2 ?l o3"
    by (rule enclen_form [of o2 "int (length content)" lenlen exact])
      (use f2 assms(2,3) lt enclen_readable [OF assms(9)] in auto)
  note f3 = appended_at_end [OF o3(3)] appended_frame(3,11) [OF o3(3)]
  obtain o4 where o4: "odr_write o3 content = (True, o4)" "appended o3 content o4"
    by (rule write_append [of o3 content]) (use f2 f3 assms(2,3) lt in auto)
  have "out o4 = out o1 @ ?t @ ?l @ content"
    using appended_trans [OF appended_trans [OF o2(3) o3(3)] o4(2)] by (simp add: appended_def)
  moreover have "completeBER ((?t @ ?l @ content) @ rest) = Some (int (length (?t @ ?l @ content)))" for rest
    using complete_element [OF assms(4-9), of 0 _ cons rest] by (simp add: completeBER_def)
  ultimately show ?thesis using o2(1,2) o3(1,2) o4(1) by blast
qed

theorem completeBER_accepts_encoding_witness:
  "\<exists>r1 o2 r2 o3 o4 e. ber_enctag (odr_createmem (\<lambda>_. 0) ODR_ENCODE) 2 1000 False = Some (r1, o2) \<and> 0 \<le> r1 \<and>
    ber_enclen o2 (int (length [1, 2, 3 :: byte])) 4 True = (r2, o3) \<and> 0 < r2 \<and>
    odr_write o3 [1, 2, 3] = (True, o4) \<and> out o4 = out (odr_createmem (\<lambda>_. 0) ODR_ENCODE) @ e \<and>
    (\<forall>rest. completeBER (e @ rest) = Some (int (length e)))"
  by (rule completeBER_accepts_encoding) (simp_all add: odr_limit_def readable_form_def)

end
