(* ===== verification/Yaz_Codec.thy ===== *)
theory Yaz_Codec
  imports Yaz_Ber
begin

text \<open>
  The ODR codecs: tag matching (\<^verbatim>\<open>ber_tag\<close> of \<^verbatim>\<open>ber_tag.c\<close>), the stack of constructed items
  (\<^verbatim>\<open>odr_cons.c\<close>), implicit tags (\<^verbatim>\<open>odr_tag.c\<close>), and the types INTEGER, ENUMERATED, BOOLEAN,
  NULL, OCTET STRING, BIT STRING, ANY, SEQUENCE, SEQUENCE OF and CHOICE (\<^verbatim>\<open>odr_int.c\<close>,
  \<^verbatim>\<open>odr_enum.c\<close>, \<^verbatim>\<open>odr_bool.c\<close>, \<^verbatim>\<open>odr_null.c\<close>, \<^verbatim>\<open>odr_oct.c\<close>, \<^verbatim>\<open>ber_oct.c\<close>, \<^verbatim>\<open>odr_bit.c\<close>,
  \<^verbatim>\<open>ber_bit.c\<close>, \<^verbatim>\<open>odr_any.c\<close>, \<^verbatim>\<open>ber_any.c\<close>, \<^verbatim>\<open>odr_seq.c\<close>, \<^verbatim>\<open>odr_choice.c\<close>). A codec is a
  function of the handle, the value pointer (\<^const>\<open>None\<close> is the null pointer), the optional flag
  and the element name. It returns the C return value, the value pointer afterwards, and the
  handle.
\<close>

type_synonym 'a odr_fun = "odr \<Rightarrow> 'a option \<Rightarrow> bool \<Rightarrow> string option \<Rightarrow> (bool \<times> 'a option \<times> odr) cres"

section \<open>Tags and the stack of constructed items\<close>

definition odr_constructed_more :: "odr \<Rightarrow> bool cres" where
  "odr_constructed_more o' =
     (if error o' \<noteq> ONONE then Some False
      else case stack o' of [] \<Rightarrow> Some False
      | t # _ \<Rightarrow>
         if con_len t \<ge> 0 then Some (int (bp o') - int (con_base t) < con_len t)
         else do {
           a \<leftarrow> odr_get o' (bp o');
           if a \<noteq> 0 then Some True
           else do {b \<leftarrow> odr_get o' (Suc (bp o')); Some (b \<noteq> 0)}})"

definition fail_element :: "odr \<Rightarrow> odr_error \<Rightarrow> int \<Rightarrow> string option \<Rightarrow> odr" where
  "fail_element o' e i name = odr_setelement (odr_seterror o' e i) name"

text \<open>\<open>ber_tag\<close> returns (return value, value pointer, constructed, handle).\<close>

definition ber_tag ::
  "odr \<Rightarrow> 'a option \<Rightarrow> int \<Rightarrow> int \<Rightarrow> bool \<Rightarrow> bool \<Rightarrow> string option \<Rightarrow> (int \<times> 'a option \<times> bool \<times> odr) cres" where
  "ber_tag o0 p0 zclass tag cons opt name =
     (let p = (if direction o0 = ODR_DECODE then None else p0);
          o1 = o0\<lparr>t_class := -1\<rparr>;
          o2 = (if stack o1 = [] then (snd (odr_seek o1 ODR_S_SET 0))\<lparr>top := 0, bp := 0, lclass := -1\<rparr> else o1)
      in case direction o2 of
        ODR_ENCODE \<Rightarrow>
          (case p of
             None \<Rightarrow> Some (0, p, cons, if opt then o2 else fail_element o2 OREQUIRED 24 name)
           | Some _ \<Rightarrow> do {(rd, o3) \<leftarrow> ber_enctag o2 zclass tag cons; Some (if rd < 0 then -1 else 1, p, cons, o3)})
      | ODR_DECODE \<Rightarrow> do {
          more \<leftarrow> (if stack o2 \<noteq> [] then odr_constructed_more o2 else Some True);
          if \<not> more then Some (0, p, cons, if opt then o2 else fail_element o2 OREQUIRED 25 name)
          else do {
            (ok, o3) \<leftarrow> (if lclass o2 < 0
               then do {
                 (r, c, t, k) \<leftarrow> ber_dectag (rest_of o2) (lclass o2, ltag o2, lcons o2) (odr_max o2);
                 Some (r > 0, o2\<lparr>br := r, lclass := c, ltag := t, lcons := k\<rparr>)}
               else Some (True, o2));
            if \<not> ok then Some (0, p, cons, fail_element o3 OPROTO 26 name)
            else if zclass = lclass o3 \<and> tag = ltag o3
            then Some (1, p, lcons o3, (odr_advance o3 (br o3))\<lparr>lclass := -1\<rparr>)
            else Some (0, p, cons, if opt then o3 else fail_element o3 OREQUIRED 27 name)}}
      | ODR_PRINT \<Rightarrow>
          Some (if p = None then 0 else 1, p, cons,
                if p = None \<and> \<not> opt then fail_element o2 OREQUIRED 28 name else o2)
      | ODR_BAD_DIRECTION \<Rightarrow> Some (0, p, cons, fail_element o2 OOTHER 29 name))"

definition odr_setlenlen :: "odr \<Rightarrow> int \<Rightarrow> odr" where
  "odr_setlenlen o' len = o'\<lparr>op_lenlen := len\<rparr>"

definition ODR_STACK_POP :: "odr \<Rightarrow> odr" where
  "ODR_STACK_POP o' = o'\<lparr>stack := tl (stack o'), reuse := hd (stack o') # reuse o', stack_depth := stack_depth o' - 1\<rparr>"

text \<open>Fresh entries come from the memory pool; no field of one is read before it is set.\<close>

definition fresh_con :: constack where
  "fresh_con = \<lparr>con_base = 0, con_base_offset = 0, con_len = 0, con_len_offset = 0, con_lenlen = 0, con_name = []\<rparr>"

definition set_top :: "(constack \<Rightarrow> constack) \<Rightarrow> odr \<Rightarrow> odr" where
  "set_top f o' = o'\<lparr>stack := f (hd (stack o')) # tl (stack o')\<rparr>"

definition odr_stack_push :: "odr \<Rightarrow> bool \<times> odr" where
  "odr_stack_push o' =
     (case reuse o' of
        r # rs \<Rightarrow> (True, o'\<lparr>stack := r # stack o', reuse := rs, stack_depth := Suc (stack_depth o')\<rparr>)
      | [] \<Rightarrow>
          if stack o' \<noteq> [] \<and> stack_depth o' \<ge> 2000 then (False, odr_seterror o' OSTACK 30)
          else (True, o'\<lparr>stack := fresh_con # stack o', stack_depth := Suc (stack_depth o')\<rparr>))"

text \<open>The last steps of \<open>odr_constructed_begin\<close>: set the start of the content.\<close>

definition con_finish :: "'a option \<Rightarrow> odr \<Rightarrow> (bool \<times> 'a option \<times> odr) cres" where
  "con_finish p o' = Some (True, p, set_top (\<lambda>t. t\<lparr>con_base := bp o', con_base_offset := odr_tell o'\<rparr>) o')"

text \<open>Write or read the length of the item on top of the stack.\<close>

definition con_length :: "odr \<Rightarrow> 'a option \<Rightarrow> int \<Rightarrow> string option \<Rightarrow> (bool \<times> 'a option \<times> odr) cres" where
  "con_length o5 p lenlen name =
     (case direction o5 of
        ODR_ENCODE \<Rightarrow>
          let o6 = set_top (\<lambda>t. t\<lparr>con_lenlen := lenlen\<rparr>) o5 in
          if lenlen < 0 then Some (False, p, ODR_STACK_POP (odr_seterror o6 OSPACE 40))
          else if lenlen > 5 then None
          else (case odr_write o6 (replicate (nat lenlen) 0) of (ok, o7) \<Rightarrow>
            if ok then con_finish p o7 else Some (False, p, ODR_STACK_POP o7))
      | ODR_DECODE \<Rightarrow> do {
          (r, l) \<leftarrow> ber_declen (rest_of o5) (con_len (hd (stack o5))) (odr_max o5);
          let o6 = set_top (\<lambda>t. t\<lparr>con_len := l\<rparr>) o5 in
          if r < 0 then Some (False, p, ODR_STACK_POP (odr_seterror o6 OOTHER 31))
          else let o7 = odr_advance (set_top (\<lambda>t. t\<lparr>con_lenlen := r\<rparr>) o6) r in
            if l > odr_max o7 then Some (False, p, ODR_STACK_POP (odr_seterror o7 OOTHER 32))
            else con_finish p o7}
      | ODR_PRINT \<Rightarrow>
          (let o6 = odr_printf (odr_prname o5 name) (''{'' @ [char_of (10 :: nat)])
           in con_finish p (o6\<lparr>indent := Suc (indent o6)\<rparr>))
      | ODR_BAD_DIRECTION \<Rightarrow> Some (False, p, ODR_STACK_POP (odr_seterror o5 OOTHER 33)))"

text \<open>The part of \<open>odr_constructed_begin\<close> after the tag: push an entry, then its length.\<close>

definition con_enter :: "odr \<Rightarrow> 'a option \<Rightarrow> int \<Rightarrow> string option \<Rightarrow> (bool \<times> 'a option \<times> odr) cres" where
  "con_enter o3 p lenlen name =
     (case odr_stack_push o3 of (pushed, o4) \<Rightarrow>
      if \<not> pushed then Some (False, p, o4)
      else con_length (set_top (\<lambda>t. t\<lparr>con_len_offset := odr_tell o4,
                         con_name := (case name of None \<Rightarrow> ''?'' | Some n \<Rightarrow> n)\<rparr>) o4) p lenlen name)"

definition odr_constructed_begin ::
  "odr \<Rightarrow> 'a option \<Rightarrow> int \<Rightarrow> int \<Rightarrow> string option \<Rightarrow> (bool \<times> 'a option \<times> odr) cres" where
  "odr_constructed_begin o0 p0 zclass tag name =
     (let lenlen = op_lenlen o0 in
      if error o0 \<noteq> ONONE then Some (False, p0, o0)
      else let o1 = o0\<lparr>op_lenlen := 1\<rparr>;
               o2 = (if t_class o1 < 0 then o1\<lparr>t_class := zclass, t_tag := tag\<rparr> else o1)
      in do {
        (res, p, cons, o3) \<leftarrow> ber_tag o2 p0 (t_class o2) (t_tag o2) True True name;
        if res \<le> 0 \<or> \<not> cons then Some (False, p, o3) else con_enter o3 p lenlen name})"

definition odr_constructed_end :: "odr \<Rightarrow> (bool \<times> odr) cres" where
  "odr_constructed_end o' =
     (if error o' \<noteq> ONONE then Some (False, o')
      else case stack o' of [] \<Rightarrow> Some (False, odr_seterror o' OOTHER 34)
      | t # _ \<Rightarrow>
        (case direction o' of
           ODR_DECODE \<Rightarrow>
             if con_len t < 0 then do {
               a \<leftarrow> odr_get o' (bp o');
               let o1 = odr_advance o' 1 in
               if a \<noteq> 0 then Some (False, odr_seterror o1 OOTHER 35)
               else do {
                 b \<leftarrow> odr_get o1 (bp o1);
                 let o2 = odr_advance o1 1 in
                 if b = 0 then Some (True, ODR_STACK_POP o2)
                 else Some (False, odr_seterror o2 OOTHER 35)}}
             else if int (bp o') - int (con_base t) \<noteq> con_len t then Some (False, odr_seterror o' OCONLEN 36)
             else Some (True, ODR_STACK_POP o')
         | ODR_ENCODE \<Rightarrow>
             let p = odr_tell o';
                 o1 = snd (odr_seek o' ODR_S_SET (con_len_offset t))
             in (case ber_enclen o1 (int p - int (con_base_offset t)) (con_lenlen t) True of (res, o2) \<Rightarrow>
               if res < 0 then Some (False, odr_seterror o2 OLENOV 37)
               else let o3 = snd (odr_seek o2 ODR_S_END 0) in
                 if res = 0 then
                   (case odr_putc o3 0 of (ok, o4) \<Rightarrow>
                      if \<not> ok then Some (False, o4)
                      else case odr_putc o4 0 of (ok5, o5) \<Rightarrow>
                        if \<not> ok5 then Some (False, o5) else Some (True, ODR_STACK_POP o5))
                 else Some (True, ODR_STACK_POP o3))
         | ODR_PRINT \<Rightarrow>
             (let o1 = ODR_STACK_POP o'; o2 = o1\<lparr>indent := indent o1 - 1\<rparr>
              in Some (True, odr_printf (odr_prname o2 None) (''}'' @ [char_of (10 :: nat)])))
         | ODR_BAD_DIRECTION \<Rightarrow> Some (False, odr_seterror o' OOTHER 38)))"

definition odr_peektag :: "odr \<Rightarrow> int \<times> int \<times> bool \<Rightarrow> (bool \<times> (int \<times> int \<times> bool) \<times> odr) cres" where
  "odr_peektag o' outs =
     (if direction o' \<noteq> ODR_DECODE then Some (False, outs, odr_seterror o' OOTHER 48)
      else do {
        more \<leftarrow> (if stack o' \<noteq> [] then odr_constructed_more o' else Some True);
        if \<not> more then Some (False, outs, o')
        else do {
          (r, outs') \<leftarrow> ber_dectag (rest_of o') outs (odr_max o');
          if r \<le> 0 then Some (False, outs', odr_seterror o' OREQUIRED 49) else Some (True, outs', o')}})"

definition odr_implicit_settag :: "odr \<Rightarrow> int \<Rightarrow> int \<Rightarrow> bool \<times> odr" where
  "odr_implicit_settag o' zclass tag =
     (if error o' \<noteq> ONONE then (False, o')
      else (True, if t_class o' < 0 then o'\<lparr>t_class := zclass, t_tag := tag\<rparr> else o'))"

text \<open>\<open>init\<close> is the content of the freshly allocated structure.\<close>

definition odr_initmember :: "'a \<Rightarrow> odr \<Rightarrow> 'a option \<Rightarrow> bool \<times> 'a option \<times> odr" where
  "odr_initmember init o' p =
     (if error o' \<noteq> ONONE then (False, p, o')
      else if direction o' = ODR_DECODE then (True, Some init, o')
      else if p = None then (False, p, o'\<lparr>t_class := -1\<rparr>)
      else (True, p, o'))"


section \<open>Simple types\<close>

text \<open>
  The common part of every type: default tag, tag matching, missing element. \<open>body\<close> is the part
  of the function after the tag was matched, given handle, value pointer and constructed bit.
\<close>

definition odr_type ::
  "int \<Rightarrow> (odr \<Rightarrow> 'a option \<Rightarrow> bool \<Rightarrow> (bool \<times> 'a option \<times> odr) cres) \<Rightarrow> 'a odr_fun" where
  "odr_type dtag body o0 p0 opt name =
     (if error o0 \<noteq> ONONE then Some (False, p0, o0)
      else let o1 = (if t_class o0 < 0 then o0\<lparr>t_class := 0, t_tag := dtag\<rparr> else o0) in
      do {
        (res, p, cons, o2) \<leftarrow> ber_tag o1 p0 (t_class o1) (t_tag o1) False opt name;
        if res < 0 then Some (False, p, o2)
        else if res = 0 then (case odr_missing o2 opt name of (r, o3) \<Rightarrow> Some (r, p, o3))
        else body o2 p cons})"

text \<open>The content of freshly allocated memory is arbitrary.\<close>

definition uninit_int :: "odr \<Rightarrow> 64 word" where
  "uninit_int o' = ucast (junk o' 0)"

abbreviation nl :: string where
  "nl \<equiv> [char_of (10 :: nat)]"

text \<open>A C function that gets the value behind the pointer: undefined on the null pointer.\<close>

definition with_value ::
  "'a option \<Rightarrow> ('a \<Rightarrow> (bool \<times> 'a \<times> odr) cres) \<Rightarrow> (bool \<times> 'a option \<times> odr) cres" where
  "with_value p f = do {x \<leftarrow> p; (r, y, o') \<leftarrow> f x; Some (r, Some y, o')}"

definition odr_integer :: "64 word odr_fun" where
  "odr_integer o0 p0 opt name = odr_type 2 (\<lambda>o2 p cons.
     if direction o2 = ODR_PRINT then
       do {v \<leftarrow> p; Some (True, p, odr_printf (odr_prname o2 name) (dec_int (sint v) @ nl))}
     else if cons then Some (False, p, odr_seterror o2 OPROTO 1)
     else let p1 = (if direction o2 = ODR_DECODE then Some (uninit_int o2) else p)
          in with_value p1 (ber_integer o2)) o0 p0 opt name"

text \<open>The value is printed with a 32-bit conversion.\<close>

definition odr_enum :: "64 word odr_fun" where
  "odr_enum o0 p0 opt name = odr_type 10 (\<lambda>o2 p cons.
     if direction o2 = ODR_PRINT then
       do {v \<leftarrow> p; Some (True, p, odr_printf (odr_prname o2 name) (dec_int (wrap32 (sint v)) @ nl))}
     else if cons then Some (False, p, odr_seterror o2 OPROTO 54)
     else let p1 = (if direction o2 = ODR_DECODE then Some (uninit_int o2) else p)
          in with_value p1 (ber_integer o2)) o0 p0 opt name"

definition odr_bool :: "int odr_fun" where
  "odr_bool o0 p0 opt name = odr_type 1 (\<lambda>o2 p cons.
     if direction o2 = ODR_PRINT then
       do {v \<leftarrow> p; Some (True, p, odr_printf (odr_prname o2 name) ((if v \<noteq> 0 then ''TRUE'' else ''FALSE'') @ nl))}
     else if cons then Some (False, p, o2)
     else let p1 = (if direction o2 = ODR_DECODE then Some (sint (uninit_int o2)) else p)
          in with_value p1 (ber_boolean o2)) o0 p0 opt name"

text \<open>A present NULL is a pointer to the unit value.\<close>

definition odr_null :: "unit odr_fun" where
  "odr_null o0 p0 opt name = odr_type 5 (\<lambda>o2 p cons.
     if direction o2 = ODR_PRINT then Some (True, p, odr_printf (odr_prname o2 name) (''NULL'' @ nl))
     else let p1 = (if direction o2 = ODR_DECODE then Some () else p)
          in do {(r, o3) \<leftarrow> ber_null o2; Some (r, p1, o3)}) o0 p0 opt name"

section \<open>Octet strings\<close>

record odr_oct =
  oct_buf :: "byte list option"
  oct_len :: nat

abbreviation oct_of :: "byte list \<Rightarrow> odr_oct" where
  "oct_of bs \<equiv> \<lparr>oct_buf = Some bs, oct_len = length bs\<rparr>"

abbreviation oct_null :: odr_oct where
  "oct_null \<equiv> \<lparr>oct_buf = None, oct_len = 0\<rparr>"

text \<open>The first \<open>oct_len\<close> bytes behind the pointer.\<close>

definition oct_bytes :: "odr_oct \<Rightarrow> byte list cres" where
  "oct_bytes p = do {b \<leftarrow> oct_buf p; if oct_len p \<le> length b then Some (take (oct_len p) b) else None}"

definition oct_text :: "odr_oct \<Rightarrow> byte list cres" where
  "oct_text p = (if oct_len p = 0 then Some [] else oct_bytes p)"

definition odp_more_chunks :: "odr \<Rightarrow> nat \<Rightarrow> int \<Rightarrow> (bool \<times> odr) cres" where
  "odp_more_chunks o' base len =
     (if len = 0 then Some (False, o')
      else if len < 0 then do {
        a \<leftarrow> odr_get o' (bp o');
        if a \<noteq> 0 then Some (True, o')
        else do {
          b \<leftarrow> odr_get o' (Suc (bp o'));
          if b = 0 then Some (False, odr_advance o' 2) else Some (True, o')}}
      else Some (int (bp o') - int base < len, o'))"

text \<open>
  \<open>ber_octetstring\<close> and \<open>odr_octetstring\<close> call each other for the chunks of a constructed
  string. \<open>n\<close> bounds the number of nested calls and loop iterations; no result means that it was
  not enough, or that memory outside the buffer was read.
\<close>

fun ber_octetstring :: "nat \<Rightarrow> odr \<Rightarrow> odr_oct \<Rightarrow> bool \<Rightarrow> (bool \<times> odr_oct \<times> odr) cres"
  and oct_chunks :: "nat \<Rightarrow> odr \<Rightarrow> nat \<Rightarrow> int \<Rightarrow> (bool \<times> odr) cres"
  and odr_octetstring :: "nat \<Rightarrow> odr_oct odr_fun" where
  "ber_octetstring 0 o' p cons = None"
| "ber_octetstring (Suc n) o' p cons =
     (case direction o' of
        ODR_DECODE \<Rightarrow> do {
          (res, len) \<leftarrow> ber_declen (rest_of o') 0 (odr_max o');
          if res < 0 then Some (False, p, odr_seterror o' OPROTO 14)
          else let o1 = odr_advance o' res in
            if cons then do {(r, o2) \<leftarrow> oct_chunks n o1 (bp o1) len; Some (r, p, o2)}
            else if len < 0 then Some (False, p, odr_seterror o1 OOTHER 15)
            else if len > odr_max o1 then Some (False, p, odr_seterror o1 OOTHER 16)
            else Some (True, \<lparr>oct_buf = Some (take (nat len) (rest_of o1)), oct_len = nat len\<rparr>, odr_advance o1 len)}
      | ODR_ENCODE \<Rightarrow>
          (case ber_enclen o' (int (oct_len p)) 5 False of (res, o1) \<Rightarrow>
             if res < 0 then Some (False, p, o1)
             else if oct_len p = 0 then Some (True, p, o1)
             else do {bs \<leftarrow> oct_bytes p; case odr_write o1 bs of (ok, o2) \<Rightarrow> Some (ok, p, o2)})
      | ODR_PRINT \<Rightarrow> Some (True, p, o')
      | ODR_BAD_DIRECTION \<Rightarrow> Some (False, p, odr_seterror o' OOTHER 17))"
| "oct_chunks 0 o' base len = None"
| "oct_chunks (Suc n) o' base len = do {
     (more, o1) \<leftarrow> odp_more_chunks o' base len;
     if \<not> more then Some (True, o1)
     else do {
       (r, _, o2) \<leftarrow> odr_octetstring n o1 None False None;
       if \<not> r then Some (False, o2) else oct_chunks n o2 base len}}"
| "odr_octetstring 0 o0 p0 opt name = None"
| "odr_octetstring (Suc n) o0 p0 opt name = odr_type 4 (\<lambda>o2 p cons.
     if direction o2 = ODR_PRINT then do {
       v \<leftarrow> p; bs \<leftarrow> oct_text v;
       let o3 = odr_printf (odr_prname o2 name) (''OCTETSTRING(len='' @ dec_int (int (oct_len v)) @ '') '');
           o4 = o3\<lparr>printed := printed o3 @ text_of bs\<rparr>
       in Some (True, p, odr_printf o4 nl)}
     else let p1 = (if direction o2 = ODR_DECODE then Some oct_null else p)
          in do {
            v \<leftarrow> p1; (r, w, o3) \<leftarrow> ber_octetstring n o2 v cons;
            if r then Some (True, Some w, o3) else Some (False, Some w, odr_seterror o3 OOTHER 43)}) o0 p0 opt name"

text \<open>
  \<open>odr_cstring\<close>: the value is a NUL-terminated string. The decoder writes the terminator behind
  the bytes of the octet string, which is undefined when there is no buffer.
\<close>

definition odr_cstring :: "nat \<Rightarrow> byte list odr_fun" where
  "odr_cstring n o0 p0 opt name = odr_type 4 (\<lambda>o2 p cons.
     if direction o2 = ODR_PRINT then
       do {v \<leftarrow> p; Some (True, p, odr_printf (odr_prname o2 name) ([char_of (39 :: nat)] @ text_of (cstr v) @ [char_of (39 :: nat)] @ nl))}
     else do {
       t \<leftarrow> (if direction o2 = ODR_ENCODE then do {v \<leftarrow> p; Some (oct_of (cstr v))} else Some oct_null);
       (r, w, o3) \<leftarrow> ber_octetstring n o2 t cons;
       if \<not> r then Some (False, p, o3)
       else if direction o3 = ODR_DECODE then do {
         b \<leftarrow> oct_buf w;
         if oct_len w \<le> length b then Some (True, Some (take (oct_len w) b), o3) else None}
       else Some (True, p, o3)}) o0 p0 opt name"

section \<open>Bit strings\<close>

record odr_bitmask =
  bits :: "byte list"
  btop :: int

definition ODR_BITMASK_SIZE :: nat where
  "ODR_BITMASK_SIZE = 256"

definition ODR_MASK_GET :: "odr_bitmask \<Rightarrow> nat \<Rightarrow> bool" where
  "ODR_MASK_GET mk num =
     (int (num div 8) \<le> btop mk \<and> bits mk ! (num div 8) AND drop_bit (num mod 8) 0x80 \<noteq> 0)"

definition ODR_MASK_SET :: "odr_bitmask \<Rightarrow> nat \<Rightarrow> odr_bitmask" where
  "ODR_MASK_SET mk num =
     (let m = mk\<lparr>bits := (bits mk)[num div 8 := bits mk ! (num div 8) OR drop_bit (num mod 8) 0x80]\<rparr>
      in if btop m < int (num div 8) then m\<lparr>btop := int (num div 8)\<rparr> else m)"

definition ODR_MASK_ZERO :: odr_bitmask where
  "ODR_MASK_ZERO = \<lparr>bits = replicate ODR_BITMASK_SIZE 0, btop = -1\<rparr>"

fun print_bits :: "odr \<Rightarrow> odr_bitmask \<Rightarrow> nat list \<Rightarrow> odr" where
  "print_bits o' m [] = o'"
| "print_bits o' m (j # js) =
     (let o1 = odr_printf o' (if ODR_MASK_GET m j then ''1'' else ''0'');
          o2 = (if j \<noteq> 0 \<and> Suc j mod 8 = 0 then odr_printf o1 ''-'' else o1)
      in print_bits o2 m js)"

text \<open>The last bit printed: \<^verbatim>\<open>while (--i > 0) if (ODR_MASK_GET(*p, i)) break;\<close>.\<close>

fun last_bit :: "odr_bitmask \<Rightarrow> nat \<Rightarrow> nat" where
  "last_bit m 0 = 0"
| "last_bit m (Suc i) = (if i = 0 then 0 else if ODR_MASK_GET m i then i else last_bit m i)"

fun ber_bitstring :: "nat \<Rightarrow> odr \<Rightarrow> odr_bitmask \<Rightarrow> bool \<Rightarrow> (bool \<times> odr_bitmask \<times> odr) cres"
  and bit_chunks :: "nat \<Rightarrow> odr \<Rightarrow> nat \<Rightarrow> int \<Rightarrow> (bool \<times> odr) cres"
  and odr_bitstring :: "nat \<Rightarrow> odr_bitmask odr_fun" where
  "ber_bitstring 0 o' p cons = None"
| "ber_bitstring (Suc n) o' p cons =
     (case direction o' of
        ODR_DECODE \<Rightarrow> do {
          (res, len) \<leftarrow> ber_declen (rest_of o') 0 (odr_max o');
          if res < 0 then Some (False, p, odr_seterror o' OPROTO 4)
          else let o1 = odr_advance o' res in
            if cons then do {(r, o2) \<leftarrow> bit_chunks n o1 (bp o1) len; Some (r, p, o2)}
            else if len < 0 then Some (False, p, odr_seterror o1 OOTHER 5)
            else if len = 0 then Some (True, p, o1)
            else if len - 1 > int ODR_BITMASK_SIZE then Some (False, p, odr_seterror o1 OOTHER 6)
            else if len > odr_max o1 then Some (False, p, odr_seterror o1 OOTHER 7)
            else let o2 = odr_advance o1 1; k = nat (len - 1); at = nat (btop p + 1) in
              if at + k > length (bits p) then None
              else Some (True, p\<lparr>bits := take at (bits p) @ take k (rest_of o2) @ drop (at + k) (bits p),
                                 btop := btop p + int k\<rparr>, odr_advance o2 (int k))}
      | ODR_ENCODE \<Rightarrow>
          (case ber_enclen o' (btop p + 2) 5 False of (res, o1) \<Rightarrow>
             if res < 0 then Some (False, p, o1)
             else case odr_putc o1 0 of (ok, o2) \<Rightarrow>
               if \<not> ok then Some (False, p, o2)
               else if btop p < 0 then Some (True, p, o2)
               else if nat (btop p + 1) > length (bits p) then None
               else case odr_write o2 (take (nat (btop p + 1)) (bits p)) of (ok3, o3) \<Rightarrow> Some (ok3, p, o3))
      | ODR_PRINT \<Rightarrow> Some (True, p, o')
      | ODR_BAD_DIRECTION \<Rightarrow> Some (False, p, odr_seterror o' OOTHER 8))"
| "bit_chunks 0 o' base len = None"
| "bit_chunks (Suc n) o' base len = do {
     (more, o1) \<leftarrow> odp_more_chunks o' base len;
     if \<not> more then Some (True, o1)
     else do {
       (r, _, o2) \<leftarrow> odr_bitstring n o1 None False None;
       if \<not> r then Some (False, o2) else bit_chunks n o2 base len}}"
| "odr_bitstring 0 o0 p0 opt name = None"
| "odr_bitstring (Suc n) o0 p0 opt name = odr_type 3 (\<lambda>o2 p cons.
     if direction o2 = ODR_PRINT then do {
       v \<leftarrow> p;
       let o3 = odr_printf (odr_prname o2 name) (''BITSTRING(len='' @ dec_int (btop v + 1) @ '') '');
           o4 = print_bits o3 v [0..<Suc (last_bit v ODR_BITMASK_SIZE)]
       in Some (True, p, odr_printf o4 nl)}
     else let p1 = (if direction o2 = ODR_DECODE then Some ODR_MASK_ZERO else p)
          in with_value p1 (\<lambda>v. ber_bitstring n o2 v cons)) o0 p0 opt name"

section \<open>ANY\<close>

definition ber_any :: "odr \<Rightarrow> odr_oct \<Rightarrow> (bool \<times> odr_oct \<times> odr) cres" where
  "ber_any o' p =
     (case direction o' of
        ODR_DECODE \<Rightarrow> do {
          res \<leftarrow> completeBER_n (rest_of o') 0;
          if res \<le> 0 then Some (False, p, odr_seterror o' OPROTO 2)
          else Some (True, \<lparr>oct_buf = Some (take (nat res) (rest_of o')), oct_len = nat res\<rparr>, odr_advance o' res)}
      | ODR_ENCODE \<Rightarrow> do {
          bs \<leftarrow> oct_text p;
          case odr_write o' bs of (ok, o1) \<Rightarrow> Some (ok, p, o1)}
      | _ \<Rightarrow> Some (False, p, odr_seterror o' OOTHER 3))"

definition odr_any :: "odr_oct odr_fun" where
  "odr_any o' p0 opt name =
     (if error o' \<noteq> ONONE then Some (False, p0, o')
      else if direction o' = ODR_PRINT then do {
        v \<leftarrow> p0;
        Some (True, p0, odr_printf (odr_prname o' name) (''ANY (len='' @ dec_int (int (oct_len v)) @ '')'' @ nl))}
      else let p1 = (if direction o' = ODR_DECODE then Some oct_null else p0)
           in do {
             (r, p2, o1) \<leftarrow> with_value p1 (ber_any o');
             if r then Some (True, p2, o1)
             else (case odr_missing o1 opt name of (m, o2) \<Rightarrow> Some (m, None, o2))})"


section \<open>SEQUENCE, SET and their OF forms (odr_seq.c)\<close>

text \<open>\<open>init\<close> is the content of the structure that is allocated, \<^const>\<open>None\<close> when \<open>size\<close> is 0.\<close>

definition begin_default ::
  "int \<Rightarrow> 'a option \<Rightarrow> odr \<Rightarrow> 'a option \<Rightarrow> string option \<Rightarrow> (bool \<times> 'a option \<times> odr) cres" where
  "begin_default dtag init o0 p0 name =
     (if error o0 \<noteq> ONONE then Some (False, p0, o0)
      else let o1 = (if t_class o0 < 0 then o0\<lparr>t_class := 0, t_tag := dtag\<rparr> else o0);
               p1 = (if direction o1 = ODR_DECODE then None else p0)
      in do {
        (r, p2, o2) \<leftarrow> odr_constructed_begin o1 p1 (t_class o1) (t_tag o1) name;
        if r then Some (True, if direction o2 = ODR_DECODE \<and> init \<noteq> None then init else p2, o2)
        else Some (False, p2, o2)})"

definition odr_sequence_begin ::
  "'a option \<Rightarrow> odr \<Rightarrow> 'a option \<Rightarrow> string option \<Rightarrow> (bool \<times> 'a option \<times> odr) cres" where
  "odr_sequence_begin init o0 p0 name = begin_default 16 init o0 p0 name"

definition odr_set_begin ::
  "'a option \<Rightarrow> odr \<Rightarrow> 'a option \<Rightarrow> string option \<Rightarrow> (bool \<times> 'a option \<times> odr) cres" where
  "odr_set_begin init o0 p0 name = begin_default 17 init o0 p0 name"

definition odr_sequence_end :: "odr \<Rightarrow> (bool \<times> odr) cres" where
  "odr_sequence_end o' = odr_constructed_end o'"

text \<open>
  The element loops of \<open>odr_sequence_x\<close>. The array that grows by doubling is a list; \<open>*num\<close> is its
  length. \<open>n\<close> bounds the number of iterations of the decoding loop.
\<close>

fun seq_decode :: "nat \<Rightarrow> 'a odr_fun \<Rightarrow> odr \<Rightarrow> 'a option list \<Rightarrow> (bool \<times> 'a option list \<times> odr) cres" where
  "seq_decode 0 f o' acc = None"
| "seq_decode (Suc n) f o' acc = do {
     more \<leftarrow> odr_constructed_more o';
     if \<not> more then Some (True, acc, o')
     else do {
       (r, p, o1) \<leftarrow> f o' None False None;
       if \<not> r then Some (False, acc, o1) else seq_decode n f o1 (acc @ [p])}}"

fun seq_encode :: "'a odr_fun \<Rightarrow> odr \<Rightarrow> 'a option list \<Rightarrow> (bool \<times> 'a option list \<times> odr) cres" where
  "seq_encode f o' [] = Some (True, [], o')"
| "seq_encode f o' (p # ps) = do {
     (r, q, o1) \<leftarrow> f o' p False None;
     if \<not> r then Some (False, q # ps, o1)
     else do {(r2, qs, o2) \<leftarrow> seq_encode f o1 ps; Some (r2, q # qs, o2)}}"

definition odr_sequence_x ::
  "nat \<Rightarrow> 'a odr_fun \<Rightarrow> odr \<Rightarrow> 'a option list \<Rightarrow> (bool \<times> 'a option list \<times> odr) cres" where
  "odr_sequence_x n f o' ps =
     (case direction o' of
        ODR_DECODE \<Rightarrow> do {
          (r, qs, o1) \<leftarrow> seq_decode n f o' [];
          if \<not> r then Some (False, qs, o1)
          else do {(e, o2) \<leftarrow> odr_sequence_end o1; Some (e, qs, o2)}}
      | ODR_BAD_DIRECTION \<Rightarrow> Some (False, ps, odr_seterror o' OOTHER 47)
      | _ \<Rightarrow> do {
          (r, qs, o1) \<leftarrow> seq_encode f o' ps;
          if \<not> r then Some (False, qs, o1)
          else do {(e, o2) \<leftarrow> odr_sequence_end o1; Some (e, qs, o2)}})"

text \<open>The array pointer is null when the list is absent.\<close>

definition odr_sequence_of ::
  "nat \<Rightarrow> 'a odr_fun \<Rightarrow> odr \<Rightarrow> 'a option list option \<Rightarrow> string option \<Rightarrow> (bool \<times> 'a option list option \<times> odr) cres" where
  "odr_sequence_of n f o0 p0 name = do {
     (r, p, o1) \<leftarrow> odr_sequence_begin None o0 p0 name;
     if \<not> r then Some (False, p, o1)
     else do {
       (r2, qs, o2) \<leftarrow> odr_sequence_x n f o1 (case p of None \<Rightarrow> [] | Some ps \<Rightarrow> ps);
       Some (r2, Some qs, o2)}}"

definition odr_set_of ::
  "nat \<Rightarrow> 'a odr_fun \<Rightarrow> odr \<Rightarrow> 'a option list option \<Rightarrow> string option \<Rightarrow> (bool \<times> 'a option list option \<times> odr) cres" where
  "odr_set_of n f o0 p0 name = do {
     (r, p, o1) \<leftarrow> odr_set_begin None o0 p0 name;
     if \<not> r then Some (False, p, o1)
     else do {
       (r2, qs, o2) \<leftarrow> odr_sequence_x n f o1 (case p of None \<Rightarrow> [] | Some ps \<Rightarrow> ps);
       Some (r2, Some qs, o2)}}"

section \<open>CHOICE (odr_choice.c) and tagging macros (odr.h)\<close>

record 'a odr_arm =
  arm_tagmode :: int
  arm_zclass :: int
  arm_tag :: int
  arm_which :: int
  arm_fun :: "'a odr_fun"
  arm_name :: "string option"

text \<open>
  The loop over the arms, up to the terminating entry. \<open>cl\<close> and \<open>tg\<close> are the tag that was
  read or set last; the result has the choice taken as \<open>which\<close>.
\<close>

fun choice_loop ::
  "'a odr_arm list \<Rightarrow> odr \<Rightarrow> 'a option \<Rightarrow> int \<Rightarrow> int \<Rightarrow> int \<Rightarrow> int \<Rightarrow> (bool \<times> 'a option \<times> int \<times> odr) cres" where
  "choice_loop [] o' p which bias cl tg = Some (False, p, which, o')"
| "choice_loop (a # as) o' p which bias cl tg =
     (let dec = (direction o' = ODR_DECODE) in
      if dec \<and> bias \<ge> 0 \<and> bias \<noteq> arm_which a then choice_loop as o' p which bias cl tg
      else if \<not> dec \<and> which \<noteq> arm_which a then choice_loop as o' p which bias cl tg
      else let which1 = (if dec then arm_which a else which) in
        if arm_tagmode a \<noteq> -1 then do {
          (stop, cl1, tg1) \<leftarrow>
            (if dec \<and> cl < 0 then do {
               more \<leftarrow> (if stack o' \<noteq> [] then odr_constructed_more o' else Some True);
               if \<not> more then Some (True, cl, tg)
               else do {
                 (r, c, t, k) \<leftarrow> ber_dectag (rest_of o') (cl, tg, False) (odr_max o');
                 Some (r \<le> 0, c, t)}}
             else Some (False, if dec then cl else arm_zclass a, if dec then tg else arm_tag a));
          if stop then Some (False, p, which1, o')
          else if tg1 = arm_tag a \<and> cl1 = arm_zclass a then
            (if arm_tagmode a = 0 then do {
               (r, p1, o1) \<leftarrow> arm_fun a (snd (odr_implicit_settag o' cl1 tg1)) p False (arm_name a);
               Some (r, p1, which1, o1)}
             else do {
               (r, p1, o1) \<leftarrow> odr_constructed_begin o' p cl1 tg1 None;
               if \<not> r then Some (False, p1, which1, o1)
               else do {
                 (r2, p2, o2) \<leftarrow> arm_fun a o1 p1 False (arm_name a);
                 if \<not> r2 then Some (False, p2, which1, o2)
                 else do {(e, o3) \<leftarrow> odr_constructed_end o2; Some (e, p2, which1, o3)}}})
          else choice_loop as o' p which1 bias cl1 tg1}
        else do {
          (r, p1, o1) \<leftarrow> arm_fun a o' p True (arm_name a);
          if r \<and> p1 \<noteq> None then Some (True, p1, which1, o1)
          else choice_loop as o1 p1 which1 bias cl tg})"

definition odr_choice ::
  "'a odr_arm list \<Rightarrow> odr \<Rightarrow> 'a option \<Rightarrow> int \<Rightarrow> string option \<Rightarrow> (bool \<times> 'a option \<times> int \<times> odr) cres" where
  "odr_choice arms o' p which name =
     (let bias = choice_bias o'; dec = (direction o' = ODR_DECODE) in
      if error o' \<noteq> ONONE then Some (False, p, which, o')
      else if \<not> dec \<and> p = None then Some (False, p, which, o')
      else let which1 = (if dec then -1 else which);
               p1 = (if dec then None else p);
               o1 = o'\<lparr>choice_bias := -1\<rparr>;
               o2 = (if direction o1 = ODR_PRINT \<and> name \<noteq> None
                     then odr_printf (odr_prname o1 name) (''choice'' @ nl) else o1)
      in choice_loop arms o2 p1 which1 bias (-1) 0)"

definition odr_choice_bias :: "odr \<Rightarrow> int \<Rightarrow> odr" where
  "odr_choice_bias o' what = (if enable_bias o' then o'\<lparr>choice_bias := what\<rparr> else o')"

definition odr_choice_enable_bias :: "odr \<Rightarrow> bool \<Rightarrow> odr" where
  "odr_choice_enable_bias o' mode = o'\<lparr>enable_bias := mode\<rparr>"

definition odr_implicit_tag :: "'a odr_fun \<Rightarrow> int \<Rightarrow> int \<Rightarrow> 'a odr_fun" where
  "odr_implicit_tag t cl tg o' p opt name = t (snd (odr_implicit_settag o' cl tg)) p opt name"

definition odr_explicit_tag :: "'a odr_fun \<Rightarrow> int \<Rightarrow> int \<Rightarrow> 'a odr_fun" where
  "odr_explicit_tag t cl tg o' p opt name = do {
     (b, p1, o1) \<leftarrow> odr_constructed_begin o' p cl tg None;
     if b then do {
       (r, p2, o2) \<leftarrow> t o1 p1 opt name;
       if \<not> r then Some (False, p2, o2)
       else do {(e, o3) \<leftarrow> odr_constructed_end o2; Some (e, p2, o3)}}
     else (case odr_missing o1 opt name of (m, o2) \<Rightarrow> Some (m, p1, o2))}"

definition odr_visiblestring :: "nat \<Rightarrow> byte list odr_fun" where
  "odr_visiblestring n = odr_implicit_tag (odr_cstring n) 0 26"

definition odr_graphicstring :: "nat \<Rightarrow> byte list odr_fun" where
  "odr_graphicstring n = odr_implicit_tag (odr_cstring n) 0 25"

definition odr_generalizedtime :: "nat \<Rightarrow> byte list odr_fun" where
  "odr_generalizedtime n = odr_implicit_tag (odr_cstring n) 0 24"

end
