(* ===== verification/Yaz_Codec_Laws.thy ===== *)
theory Yaz_Codec_Laws
  imports Yaz_Codec
begin

text \<open>
  The contract of a codec and its proof for the types of \<^verbatim>\<open>Yaz_Codec\<close>: a locale states that the
  encoder appends one element (identifier octets and body) and that the decoder, given these
  octets, returns the value and consumes exactly them. SEQUENCE OF, implicit and explicit tags
  are shown once, inside the locale, to turn a codec into a codec.
\<close>

section \<open>States and their changes\<close>

text \<open>The tag an item gets: the one set by an enclosing implicit tag, or the default \<open>ct\<close>.\<close>

definition eff :: "int \<times> int \<Rightarrow> odr \<Rightarrow> int \<times> int" where
  "eff ct o' = (if t_class o' < 0 then ct else (t_class o', t_tag o'))"

definition tag_ok :: "int \<times> int \<Rightarrow> bool" where
  "tag_ok ct \<longleftrightarrow> 0 \<le> fst ct \<and> fst ct \<le> 3 \<and> 0 \<le> snd ct \<and> snd ct < 2 ^ 28 \<and> ct \<noteq> (0, 0)"

definition ready_enc :: "nat \<Rightarrow> odr \<Rightarrow> bool" where
  "ready_enc nest o' \<longleftrightarrow> at_end o' \<and> can_grow o' \<and> error o' = ONONE \<and> direction o' = ODR_ENCODE \<and>
     op_lenlen o' = 1 \<and> (stack o' \<noteq> [] \<or> top o' = 0) \<and> stack_depth o' + nest \<le> 2000"

text \<open>What no codec changes when it succeeds.\<close>

definition same_core :: "odr \<Rightarrow> odr \<Rightarrow> bool" where
  "same_core o1 o2 \<longleftrightarrow> direction o2 = direction o1 \<and> error o2 = error o1 \<and> error_id o2 = error_id o1 \<and>
     element o2 = element o1 \<and> junk o2 = junk o1 \<and> can_grow o2 = can_grow o1 \<and> stack o2 = stack o1 \<and>
     stack_depth o2 = stack_depth o1 \<and> op_lenlen o2 = op_lenlen o1 \<and> enable_bias o2 = enable_bias o1 \<and>
     choice_bias o2 = choice_bias o1 \<and> indent o2 = indent o1 \<and> printed o2 = printed o1"

definition emitted :: "odr \<Rightarrow> byte list \<Rightarrow> odr \<Rightarrow> bool" where
  "emitted o1 bs o2 \<longleftrightarrow> at_end o1 \<and> at_end o2 \<and> out o2 = out o1 @ bs \<and> same_core o1 o2 \<and> t_class o2 = -1"

definition ready_dec :: "nat \<Rightarrow> odr \<Rightarrow> bool" where
  "ready_dec nest o' \<longleftrightarrow> error o' = ONONE \<and> direction o' = ODR_DECODE \<and> lclass o' < 0 \<and> op_lenlen o' = 1 \<and>
     stack_depth o' + nest \<le> 2000 \<and> bp o' \<le> length (buf o') \<and>
     (case stack o' of [] \<Rightarrow> bp o' = 0
      | t # _ \<Rightarrow> con_len t \<ge> 0 \<longrightarrow> int (bp o') - int (con_base t) < con_len t)"

definition consumed :: "odr \<Rightarrow> nat \<Rightarrow> odr \<Rightarrow> bool" where
  "consumed o1 k o2 \<longleftrightarrow> same_core o1 o2 \<and> buf o2 = buf o1 \<and> bp o2 = bp o1 + k \<and> t_class o2 = -1 \<and> lclass o2 = -1"

lemma appended_core: "appended o1 bs o2 \<Longrightarrow> same_core o1 o2"
  by (auto simp: appended_def same_core_def)

lemma same_core_trans: "same_core o1 o2 \<Longrightarrow> same_core o2 o3 \<Longrightarrow> same_core o1 o3"
  by (simp add: same_core_def)

lemma emitted_append: "emitted o1 xs o2 \<Longrightarrow> appended o2 ys o3 \<Longrightarrow> emitted o1 (xs @ ys) o3"
  using appended_core [of o2 ys o3] appended_frame(7) [of o2 ys o3]
  by (auto simp: emitted_def appended_def dest: same_core_trans)

lemma emitted_trans: "emitted o1 xs o2 \<Longrightarrow> emitted o2 ys o3 \<Longrightarrow> emitted o1 (xs @ ys) o3"
  by (auto simp: emitted_def dest: same_core_trans)

lemma emitted_frame:
  assumes "emitted o1 bs o2"
  shows "at_end o2" "can_grow o2 = can_grow o1" "error o2 = error o1" "direction o2 = direction o1"
    "op_lenlen o2 = op_lenlen o1" "stack o2 = stack o1" "stack_depth o2 = stack_depth o1"
    "top o2 = top o1 + length bs" "pos o2 = top o1 + length bs" "t_class o2 = -1" "out o2 = out o1 @ bs"
  using assms length_out [of o1] length_out [of o2]
  by (auto simp: emitted_def same_core_def at_end_def)

lemma consumed_trans: "consumed o1 j o2 \<Longrightarrow> consumed o2 k o3 \<Longrightarrow> consumed o1 (j + k) o3"
  by (auto simp: consumed_def dest: same_core_trans)

lemma consumed_advance: "consumed o1 j o2 \<Longrightarrow> consumed o1 (j + k) (odr_advance o2 (int k))"
  by (auto simp: consumed_def odr_advance_def nat_add_distrib same_core_def)

lemma consumed_frame:
  assumes "consumed o1 k o2"
  shows "error o2 = error o1" "direction o2 = direction o1" "lclass o2 = -1" "op_lenlen o2 = op_lenlen o1"
    "stack o2 = stack o1" "stack_depth o2 = stack_depth o1" "buf o2 = buf o1" "bp o2 = bp o1 + k"
    "t_class o2 = -1" "rest_of o2 = drop k (rest_of o1)"
  using assms by (auto simp: consumed_def same_core_def add.commute)

lemma consumed_max: "consumed o1 k o2 \<Longrightarrow> odr_max o2 = odr_max o1 - int k"
  by (simp add: odr_max_def consumed_frame)

lemma rest_max: "bp o' \<le> length (buf o') \<Longrightarrow> odr_max o' = int (length (rest_of o'))"
  by (simp add: odr_max_def)

lemma consumed_bound:
  assumes "ready_dec n o1" and "consumed o1 k o2" and "k \<le> length (rest_of o1)"
  shows "bp o2 \<le> length (buf o2)"
proof -
  have "bp o1 \<le> length (buf o1)" using assms(1) by (simp add: ready_dec_def)
  then show ?thesis using consumed_frame(7,8) [OF assms(2)] assms(3) by simp
qed

lemma ready_enc_step: "ready_enc n o1 \<Longrightarrow> emitted o1 bs o2 \<Longrightarrow> stack o1 \<noteq> [] \<Longrightarrow> ready_enc n o2"
  by (simp add: ready_enc_def emitted_frame)

section \<open>Tag matching\<close>

lemma seek_start: "odr_seek o' ODR_S_SET 0 = (True, o'\<lparr>pos := 0\<rparr>)"
  by (simp add: odr_seek_def)

lemma ber_tag_encode:
  assumes "ready_enc n o0" and "tag_ok (zc, tag)"
    and o1: "o1 = o0\<lparr>t_class := tc, t_tag := tt\<rparr>"
    and room: "top o0 + length (tag_octets zc tag cons) \<le> odr_limit"
  obtains o2 where "ber_tag o1 (Some x) zc tag cons opt name = Some (1, Some x, cons, o2)"
    "emitted o0 (tag_octets zc tag cons) o2"
proof -
  let ?o = "if stack o1 = [] then o1\<lparr>t_class := -1, pos := 0, top := 0, bp := 0, lclass := -1\<rparr>
            else o1\<lparr>t_class := -1\<rparr>"
  have e: "emitted o0 [] ?o"
    using assms(1) by (auto simp: emitted_def ready_enc_def at_end_def out_def o1 same_core_def)
  obtain r o2 where o2: "ber_enctag ?o zc tag cons = Some (r, o2)" "0 \<le> r" "appended ?o (tag_octets zc tag cons) o2"
    by (rule enctag_append [of ?o tag zc cons])
      (use assms(1,2) room emitted_frame [OF e] in \<open>auto simp: ready_enc_def tag_ok_def\<close>)
  have "ber_tag o1 (Some x) zc tag cons opt name = Some (1, Some x, cons, o2)"
    using o2(1,2) assms(1) by (simp add: ber_tag_def Let_def seek_start o1 ready_enc_def split: if_splits)
  moreover have "emitted o0 (tag_octets zc tag cons) o2"
    using emitted_append [OF e o2(3)] by simp
  ultimately show thesis using that by blast
qed

lemma more_when_nonzero:
  assumes "ready_dec n o'" and "stack o' \<noteq> []" and "rest_of o' = b # r" and "b \<noteq> 0"
  shows "odr_constructed_more o' = Some True"
proof -
  have "bp o' < length (buf o')" using assms(3) by (metis drop_all linorder_not_less list.distinct(1))
  moreover have "buf o' ! bp o' = b" using assms(3) calculation by (metis Cons_nth_drop_Suc list.inject)
  ultimately show ?thesis
    using assms by (auto simp: odr_constructed_more_def ready_dec_def odr_get_def neq_Nil_conv)
qed


lemma more_cong:
  "same_core o1 o2 \<Longrightarrow> buf o2 = buf o1 \<Longrightarrow> bp o2 = bp o1 \<Longrightarrow> odr_constructed_more o2 = odr_constructed_more o1"
  by (simp add: odr_constructed_more_def odr_get_def same_core_def split: list.split)

lemma ber_tag_decode:
  assumes "ready_dec n o0" and "tag_ok (zc, tag)" and "rest_of o0 = tag_octets zc tag cons @ rest"
    and o1: "o1 = o0\<lparr>t_class := tc, t_tag := tt\<rparr>"
  obtains o2 where "ber_tag o1 p zc tag c0 opt name = Some (1, None, cons, o2)"
    "consumed o0 (length (tag_octets zc tag cons)) o2"
proof -
  let ?ts = "tag_octets zc tag cons"
  let ?o = "if stack o1 = [] then o1\<lparr>t_class := -1, pos := 0, top := 0, bp := 0, lclass := -1\<rparr>
            else o1\<lparr>t_class := -1\<rparr>"
  have nz: "?ts \<noteq> []" "hd ?ts \<noteq> 0"
    using tag_octets_nonzero [of zc tag cons] assms(2) by (auto simp: tag_ok_def)
  have core: "same_core o0 ?o" "buf ?o = buf o0" "bp ?o = bp o0" "lclass ?o < 0" "t_class ?o = -1"
    using assms(1) by (auto simp: same_core_def o1 ready_dec_def split: list.splits)
  have more: "stack ?o \<noteq> [] \<Longrightarrow> odr_constructed_more ?o = Some True"
  proof -
    assume "stack ?o \<noteq> []"
    then have s: "stack o0 \<noteq> []" using core(1) by (simp add: same_core_def)
    have "odr_constructed_more o0 = Some True"
      using more_when_nonzero [OF assms(1) s, of "hd ?ts" "tl ?ts @ rest"] nz assms(3) by simp
    then show ?thesis using more_cong [OF core(1,2,3)] by simp
  qed
  have mx: "odr_max ?o = int (length (?ts @ rest))"
    using core(2,3) assms(1,3) rest_max [of o0] by (simp add: odr_max_def ready_dec_def)
  have dt: "ber_dectag (rest_of ?o) outs (odr_max ?o) = Some (int (length ?ts), zc, tag, cons)" for outs
    using assms(2,3) core(2,3) unfolding mx by (simp add: dectag_tag_octets tag_ok_def)
  let ?o3 = "?o\<lparr>br := int (length ?ts), lclass := zc, ltag := tag, lcons := cons\<rparr>"
  let ?o4 = "(odr_advance ?o3 (int (length ?ts)))\<lparr>lclass := -1\<rparr>"
  have "ber_tag o1 p zc tag c0 opt name = Some (1, None, cons, ?o4)"
    using assms(1) core(4) more dt nz(1)
    by (auto simp: ber_tag_def Let_def seek_start o1 ready_dec_def odr_advance_def)
  moreover have "consumed o0 (length ?ts) ?o4"
    using core by (simp add: consumed_def odr_advance_def same_core_def nat_add_distrib)
  ultimately show thesis using that by blast
qed

lemma odr_type_encode:
  assumes "ready_enc n o0" and "tag_ok (eff (0, dtag) o0)"
    and room: "top o0 + length (tag_octets (fst (eff (0, dtag) o0)) (snd (eff (0, dtag) o0)) False) \<le> odr_limit"
  obtains o2 where "odr_type dtag f o0 (Some x) opt name = f o2 (Some x) False"
    "emitted o0 (tag_octets (fst (eff (0, dtag) o0)) (snd (eff (0, dtag) o0)) False) o2"
proof -
  let ?o1 = "if t_class o0 < 0 then o0\<lparr>t_class := 0, t_tag := dtag\<rparr> else o0"
  have o1: "?o1 = o0\<lparr>t_class := fst (eff (0, dtag) o0), t_tag := snd (eff (0, dtag) o0)\<rparr>"
    by (auto simp: eff_def)
  obtain o2 where "ber_tag ?o1 (Some x) (fst (eff (0, dtag) o0)) (snd (eff (0, dtag) o0)) False opt name = Some (1, Some x, False, o2)"
      "emitted o0 (tag_octets (fst (eff (0, dtag) o0)) (snd (eff (0, dtag) o0)) False) o2"
    by (rule ber_tag_encode [OF assms(1) _ o1 room, of x opt name]) (use assms(2) in simp_all)
  moreover have "error o0 = ONONE" using assms(1) by (simp add: ready_enc_def)
  ultimately show thesis using that [of o2] by (simp add: odr_type_def o1 Let_def)
qed

lemma odr_type_decode:
  assumes "ready_dec n o0" and "tag_ok (eff (0, dtag) o0)"
    and "rest_of o0 = tag_octets (fst (eff (0, dtag) o0)) (snd (eff (0, dtag) o0)) cons @ rest"
  obtains o2 where "odr_type dtag f o0 p opt name = f o2 None cons"
    "consumed o0 (length (tag_octets (fst (eff (0, dtag) o0)) (snd (eff (0, dtag) o0)) cons)) o2"
proof -
  let ?o1 = "if t_class o0 < 0 then o0\<lparr>t_class := 0, t_tag := dtag\<rparr> else o0"
  have o1: "?o1 = o0\<lparr>t_class := fst (eff (0, dtag) o0), t_tag := snd (eff (0, dtag) o0)\<rparr>"
    by (auto simp: eff_def)
  obtain o2 where "ber_tag ?o1 p (fst (eff (0, dtag) o0)) (snd (eff (0, dtag) o0)) False opt name = Some (1, None, cons, o2)"
      "consumed o0 (length (tag_octets (fst (eff (0, dtag) o0)) (snd (eff (0, dtag) o0)) cons)) o2"
    using ber_tag_decode [OF assms(1) _ assms(3) o1] assms(2) by (metis surjective_pairing)
  moreover have "error o0 = ONONE" using assms(1) by (simp add: ready_dec_def)
  ultimately show thesis using that [of o2] by (simp add: odr_type_def o1 Let_def)
qed

section \<open>The contract of a codec\<close>

definition element_octets :: "bool \<Rightarrow> ('a \<Rightarrow> byte list) \<Rightarrow> int \<times> int \<Rightarrow> 'a \<Rightarrow> byte list" where
  "element_octets cons body ct x = tag_octets (fst ct) (snd ct) cons @ body x"

locale odr_codec =
  fixes f :: "'a odr_fun" and dct :: "int \<times> int" and cons :: bool and body :: "'a \<Rightarrow> byte list"
    and ok :: "'a \<Rightarrow> bool" and nest :: nat
  assumes dct_ok: "tag_ok dct"
    and encode: "\<And>o1 x opt name. ready_enc nest o1 \<Longrightarrow> tag_ok (eff dct o1) \<Longrightarrow> ok x \<Longrightarrow>
      top o1 + length (element_octets cons body (eff dct o1) x) \<le> odr_limit \<Longrightarrow>
      \<exists>o2. f o1 (Some x) opt name = Some (True, Some x, o2) \<and>
        emitted o1 (element_octets cons body (eff dct o1) x) o2"
    and decode: "\<And>o1 x p opt name rest. ready_dec nest o1 \<Longrightarrow> tag_ok (eff dct o1) \<Longrightarrow> ok x \<Longrightarrow>
      rest_of o1 = element_octets cons body (eff dct o1) x @ rest \<Longrightarrow>
      \<exists>o2. f o1 p opt name = Some (True, Some x, o2) \<and>
        consumed o1 (length (element_octets cons body (eff dct o1) x)) o2"

text \<open>Primitive types: it is enough to look at the function behind the tag.\<close>

lemma primitive_codec:
  assumes "tag_ok (0, dtag)"
    and enc: "\<And>name o1 x. at_end o1 \<Longrightarrow> can_grow o1 \<Longrightarrow> direction o1 = ODR_ENCODE \<Longrightarrow> ok x \<Longrightarrow>
      top o1 + length (body x) \<le> odr_limit \<Longrightarrow>
      \<exists>o2. f name o1 (Some x) False = Some (True, Some x, o2) \<and> appended o1 (body x) o2"
    and dec: "\<And>name o1 x rest. direction o1 = ODR_DECODE \<Longrightarrow> ok x \<Longrightarrow> rest_of o1 = body x @ rest \<Longrightarrow>
      bp o1 \<le> length (buf o1) \<Longrightarrow>
      f name o1 None False = Some (True, Some x, odr_advance o1 (int (length (body x))))"
  shows "odr_codec (\<lambda>o0 p0 opt name. odr_type dtag (f name) o0 p0 opt name) (0, dtag) False body ok 0"
proof
  show "tag_ok (0, dtag)" by (rule assms(1))
next
  fix o1 :: odr and x and opt :: bool and name :: "string option"
  let ?t = "tag_octets (fst (eff (0, dtag) o1)) (snd (eff (0, dtag) o1)) False"
  assume r: "ready_enc 0 o1" "tag_ok (eff (0, dtag) o1)" and x: "ok x"
    and len: "top o1 + length (element_octets False body (eff (0, dtag) o1) x) \<le> odr_limit"
  obtain o2 where o2: "odr_type dtag (f name) o1 (Some x) opt name = f name o2 (Some x) False" "emitted o1 ?t o2"
    by (rule odr_type_encode [OF r, where f = "f name"]) (use len in \<open>simp add: element_octets_def\<close>)
  have "\<exists>o3. f name o2 (Some x) False = Some (True, Some x, o3) \<and> appended o2 (body x) o3"
    using emitted_frame [OF o2(2)] r(1) x len
    by (intro enc) (simp_all add: ready_enc_def element_octets_def)
  with o2(1) emitted_append [OF o2(2)]
  show "\<exists>o2. odr_type dtag (f name) o1 (Some x) opt name = Some (True, Some x, o2) \<and>
      emitted o1 (element_octets False body (eff (0, dtag) o1) x) o2"
    by (auto simp: element_octets_def)
next
  fix o1 :: odr and x and p and opt :: bool and name :: "string option" and rest :: "byte list"
  let ?t = "tag_octets (fst (eff (0, dtag) o1)) (snd (eff (0, dtag) o1)) False"
  assume r: "ready_dec 0 o1" "tag_ok (eff (0, dtag) o1)" and x: "ok x"
    and bs: "rest_of o1 = element_octets False body (eff (0, dtag) o1) x @ rest"
  obtain o2 where o2: "odr_type dtag (f name) o1 p opt name = f name o2 None False" "consumed o1 (length ?t) o2"
    by (rule odr_type_decode [OF r, where cons = False and rest = "body x @ rest"])
      (use bs in \<open>simp_all add: element_octets_def\<close>)
  have "length ?t \<le> length (rest_of o1)" using bs by (simp add: element_octets_def)
  then have bound: "bp o2 \<le> length (buf o2)" by (rule consumed_bound [OF r(1) o2(2)])
  have "f name o2 None False = Some (True, Some x, odr_advance o2 (int (length (body x))))"
    using consumed_frame(2,10) [OF o2(2)] r(1) bs x bound
    by (intro dec [where rest = rest]) (simp_all add: ready_dec_def element_octets_def)
  with o2(1) consumed_advance [OF o2(2), of "length (body x)"]
  show "\<exists>o2. odr_type dtag (f name) o1 p opt name = Some (True, Some x, o2) \<and>
      consumed o1 (length (element_octets False body (eff (0, dtag) o1) x)) o2"
    by (auto simp: element_octets_def)
qed


section \<open>The simple types satisfy the contract\<close>

lemma advance_zero: "odr_advance o' 0 = o'"
  by (simp add: odr_advance_def)

lemma integer_body_encode:
  assumes "at_end o1" "can_grow o1" "direction o1 = ODR_ENCODE" "top o1 + length (int_octets x) \<le> odr_limit"
  shows "\<exists>o2. with_value (Some x) (ber_integer o1) = Some (True, Some x, o2) \<and> appended o1 (int_octets x) o2"
proof -
  obtain o2 where "ber_encinteger o1 x = (0, o2)" "appended o1 (int_octets x) o2"
    by (rule encinteger_append [OF assms(1,2,4)])
  with assms(3) show ?thesis by (simp add: with_value_def ber_integer_def)
qed

lemma integer_body_decode:
  assumes "direction o1 = ODR_DECODE" "rest_of o1 = int_octets x @ rest" "bp o1 \<le> length (buf o1)"
  shows "with_value (Some v0) (ber_integer o1) = Some (True, Some x, odr_advance o1 (int (length (int_octets x))))"
proof -
  have "ber_decinteger (rest_of o1) v0 (odr_max o1) = Some (int (length (int_octets x)), x)"
    using decinteger_int_octets [of x "odr_max o1" rest v0] assms(2) rest_max [OF assms(3)] by simp
  moreover have "0 < length (int_octets x)" by (simp add: int_octets_def)
  ultimately show ?thesis using assms(1) by (simp add: with_value_def ber_integer_def)
qed

interpretation integer: odr_codec odr_integer "(0, 2)" False int_octets "\<lambda>_. True" 0
  unfolding odr_integer_def [abs_def]
  by (rule primitive_codec) (simp_all add: tag_ok_def integer_body_encode integer_body_decode)

interpretation enum: odr_codec odr_enum "(0, 10)" False int_octets "\<lambda>_. True" 0
  unfolding odr_enum_def [abs_def]
  by (rule primitive_codec) (simp_all add: tag_ok_def integer_body_encode integer_body_decode)

definition bool_octets :: "int \<Rightarrow> byte list" where
  "bool_octets v = [1, of_int v]"

definition is_schar :: "int \<Rightarrow> bool" where
  "is_schar v \<longleftrightarrow> - 128 \<le> v \<and> v < 128"

lemma schar_of_int: "is_schar v \<Longrightarrow> schar (of_int v) = v"
  by (simp add: is_schar_def signed_of_int signed_take_bit_int_eq_self)

lemma boolean_body_encode:
  assumes "at_end o1" "can_grow o1" "direction o1 = ODR_ENCODE" "top o1 + length (bool_octets x) \<le> odr_limit"
  shows "\<exists>o2. with_value (Some x) (ber_boolean o1) = Some (True, Some x, o2) \<and> appended o1 (bool_octets x) o2"
proof -
  obtain o2 where o2: "ber_enclen o1 1 1 True = (1, o2)" "appended o1 [byte_of 1] o2"
    by (rule enclen_short [OF assms(1,2), of 1 True]) (use assms(4) in \<open>simp_all add: bool_octets_def\<close>)
  obtain o3 where o3: "odr_putc o2 (of_int x) = (True, o3)" "appended o2 [of_int x] o3"
    by (rule putc_append [OF appended_at_end [OF o2(2)]])
      (use appended_frame(3,11) [OF o2(2)] assms(2,4) in \<open>simp_all add: bool_octets_def\<close>)
  have "appended o1 (bool_octets x) o3"
    using appended_trans [OF o2(2) o3(2)] by (simp add: bool_octets_def byte_of_def)
  with o2(1) o3(1) assms(3) show ?thesis by (simp add: with_value_def ber_boolean_def)
qed

lemma boolean_body_decode:
  assumes "direction o1 = ODR_DECODE" "rest_of o1 = bool_octets x @ rest" "bp o1 \<le> length (buf o1)" "is_schar x"
  shows "with_value (Some v0) (ber_boolean o1) = Some (True, Some x, odr_advance o1 (int (length (bool_octets x))))"
proof -
  have dl: "ber_declen (rest_of o1) 0 (odr_max o1) = Some (1, 1)"
    using declen_short [of 1 "odr_max o1" "of_int x # rest" 0] rest_max [OF assms(3)] assms(2)
    by (simp add: bool_octets_def byte_of_def)
  have l: "length (buf o1) = bp o1 + 2 + length rest"
    using arg_cong [OF assms(2), of length] assms(3) by (simp add: bool_octets_def)
  then have "buf o1 ! Suc (bp o1) = of_int x"
    using arg_cong [OF assms(2), of "\<lambda>l. l ! 1"] by (simp add: bool_octets_def)
  with dl l assms(1,4) show ?thesis
    by (simp add: with_value_def ber_boolean_def odr_advance_def odr_max_def odr_get_def bool_octets_def
        schar_of_int nat_add_distrib)
qed

interpretation bool: odr_codec odr_bool "(0, 1)" False bool_octets is_schar 0
  unfolding odr_bool_def [abs_def]
  by (rule primitive_codec) (simp_all add: tag_ok_def boolean_body_encode boolean_body_decode)

lemma null_body_decode:
  assumes "direction o1 = ODR_DECODE" "rest_of o1 = 0 # rest" "bp o1 \<le> length (buf o1)"
  shows "ber_null o1 = Some (True, odr_advance o1 1)"
proof -
  have l: "length (buf o1) = bp o1 + 1 + length rest"
    using arg_cong [OF assms(2), of length] assms(3) by simp
  then have "buf o1 ! bp o1 = 0"
    using arg_cong [OF assms(2), of "\<lambda>l. l ! 0"] by simp
  with l assms(1) show ?thesis by (simp add: ber_null_def odr_max_def odr_get_def)
qed

lemma null_body_encode:
  assumes "at_end o1" "can_grow o1" "direction o1 = ODR_ENCODE" "top o1 + 1 \<le> odr_limit"
  shows "\<exists>o2. ber_null o1 = Some (True, o2) \<and> appended o1 [0] o2"
  using putc_append [OF assms(1,2,4), of 0] assms(3) by (metis ber_null_def direction.simps(14))

interpretation null: odr_codec odr_null "(0, 5)" False "\<lambda>_. [0]" "\<lambda>_. True" 0
  unfolding odr_null_def [abs_def]
proof (rule primitive_codec, goal_cases)
  case (2 name o1 x)
  then show ?case using null_body_encode [of o1] by auto
next
  case (3 name o1 x rest)
  then show ?case by (simp add: null_body_decode)
qed (simp add: tag_ok_def)


section \<open>Octet strings and character strings\<close>

definition oct_content :: "odr_oct \<Rightarrow> byte list" where
  "oct_content v = (case oct_buf v of None \<Rightarrow> [] | Some bs \<Rightarrow> take (oct_len v) bs)"

definition oct_octets :: "odr_oct \<Rightarrow> byte list" where
  "oct_octets v = len_octets (int (oct_len v)) @ oct_content v"

definition oct_ok :: "odr_oct \<Rightarrow> bool" where
  "oct_ok v \<longleftrightarrow> oct_buf v \<noteq> None \<and> oct_len v = length (the (oct_buf v)) \<and> oct_len v < 2 ^ 24"

lemma oct_ok_cases:
  assumes "oct_ok v"
  obtains bs where "v = oct_of bs" "length bs < 2 ^ 24"
  using assms by (cases v) (auto simp: oct_ok_def)

lemma octetstring_encode:
  assumes "at_end o1" "can_grow o1" "direction o1 = ODR_ENCODE"
    "top o1 + length (oct_octets (oct_of bs)) \<le> odr_limit" "length bs < 2 ^ 24"
  shows "\<exists>o2. ber_octetstring (Suc n) o1 (oct_of bs) cons = Some (True, oct_of bs, o2) \<and>
    appended o1 (oct_octets (oct_of bs)) o2"
proof -
  obtain r o2 where o2: "ber_enclen o1 (int (length bs)) 5 False = (r, o2)" "0 < r"
      "appended o1 (len_octets (int (length bs))) o2"
    by (rule enclen_append [OF assms(1,2), of "int (length bs)"])
      (use assms(4,5) in \<open>simp_all add: oct_octets_def\<close>)
  show ?thesis
  proof (cases "bs = []")
    case True
    with o2 assms(3) show ?thesis by (simp add: oct_octets_def oct_content_def)
  next
    case False
    obtain o3 where o3: "odr_write o2 bs = (True, o3)" "appended o2 bs o3"
      using write_append [of o2 bs] appended_at_end [OF o2(3)] appended_frame(3,11) [OF o2(3)] assms(2,4)
      by (auto simp: oct_octets_def oct_content_def)
    have "appended o1 (oct_octets (oct_of bs)) o3"
      using appended_trans [OF o2(3) o3(2)] by (simp add: oct_octets_def oct_content_def)
    with o2(1,2) o3(1) False assms(3) show ?thesis by (simp add: oct_bytes_def)
  qed
qed

lemma octetstring_decode:
  assumes "direction o1 = ODR_DECODE" "rest_of o1 = oct_octets (oct_of bs) @ rest"
    "bp o1 \<le> length (buf o1)" "length bs < 2 ^ 24"
  shows "ber_octetstring (Suc n) o1 v False =
    Some (True, oct_of bs, odr_advance o1 (int (length (oct_octets (oct_of bs)))))"
proof -
  let ?l = "len_octets (int (length bs))"
  have r: "rest_of o1 = ?l @ bs @ rest" using assms(2) by (simp add: oct_octets_def oct_content_def)
  have dl: "ber_declen (rest_of o1) 0 (odr_max o1) = Some (int (length ?l), int (length bs))"
    unfolding r using declen_len_octets [of "int (length bs)" "odr_max o1" "bs @ rest" 0] assms(4)
      rest_max [OF assms(3)] r by simp
  have "rest_of (odr_advance o1 (int (length ?l))) = drop (length ?l) (rest_of o1)"
    by (simp add: odr_advance_def nat_add_distrib add.commute)
  then have r2: "rest_of (odr_advance o1 (int (length ?l))) = bs @ rest" unfolding r by simp
  moreover have "odr_max (odr_advance o1 (int (length ?l))) = int (length (bs @ rest))"
    using rest_max [OF assms(3)] r by (simp add: odr_max_def odr_advance_def)
  moreover have "odr_advance (odr_advance o1 (int (length ?l))) (int (length bs)) =
      odr_advance o1 (int (length (oct_octets (oct_of bs))))"
    by (simp add: odr_advance_def oct_octets_def oct_content_def add.assoc)
  ultimately show ?thesis using dl assms(1) by simp
qed

declare ber_octetstring.simps [simp del] odr_octetstring.simps [simp del] oct_chunks.simps [simp del]

interpretation octetstring: odr_codec "odr_octetstring (Suc (Suc n))" "(0, 4)" False oct_octets oct_ok 0
  unfolding odr_octetstring.simps(2) [abs_def]
proof (rule primitive_codec, goal_cases)
  case (2 name o1 x)
  from \<open>oct_ok x\<close> obtain bs where x: "x = oct_of bs" "length bs < 2 ^ 24" by (rule oct_ok_cases)
  obtain o2 where "ber_octetstring (Suc n) o1 x False = Some (True, x, o2)" "appended o1 (oct_octets x) o2"
    using octetstring_encode [of o1 bs n False] 2 x by auto
  with 2 show ?case by simp
next
  case (3 name o1 x rest)
  from \<open>oct_ok x\<close> obtain bs where x: "x = oct_of bs" "length bs < 2 ^ 24" by (rule oct_ok_cases)
  then show ?case using octetstring_decode [of o1 bs rest n oct_null] 3 by simp
qed (simp add: tag_ok_def)

definition cstring_octets :: "byte list \<Rightarrow> byte list" where
  "cstring_octets v = oct_octets (oct_of v)"

definition cstring_ok :: "byte list \<Rightarrow> bool" where
  "cstring_ok v \<longleftrightarrow> no_nul v \<and> length v < 2 ^ 24"

interpretation cstring: odr_codec "odr_cstring (Suc n)" "(0, 4)" False cstring_octets cstring_ok 0
  unfolding odr_cstring_def [abs_def]
proof (rule primitive_codec, goal_cases)
  case (2 name o1 x)
  then obtain o2 where o2: "ber_octetstring (Suc n) o1 (oct_of x) False = Some (True, oct_of x, o2)"
      "appended o1 (cstring_octets x) o2"
    using octetstring_encode [of o1 x n False] by (auto simp: cstring_ok_def cstring_octets_def)
  with 2 appended_frame(1) [OF o2(2)] show ?case by (simp add: cstring_ok_def)
next
  case (3 name o1 x rest)
  then show ?case using octetstring_decode [of o1 x rest n oct_null]
    by (simp add: cstring_octets_def cstring_ok_def odr_advance_def)
qed (simp add: tag_ok_def)


section \<open>Constructed items\<close>

text \<open>Length octet, content and, in the indefinite form, the end marker.\<close>

definition wrap_octets :: "byte list \<Rightarrow> byte list" where
  "wrap_octets c = (if length c \<le> 127 then byte_of (length c) # c else 0x80 # c @ [0, 0])"

definition pushed :: "constack \<Rightarrow> odr \<Rightarrow> odr" where
  "pushed t o' = o'\<lparr>stack := t # stack o', stack_depth := Suc (stack_depth o')\<rparr>"

lemma push_ok:
  assumes "stack_depth o' < 2000"
  obtains t ru where "odr_stack_push o' = (True, (pushed t o')\<lparr>reuse := ru\<rparr>)"
proof (cases "reuse o'")
  case Nil
  with assms have "odr_stack_push o' = (True, (pushed fresh_con o')\<lparr>reuse := []\<rparr>)"
    by (auto simp: odr_stack_push_def pushed_def intro!: odr.equality)
  with that show thesis .
next
  case (Cons r rs)
  then have "odr_stack_push o' = (True, (pushed r o')\<lparr>reuse := rs\<rparr>)"
    by (auto simp: odr_stack_push_def pushed_def intro!: odr.equality)
  with that show thesis .
qed

lemma pushed_fields [simp]:
  "stack (pushed t o') = t # stack o'" "pos (pushed t o') = pos o'" "top (pushed t o') = top o'"
  "direction (pushed t o') = direction o'" "bp (pushed t o') = bp o'" "buf (pushed t o') = buf o'"
  "can_grow (pushed t o') = can_grow o'" "error (pushed t o') = error o'" "out (pushed t o') = out o'"
  "at_end (pushed t o') = at_end o'" "stack_depth (pushed t o') = Suc (stack_depth o')"
  by (simp_all add: pushed_def at_end_def out_def)

lemma set_top_fields [simp]:
  "stack (set_top f o') = f (hd (stack o')) # tl (stack o')" "pos (set_top f o') = pos o'"
  "direction (set_top f o') = direction o'" "bp (set_top f o') = bp o'" "buf (set_top f o') = buf o'"
  "top (set_top f o') = top o'"
  by (simp_all add: set_top_def)

lemma pop_pushed:
  "same_core (pushed t o1) o2 \<Longrightarrow> same_core o1 (ODR_STACK_POP o2)"
  by (auto simp: same_core_def pushed_def ODR_STACK_POP_def)

lemma pop_fields [simp]:
  "buf (ODR_STACK_POP o') = buf o'" "bp (ODR_STACK_POP o') = bp o'" "pos (ODR_STACK_POP o') = pos o'"
  "top (ODR_STACK_POP o') = top o'" "t_class (ODR_STACK_POP o') = t_class o'"
  "lclass (ODR_STACK_POP o') = lclass o'" "at_end (ODR_STACK_POP o') = at_end o'" "out (ODR_STACK_POP o') = out o'"
  by (simp_all add: ODR_STACK_POP_def at_end_def out_def)

definition in_item :: "odr \<Rightarrow> byte list \<Rightarrow> constack \<Rightarrow> odr \<Rightarrow> bool" where
  "in_item o0 ts t o1 \<longleftrightarrow> same_core (pushed t o0) o1 \<and> at_end o0 \<and> at_end o1 \<and> out o1 = out o0 @ ts @ [0] \<and>
     t_class o1 = -1 \<and> con_len_offset t = top o0 + length ts \<and> con_lenlen t = 1 \<and>
     con_base_offset t = top o0 + length ts + 1"

lemma constructed_begin_encode:
  assumes "ready_enc (Suc n) o0" and ok: "tag_ok (eff (zc, tag) o0)"
    and ts: "ts = tag_octets (fst (eff (zc, tag) o0)) (snd (eff (zc, tag) o0)) True"
    and len: "top o0 + length ts + 1 \<le> odr_limit"
  obtains o1 t where "odr_constructed_begin o0 (Some x) zc tag name = Some (True, Some x, o1)"
    "in_item o0 ts t o1" "ready_enc n o1"
proof -
  let ?ct = "eff (zc, tag) o0"
  have r: "at_end o0" "error o0 = ONONE" "op_lenlen o0 = 1" "direction o0 = ODR_ENCODE" "can_grow o0"
      "stack_depth o0 < 2000"
    using assms(1) by (simp_all add: ready_enc_def)
  let ?o2 = "if t_class (o0\<lparr>op_lenlen := 1\<rparr>) < 0 then o0\<lparr>op_lenlen := 1, t_class := zc, t_tag := tag\<rparr>
             else o0\<lparr>op_lenlen := 1\<rparr>"
  have o2: "?o2 = o0\<lparr>t_class := fst ?ct, t_tag := snd ?ct\<rparr>"
    using r(3) by (auto simp: eff_def intro!: odr.equality)
  obtain o3 where o3: "ber_tag ?o2 (Some x) (fst ?ct) (snd ?ct) True True name = Some (1, Some x, True, o3)"
      "emitted o0 ts o3"
    by (rule ber_tag_encode [OF assms(1) _ o2, of "fst ?ct" "snd ?ct" True x True name])
      (use ok len in \<open>simp_all add: ts\<close>)
  note f = emitted_frame [OF o3(2)]
  obtain t ru where push: "odr_stack_push o3 = (True, (pushed t o3)\<lparr>reuse := ru\<rparr>)"
    using push_ok [of o3] f r(6) by metis
  let ?nm = "case name of None \<Rightarrow> ''?'' | Some n \<Rightarrow> n"
  let ?t = "t\<lparr>con_len_offset := pos o3, con_name := ?nm, con_lenlen := 1\<rparr>"
  let ?o6 = "(pushed ?t o3)\<lparr>reuse := ru\<rparr>"
  have a6: "at_end ?o6" "can_grow ?o6" "top ?o6 + length [0 :: byte] \<le> odr_limit"
    using f r(5) len by (simp_all add: pushed_def at_end_def)
  obtain o7 where o7: "odr_write ?o6 [0] = (True, o7)" "appended ?o6 [0] o7"
    by (rule write_append [OF a6])
  note f7 = appended_frame [OF o7(2)]
  let ?t' = "?t\<lparr>con_base := bp o7, con_base_offset := pos o7\<rparr>"
  let ?o8 = "set_top (\<lambda>t. t\<lparr>con_base := bp o7, con_base_offset := pos o7\<rparr>) o7"
  have tc2: "t_class ?o2 = fst ?ct" "t_tag ?o2 = snd ?ct" unfolding o2 by simp_all
  have o6: "set_top (\<lambda>t. t\<lparr>con_lenlen := 1\<rparr>) (set_top (\<lambda>t. t\<lparr>con_len_offset := pos o3, con_name := ?nm\<rparr>)
      ((pushed t o3)\<lparr>reuse := ru\<rparr>)) = ?o6"
    by (auto simp: set_top_def pushed_def intro!: odr.equality)
  have "odr_constructed_begin o0 (Some x) zc tag name = Some (True, Some x, ?o8)"
    using r(2,3) o3(1) push f(4) r(4) o7(1) tc2
    by (simp add: odr_constructed_begin_def con_enter_def con_length_def con_finish_def Let_def o6)
  moreover have "in_item o0 ts ?t' ?o8"
    using f f7 o7(2) appended_core [OF o7(2)] o3(2) r(1)
    by (auto simp: in_item_def set_top_def pushed_def same_core_def emitted_def appended_def at_end_def out_def)
  moreover have "ready_enc n ?o8"
    using f f7 assms(1) appended_at_end [OF o7(2)] appended_core [OF o7(2)]
    by (auto simp: ready_enc_def set_top_def pushed_def at_end_def same_core_def)
  ultimately show thesis using that by blast
qed


lemma wrote_core: "wrote o1 bs o2 \<Longrightarrow> same_core o1 o2"
  by (auto simp: wrote_def same_core_def)

lemma putc_patch:
  assumes "at_end o2" and "off < top o2"
  obtains o3 where "odr_putc (o2\<lparr>pos := off\<rparr>) b = (True, o3)" "odr_seek o3 ODR_S_END 0 = (True, o3\<lparr>pos := top o3\<rparr>)"
    "at_end (o3\<lparr>pos := top o3\<rparr>)" "out o3 = (out o2)[off := b]" "same_core o2 (o3\<lparr>pos := top o3\<rparr>)"
    "t_class o3 = t_class o2"
proof -
  have wf: "odr_wf (o2\<lparr>pos := off\<rparr>)"
    using assms by (simp add: odr_wf_def at_end_def)
  obtain o3 where o3: "odr_putc (o2\<lparr>pos := off\<rparr>) b = (True, o3)" "wrote (o2\<lparr>pos := off\<rparr>) [b] o3"
    by (rule putc_over [OF wf]) (use assms in \<open>simp_all add: at_end_def\<close>)
  have out: "out (o2\<lparr>pos := off\<rparr>) = out o2" by (simp add: out_def)
  have "off < length (out o2)" using assms by (simp add: length_out)
  then have "out o3 = (out o2)[off := b]"
    using o3(2) by (simp add: wrote_def out upd_conv_take_nth_drop)
  moreover have "odr_seek o3 ODR_S_END 0 = (True, o3\<lparr>pos := top o3\<rparr>)"
    using wrote_frame(6) [OF o3(2)] by (rule seek_end)
  moreover have "at_end (o3\<lparr>pos := top o3\<rparr>)"
    using wrote_frame(6) [OF o3(2)] by (simp add: at_end_def odr_wf_def)
  moreover have "same_core o2 (o3\<lparr>pos := top o3\<rparr>)" "t_class o3 = t_class o2"
    using wrote_core [OF o3(2)] o3(2) by (auto simp: same_core_def wrote_def)
  ultimately show thesis using that o3(1) by blast
qed

lemma constructed_end_encode:
  assumes r: "can_grow o0" "error o0 = ONONE" "direction o0 = ODR_ENCODE"
    and item: "in_item o0 ts t o1" and c: "emitted o1 c o2"
    and room: "top o0 + length (ts @ wrap_octets c) \<le> odr_limit"
  obtains o3 where "odr_constructed_end o2 = Some (True, o3)" "emitted o0 (ts @ wrap_octets c) o3"
proof -
  note f = emitted_frame [OF c]
  have core: "same_core (pushed t o0) o2"
    using item c same_core_trans by (auto simp: in_item_def emitted_def)
  have o2: "stack o2 = t # stack o0" "can_grow o2" "error o2 = ONONE" "direction o2 = ODR_ENCODE"
    using core r by (simp_all add: same_core_def)
  let ?off = "con_len_offset t"
  have out2: "out o2 = out o0 @ ts @ 0 # c" using item f(11) by (simp add: in_item_def)
  have off: "?off = length (out o0 @ ts)" using item by (simp add: in_item_def length_out)
  have top2: "top o2 = ?off + 1 + length c" using length_out [OF f(1)] out2 off by simp
  have pos2: "pos o2 = top o2" using f(1) by (simp add: at_end_def)
  have seek: "odr_seek o2 ODR_S_SET ?off = (True, o2\<lparr>pos := ?off\<rparr>)"
    using f(1) top2 by (intro seek_set) (simp add: at_end_def)
  have bo: "con_base_offset t = ?off + 1" "con_lenlen t = 1" using item by (simp_all add: in_item_def)
  have len: "int (pos o2) - int (con_base_offset t) = int (length c)" using top2 pos2 bo by simp
  let ?b = "if length c \<le> 127 then byte_of (length c) else 0x80"
  obtain o3 where o3: "odr_putc (o2\<lparr>pos := ?off\<rparr>) ?b = (True, o3)"
      "odr_seek o3 ODR_S_END 0 = (True, o3\<lparr>pos := top o3\<rparr>)"
      "at_end (o3\<lparr>pos := top o3\<rparr>)" "out o3 = (out o2)[?off := ?b]" "same_core o2 (o3\<lparr>pos := top o3\<rparr>)"
      "t_class o3 = t_class o2"
    by (rule putc_patch [OF f(1), of ?off ?b]) (use top2 in simp_all)
  have out3: "out o3 = out o0 @ ts @ ?b # c"
    unfolding o3(4) out2 off by (simp add: list_update_append)
  let ?o4 = "o3\<lparr>pos := top o3\<rparr>"
  have core4: "same_core (pushed t o0) ?o4" using same_core_trans [OF core o3(5)] .
  show thesis
  proof (cases "length c \<le> 127")
    case True
    have "odr_constructed_end o2 = Some (True, ODR_STACK_POP ?o4)"
      using True o2 seek bo(2) len o3(1,2) by (simp add: odr_constructed_end_def Let_def ber_enclen_def of_nat_byte)
    moreover have "emitted o0 (ts @ wrap_octets c) (ODR_STACK_POP ?o4)"
      using True out3 pop_pushed [OF core4] o3(3,6) f(10) item
      by (simp add: emitted_def in_item_def wrap_octets_def out_def)
    ultimately show thesis using that by blast
  next
    case False
    have g4: "can_grow ?o4" using core4 r(1) by (simp add: same_core_def)
    have "top ?o4 = length (out o3)" using length_out [OF o3(3)] by (simp add: out_def)
    also have "\<dots> = top o0 + length ts + 1 + length c" using out3 item length_out [of o0] by (simp add: in_item_def)
    finally have room4: "top ?o4 + 2 \<le> odr_limit" using room False by (simp add: wrap_octets_def)
    obtain o5 where o5: "odr_putc ?o4 0 = (True, o5)" "appended ?o4 [0] o5"
      by (rule putc_append [OF o3(3) g4]) (use room4 in simp)
    have g5: "can_grow o5" using appended_frame(3) [OF o5(2)] g4 by simp
    obtain o6 where o6: "odr_putc o5 0 = (True, o6)" "appended o5 [0] o6"
      by (rule putc_append [OF appended_at_end [OF o5(2)] g5]) (use room4 appended_frame(11) [OF o5(2)] in simp)
    have a: "appended ?o4 [0, 0] o6" using appended_trans [OF o5(2) o6(2)] by simp
    have "odr_constructed_end o2 = Some (True, ODR_STACK_POP o6)"
      using False o2 seek bo(2) len o3(1,2) o5(1) o6(1) by (simp add: odr_constructed_end_def Let_def ber_enclen_def)
    moreover have "emitted o0 (ts @ wrap_octets c) (ODR_STACK_POP o6)"
      using False out3 pop_pushed [OF same_core_trans [OF core4 appended_core [OF a]]]
        appended_frame(7) [OF a] o3(6) f(10) item a
      by (simp add: emitted_def in_item_def wrap_octets_def appended_def out_def)
    ultimately show thesis using that by blast
  qed
qed


definition end_mark :: "byte list \<Rightarrow> byte list" where
  "end_mark c = (if length c \<le> 127 then [] else [0, 0])"

lemma wrap_octets_alt:
  "wrap_octets c = (if length c \<le> 127 then byte_of (length c) else 0x80) # c @ end_mark c"
  by (simp add: wrap_octets_def end_mark_def)

definition entered :: "odr \<Rightarrow> nat \<Rightarrow> byte list \<Rightarrow> constack \<Rightarrow> odr \<Rightarrow> bool" where
  "entered o0 k c t o1 \<longleftrightarrow> same_core (pushed t o0) o1 \<and> buf o1 = buf o0 \<and> bp o1 = bp o0 + k \<and>
     t_class o1 = -1 \<and> lclass o1 = -1 \<and> con_base t = bp o1 \<and>
     con_len t = (if length c \<le> 127 then int (length c) else -1)"

lemma constructed_begin_decode:
  assumes "ready_dec (Suc n) o0" and ok: "tag_ok (eff (zc, tag) o0)"
    and ts: "ts = tag_octets (fst (eff (zc, tag) o0)) (snd (eff (zc, tag) o0)) True"
    and bytes: "rest_of o0 = ts @ wrap_octets c @ rest"
  obtains o1 t where "odr_constructed_begin o0 p zc tag name = Some (True, None, o1)"
    "entered o0 (length ts + 1) c t o1"
proof -
  let ?ct = "eff (zc, tag) o0"
  have r: "error o0 = ONONE" "op_lenlen o0 = 1" "direction o0 = ODR_DECODE" "stack_depth o0 < 2000"
    using assms(1) by (simp_all add: ready_dec_def)
  let ?o2 = "if t_class (o0\<lparr>op_lenlen := 1\<rparr>) < 0 then o0\<lparr>op_lenlen := 1, t_class := zc, t_tag := tag\<rparr>
             else o0\<lparr>op_lenlen := 1\<rparr>"
  have o2: "?o2 = o0\<lparr>t_class := fst ?ct, t_tag := snd ?ct\<rparr>"
    using r(2) by (auto simp: eff_def intro!: odr.equality)
  obtain o3 where o3: "ber_tag ?o2 p (fst ?ct) (snd ?ct) True True name = Some (1, None, True, o3)"
      "consumed o0 (length ts) o3"
    using ber_tag_decode [OF assms(1) _ _ o2, of "fst ?ct" "snd ?ct" True "wrap_octets c @ rest" p True True name]
      ok bytes unfolding ts by auto
  note f = consumed_frame [OF o3(2)]
  obtain t ru where push: "odr_stack_push o3 = (True, (pushed t o3)\<lparr>reuse := ru\<rparr>)"
    using push_ok [of o3] f r(4) by metis
  have rest3: "rest_of o3 = wrap_octets c @ rest" unfolding f(10) bytes by simp
  have b3: "bp o3 \<le> length (buf o3)"
    by (rule consumed_bound [OF assms(1) o3(2)]) (simp add: bytes)
  let ?l = "if length c \<le> 127 then int (length c) else -1"
  have dl: "ber_declen (rest_of o3) l0 (odr_max o3) = Some (1, ?l)" for l0
  proof (cases "length c \<le> 127")
    case True
    then show ?thesis
      using declen_short [of "length c" "odr_max o3" "c @ rest" l0] rest_max [OF b3]
      unfolding rest3 by (simp add: wrap_octets_def)
  next
    case False
    then show ?thesis using rest_max [OF b3] unfolding rest3 by (simp add: wrap_octets_def ber_declen_def)
  qed
  let ?nm = "case name of None \<Rightarrow> ''?'' | Some n \<Rightarrow> n"
  let ?t = "t\<lparr>con_len_offset := pos o3, con_name := ?nm, con_len := ?l, con_lenlen := 1,
      con_base := Suc (bp o3), con_base_offset := pos o3\<rparr>"
  let ?o8 = "(pushed ?t o3)\<lparr>reuse := ru, bp := Suc (bp o3)\<rparr>"
  have mx: "?l \<le> odr_max o3 - 1"
    using rest_max [OF b3] unfolding rest3 by (simp add: wrap_octets_def)
  let ?o4 = "(pushed t o3)\<lparr>reuse := ru\<rparr>"
  have "set_top (\<lambda>t. t\<lparr>con_base := Suc (bp o3), con_base_offset := pos o3\<rparr>)
      (odr_advance (set_top (\<lambda>t. t\<lparr>con_lenlen := 1\<rparr>) (set_top (\<lambda>t. t\<lparr>con_len := ?l\<rparr>)
        (set_top (\<lambda>t. t\<lparr>con_len_offset := pos o3, con_name := ?nm\<rparr>) ?o4))) 1) = ?o8"
    by (auto simp: set_top_def pushed_def odr_advance_def nat_add_distrib intro!: odr.equality)
  note o8 = this
  have bp_adv: "bp (odr_advance o' 1) = Suc (bp o')" "pos (odr_advance o' 1) = pos o'"
      "odr_max (odr_advance o' 1) = odr_max o' - 1" for o'
    by (simp_all add: odr_advance_def odr_max_def nat_add_distrib)
  have tc2: "t_class ?o2 = fst ?ct" "t_tag ?o2 = snd ?ct" unfolding o2 by simp_all
  have mx4: "odr_max (set_top g o') = odr_max o'" "odr_max ?o4 = odr_max o3" for g o'
    by (simp_all add: odr_max_def)
  have "odr_constructed_begin o0 p zc tag name = Some (True, None, ?o8)"
    using r(1,2) o3(1) push f(2) r(3) dl tc2 mx
    by (simp add: odr_constructed_begin_def con_enter_def con_length_def con_finish_def Let_def bp_adv mx4 o8 del: if_split)
  moreover have "entered o0 (length ts + 1) c ?t ?o8"
    using f o3(2) by (simp add: entered_def consumed_def same_core_def pushed_def)
  ultimately show thesis using that by blast
qed


lemma inside_item:
  assumes "entered o0 k c t o1" and "consumed o1 j o2"
  shows "same_core (pushed t o0) o2" "stack o2 = t # stack o0" "buf o2 = buf o0" "bp o2 = con_base t + j"
    "error o2 = error o0" "direction o2 = direction o0" "lclass o2 = -1" "t_class o2 = -1"
    "op_lenlen o2 = op_lenlen o0" "stack_depth o2 = Suc (stack_depth o0)" "bp o2 = bp o0 + k + j"
proof -
  have "same_core (pushed t o0) o1" "same_core o1 o2" using assms by (simp_all add: entered_def consumed_def)
  then show core: "same_core (pushed t o0) o2" by (rule same_core_trans)
  show "stack o2 = t # stack o0" "buf o2 = buf o0" "bp o2 = con_base t + j"
    "error o2 = error o0" "direction o2 = direction o0" "lclass o2 = -1" "t_class o2 = -1"
    "op_lenlen o2 = op_lenlen o0" "stack_depth o2 = Suc (stack_depth o0)" "bp o2 = bp o0 + k + j"
    using core assms by (simp_all add: entered_def consumed_def same_core_def pushed_def)
qed

lemma inside_ready:
  assumes "ready_dec (Suc n) o0" and "entered o0 k c t o1" and "consumed o1 j o2" and "j < length c"
    and "k + j \<le> length (rest_of o0)"
  shows "ready_dec n o2"
proof -
  note i = inside_item [OF assms(2,3)]
  have "bp o0 \<le> length (buf o0)" using assms(1) by (simp add: ready_dec_def)
  then have "bp o2 \<le> length (buf o2)" using assms(5) i(3,11) by simp
  moreover have "0 \<le> con_len t \<longrightarrow> int (bp o2) - int (con_base t) < con_len t"
    using assms(2,4) i(4) by (simp add: entered_def)
  ultimately show ?thesis using assms(1) i by (simp add: ready_dec_def)
qed

lemma rest_nth: "rest_of o' = a # r \<Longrightarrow> odr_get o' (bp o') = Some a"
  by (metis Cons_nth_drop_Suc drop_all linorder_not_less list.distinct(1) list.inject odr_get_def)

lemma rest_nth2: "rest_of o' = a # b # r \<Longrightarrow> odr_get o' (Suc (bp o')) = Some b"
proof -
  assume "rest_of o' = a # b # r"
  then have "drop (Suc (bp o')) (buf o') = b # r" by (metis drop_Suc list.sel(3) tl_drop)
  then have "rest_of (o'\<lparr>bp := Suc (bp o')\<rparr>) = b # r" by simp
  from rest_nth [OF this] show ?thesis by (simp add: odr_get_def split: if_splits)
qed

lemma constructed_end_decode:
  assumes r: "error o0 = ONONE" "direction o0 = ODR_DECODE"
    and e: "entered o0 k c t o1" "consumed o1 (length c) o2" and bytes: "rest_of o2 = end_mark c @ rest"
  obtains o3 where "odr_constructed_more o2 = Some False" "odr_constructed_end o2 = Some (True, o3)"
    "consumed o0 (k + length c + length (end_mark c)) o3"
proof -
  note i = inside_item [OF e]
  have t: "con_len t = (if length c \<le> 127 then int (length c) else -1)" using e(1) by (simp add: entered_def)
  show thesis
  proof (cases "length c \<le> 127")
    case True
    then have "odr_constructed_more o2 = Some False" "odr_constructed_end o2 = Some (True, ODR_STACK_POP o2)"
      using i r t by (simp_all add: odr_constructed_more_def odr_constructed_end_def)
    moreover have "consumed o0 (k + length c + length (end_mark c)) (ODR_STACK_POP o2)"
      using True i pop_pushed [OF i(1)] by (simp add: consumed_def end_mark_def)
    ultimately show thesis using that by blast
  next
    case False
    have g: "odr_get o2 (bp o2) = Some 0" "odr_get o2 (Suc (bp o2)) = Some 0"
      using False bytes rest_nth [of o2 0 "0 # rest"] rest_nth2 [of o2 0 0 rest] by (simp_all add: end_mark_def)
    let ?o3 = "odr_advance (odr_advance o2 1) 1"
    have adv: "odr_get (odr_advance o2 1) (bp (odr_advance o2 1)) = odr_get o2 (Suc (bp o2))"
      "bp ?o3 = bp o2 + 2" "buf ?o3 = buf o2" "t_class ?o3 = t_class o2" "lclass ?o3 = lclass o2"
      by (simp_all add: odr_advance_def odr_get_def nat_add_distrib)
    have "odr_constructed_more o2 = Some False" "odr_constructed_end o2 = Some (True, ODR_STACK_POP ?o3)"
      using False i r t g adv(1) by (simp_all add: odr_constructed_more_def odr_constructed_end_def Let_def)
    moreover have "same_core (pushed t o0) ?o3" using i(1) by (simp add: same_core_def odr_advance_def)
    then have "consumed o0 (k + length c + length (end_mark c)) (ODR_STACK_POP ?o3)"
      using False i adv pop_pushed by (simp add: consumed_def end_mark_def)
    ultimately show thesis using that by blast
  qed
qed

section \<open>SEQUENCE OF turns a codec into a codec\<close>

definition items_octets :: "bool \<Rightarrow> ('a \<Rightarrow> byte list) \<Rightarrow> int \<times> int \<Rightarrow> 'a list \<Rightarrow> byte list" where
  "items_octets cons body dct xs = concat (map (element_octets cons body dct) xs)"

lemma items_Cons [simp]:
  "items_octets cons body dct (x # xs) = element_octets cons body dct x @ items_octets cons body dct xs"
  "items_octets cons body dct [] = []"
  by (simp_all add: items_octets_def)

lemma element_octets_pos: "tag_ok ct \<Longrightarrow> 0 < length (element_octets cons body ct x)"
  using tag_octets_nonzero [of "fst ct" "snd ct" cons]
  by (auto simp: element_octets_def tag_ok_def prod_eq_iff)

lemma eff_default: "t_class o' = -1 \<Longrightarrow> eff dct o' = dct"
  by (simp add: eff_def)

abbreviation retag :: "int \<times> int \<Rightarrow> odr \<Rightarrow> odr" where
  "retag dct o' \<equiv> o'\<lparr>t_class := fst (eff dct o'), t_tag := snd (eff dct o')\<rparr>"

lemma retag_core: "same_core o1 (o1\<lparr>t_class := a, t_tag := b\<rparr>)"
  by (simp add: same_core_def)

lemma retag_emitted: "emitted (o1\<lparr>t_class := a, t_tag := b\<rparr>) bs o2 \<longleftrightarrow> emitted o1 bs o2"
  by (simp add: emitted_def same_core_def at_end_def out_def)

lemma retag_consumed: "consumed (o1\<lparr>t_class := a, t_tag := b\<rparr>) k o2 \<longleftrightarrow> consumed o1 k o2"
  by (simp add: consumed_def same_core_def)

lemma retag_ready:
  "ready_enc n (o1\<lparr>t_class := a, t_tag := b\<rparr>) = ready_enc n o1"
  "ready_dec n (o1\<lparr>t_class := a, t_tag := b\<rparr>) = ready_dec n o1"
  by (simp_all add: ready_enc_def ready_dec_def at_end_def split: list.split)

lemma retag_eff:
  "tag_ok (eff dct o1) \<Longrightarrow> eff (zc, tag) (retag dct o1) = eff dct o1"
  by (simp add: eff_def tag_ok_def)

lemma begin_default_retag:
  "error o1 = ONONE \<Longrightarrow> begin_default dtag None o1 p name =
     odr_constructed_begin (retag (0, dtag) o1) (if direction o1 = ODR_DECODE then None else p)
       (fst (eff (0, dtag) o1)) (snd (eff (0, dtag) o1)) name"
proof -
  assume e: "error o1 = ONONE"
  have eq: "(if t_class o1 < 0 then o1\<lparr>t_class := 0, t_tag := dtag\<rparr> else o1) = retag (0, dtag) o1"
    by (auto simp: eff_def)
  let ?b = "odr_constructed_begin (retag (0, dtag) o1) (if direction o1 = ODR_DECODE then None else p)
       (fst (eff (0, dtag) o1)) (snd (eff (0, dtag) o1)) name"
  have "begin_default dtag None o1 p name = do {
      (r, p2, o2) \<leftarrow> ?b; if r then Some (True, p2, o2) else Some (False, p2, o2)}"
    unfolding begin_default_def eq Let_def using e by (simp cong: if_cong)
  also have "\<dots> = ?b" by (cases ?b) auto
  finally show ?thesis .
qed

context odr_codec
begin

lemma seq_encode_items:
  "ready_enc nest o1 \<Longrightarrow> stack o1 \<noteq> [] \<Longrightarrow> t_class o1 = -1 \<Longrightarrow> \<forall>x \<in> set xs. ok x \<Longrightarrow>
   top o1 + length (items_octets cons body dct xs) \<le> odr_limit \<Longrightarrow>
   \<exists>o2. seq_encode f o1 (map Some xs) = Some (True, map Some xs, o2) \<and>
     (xs = [] \<and> o2 = o1 \<or> emitted o1 (items_octets cons body dct xs) o2)"
proof (induction xs arbitrary: o1)
  case (Cons x xs)
  let ?e = "element_octets cons body dct x"
  obtain o2 where o2: "f o1 (Some x) False None = Some (True, Some x, o2)" "emitted o1 ?e o2"
    using encode [of o1 x False None] Cons.prems dct_ok by (auto simp: eff_default)
  note f = emitted_frame [OF o2(2)]
  obtain o3 where o3: "seq_encode f o2 (map Some xs) = Some (True, map Some xs, o3)"
      "xs = [] \<and> o3 = o2 \<or> emitted o2 (items_octets cons body dct xs) o3"
    using Cons.IH [of o2] ready_enc_step [OF Cons.prems(1) o2(2)] Cons.prems f by auto
  then have "emitted o1 (?e @ items_octets cons body dct xs) o3"
    using o2(2) emitted_trans by auto
  with o2(1) o3(1) show ?case by simp
qed simp

lemma seq_decode_items:
  assumes "ready_dec (Suc nest) o0" and e: "entered o0 k (items_octets cons body dct (ys @ xs)) t o1"
    and "consumed o1 (length (items_octets cons body dct ys)) o2"
    and "rest_of o2 = items_octets cons body dct xs @ end_mark (items_octets cons body dct (ys @ xs)) @ rest"
    and "\<forall>x \<in> set xs. ok x" and "length xs < n"
  shows "\<exists>o3. seq_decode n f o2 acc = Some (True, acc @ map Some xs, o3) \<and>
    consumed o1 (length (items_octets cons body dct (ys @ xs))) o3 \<and>
    rest_of o3 = end_mark (items_octets cons body dct (ys @ xs)) @ rest"
  using assms
proof (induction xs arbitrary: ys o2 n acc)
  case Nil
  have r: "error o0 = ONONE" "direction o0 = ODR_DECODE" using Nil.prems(1) by (simp_all add: ready_dec_def)
  obtain o3 where "odr_constructed_more o2 = Some False"
    by (rule constructed_end_decode [OF r Nil.prems(2)]) (use Nil.prems in simp_all)
  with Nil.prems show ?case by (cases n) simp_all
next
  case (Cons x xs)
  let ?it = "items_octets cons body dct"
  let ?e = "element_octets cons body dct x"
  have epos: "0 < length ?e" using element_octets_pos [OF dct_ok] .
  have tot: "?it (ys @ x # xs) = ?it ys @ ?e @ ?it xs" by (simp add: items_octets_def)
  have j: "length (?it ys) < length (?it (ys @ x # xs))" unfolding tot using epos by simp
  have bo: "bp o2 = bp o0 + k + length (?it ys)" "buf o2 = buf o0" "t_class o2 = -1" "stack o2 = t # stack o0"
    using inside_item [OF Cons.prems(2,3)] by simp_all
  have "rest_of o2 \<noteq> []" using Cons.prems(4) epos by auto
  then have "bp o2 < length (buf o2)" by simp
  then have "k + length (?it ys) \<le> length (rest_of o0)" using bo by simp
  then have rd: "ready_dec nest o2" by (rule inside_ready [OF Cons.prems(1,2,3) j])
  have bytes: "rest_of o2 = ?e @ ?it xs @ end_mark (?it (ys @ x # xs)) @ rest" using Cons.prems(4) by simp
  have hd: "?e \<noteq> [] \<and> hd ?e \<noteq> 0"
    using tag_octets_nonzero [of "fst dct" "snd dct" cons] dct_ok by (auto simp: element_octets_def tag_ok_def prod_eq_iff)
  have more: "odr_constructed_more o2 = Some True"
    using more_when_nonzero [OF rd, of "hd ?e" "tl ?e @ ?it xs @ end_mark (?it (ys @ x # xs)) @ rest"]
      hd bytes bo(4) by simp
  obtain o3 where o3: "f o2 None False None = Some (True, Some x, o3)" "consumed o2 (length ?e) o3"
    using decode [OF rd, of x _ None False None] Cons.prems(5) dct_ok bytes bo(3) by (auto simp: eff_default)
  obtain m where m: "n = Suc m" "length xs < m" using Cons.prems(6) by (cases n) auto
  have "consumed o1 (length (?it (ys @ [x]))) o3"
    using consumed_trans [OF Cons.prems(3) o3(2)] by (simp add: items_octets_def)
  moreover have "rest_of o3 = ?it xs @ end_mark (?it ((ys @ [x]) @ xs)) @ rest"
    using consumed_frame(10) [OF o3(2)] bytes by simp
  ultimately show ?case
    using Cons.IH [of "ys @ [x]" o3 m "acc @ [Some x]"] Cons.prems(1,2,5) m more o3(1) by simp
qed

lemma sequence_of_encode:
  assumes r: "ready_enc (Suc nest) o1" and tok: "tag_ok (eff (0, 16) o1)" and xs: "\<forall>x \<in> set xs. ok x"
    and ts: "ts = tag_octets (fst (eff (0, 16) o1)) (snd (eff (0, 16) o1)) True"
    and c: "c = items_octets cons body dct xs"
    and len: "top o1 + length (ts @ wrap_octets c) \<le> odr_limit"
  shows "\<exists>o2. odr_sequence_of n f o1 (Some (map Some xs)) name = Some (True, Some (map Some xs), o2) \<and>
    emitted o1 (ts @ wrap_octets c) o2"
proof -
  let ?oa = "retag (0, 16) o1" and ?ps = "map Some xs"
  have r': "ready_enc (Suc nest) ?oa" using r by (simp add: retag_ready)
  have e0: "error o1 = ONONE" "direction o1 = ODR_ENCODE" "can_grow o1" using r by (simp_all add: ready_enc_def)
  obtain o2 t where o2: "odr_constructed_begin ?oa (Some ?ps) (fst (eff (0, 16) o1)) (snd (eff (0, 16) o1)) name =
        Some (True, Some ?ps, o2)" "in_item ?oa ts t o2" "ready_enc nest o2"
    by (rule constructed_begin_encode [OF r', where x = ?ps and ts = ts])
      (use tok len in \<open>simp_all add: retag_eff ts wrap_octets_alt\<close>)
  have i: "stack o2 \<noteq> []" "t_class o2 = -1" "direction o2 = ODR_ENCODE" "top o2 = top o1 + length ts + 1"
    using o2(2) e0 length_out [of o2] length_out [of ?oa] by (auto simp: in_item_def same_core_def)
  have "top o2 + length c \<le> odr_limit" using i(4) len by (simp add: wrap_octets_alt)
  then obtain o3 where o3: "seq_encode f o2 ?ps = Some (True, ?ps, o3)" "emitted o2 c o3"
    using seq_encode_items [OF o2(3) i(1,2) xs] o2(3) i(2)
    by (auto simp: c emitted_def same_core_def ready_enc_def)
  obtain o4 where o4: "odr_constructed_end o3 = Some (True, o4)" "emitted ?oa (ts @ wrap_octets c) o4"
    by (rule constructed_end_encode [OF _ _ _ o2(2) o3(2)]) (use e0 len in simp_all)
  have "odr_sequence_begin None o1 (Some ?ps) name = Some (True, Some ?ps, o2)"
    using o2(1) e0 by (simp add: odr_sequence_begin_def begin_default_retag)
  with o3(1) o4 i(3) show ?thesis
    by (simp add: odr_sequence_of_def odr_sequence_x_def odr_sequence_end_def retag_emitted)
qed

lemma sequence_of_decode:
  assumes r: "ready_dec (Suc nest) o1" and tok: "tag_ok (eff (0, 16) o1)" and xs: "\<forall>x \<in> set xs. ok x" "length xs < n"
    and ts: "ts = tag_octets (fst (eff (0, 16) o1)) (snd (eff (0, 16) o1)) True"
    and c: "c = items_octets cons body dct xs"
    and bytes: "rest_of o1 = (ts @ wrap_octets c) @ rest"
  shows "\<exists>o2. odr_sequence_of n f o1 p name = Some (True, Some (map Some xs), o2) \<and>
    consumed o1 (length (ts @ wrap_octets c)) o2"
proof -
  let ?oa = "retag (0, 16) o1"
  have r': "ready_dec (Suc nest) ?oa" using r by (simp add: retag_ready)
  have e0: "error o1 = ONONE" "direction o1 = ODR_DECODE" using r by (simp_all add: ready_dec_def)
  obtain o2 t where o2: "odr_constructed_begin ?oa (None :: 'a option list option) (fst (eff (0, 16) o1)) (snd (eff (0, 16) o1)) name = Some (True, None, o2)"
      "entered ?oa (length ts + 1) c t o2"
    by (rule constructed_begin_decode [OF r', where ts = ts and c = c and rest = rest and p = "None :: 'a option list option"])
      (use tok bytes in \<open>simp_all add: retag_eff ts\<close>)
  have "consumed o2 0 o2" using o2(2) by (simp add: entered_def consumed_def same_core_def)
  moreover have "rest_of o2 = drop (length ts + 1) (rest_of o1)"
    using o2(2) by (simp add: entered_def add.commute)
  then have rest2: "rest_of o2 = c @ end_mark c @ rest" unfolding bytes by (simp add: wrap_octets_alt)
  ultimately obtain o3 where o3: "seq_decode n f o2 [] = Some (True, map Some xs, o3)"
      "consumed o2 (length c) o3" "rest_of o3 = end_mark c @ rest"
    using seq_decode_items [OF r', of "length ts + 1" "[]" xs t o2 o2 rest n "[]"] o2(2) xs by (auto simp: c)
  obtain o4 where o4: "odr_constructed_end o3 = Some (True, o4)"
      "consumed ?oa (length ts + 1 + length c + length (end_mark c)) o4"
    by (rule constructed_end_decode [OF _ _ o2(2) o3(2,3)]) (use e0 in simp_all)
  have "direction o2 = ODR_DECODE" using o2(2) e0 by (simp add: entered_def same_core_def)
  moreover have "odr_sequence_begin None o1 p name = Some (True, None, o2)"
    using o2(1) e0 by (simp add: odr_sequence_begin_def begin_default_retag)
  ultimately show ?thesis using o3(1) o4
    by (simp add: odr_sequence_of_def odr_sequence_x_def odr_sequence_end_def retag_consumed wrap_octets_alt add.assoc)
qed

lemma sequence_of_codec:
  "odr_codec (\<lambda>o' p opt name. odr_sequence_of n f o' p name) (0, 16) True
     (\<lambda>ps. wrap_octets (items_octets cons body dct (map the ps)))
     (\<lambda>ps. \<exists>xs. ps = map Some xs \<and> (\<forall>x \<in> set xs. ok x) \<and> length xs < n) (Suc nest)"
proof (unfold_locales, goal_cases)
  case 1
  show ?case by (simp add: tag_ok_def)
next
  case (2 o1 ps opt name)
  then obtain xs where xs: "ps = map Some xs" "\<forall>x \<in> set xs. ok x" by blast
  from sequence_of_encode [OF 2(1,2) xs(2) refl refl] 2(4) show ?case
    by (simp add: xs(1) element_octets_def comp_def)
next
  case (3 o1 ps p opt name rest)
  then obtain xs where xs: "ps = map Some xs" "\<forall>x \<in> set xs. ok x" "length xs < n" by blast
  from sequence_of_decode [OF 3(1,2) xs(2,3) refl refl, of rest p name] 3(4) show ?case
    by (simp add: xs(1) element_octets_def comp_def)
qed

lemma implicit_tag_codec:
  assumes "tag_ok (cl, tg)"
  shows "odr_codec (odr_implicit_tag f cl tg) (cl, tg) cons body ok nest"
proof -
  have set: "error o1 = ONONE \<Longrightarrow> snd (odr_implicit_settag o1 cl tg) = retag (cl, tg) o1" for o1
    by (auto simp: odr_implicit_settag_def eff_def intro!: odr.equality)
  have eff2: "tag_ok (eff (cl, tg) o1) \<Longrightarrow> eff dct (retag (cl, tg) o1) = eff (cl, tg) o1" for o1
    by (auto simp: eff_def tag_ok_def)
  show ?thesis
  proof (unfold_locales, goal_cases)
    case 1
    show ?case by (rule assms)
  next
    case (2 o1 x opt name)
    then show ?case
      using encode [of "retag (cl, tg) o1" x opt name] set [of o1] eff2 [of o1]
      by (simp add: odr_implicit_tag_def retag_ready retag_emitted ready_enc_def at_end_def)
  next
    case (3 o1 x p opt name rest)
    then show ?case
      using decode [of "retag (cl, tg) o1" x rest p opt name] set [of o1] eff2 [of o1]
      by (simp add: odr_implicit_tag_def retag_ready retag_consumed) (simp add: ready_dec_def)
  qed
qed

lemma explicit_tag_codec:
  assumes "tag_ok (cl, tg)"
  shows "odr_codec (odr_explicit_tag f cl tg) (cl, tg) True
    (\<lambda>x. wrap_octets (element_octets cons body dct x)) ok (Suc nest)"
proof (unfold_locales, goal_cases)
  case 1
  show ?case by (rule assms)
next
  case (2 o1 x opt name)
  let ?c = "element_octets cons body dct x"
  let ?ts = "tag_octets (fst (eff (cl, tg) o1)) (snd (eff (cl, tg) o1)) True"
  have len: "top o1 + length ?ts + 1 + length ?c \<le> odr_limit"
    using 2(4) by (simp add: element_octets_def wrap_octets_alt)
  have e0: "error o1 = ONONE" "direction o1 = ODR_ENCODE" "can_grow o1" using 2(1) by (simp_all add: ready_enc_def)
  obtain o2 t where o2: "odr_constructed_begin o1 (Some x) cl tg None = Some (True, Some x, o2)"
      "in_item o1 ?ts t o2" "ready_enc nest o2"
    by (rule constructed_begin_encode [OF 2(1,2) refl, of x None]) (use len in simp_all)
  have i: "t_class o2 = -1" "top o2 = top o1 + length ?ts + 1"
    using o2(2) length_out [of o2] length_out [of o1] by (auto simp: in_item_def)
  obtain o3 where o3: "f o2 (Some x) opt name = Some (True, Some x, o3)" "emitted o2 ?c o3"
    using encode [OF o2(3), of x opt name] 2(3) dct_ok i len by (auto simp: eff_default)
  obtain o4 where "odr_constructed_end o3 = Some (True, o4)" "emitted o1 (?ts @ wrap_octets ?c) o4"
    by (rule constructed_end_encode [OF e0(3,1,2) o2(2) o3(2)]) (use 2(4) in \<open>simp add: element_octets_def [of True]\<close>)
  with o2(1) o3(1) show ?case
    by (simp add: odr_explicit_tag_def element_octets_def [of True])
next
  case (3 o1 x p opt name rest)
  let ?c = "element_octets cons body dct x"
  let ?ts = "tag_octets (fst (eff (cl, tg) o1)) (snd (eff (cl, tg) o1)) True"
  have bytes: "rest_of o1 = ?ts @ wrap_octets ?c @ rest" using 3(4) by (simp add: element_octets_def [of True])
  have e0: "error o1 = ONONE" "direction o1 = ODR_DECODE" using 3(1) by (simp_all add: ready_dec_def)
  obtain o2 t where o2: "odr_constructed_begin o1 p cl tg None = Some (True, None, o2)"
      "entered o1 (length ?ts + 1) ?c t o2"
    by (rule constructed_begin_decode [OF 3(1,2) refl bytes])
  have "rest_of o2 = drop (length ?ts + 1) (rest_of o1)" using o2(2) by (simp add: entered_def add.commute)
  then have rest2: "rest_of o2 = ?c @ end_mark ?c @ rest" unfolding bytes by (simp add: wrap_octets_alt)
  have c0: "consumed o2 0 o2" using o2(2) by (simp add: entered_def consumed_def same_core_def)
  have rd: "ready_dec nest o2"
    by (rule inside_ready [OF 3(1) o2(2) c0 element_octets_pos [OF dct_ok]]) (simp add: bytes wrap_octets_alt)
  obtain o3 where o3: "f o2 None opt name = Some (True, Some x, o3)" "consumed o2 (length ?c) o3"
    using decode [OF rd, of x _ None opt name] 3(3) dct_ok rest2 o2(2) by (auto simp: eff_default entered_def)
  have "rest_of o3 = end_mark ?c @ rest" using consumed_frame(10) [OF o3(2)] rest2 by simp
  then obtain o4 where "odr_constructed_end o3 = Some (True, o4)"
      "consumed o1 (length ?ts + 1 + length ?c + length (end_mark ?c)) o4"
    by (rule constructed_end_decode [OF e0 o2(2) o3(2)])
  with o2(1) o3(1) show ?case
    by (simp add: odr_explicit_tag_def element_octets_def [of True] wrap_octets_alt add.assoc)
qed

end

section \<open>Composed codecs\<close>

interpretation visiblestring: odr_codec "odr_visiblestring (Suc n)" "(0, 26)" False cstring_octets cstring_ok 0
  unfolding odr_visiblestring_def by (rule cstring.implicit_tag_codec) (simp add: tag_ok_def)

interpretation graphicstring: odr_codec "odr_graphicstring (Suc n)" "(0, 25)" False cstring_octets cstring_ok 0
  unfolding odr_graphicstring_def by (rule cstring.implicit_tag_codec) (simp add: tag_ok_def)

interpretation generalizedtime: odr_codec "odr_generalizedtime (Suc n)" "(0, 24)" False cstring_octets cstring_ok 0
  unfolding odr_generalizedtime_def by (rule cstring.implicit_tag_codec) (simp add: tag_ok_def)

section \<open>Messages\<close>

lemma createmem_ready_enc: "n \<le> 2000 \<Longrightarrow> ready_enc n (odr_createmem h ODR_ENCODE)"
  by (simp add: ready_enc_def) (simp add: odr_createmem_def odr_reset_def odr_seek_def odr_seterror_def)

lemma setbuf_ready_dec: "n \<le> 2000 \<Longrightarrow> ready_dec n (odr_setbuf (odr_createmem h ODR_DECODE) bs grow)"
  by (simp add: ready_dec_def odr_createmem_def odr_reset_def odr_seek_def odr_seterror_def odr_setbuf_def)

lemma setbuf_rest:
  "rest_of (odr_setbuf (odr_createmem h ODR_DECODE) bs grow) = bs"
  "t_class (odr_setbuf (odr_createmem h ODR_DECODE) bs grow) = -1"
  "bp (odr_setbuf (odr_createmem h ODR_DECODE) bs grow) = 0"
  "buf (odr_setbuf (odr_createmem h ODR_DECODE) bs grow) = bs"
  by (simp_all add: odr_createmem_def odr_reset_def odr_seek_def odr_seterror_def odr_setbuf_def)

text \<open>
  \<open>transfers f x\<close>: a fresh encoder accepts \<open>x\<close>, and a fresh decoder that is given the bytes of its
  buffer, followed by anything, returns \<open>x\<close> and stops behind the bytes of the message.
\<close>

definition transfers :: "'a odr_fun \<Rightarrow> 'a \<Rightarrow> bool" where
  "transfers f x \<longleftrightarrow> (\<forall>h h' opt opt' name name' p rest grow.
     \<exists>o2 o3. f (odr_createmem h ODR_ENCODE) (Some x) opt name = Some (True, Some x, o2) \<and>
       f (odr_setbuf (odr_createmem h' ODR_DECODE) (out o2 @ rest) grow) p opt' name' = Some (True, Some x, o3) \<and>
       error o3 = ONONE \<and> odr_offset o3 = length (out o2))"

context odr_codec
begin

lemma message:
  assumes "ok x" and "nest \<le> 2000" and "length (element_octets cons body dct x) \<le> odr_limit"
  shows "transfers f x"
  unfolding transfers_def
proof (intro allI)
  fix h h' opt opt' name name' p rest grow
  let ?e = "element_octets cons body dct x"
  obtain o2 where o2: "f (odr_createmem h ODR_ENCODE) (Some x) opt name = Some (True, Some x, o2)"
      "emitted (odr_createmem h ODR_ENCODE) ?e o2"
    using encode [OF createmem_ready_enc [OF assms(2)], of h x opt name] assms dct_ok by (auto simp: eff_default)
  have out: "out o2 = ?e" using emitted_frame(11) [OF o2(2)] by simp
  let ?d = "odr_setbuf (odr_createmem h' ODR_DECODE) (?e @ rest) grow"
  obtain o3 where o3: "f ?d p opt' name' = Some (True, Some x, o3)" "consumed ?d (length ?e) o3"
    using decode [OF setbuf_ready_dec [OF assms(2)], of h' "?e @ rest" grow x rest p opt' name'] assms(1) dct_ok
      setbuf_rest [of h' "?e @ rest" grow]
    by (auto simp: eff_default)
  have "error o3 = ONONE" "odr_offset o3 = length ?e"
    using consumed_frame(1,8) [OF o3(2)] setbuf_ready_dec [OF assms(2), of h' "?e @ rest" grow]
      setbuf_rest(3) [of h' "?e @ rest" grow]
    by (simp_all add: odr_offset_def ready_dec_def)
  with o2(1) o3(1) out
  show "\<exists>o2 o3. f (odr_createmem h ODR_ENCODE) (Some x) opt name = Some (True, Some x, o2) \<and>
       f (odr_setbuf (odr_createmem h' ODR_DECODE) (out o2 @ rest) grow) p opt' name' = Some (True, Some x, o3) \<and>
       error o3 = ONONE \<and> odr_offset o3 = length (out o2)"
    by auto
qed

end

section \<open>Sizes\<close>

lemma length_tag_octets: "tag_ok ct \<Longrightarrow> length (tag_octets (fst ct) (snd ct) cons) \<le> 5"
proof -
  assume "tag_ok ct"
  then have "nat (snd ct) < 128 ^ Suc 3" by (simp add: tag_ok_def nat_less_iff)
  then have "length (base128 (nat (snd ct))) \<le> 4" using length_base128_bound by fastforce
  then show ?thesis by (auto simp: tag_octets_def cont_octets_def)
qed

lemma length_len_octets: "n < 2 ^ 24 \<Longrightarrow> length (len_octets (int n)) \<le> 4"
  using length_base256_bound [of n 2]
  by (simp add: len_octets_def long_length_def pad_octets_def Let_def)

lemma length_wrap_octets: "length (wrap_octets c) \<le> length c + 3"
  by (simp add: wrap_octets_def)

lemma length_items_le:
  "(\<And>x. x \<in> set xs \<Longrightarrow> length (element_octets cons body dct x) \<le> g x) \<Longrightarrow>
   length (items_octets cons body dct xs) \<le> sum_list (map g xs)"
  by (induction xs) (auto intro: add_mono)

lemma length_cstring_element:
  assumes "tag_ok ct" and "cstring_ok v"
  shows "length (element_octets False cstring_octets ct v) \<le> length v + 9"
  using length_tag_octets [OF assms(1), of False] length_len_octets [of "length v"] assms(2)
  by (simp add: element_octets_def cstring_octets_def oct_octets_def oct_content_def cstring_ok_def)

section \<open>Constructed strings\<close>

lemma constructed_keeps_struct:
  "ber_octetstring n o' v True = Some (r, w, o2) \<Longrightarrow> direction o' = ODR_DECODE \<Longrightarrow> w = v"
  by (cases n) (auto simp: ber_octetstring.simps bind_Some_iff Let_def split: if_splits)

lemma tag_24: "tag_octets 0 4 True = [0x24]"
  by (simp add: tag_octets_def tag_first_def byte_of_def)

text \<open>The decoding states in which the buffer starts with a constructed string of indefinite length.\<close>

definition stuck :: "byte \<Rightarrow> byte list \<Rightarrow> odr \<Rightarrow> bool" where
  "stuck b rest o' \<longleftrightarrow> direction o' = ODR_DECODE \<and> error o' = ONONE \<and> stack o' = [] \<and> t_class o' = -1 \<and>
     buf o' = 0x24 # 0x80 # b # rest"

text \<open>The handle on which such a string is decoded again, and what follows the nested call.\<close>

definition again :: "odr \<Rightarrow> odr" where
  "again o' = o'\<lparr>t_tag := 4, t_class := -1, pos := 0, top := 0, bp := 2, lclass := -1, br := 1,
     ltag := 4, lcons := True\<rparr>"

definition after_chunk :: "nat \<Rightarrow> (bool \<times> odr_oct option \<times> odr) cres \<Rightarrow> (bool \<times> odr_oct option \<times> odr) cres" where
  "after_chunk n call = do {
     (r, _, o2) \<leftarrow> call;
     (r', o3) \<leftarrow> (if \<not> r then Some (False, o2) else oct_chunks n o2 2 (-1));
     if r' then Some (True, Some oct_null, o3) else Some (False, Some oct_null, odr_seterror o3 OOTHER 43)}"

lemma again_stuck: "stuck b rest o1 \<Longrightarrow> stuck b rest (again o1)"
  by (simp add: stuck_def again_def)

lemma again_again: "again (again o1) = again o1"
  by (simp add: again_def)

lemma stuck_tag:
  fixes f :: "odr \<Rightarrow> odr_oct option \<Rightarrow> bool \<Rightarrow> (bool \<times> odr_oct option \<times> odr) cres"
  assumes "stuck b rest o1"
  shows "odr_type 4 f o1 p opt name = f ((again o1)\<lparr>bp := 1\<rparr>) None True"
proof -
  have "o1\<lparr>t_tag := 4, t_class := -1, pos := 0, top := 0, bp := 0, lclass := -1, br := 1, ltag := 4,
      lcons := True, bp := 1, lclass := -1\<rparr> = (again o1)\<lparr>bp := 1\<rparr>"
    by (simp add: again_def)
  then show ?thesis
    using assms by (simp add: stuck_def odr_type_def Let_def ber_tag_def seek_start ber_dectag_def odr_max_def odr_advance_def)
qed

lemma stuck_length:
  assumes "stuck b rest o1" and "o2 = (again o1)\<lparr>bp := 1\<rparr>"
  shows "direction o2 = ODR_DECODE" "rest_of o2 = 0x80 # b # rest" "odr_max o2 = int (length rest) + 2"
    "odr_advance o2 1 = again o1" "bp (again o1) = 2"
  using assms by (simp_all add: stuck_def odr_max_def again_def odr_advance_def)

lemma stuck_step:
  assumes "stuck b rest o1" and "b \<noteq> 0"
  shows "odr_octetstring (n + 3) o1 p opt name = after_chunk n (odr_octetstring n (again o1) None False None)"
proof -
  define o2 where "o2 = (again o1)\<lparr>bp := 1\<rparr>"
  note o2 = stuck_length [OF assms(1) o2_def]
  let ?call = "odr_octetstring n (again o1) None False None"
  have more: "odp_more_chunks (again o1) 2 (-1) = Some (True, again o1)"
    using assms by (simp add: odp_more_chunks_def stuck_def odr_get_def again_def)
  have "ber_octetstring (Suc (Suc n)) o2 oct_null True = do {
      (r, _, o3) \<leftarrow> ?call;
      (r', o4) \<leftarrow> (if \<not> r then Some (False, o3) else oct_chunks n o3 2 (-1));
      Some (r', oct_null, o4)}"
    using o2 more
    by (cases ?call) (auto simp: ber_octetstring.simps oct_chunks.simps(2) ber_declen_def Let_def)
  then have "odr_octetstring (Suc (Suc (Suc n))) o1 p opt name = after_chunk n ?call"
    using o2(1) unfolding odr_octetstring.simps(2) stuck_tag [OF assms(1)] o2_def [symmetric]
    by (cases ?call) (auto simp: after_chunk_def bind_assoc split: prod.splits intro!: Option.bind_cong)
  then show ?thesis by (simp add: numeral_3_eq_3)
qed

lemma stuck_octetstring:
  assumes "b \<noteq> 0"
  shows "stuck b rest o1 \<Longrightarrow> odr_octetstring n o1 p opt name = None"
proof (induction n arbitrary: o1 p opt name rule: less_induct)
  case (less n)
  show ?case
  proof (cases "n < 3")
    case False
    then obtain m where n: "n = m + 3" by (metis add.commute le_Suc_ex not_less)
    have "odr_octetstring m (again o1) None False None = None"
      by (rule less.IH) (simp_all add: n again_stuck less.prems)
    with stuck_step [OF less.prems assms, of m p opt name] n show ?thesis by (simp add: after_chunk_def)
  next
    case True
    then consider "n = 0" | "n = Suc 0" | "n = Suc (Suc 0)" by linarith
    then show ?thesis
      using stuck_length [OF less.prems refl]
      by cases (simp_all add: stuck_tag [OF less.prems] odr_octetstring.simps ber_octetstring.simps
          oct_chunks.simps ber_declen_def Let_def)
  qed
qed

section \<open>The stack of constructed items\<close>

text \<open>The part of the handle the invariant depends on; only \<open>odr_cons.c\<close> changes it.\<close>

definition con_state :: "odr \<Rightarrow> nat \<times> nat \<times> nat" where
  "con_state o' = (length (stack o'), length (reuse o'), stack_depth o')"

definition stack_inv :: "odr \<Rightarrow> bool" where
  "stack_inv o' \<longleftrightarrow> stack_depth o' = length (stack o') \<and> length (stack o') + length (reuse o') \<le> 2000"

lemma stack_inv_cong: "con_state o2 = con_state o1 \<Longrightarrow> stack_inv o2 = stack_inv o1"
  by (simp add: con_state_def stack_inv_def)

lemma con_state_updates [simp]:
  "con_state (odr_seterror o' e i) = con_state o'" "con_state (odr_setelement o' nm) = con_state o'"
  "con_state (fail_element o' e i nm) = con_state o'" "con_state (odr_printf o' t) = con_state o'"
  "con_state (odr_advance o' k) = con_state o'" "con_state (odr_prname o' nm) = con_state o'"
  by (simp_all add: con_state_def odr_seterror_def odr_setelement_def fail_element_def odr_printf_def
      odr_advance_def odr_prname_def Let_def split: option.splits)

lemma con_state_fields [simp]:
  "con_state (o'\<lparr>bp := a\<rparr>) = con_state o'" "con_state (o'\<lparr>top := a\<rparr>) = con_state o'"
  "con_state (o'\<lparr>pos := a\<rparr>) = con_state o'" "con_state (o'\<lparr>lclass := b\<rparr>) = con_state o'"
  "con_state (o'\<lparr>t_class := b\<rparr>) = con_state o'" "con_state (o'\<lparr>t_tag := b\<rparr>) = con_state o'"
  "con_state (o'\<lparr>buf := c\<rparr>) = con_state o'" "con_state (o'\<lparr>op_lenlen := b\<rparr>) = con_state o'"
  "con_state (o'\<lparr>indent := a\<rparr>) = con_state o'" "con_state (o'\<lparr>error := e\<rparr>) = con_state o'"
  "con_state (o'\<lparr>ltag := b\<rparr>) = con_state o'" "con_state (o'\<lparr>br := b\<rparr>) = con_state o'"
  "con_state (o'\<lparr>lcons := d\<rparr>) = con_state o'" "con_state (o'\<lparr>overflowed := d\<rparr>) = con_state o'"
  by (simp_all add: con_state_def)

lemma con_state_grow: "odr_grow_block o' n = (r, o2) \<Longrightarrow> con_state o2 = con_state o'"
  by (auto simp: odr_grow_block_def Let_def split: if_splits)

lemma con_state_putc: "odr_putc o' c = (r, o2) \<Longrightarrow> con_state o2 = con_state o'"
  by (auto simp: odr_putc_def Let_def split: if_splits prod.splits dest: con_state_grow)

lemma con_state_write: "odr_write o' bs = (r, o2) \<Longrightarrow> con_state o2 = con_state o'"
  by (auto simp: odr_write_def Let_def split: if_splits prod.splits dest: con_state_grow)

lemma con_state_seek: "con_state (snd (odr_seek o' w k)) = con_state o'"
  by (auto simp: odr_seek_def Let_def split: if_splits prod.splits dest: con_state_grow)

lemma con_state_put_all: "put_all o' bs = (r, o2) \<Longrightarrow> con_state o2 = con_state o'"
  by (induction bs arbitrary: o') (auto split: prod.splits if_splits dest: con_state_putc)

lemma con_state_enctag: "ber_enctag o' zc t c = Some (r, o2) \<Longrightarrow> con_state o2 = con_state o'"
  by (auto simp: ber_enctag_def Let_def split: if_splits prod.splits
      dest!: con_state_putc con_state_put_all)

lemma con_state_enclen: "ber_enclen o' l ll ex = (r, o2) \<Longrightarrow> con_state o2 = con_state o'"
  by (auto simp: ber_enclen_def Let_def con_state_seek split: if_splits prod.splits
      dest!: con_state_putc con_state_put_all)
    (metis con_state_putc con_state_seek prod.collapse)+

lemma con_state_ber_tag:
  assumes "ber_tag o' p zc t c opt nm = Some (r, q, k, o2)"
  shows "con_state o2 = con_state o'"
proof -
  let ?o1 = "o'\<lparr>t_class := -1\<rparr>"
  define X where "X = (if stack ?o1 = [] then (snd (odr_seek ?o1 ODR_S_SET 0))\<lparr>top := 0, bp := 0, lclass := -1\<rparr> else ?o1)"
  have X: "con_state X = con_state o'" by (simp add: X_def con_state_seek)
  show ?thesis
  proof (cases "direction X")
    case ODR_DECODE
    define P where "P = (if direction o' = ODR_DECODE then None else p)"
    define Y where "Y = (if lclass X < 0 then do {
        (r, c, t, k) \<leftarrow> ber_dectag (rest_of X) (lclass X, ltag X, lcons X) (odr_max X);
        Some (r > 0, X\<lparr>br := r, lclass := c, ltag := t, lcons := k\<rparr>)} else Some (True, X))"
    have Y: "Y = Some (ok, o3) \<Longrightarrow> con_state o3 = con_state o'" for ok o3
      using X by (auto simp: Y_def bind_Some_iff split: if_splits)
    from assms have "(\<exists>more. (if \<not> more then Some (0, P, c, if opt then X else fail_element X OREQUIRED 25 nm)
        else do {
          (ok, o3) \<leftarrow> Y;
          if \<not> ok then Some (0, P, c, fail_element o3 OPROTO 26 nm)
          else if zc = lclass o3 \<and> t = ltag o3
          then Some (1, P, lcons o3, (odr_advance o3 (br o3))\<lparr>lclass := -1\<rparr>)
          else Some (0, P, c, if opt then o3 else fail_element o3 OREQUIRED 27 nm)}) = Some (r, q, k, o2))"
      unfolding ber_tag_def Let_def X_def [symmetric] P_def [symmetric] Y_def [symmetric] ODR_DECODE direction.case
      by (elim bind_Some_iff [THEN iffD1, elim_format] exE conjE) (rule exI)
    then obtain more where "(if \<not> more then Some (0, P, c, if opt then X else fail_element X OREQUIRED 25 nm)
        else do {
          (ok, o3) \<leftarrow> Y;
          if \<not> ok then Some (0, P, c, fail_element o3 OPROTO 26 nm)
          else if zc = lclass o3 \<and> t = ltag o3
          then Some (1, P, lcons o3, (odr_advance o3 (br o3))\<lparr>lclass := -1\<rparr>)
          else Some (0, P, c, if opt then o3 else fail_element o3 OREQUIRED 27 nm)}) = Some (r, q, k, o2)" ..
    then show ?thesis
      by (cases more; cases opt) (auto simp: bind_Some_iff X [symmetric] split: if_splits dest!: Y)
  next
    case ODR_ENCODE
    from assms X show ?thesis unfolding ber_tag_def Let_def X_def [symmetric] ODR_ENCODE
      by (auto simp: bind_Some_iff split: if_splits option.splits dest!: con_state_enctag)
  next
    case ODR_PRINT
    from assms X show ?thesis unfolding ber_tag_def Let_def X_def [symmetric] ODR_PRINT
      by (auto split: if_splits)
  next
    case ODR_BAD_DIRECTION
    from assms X show ?thesis unfolding ber_tag_def Let_def X_def [symmetric] ODR_BAD_DIRECTION
      by (auto split: if_splits)
  qed
qed

lemma stack_inv_push:
  "odr_stack_push o' = (r, o2) \<Longrightarrow> stack_inv o' \<Longrightarrow> stack_inv o2 \<and> (r \<longrightarrow> stack o2 \<noteq> [])"
  by (auto simp: odr_stack_push_def stack_inv_def odr_seterror_def split: list.splits if_splits)

lemma stack_inv_pop: "stack_inv o' \<Longrightarrow> stack o' \<noteq> [] \<Longrightarrow> stack_inv (ODR_STACK_POP o')"
  by (cases "stack o'") (auto simp: stack_inv_def ODR_STACK_POP_def)

lemma con_state_set_top: "stack o' \<noteq> [] \<Longrightarrow> con_state (set_top f o') = con_state o'"
  by (cases "stack o'") (auto simp: con_state_def set_top_def)

lemma stack_inv_step:
  assumes "con_state o2 = con_state o1"
  shows "stack_inv o2 = stack_inv o1" "stack o2 = [] \<longleftrightarrow> stack o1 = []"
  using assms by (auto simp: con_state_def stack_inv_def)

lemma stack_inv_length:
  assumes "con_length o5 p ll nm = Some (r, q, o2)" and inv: "stack_inv o5" "stack o5 \<noteq> []"
  shows "stack_inv o2"
proof -
  have fin: "stack_inv (set_top f ox)" "stack_inv (ODR_STACK_POP ox)" if "con_state ox = con_state o5" for f ox
  proof -
    have "stack_inv ox" "stack ox \<noteq> []" using stack_inv_step [OF that] inv by simp_all
    then show "stack_inv (set_top f ox)" "stack_inv (ODR_STACK_POP ox)"
      using stack_inv_step(1) [OF con_state_set_top] stack_inv_pop by blast+
  qed
  note cs = con_state_set_top [OF inv(2)]
  show ?thesis
  proof (cases "direction o5")
    case ODR_DECODE
    with assms(1) obtain k l where "ber_declen (rest_of o5) (con_len (hd (stack o5))) (odr_max o5) = Some (k, l)"
      by (auto simp: con_length_def bind_Some_iff)
    with assms(1) ODR_DECODE show ?thesis
      by (auto simp: con_length_def Let_def con_finish_def cs con_state_set_top intro!: fin split: if_splits)
  next
    case ODR_ENCODE
    with assms(1) show ?thesis
      by (auto simp: con_length_def Let_def con_finish_def cs intro!: fin split: if_splits prod.splits dest!: con_state_write)
  next
    case ODR_PRINT
    with assms(1) show ?thesis by (auto simp: con_length_def Let_def con_finish_def intro!: fin)
  next
    case ODR_BAD_DIRECTION
    with assms(1) show ?thesis by (auto simp: con_length_def intro!: fin)
  qed
qed

lemma stack_inv_enter:
  "con_enter o3 p ll nm = Some (r, q, o2) \<Longrightarrow> stack_inv o3 \<Longrightarrow> stack_inv o2"
  using stack_inv_push [of o3 "fst (odr_stack_push o3)" "snd (odr_stack_push o3)"]
  by (auto simp: con_enter_def stack_inv_step(1) [OF con_state_set_top] split: prod.splits if_splits dest!: stack_inv_length)

lemma stack_inv_begin:
  assumes "odr_constructed_begin o' p zc t nm = Some (r, q, o2)" and "stack_inv o'"
  shows "stack_inv o2"
proof (cases "error o' = ONONE")
  case False
  with assms show ?thesis by (simp add: odr_constructed_begin_def Let_def)
next
  case True
  let ?o2 = "if t_class (o'\<lparr>op_lenlen := 1\<rparr>) < 0 then o'\<lparr>op_lenlen := 1, t_class := zc, t_tag := t\<rparr>
             else o'\<lparr>op_lenlen := 1\<rparr>"
  define B where "B = ber_tag ?o2 p (t_class ?o2) (t_tag ?o2) True True nm"
  have "Option.bind B (\<lambda>(res, q3, cons, o3).
      if res \<le> 0 \<or> \<not> cons then Some (False, q3, o3) else con_enter o3 q3 (op_lenlen o') nm) = Some (r, q, o2)"
    using assms(1) True unfolding odr_constructed_begin_def Let_def B_def [symmetric] by simp
  from bind_Some_iff [THEN iffD1, OF this] obtain x where x: "B = Some x" "(case x of (res, q3, cons, o3) \<Rightarrow>
      if res \<le> 0 \<or> \<not> cons then Some (False, q3, o3) else con_enter o3 q3 (op_lenlen o') nm) = Some (r, q, o2)"
    by (elim exE conjE)
  obtain res q3 cons o3 where xx: "x = (res, q3, cons, o3)" by (cases x)
  note tag = x(1) [unfolded B_def xx] and res = x(2) [unfolded xx prod.case]
  have "con_state o3 = con_state o'" using con_state_ber_tag [OF tag] by simp
  from stack_inv_step(1) [OF this] have "stack_inv o3" using assms(2) by simp
  with res show ?thesis by (auto split: if_splits dest: stack_inv_enter)
qed


lemma stack_inv_end:
  assumes "odr_constructed_end o' = Some (r, o2)" and inv: "stack_inv o'"
  shows "stack_inv o2"
proof (cases "error o' = ONONE \<and> stack o' \<noteq> []")
  case False
  with assms show ?thesis
    by (auto simp: odr_constructed_end_def stack_inv_step(1) [of "odr_seterror o' OOTHER 34" o'] split: list.splits if_splits)
next
  case True
  then obtain t ts where st: "stack o' = t # ts" by (cases "stack o'") auto
  have fin: "stack_inv ox" "stack_inv (ODR_STACK_POP ox)" if "con_state ox = con_state o'" for ox
  proof -
    have "stack_inv ox" "stack ox \<noteq> []" using stack_inv_step [OF that] inv True by simp_all
    then show "stack_inv ox" "stack_inv (ODR_STACK_POP ox)" using stack_inv_pop by blast+
  qed
  show ?thesis
  proof (cases "direction o'")
    case ODR_DECODE
    with assms(1) True st show ?thesis
      by (auto simp: odr_constructed_end_def Let_def bind_Some_iff intro!: fin(2) intro: fin(1) split: if_splits)
  next
    case ODR_ENCODE
    let ?o1 = "snd (odr_seek o' ODR_S_SET (con_len_offset t))"
    obtain res o3 where len: "ber_enclen ?o1 (int (pos o') - int (con_base_offset t)) (con_lenlen t) True = (res, o3)"
      by force
    have cs: "con_state o3 = con_state o'" using con_state_enclen [OF len] con_state_seek by simp
    let ?o3 = "snd (odr_seek o3 ODR_S_END 0)"
    obtain ok4 o4 where p4: "odr_putc ?o3 0 = (ok4, o4)" by force
    obtain ok5 o5 where p5: "odr_putc o4 0 = (ok5, o5)" by force
    have cs3: "con_state ?o3 = con_state o'" using cs con_state_seek by simp
    have cs4: "con_state o4 = con_state o'" using con_state_putc [OF p4] cs3 by simp
    have cs5: "con_state o5 = con_state o'" using con_state_putc [OF p5] cs4 by simp
    have "(if res < 0 then Some (False, odr_seterror o3 OLENOV 37)
        else if res = 0 then if \<not> ok4 then Some (False, o4)
          else if \<not> ok5 then Some (False, o5) else Some (True, ODR_STACK_POP o5)
        else Some (True, ODR_STACK_POP ?o3)) = Some (r, o2)"
      using assms(1) True st ODR_ENCODE len p4 p5 by (simp add: odr_constructed_end_def Let_def cong: if_cong)
    then show ?thesis using fin [OF cs3] fin [OF cs4] fin [OF cs5] fin(1) [of "odr_seterror o3 OLENOV 37"] cs
      by (simp split: if_splits)
  next
    case ODR_PRINT
    let ?o1 = "ODR_STACK_POP o'"
    let ?o3 = "odr_printf (odr_prname (?o1\<lparr>indent := indent ?o1 - 1\<rparr>) None) (''}'' @ [char_of (10 :: nat)])"
    have "con_state ?o3 = con_state ?o1" by simp
    from stack_inv_step(1) [OF this] have "stack_inv ?o3" using stack_inv_pop [OF inv] True by simp
    moreover have "o2 = ?o3" using assms(1) True st ODR_PRINT by (simp add: odr_constructed_end_def Let_def)
    ultimately show ?thesis by simp
  next
    case ODR_BAD_DIRECTION
    with assms(1) True st show ?thesis by (auto simp: odr_constructed_end_def intro: fin(1))
  qed
qed

text \<open>The handles a program can reach by opening and closing constructed items.\<close>

inductive con_reach :: "odr \<Rightarrow> bool" where
  create: "con_reach (odr_createmem h d)"
| reset: "con_reach o1 \<Longrightarrow> con_reach (odr_reset o1)"
| setbuf: "con_reach o1 \<Longrightarrow> con_reach (odr_setbuf o1 bs grow)"
| settag: "con_reach o1 \<Longrightarrow> con_reach (snd (odr_implicit_settag o1 zc t))"
| setlenlen: "con_reach o1 \<Longrightarrow> con_reach (odr_setlenlen o1 n)"
| opened: "con_reach o1 \<Longrightarrow> odr_constructed_begin o1 (p :: unit option) zc t nm = Some (r, q, o2) \<Longrightarrow> con_reach o2"
| closed: "con_reach o1 \<Longrightarrow> odr_constructed_end o1 = Some (r, o2) \<Longrightarrow> con_reach o2"

inductive_cases con_reachE: "con_reach o'"

lemma stack_inv_reset: "stack_inv (odr_reset o')"
  by (simp add: stack_inv_def odr_reset_def)

section \<open>Properties\<close>

text \<open>
  C16: INTEGER lists. A SEQUENCE OF INTEGER of any length up to 10^8, empty lists and negative
  numbers included, goes through encoder and decoder unchanged, whichever of the definite and
  indefinite forms its size selects. The bound keeps the message below 2^30 octets, where the
  encoder's buffer can always be doubled.
\<close>

theorem sequence_of_integer_transfers:
  assumes "length xs < n" and "length xs \<le> 10 ^ 8"
  shows "transfers (\<lambda>o' p opt name. odr_sequence_of n odr_integer o' p name) (map Some xs)"
proof (rule odr_codec.message [OF integer.sequence_of_codec])
  show "\<exists>ys. map Some xs = map Some ys \<and> (\<forall>x \<in> set ys. True) \<and> length ys < n" using assms(1) by blast
  have "length (element_octets False int_octets (0, 2) x) \<le> 10" for x
    using length_int_content [of x] by (simp add: element_octets_def int_octets_def tag_octets_def)
  then have "length (items_octets False int_octets (0, 2) xs) \<le> sum_list (map (\<lambda>_. 10) xs)"
    by (intro length_items_le)
  also have "\<dots> \<le> 10 ^ 9" using assms(2) by (simp add: sum_list_triv)
  finally show "length (element_octets True
      (\<lambda>ps. wrap_octets (items_octets False int_octets (0, 2) (map the ps))) (0, 16) (map Some xs)) \<le> odr_limit"
    using length_wrap_octets [of "items_octets False int_octets (0, 2) xs"]
    by (simp add: element_octets_def [of True] tag_octets_def odr_limit_def comp_def)
qed simp

theorem sequence_of_integer_transfers_witness:
  "transfers (\<lambda>o' p opt name. odr_sequence_of 4 odr_integer o' p name) (map Some [5, - 1, 70000])"
  by (rule sequence_of_integer_transfers) simp_all



text \<open>
  C19: decoding a character string in constructed form. The chunks are stored in a structure that
  is thrown away, so the caller's buffer pointer stays null and the terminator is written through
  it: a constructed string of length zero inside a sequence is undefined behaviour.
\<close>

theorem constructed_cstring_undefined:
  assumes "ready_dec 0 o1" and "t_class o1 = -1" and "rest_of o1 = 0x24 # 0x00 # rest"
  shows "odr_cstring (Suc (Suc n)) o1 p opt name = None"
proof -
  have e: "eff (0, 4) o1 = (0, 4)" "tag_ok (eff (0, 4) o1)" using assms(2) by (simp_all add: eff_def tag_ok_def)
  have r: "rest_of o1 = tag_octets (fst (eff (0, 4) o1)) (snd (eff (0, 4) o1)) True @ 0x00 # rest"
    using assms(3) e(1) tag_24 by simp
  let ?body = "\<lambda>o2 p cons.
     if direction o2 = ODR_PRINT then
       do {v \<leftarrow> p; Some (True, p, odr_printf (odr_prname o2 name) ([char_of (39 :: nat)] @ text_of (cstr v) @ [char_of (39 :: nat)] @ nl))}
     else do {
       t \<leftarrow> (if direction o2 = ODR_ENCODE then do {v \<leftarrow> p; Some (oct_of (cstr v))} else Some oct_null);
       (r, w, o3) \<leftarrow> ber_octetstring (Suc (Suc n)) o2 t cons;
       if \<not> r then Some (False, p, o3)
       else if direction o3 = ODR_DECODE then do {
         b \<leftarrow> oct_buf w;
         if oct_len w \<le> length b then Some (True, Some (take (oct_len w) b), o3) else None}
       else Some (True, p, o3)}"
  obtain o2 where o2: "odr_type 4 ?body o1 p opt name = ?body o2 None True"
      "consumed o1 (length (tag_octets (fst (eff (0, 4) o1)) (snd (eff (0, 4) o1)) True)) o2"
    by (rule odr_type_decode [OF assms(1) e(2) r, where f = ?body])
  note f = consumed_frame [OF o2(2)]
  have dir: "direction o2 = ODR_DECODE" using f(2) assms(1) by (simp add: ready_dec_def)
  have rest2: "rest_of o2 = byte_of 0 # rest" using f(10) e(1) r by (simp add: byte_of_def)
  have "bp o2 \<le> length (buf o2)"
    by (rule consumed_bound [OF assms(1) o2(2)]) (simp add: r)
  then have "1 \<le> odr_max o2" using rest_max [of o2] rest2 by simp
  then have dl: "ber_declen (rest_of o2) 0 (odr_max o2) = Some (1, 0)"
    unfolding rest2 using declen_short [of 0 "odr_max o2" rest 0] by simp
  have "ber_octetstring (Suc (Suc n)) o2 oct_null True = Some (True, oct_null, odr_advance o2 1)"
    using dir dl by (simp add: ber_octetstring.simps oct_chunks.simps odp_more_chunks_def Let_def)
  moreover have "direction (odr_advance o2 1) = ODR_DECODE" using dir by (simp add: odr_advance_def)
  ultimately show ?thesis using o2(1) dir by (simp add: odr_cstring_def)
qed

theorem constructed_cstring_undefined_witness:
  "odr_cstring (Suc (Suc 0)) (odr_setbuf (odr_createmem (\<lambda>_. 0) ODR_DECODE) [0x24, 0x00] False) None False None = None"
  by (rule constructed_cstring_undefined [OF setbuf_ready_dec, where rest = "[]"]) (simp_all add: setbuf_rest)




text \<open>
  C18: the stack of constructed items. However items are opened and closed, in whatever order and
  direction and with whatever errors, the recorded depth is the number of open items and neither
  it nor the number of allocated entries exceeds the limit of 2000.
\<close>

theorem con_stack_bounded:
  assumes "con_reach o1"
  shows "stack_depth o1 = length (stack o1) \<and> length (stack o1) + length (reuse o1) \<le> 2000"
proof -
  from assms have "stack_inv o1"
  proof induction
    case (create h d)
    show ?case by (simp add: odr_createmem_def stack_inv_reset)
  next
    case (setbuf o1 bs grow)
    then show ?case by (simp add: stack_inv_def odr_setbuf_def odr_seterror_def)
  next
    case (settag o1 zc t)
    then show ?case by (simp add: stack_inv_def odr_implicit_settag_def)
  next
    case (setlenlen o1 n)
    then show ?case by (simp add: stack_inv_def odr_setlenlen_def)
  qed (auto intro: stack_inv_reset stack_inv_begin stack_inv_end)
  then show ?thesis by (simp add: stack_inv_def)
qed

theorem con_stack_bounded_witness:
  "stack_depth (odr_createmem (\<lambda>_. 0) ODR_PRINT) = length (stack (odr_createmem (\<lambda>_. 0) ODR_PRINT)) \<and>
   length (stack (odr_createmem (\<lambda>_. 0) ODR_PRINT)) + length (reuse (odr_createmem (\<lambda>_. 0) ODR_PRINT)) \<le> 2000"
  by (rule con_stack_bounded) (rule con_reach.create)

end
