(* ===== verification/Yaz_Oid.thy ===== *)
theory Yaz_Oid
  imports Yaz_Codec_Laws
begin

text \<open>
  Object identifiers: the array operations and the dotted notation of \<^verbatim>\<open>oid_util.c\<close>, and the
  BER codec of \<^verbatim>\<open>ber_oid.c\<close> and \<^verbatim>\<open>odr_oid.c\<close>. An \<^verbatim>\<open>Odr_oid *\<close> points into an array of
  16-bit integers that is terminated by -1. The model of a pointer is the list of the cells from
  there to the end of the array; a read or write behind the end has no result.
\<close>

section \<open>Arrays (oid_util.c)\<close>

definition OID_SIZE :: nat where
  "OID_SIZE = 20"

text \<open>Conversion to \<^verbatim>\<open>short\<close>.\<close>

definition wrap16 :: "int \<Rightarrow> int" where
  "wrap16 i = (i + 2 ^ 15) mod 2 ^ 16 - 2 ^ 15"

lemma wrap16_id: "0 \<le> i \<Longrightarrow> i < 2 ^ 15 \<Longrightarrow> wrap16 i = i"
  by (simp add: wrap16_def)

fun oid_oidcpy :: "int list \<Rightarrow> int list \<Rightarrow> int list cres" where
  "oid_oidcpy (y # t) (x # s) = (if x > -1 then map_option ((#) x) (oid_oidcpy t s) else Some (x # t))"
| "oid_oidcpy _ _ = None"

fun oid_oidcat :: "int list \<Rightarrow> int list \<Rightarrow> int list cres" where
  "oid_oidcat [] s = None"
| "oid_oidcat (y # t) s =
     (if y > -1 then map_option ((#) y) (oid_oidcat t s) else oid_oidcpy (y # t) s)"

fun oid_oidcmp :: "int list \<Rightarrow> int list \<Rightarrow> int cres" where
  "oid_oidcmp (a # o1) (b # o2) =
     (if a = b \<and> a > -1 then oid_oidcmp o1 o2
      else Some (if a = b then 0 else if a > b then 1 else -1))"
| "oid_oidcmp _ _ = None"

fun oid_oidlen :: "int list \<Rightarrow> nat cres" where
  "oid_oidlen [] = None"
| "oid_oidlen (x # o1) = (if x \<ge> 0 then map_option Suc (oid_oidlen o1) else Some 0)"

fun dotstring_from :: "nat \<Rightarrow> int list \<Rightarrow> string cres" where
  "dotstring_from i [] = None"
| "dotstring_from i (x # xs) =
     (if x \<noteq> -1 \<and> i < OID_SIZE
      then map_option (\<lambda>r. (if i > 0 then ''.'' else []) @ dec_int x @ r) (dotstring_from (Suc i) xs)
      else Some [])"

definition oid_oid_to_dotstring :: "int list \<Rightarrow> string cres" where
  "oid_oid_to_dotstring oid = dotstring_from 0 oid"

definition set_cell :: "int list \<Rightarrow> nat \<Rightarrow> int \<Rightarrow> int list cres" where
  "set_cell a i v = (if i < length a then Some (a[i := wrap16 v]) else None)"

text \<open>The parsing loop: (cells, number of cells set, current value).\<close>

fun dot_loop :: "byte list \<Rightarrow> int list \<Rightarrow> nat \<Rightarrow> int \<Rightarrow> (int list \<times> nat \<times> int) cres" where
  "dot_loop [] a i val = Some (a, i, val)"
| "dot_loop (c # name) a i val =
     (if \<not> yaz_isdigit c then Some (a, i, val)
      else let v = wrap32 (val * 10 + (uint c - 48)) in
        case name of
          d # name' \<Rightarrow>
            if d = ch CHR ''.'' then
              (if i < OID_SIZE - 1 then do {a' \<leftarrow> set_cell a i v; dot_loop name' a' (Suc i) 0}
               else dot_loop name' a i 0)
            else dot_loop name a i v
        | [] \<Rightarrow> Some (a, i, v))"

text \<open>\<open>oid_dotstring_to_oid\<close> returns (return value is 0, cells of the array).\<close>

definition oid_dotstring_to_oid :: "byte list \<Rightarrow> int list \<Rightarrow> (bool \<times> int list) cres" where
  "oid_dotstring_to_oid name oid = do {
     (a, i, val) \<leftarrow> dot_loop (cstr name) oid 0 0;
     if i = 0 then Some (False, a)
     else do {
       a1 \<leftarrow> set_cell a i val;
       a2 \<leftarrow> set_cell a1 (Suc i) (-1);
       Some (True, a2)}}"

section \<open>BER (ber_oid.c) and ODR codec (odr_oid.c)\<close>

text \<open>The components to write: \<open>None\<close> when the terminator is missing or a component is negative.\<close>

fun arcs_until :: "int list \<Rightarrow> int list cres" where
  "arcs_until [] = None"
| "arcs_until (x # xs) = (if x = -1 then Some [] else map_option ((#) x) (arcs_until xs))"

text \<open>The encoding loop; a negative component is shifted for ever and overruns the array \<open>octs\<close>.\<close>

fun put_ids :: "odr \<Rightarrow> int list \<Rightarrow> (bool \<times> odr) cres" where
  "put_ids o' [] = Some (True, o')"
| "put_ids o' (sid # ids) =
     (if sid < 0 then None
      else case put_all o' (cont_octets (base128 (nat sid))) of (ok, o1) \<Rightarrow>
        if ok then put_ids o1 ids else Some (False, o1))"

text \<open>One subidentifier of the content: \<open>None\<close> when the content ends inside it.\<close>

fun oid_subid :: "byte list \<Rightarrow> int \<Rightarrow> (int \<times> byte list) option" where
  "oid_subid [] sid = None"
| "oid_subid (c # cs) sid =
     (let sid' = wrap32 (sid * 128) OR uint (c AND 0x7F) in
      if c AND 0x80 \<noteq> 0 then oid_subid cs sid' else Some (sid', cs))"

definition first_arcs :: "int \<Rightarrow> int list" where
  "first_arcs sid =
     (let a = wrap16 (sid div 40); p0 = (if a > 2 then 2 else a) in [p0, wrap16 (sid - p0 * 40)])"

text \<open>
  The decoding loop over the content octets; \<open>p\<close> has the components stored so far. The result is
  the unread content, the error if there is one, and the components stored.
\<close>

function oid_decode_loop :: "byte list \<Rightarrow> int list \<Rightarrow> nat \<Rightarrow> byte list \<times> (odr_error \<times> int) option \<times> int list" where
  "oid_decode_loop c p mx =
     (if c = [] then ([], None, p)
      else case oid_subid c 0 of
        None \<Rightarrow> ([], Some (OPROTO, 21), p)
      | Some (sid, cs) \<Rightarrow>
          if length cs \<ge> length c \<or> sid < 0 then (cs, Some (ODATA, 23), p)
          else let p1 = (if p \<noteq> [] then p @ [wrap16 sid] else first_arcs sid) in
            if length p1 \<ge> mx then (cs, Some (OPROTO, 55), p1) else oid_decode_loop cs p1 mx)"
  by pat_completeness auto
termination
  by (relation "measure (\<lambda>(c, p, mx). length c)") auto

declare oid_decode_loop.simps [simp del]

lemma oid_subid_shorter: "oid_subid c sid = Some (sid', cs) \<Longrightarrow> length cs < length c"
  by (induction c sid rule: oid_subid.induct) (auto simp: Let_def split: if_splits)

lemma oid_decode_loop_step:
  "oid_decode_loop c p mx =
     (if c = [] then ([], None, p)
      else case oid_subid c 0 of
        None \<Rightarrow> ([], Some (OPROTO, 21), p)
      | Some (sid, cs) \<Rightarrow>
          if sid < 0 then (cs, Some (ODATA, 23), p)
          else let p1 = (if p \<noteq> [] then p @ [wrap16 sid] else first_arcs sid) in
            if length p1 \<ge> mx then (cs, Some (OPROTO, 55), p1) else oid_decode_loop cs p1 mx)"
  by (subst oid_decode_loop.simps) (auto split: option.splits dest: oid_subid_shorter)

text \<open>After a successful decoding the cells behind the terminator are left out.\<close>

definition ber_oidc :: "odr \<Rightarrow> int list \<Rightarrow> nat \<Rightarrow> (bool \<times> int list \<times> odr) cres" where
  "ber_oidc o' p max_oid_size =
     (case direction o' of
        ODR_DECODE \<Rightarrow> do {
          (res, len) \<leftarrow> ber_declen (rest_of o') 0 (odr_max o');
          if res < 1 then Some (False, p, odr_seterror o' OPROTO 18)
          else if len < 0 then Some (False, p, odr_seterror o' OPROTO 19)
          else let o1 = odr_advance o' res in
            if len > odr_max o1 then Some (False, p, odr_seterror o1 OPROTO 20)
            else let content = take (nat len) (rest_of o1);
                     (left, r, q) = oid_decode_loop content [] max_oid_size;
                     o2 = odr_advance o1 (len - int (length left))
              in case r of
                Some (e, i) \<Rightarrow> Some (False, q @ drop (length q) p, odr_seterror o2 e i)
              | None \<Rightarrow>
                  if length q < 2 \<or> q ! 0 < 0 \<or> q ! 1 < 0
                  then Some (False, q @ drop (length q) p, odr_seterror o2 ODATA 23)
                  else Some (True, q @ [-1], o2)}
      | ODR_ENCODE \<Rightarrow>
          let lenp = odr_tell o' in
          (case odr_putc o' 0 of (ok, o1) \<Rightarrow>
            if \<not> ok then Some (False, p, o1)
            else if length p < 2 then None
            else if p ! 0 < 0 \<or> p ! 1 < 0 then Some (False, p, odr_seterror o1 ODATA 23)
            else do {
              arcs \<leftarrow> arcs_until (drop 2 p);
              (ok2, o2) \<leftarrow> put_ids o1 ((p ! 0 * 40 + p ! 1) # arcs);
              if \<not> ok2 then Some (False, p, o2)
              else let end = odr_tell o2; o3 = snd (odr_seek o2 ODR_S_SET lenp) in
                case ber_enclen o3 (int end - int lenp - 1) 1 True of (r, o4) \<Rightarrow>
                  if r \<noteq> 1 then Some (False, p, odr_seterror o4 OOTHER 52)
                  else Some (True, p, snd (odr_seek o4 ODR_S_END 0))})
      | _ \<Rightarrow> Some (False, p, odr_seterror o' OOTHER 22))"

fun print_arcs :: "odr \<Rightarrow> int list \<Rightarrow> odr cres" where
  "print_arcs o' [] = None"
| "print_arcs o' (x # xs) = (if x > -1 then print_arcs (odr_printf o' ('' '' @ dec_int x)) xs else Some o')"

definition odr_oid :: "int list odr_fun" where
  "odr_oid o0 p0 opt name = odr_type 6 (\<lambda>o2 p cons.
     if cons then Some (False, p, odr_seterror o2 OPROTO 46)
     else if direction o2 = ODR_PRINT then do {
       v \<leftarrow> p;
       o3 \<leftarrow> print_arcs (odr_printf (odr_prname o2 name) ''OID:'') v;
       Some (True, p, odr_printf o3 nl)}
     else let p1 = (if direction o2 = ODR_DECODE then Some (replicate OID_SIZE (uint (junk o2 0))) else p)
          in with_value p1 (\<lambda>v. ber_oidc o2 v OID_SIZE)) o0 p0 opt name"


section \<open>Arrays: lemmas\<close>

lemma oidlen_arcs: "\<forall>x \<in> set as. 0 \<le> x \<Longrightarrow> oid_oidlen (as @ -1 # r) = Some (length as)"
  by (induction as) auto

lemma oidcpy_arcs:
  "\<forall>x \<in> set as. 0 \<le> x \<Longrightarrow> length as < length t \<Longrightarrow>
   oid_oidcpy t (as @ -1 # r) = Some (as @ -1 # drop (Suc (length as)) t)"
proof (induction as arbitrary: t)
  case Nil
  then show ?case by (cases t) auto
next
  case (Cons a as)
  then show ?case by (cases t) auto
qed

lemma oidcat_arcs:
  "\<forall>x \<in> set as. 0 \<le> x \<Longrightarrow> \<forall>x \<in> set bs. 0 \<le> x \<Longrightarrow> length bs \<le> length t \<Longrightarrow>
   oid_oidcat (as @ -1 # t) (bs @ -1 # r) = Some (as @ bs @ -1 # drop (length bs) t)"
  by (induction as) (auto simp: oidcpy_arcs)

lemma oidcmp_arcs:
  "\<forall>x \<in> set as. 0 \<le> x \<Longrightarrow> \<forall>x \<in> set bs. 0 \<le> x \<Longrightarrow>
   oid_oidcmp (as @ -1 # r) (bs @ -1 # r') = Some (if as = bs then 0 else if ord_class.lexordp bs as then 1 else -1)"
proof (induction as arbitrary: bs)
  case Nil
  then show ?case by (cases bs) auto
next
  case (Cons a as)
  then show ?case by (cases bs) auto
qed

section \<open>Dotted notation: lemmas\<close>

lemma digit_byte:
  assumes "d < 10"
  shows "yaz_isdigit (byte_of (48 + d))" "uint (byte_of (48 + d)) = 48 + int d"
    "byte_of (48 + d) \<noteq> ch CHR ''.''" "byte_of (48 + d) \<noteq> 0"
proof -
  have u: "unat (byte_of (48 + d)) = 48 + d" using assms by simp
  show "uint (byte_of (48 + d)) = 48 + int d" using assms by simp
  show "yaz_isdigit (byte_of (48 + d))" using u assms by (simp add: yaz_isdigit_def word_le_nat_alt)
  show "byte_of (48 + d) \<noteq> ch CHR ''.''" "byte_of (48 + d) \<noteq> 0" using u by auto
qed

lemma wrap32_small: "0 \<le> v \<Longrightarrow> v < 2 ^ 31 \<Longrightarrow> wrap32 v = v"
  by (simp add: wrap32_id)

lemma dot_loop_digit:
  assumes "d < 10" and "d' < 10" and "0 \<le> v" and "v < 2 ^ 20"
  shows "dot_loop (byte_of (48 + d) # byte_of (48 + d') # tail) a i v =
    dot_loop (byte_of (48 + d') # tail) a i (v * 10 + int d)"
  using digit_byte [OF assms(1)] digit_byte [OF assms(2)] assms
  by (simp add: dot_loop.simps(2) [of "byte_of (48 + d)"] wrap32_small del: dot_loop.simps)

lemma dot_loop_digits:
  "n < 2 ^ 18 \<Longrightarrow> d' < 10 \<Longrightarrow>
   dot_loop (str (dec_digits n) @ byte_of (48 + d') # tail) a i 0 = dot_loop (byte_of (48 + d') # tail) a i (int n)"
proof (induction n arbitrary: d' tail rule: less_induct)
  case (less n)
  show ?case
  proof (cases "n < 10")
    case True
    then have "dec_digits n = [char_of (48 + n)]" by (simp add: dec_digits.simps [of n])
    then show ?thesis using dot_loop_digit [of n d' 0 tail a i] True less.prems(2) by (simp add: of_char_digit)
  next
    case False
    have "n div 10 < n" and "n div 10 < 2 ^ 18" and m: "n mod 10 < 10" using False less.prems(1) by simp_all
    have "dec_digits n = dec_digits (n div 10) @ [char_of (48 + n mod 10)]"
      using False by (simp add: dec_digits.simps [of n])
    then have "dot_loop (str (dec_digits n) @ byte_of (48 + d') # tail) a i 0 =
        dot_loop (byte_of (48 + n mod 10) # byte_of (48 + d') # tail) a i (int (n div 10))"
      using less.IH [OF \<open>n div 10 < n\<close> \<open>n div 10 < 2 ^ 18\<close> m] m by (simp add: of_char_digit)
    also have "\<dots> = dot_loop (byte_of (48 + d') # tail) a i (int (n div 10) * 10 + int (n mod 10))"
      using \<open>n div 10 < 2 ^ 18\<close> by (intro dot_loop_digit m less.prems(2)) simp_all
    also have "int (n div 10) * 10 + int (n mod 10) = int n"
      by (metis div_mult_mod_eq of_nat_add of_nat_mult of_nat_numeral)
    finally show ?thesis .
  qed
qed

text \<open>The last digit of a component decides by what follows.\<close>

lemma dot_loop_last:
  assumes "n < 2 ^ 18"
  shows "dot_loop (str (dec_digits n)) a i 0 = Some (a, i, int n)"
    "dot_loop (str (dec_digits n) @ ch CHR ''.'' # name) a i 0 =
      (if i < OID_SIZE - 1 then do {a' \<leftarrow> set_cell a i (int n); dot_loop name a' (Suc i) 0} else dot_loop name a i 0)"
proof -
  obtain pre d v where pd: "str (dec_digits n) = pre @ [byte_of (48 + d)]" "d < 10" "n = v * 10 + d"
    "\<And>tail. dot_loop (pre @ byte_of (48 + d) # tail) a i 0 = dot_loop (byte_of (48 + d) # tail) a i (int v)"
  proof (cases "n < 10")
    case True
    then show thesis using that [of "[]" n 0] by (simp add: dec_digits.simps [of n] of_char_digit)
  next
    case False
    have "n div 10 < 2 ^ 18" "n mod 10 < 10" using assms by simp_all
    with False dot_loop_digits [of "n div 10" "n mod 10"] that [of "str (dec_digits (n div 10))" "n mod 10" "n div 10"]
    show thesis by (simp add: dec_digits.simps [of n] of_char_digit)
  qed
  have v: "wrap32 (int v * 10 + int d) = int n" using pd(3) assms by (simp add: wrap32_small)
  show "dot_loop (str (dec_digits n)) a i 0 = Some (a, i, int n)"
    using pd(4) [of "[]"] digit_byte [OF pd(2)] v by (simp add: pd(1))
  show "dot_loop (str (dec_digits n) @ ch CHR ''.'' # name) a i 0 =
      (if i < OID_SIZE - 1 then do {a' \<leftarrow> set_cell a i (int n); dot_loop name a' (Suc i) 0} else dot_loop name a i 0)"
    using pd(4) [of "ch CHR ''.'' # name"] digit_byte [OF pd(2)] v by (simp add: pd(1))
qed


definition arc_ok :: "int \<Rightarrow> bool" where
  "arc_ok x \<longleftrightarrow> 0 \<le> x \<and> x < 2 ^ 15"

definition dotted_tail :: "int list \<Rightarrow> string" where
  "dotted_tail xs = concat (map (\<lambda>x. CHR ''.'' # dec_int x) xs)"

lemma dotstring_tail:
  "\<forall>x \<in> set xs. arc_ok x \<Longrightarrow> Suc i + length xs \<le> OID_SIZE \<Longrightarrow>
   dotstring_from (Suc i) (xs @ -1 # r) = Some (dotted_tail xs)"
  by (induction xs arbitrary: i) (auto simp: dotted_tail_def arc_ok_def)

lemma dotstring_arcs:
  assumes "\<forall>x \<in> set (x # xs). arc_ok x" and "Suc (length xs) \<le> OID_SIZE"
  shows "oid_oid_to_dotstring ((x # xs) @ -1 # r) = Some (dec_int x @ dotted_tail xs)"
  using assms dotstring_tail [of xs 0 r] by (simp add: oid_oid_to_dotstring_def arc_ok_def OID_SIZE_def)

lemma dec_int_nonneg: "0 \<le> x \<Longrightarrow> dec_int x = dec_digits (nat x)"
  by (simp add: dec_int_def)

lemma set_cell_arc: "arc_ok x \<Longrightarrow> i < length a \<Longrightarrow> set_cell a i x = Some (a[i := x])"
  by (simp add: set_cell_def arc_ok_def wrap16_id)

lemma dot_loop_arcs:
  "\<forall>x \<in> set (x # xs). arc_ok x \<Longrightarrow> i + length xs < OID_SIZE \<Longrightarrow> OID_SIZE \<le> length a \<Longrightarrow>
   dot_loop (str (dec_int x @ dotted_tail xs)) a i 0 =
     Some (take i a @ butlast (x # xs) @ drop (i + length xs) a, i + length xs, last (x # xs))"
proof (induction xs arbitrary: x a i)
  case Nil
  then show ?case using dot_loop_last(1) [of "nat x" a i]
    by (simp add: dotted_tail_def dec_int_nonneg arc_ok_def nat_less_iff)
next
  case (Cons y ys)
  have x: "arc_ok x" using Cons.prems(1) by simp
  have i: "i < OID_SIZE - 1" "i < length a" using Cons.prems(2,3) by simp_all
  have "dot_loop (str (dec_int x @ dotted_tail (y # ys))) a i 0 =
      dot_loop (str (dec_int y @ dotted_tail ys)) (a[i := x]) (Suc i) 0"
    using dot_loop_last(2) [of "nat x" "str (dec_int y @ dotted_tail ys)" a i] x i set_cell_arc [OF x i(2)]
    by (simp add: dotted_tail_def dec_int_nonneg arc_ok_def nat_less_iff)
  also have "\<dots> = Some (take (Suc i) (a[i := x]) @ butlast (y # ys) @ drop (Suc i + length ys) (a[i := x]),
      Suc i + length ys, last (y # ys))"
    using Cons.prems by (intro Cons.IH) simp_all
  finally show ?case using i by (simp add: take_Suc_conv_app_nth)
qed

lemma dot_loop_index:
  "\<forall>x \<in> set (x # xs). arc_ok x \<Longrightarrow> i < OID_SIZE \<Longrightarrow> length a = OID_SIZE \<Longrightarrow>
   \<exists>a' v. dot_loop (str (dec_int x @ dotted_tail xs)) a i 0 = Some (a', min (OID_SIZE - 1) (i + length xs), v) \<and>
     length a' = OID_SIZE"
proof (induction xs arbitrary: x a i)
  case Nil
  then show ?case using dot_loop_last(1) [of "nat x" a i]
    by (auto simp: dotted_tail_def dec_int_nonneg arc_ok_def nat_less_iff)
next
  case (Cons y ys)
  have x: "arc_ok x" using Cons.prems(1) by simp
  let ?a = "if i < OID_SIZE - 1 then a[i := x] else a" and ?i = "if i < OID_SIZE - 1 then Suc i else i"
  have "dot_loop (str (dec_int x @ dotted_tail (y # ys))) a i 0 =
      dot_loop (str (dec_int y @ dotted_tail ys)) ?a ?i 0"
    using dot_loop_last(2) [of "nat x" "str (dec_int y @ dotted_tail ys)" a i] x set_cell_arc [OF x, of i a] Cons.prems(2,3)
    by (simp add: dotted_tail_def dec_int_nonneg arc_ok_def nat_less_iff)
  moreover have "\<exists>a' v. dot_loop (str (dec_int y @ dotted_tail ys)) ?a ?i 0 = Some (a', min (OID_SIZE - 1) (?i + length ys), v) \<and>
      length a' = OID_SIZE"
    using Cons.prems by (intro Cons.IH) auto
  moreover have "min (OID_SIZE - 1) (?i + length ys) = min (OID_SIZE - 1) (i + length (y # ys))"
    using Cons.prems(2) by (auto simp: min_def)
  ultimately show ?case by metis
qed

lemma no_nul_dec: "no_nul (str (dec_digits n))"
proof (induction n rule: less_induct)
  case (less n)
  then show ?case using digit_byte(4) [of "n mod 10"] digit_byte(4) [of n]
    by (cases "n < 10") (auto simp: dec_digits.simps [of n] of_char_digit)
qed

lemma no_nul_dotted: "\<forall>x \<in> set (x # xs). arc_ok x \<Longrightarrow> no_nul (str (dec_int x @ dotted_tail xs))"
  using no_nul_dec by (induction xs) (auto simp: dotted_tail_def dec_int_nonneg arc_ok_def)

section \<open>BER: lemmas\<close>

lemma subid_step:
  assumes "0 \<le> t" and "t < 2 ^ 24" and "d < 128"
  shows "oid_subid ((byte_of d OR 0x80) # cs) t = oid_subid cs (t * 128 + int d)"
    "oid_subid (byte_of d # cs) t = Some (t * 128 + int d, cs)"
proof -
  have "wrap32 (t * 128) OR int d = t * 128 + int d"
    using wrap32_shift_or [of t 7 "int d"] assms by simp
  then show "oid_subid ((byte_of d OR 0x80) # cs) t = oid_subid cs (t * 128 + int d)"
    "oid_subid (byte_of d # cs) t = Some (t * 128 + int d, cs)"
    using assms(3) cont_bit [OF assms(3)] by (simp_all add: Let_def)
qed

lemma subid_hi_octets: "t < 2 ^ 24 \<Longrightarrow> oid_subid (hi_octets t @ cs) 0 = oid_subid cs (int t)"
proof (induction t arbitrary: cs rule: less_induct)
  case (less t)
  show ?case
  proof (cases "t < 128")
    case True
    then show ?thesis using subid_step(1) [of 0 t cs] by (simp add: hi_octets_small)
  next
    case False
    let ?d = "t div 128"
    have d: "?d < t" "?d < 2 ^ 24" using False less.prems by (simp_all add: less_mult_imp_div_less)
    have "oid_subid (hi_octets t @ cs) 0 = oid_subid ((byte_of (t mod 128) OR 0x80) # cs) (int ?d)"
      using less.IH [OF d] False by (simp add: hi_octets_large)
    also have "\<dots> = oid_subid cs (int ?d * 128 + int (t mod 128))"
      using d(2) by (intro subid_step(1)) simp_all
    also have "int ?d * 128 + int (t mod 128) = int t"
      by (metis div_mult_mod_eq of_nat_add of_nat_mult of_nat_numeral)
    finally show ?thesis .
  qed
qed

lemma subid_cont_octets: "t < 2 ^ 31 \<Longrightarrow> oid_subid (cont_octets (base128 t) @ cs) 0 = Some (int t, cs)"
proof (cases "t < 128")
  case True
  then show ?thesis using subid_step(2) [of 0 t cs] by (simp add: cont_octets_base128)
next
  case False
  assume "t < 2 ^ 31"
  then have d: "t div 128 < 2 ^ 24" by (simp add: less_mult_imp_div_less)
  have "int (t div 128) * 128 + int (t mod 128) = int t"
    by (metis div_mult_mod_eq of_nat_add of_nat_mult of_nat_numeral)
  with False d subid_hi_octets [OF d, of "byte_of (t mod 128) # cs"] subid_step(2) [of "int (t div 128)" "t mod 128" cs]
  show ?thesis by (simp add: cont_octets_base128)
qed

definition ids_octets :: "int list \<Rightarrow> byte list" where
  "ids_octets ids = concat (map (\<lambda>i. cont_octets (base128 (nat i))) ids)"

lemma put_ids_append:
  "at_end o1 \<Longrightarrow> can_grow o1 \<Longrightarrow> \<forall>i \<in> set ids. 0 \<le> i \<Longrightarrow>
   top o1 + length (ids_octets ids) \<le> odr_limit \<Longrightarrow>
   \<exists>o2. put_ids o1 ids = Some (True, o2) \<and> appended o1 (ids_octets ids) o2"
proof (induction ids arbitrary: o1)
  case Nil
  then show ?case by (simp add: ids_octets_def appended_Nil)
next
  case (Cons i ids)
  let ?c = "cont_octets (base128 (nat i))"
  obtain o2 where o2: "put_all o1 ?c = (True, o2)" "appended o1 ?c o2"
    by (rule put_all_append [OF Cons.prems(1,2)]) (use Cons.prems(4) in \<open>auto simp: ids_octets_def\<close>)
  obtain o3 where "put_ids o2 ids = Some (True, o3)" "appended o2 (ids_octets ids) o3"
    using Cons.IH [of o2] appended_at_end [OF o2(2)] appended_frame(3,11) [OF o2(2)] Cons.prems
    by (auto simp: ids_octets_def)
  with o2 Cons.prems(3) appended_trans [OF o2(2)] show ?case by (auto simp: ids_octets_def)
qed


lemma length_cont_octets: "t < 2 ^ 21 \<Longrightarrow> 0 < length (cont_octets (base128 t)) \<and> length (cont_octets (base128 t)) \<le> 3"
proof -
  assume "t < 2 ^ 21"
  then have "length (base128 t) \<le> Suc 2" by (intro length_base128_bound) simp
  moreover have "base128 t \<noteq> []" by (subst base128.simps) simp
  ultimately show ?thesis by (cases "base128 t") (auto simp: cont_octets_def)
qed

lemma length_ids_octets: "\<forall>i \<in> set ids. 0 \<le> i \<and> i < 2 ^ 21 \<Longrightarrow> length (ids_octets ids) \<le> 3 * length ids"
proof (induction ids)
  case (Cons i ids)
  then have "length (cont_octets (base128 (nat i))) \<le> 3" using length_cont_octets [of "nat i"] by (simp add: nat_less_iff)
  with Cons show ?case by (simp add: ids_octets_def)
qed (simp add: ids_octets_def)

lemma ids_octets_simps [simp]:
  "ids_octets [] = []" "ids_octets (i # ids) = cont_octets (base128 (nat i)) @ ids_octets ids"
  by (simp_all add: ids_octets_def)

lemma decode_loop_arcs:
  "\<forall>x \<in> set xs. arc_ok x \<Longrightarrow> p \<noteq> [] \<Longrightarrow> length p + length xs < mx \<Longrightarrow>
   oid_decode_loop (ids_octets xs) p mx = ([], None, p @ xs)"
proof (induction xs arbitrary: p)
  case Nil
  then show ?case by (simp add: oid_decode_loop_step)
next
  case (Cons x xs)
  have x: "arc_ok x" "nat x < 2 ^ 31" "nat x < 2 ^ 21" using Cons.prems(1) by (auto simp: arc_ok_def nat_less_iff)
  have ne: "cont_octets (base128 (nat x)) @ ids_octets xs \<noteq> []" using length_cont_octets [OF x(3)] by auto
  have "oid_decode_loop (ids_octets (x # xs)) p mx = oid_decode_loop (ids_octets xs) (p @ [x]) mx"
    using ne x subid_cont_octets [OF x(2), of "ids_octets xs"] Cons.prems(2,3)
    by (subst oid_decode_loop_step) (auto simp: arc_ok_def wrap16_id)
  also have "\<dots> = ([], None, (p @ [x]) @ xs)" using Cons.prems by (intro Cons.IH) auto
  finally show ?case by simp
qed

text \<open>The identifiers the codec is meant for.\<close>

definition oid_ok :: "int list \<Rightarrow> bool" where
  "oid_ok v \<longleftrightarrow> (\<exists>p0 p1 xs. v = p0 # p1 # xs @ [-1] \<and> 0 \<le> p0 \<and> p0 \<le> 2 \<and> 0 \<le> p1 \<and> p1 < 2 ^ 15 \<and>
     (p0 < 2 \<longrightarrow> p1 < 40) \<and> (\<forall>x \<in> set xs. arc_ok x) \<and> length xs \<le> 17)"

definition oid_ids :: "int list \<Rightarrow> int list" where
  "oid_ids v = (v ! 0 * 40 + v ! 1) # butlast (drop 2 v)"

definition oid_octets :: "int list \<Rightarrow> byte list" where
  "oid_octets v = byte_of (length (ids_octets (oid_ids v))) # ids_octets (oid_ids v)"

lemma first_arcs_ids:
  assumes "0 \<le> p0" "p0 \<le> 2" "0 \<le> p1" "p1 < 2 ^ 15" "p0 < 2 \<longrightarrow> p1 < 40"
  shows "first_arcs (p0 * 40 + p1) = [p0, p1]"
proof (cases "p0 = 2")
  case True
  have "2 \<le> (80 + p1) div 40" and "(80 + p1) div 40 < 2 ^ 15" using assms(3,4) by simp_all
  with True assms(3,4) show ?thesis by (simp add: first_arcs_def Let_def wrap16_id)
next
  case False
  then have "(p0 * 40 + p1) div 40 = p0" using assms by simp
  with False assms show ?thesis by (simp add: first_arcs_def Let_def wrap16_id)
qed

lemma decode_loop_oid:
  assumes "oid_ok v"
  shows "oid_decode_loop (ids_octets (oid_ids v)) [] OID_SIZE = ([], None, butlast v)"
proof -
  from assms obtain p0 p1 xs where v: "v = p0 # p1 # xs @ [-1]" and p: "0 \<le> p0" "p0 \<le> 2" "0 \<le> p1" "p1 < 2 ^ 15"
      "p0 < 2 \<longrightarrow> p1 < 40" and xs: "\<forall>x \<in> set xs. arc_ok x" "length xs \<le> 17"
    by (auto simp: oid_ok_def)
  let ?i = "p0 * 40 + p1"
  have i: "nat ?i < 2 ^ 31" "nat ?i < 2 ^ 21" "0 \<le> ?i" using p by (simp_all add: nat_less_iff)
  have ids: "ids_octets (oid_ids v) = cont_octets (base128 (nat ?i)) @ ids_octets xs"
    by (simp add: v oid_ids_def butlast_append)
  have "cont_octets (base128 (nat ?i)) @ ids_octets xs \<noteq> []" using length_cont_octets [OF i(2)] by auto
  then have "oid_decode_loop (ids_octets (oid_ids v)) [] OID_SIZE = oid_decode_loop (ids_octets xs) [p0, p1] OID_SIZE"
    using subid_cont_octets [OF i(1), of "ids_octets xs"] i(3) first_arcs_ids [OF p] unfolding ids
    by (subst oid_decode_loop_step) (auto simp: OID_SIZE_def)
  also have "\<dots> = ([], None, [p0, p1] @ xs)"
    using xs by (intro decode_loop_arcs) (simp_all add: OID_SIZE_def)
  finally show ?thesis by (simp add: v butlast_append)
qed

lemma arcs_until_arcs: "\<forall>x \<in> set xs. 0 \<le> x \<Longrightarrow> arcs_until (xs @ -1 # r) = Some xs"
  by (induction xs) auto


lemma oid_ok_facts:
  assumes "oid_ok v"
  shows "2 \<le> length v" "0 \<le> v ! 0" "0 \<le> v ! 1" "arcs_until (drop 2 v) = Some (butlast (drop 2 v))"
    "\<forall>i \<in> set (oid_ids v). 0 \<le> i \<and> i < 2 ^ 21" "length (ids_octets (oid_ids v)) \<le> 127"
    "2 \<le> length (butlast v)" "butlast v @ [-1] = v" "butlast v ! 0 = v ! 0" "butlast v ! 1 = v ! 1"
proof -
  from assms obtain p0 p1 xs where v: "v = p0 # p1 # xs @ [-1]" and p: "0 \<le> p0" "p0 \<le> 2" "0 \<le> p1" "p1 < 2 ^ 15"
      and xs: "\<forall>x \<in> set xs. arc_ok x" "length xs \<le> 17"
    by (auto simp: oid_ok_def)
  show "2 \<le> length v" "0 \<le> v ! 0" "0 \<le> v ! 1" using p by (simp_all add: v)
  show "arcs_until (drop 2 v) = Some (butlast (drop 2 v))"
    using xs(1) arcs_until_arcs [of xs "[]"] by (simp add: v butlast_append arc_ok_def)
  show ids: "\<forall>i \<in> set (oid_ids v). 0 \<le> i \<and> i < 2 ^ 21"
    using p xs(1) by (auto simp: v oid_ids_def butlast_append arc_ok_def)
  show "length (ids_octets (oid_ids v)) \<le> 127"
    using length_ids_octets [OF ids] xs(2) by (simp add: v oid_ids_def butlast_append)
  show "2 \<le> length (butlast v)" "butlast v @ [-1] = v" "butlast v ! 0 = v ! 0" "butlast v ! 1 = v ! 1"
    by (simp_all add: v butlast_append nth_append)
qed

lemma butlast_set_last:
  assumes "length xs < length a"
  shows "(butlast (x # xs) @ drop (length xs) a)[length xs := last (x # xs)] = x # xs @ drop (Suc (length xs)) a"
proof -
  have "butlast (x # xs) @ drop (length xs) a = butlast (x # xs) @ a ! length xs # drop (Suc (length xs)) a"
    using Cons_nth_drop_Suc [OF assms] by simp
  moreover have "\<dots>[length (butlast (x # xs)) := last (x # xs)] = butlast (x # xs) @ last (x # xs) # drop (Suc (length xs)) a"
    by (rule list_update_length)
  moreover have "butlast (x # xs) @ last (x # xs) # drop (Suc (length xs)) a = (butlast (x # xs) @ [last (x # xs)]) @ drop (Suc (length xs)) a"
    by (simp del: append_butlast_last_id)
  ultimately show ?thesis by (simp del: butlast.simps last.simps)
qed

lemma oid_encode:
  assumes "at_end o1" "can_grow o1" "direction o1 = ODR_ENCODE" "oid_ok v"
    and room: "top o1 + length (oid_octets v) \<le> odr_limit"
  shows "\<exists>o2. ber_oidc o1 v n = Some (True, v, o2) \<and> appended o1 (oid_octets v) o2"
proof -
  note ok = oid_ok_facts [OF assms(4)]
  let ?bs = "ids_octets (oid_ids v)"
  obtain o2 where o2: "odr_putc o1 0 = (True, o2)" "appended o1 [0] o2"
    by (rule putc_append [OF assms(1,2)]) (use room in \<open>simp_all add: oid_octets_def\<close>)
  obtain o3 where o3: "put_ids o2 (oid_ids v) = Some (True, o3)" "appended o2 ?bs o3"
    using put_ids_append [of o2 "oid_ids v"] appended_at_end [OF o2(2)] appended_frame(3,11) [OF o2(2)] assms(2) ok(5) room
    by (auto simp: oid_octets_def)
  have a3: "appended o1 ([0] @ ?bs) o3" using appended_trans [OF o2(2) o3(2)] .
  then have w3: "wrote o1 ([0] @ ?bs) o3" using wrote_appended [OF assms(1)] by blast
  have p3: "pos o3 = pos o1 + 1 + length ?bs" "odr_wf o3" "can_grow o3"
    using wrote_frame [OF w3] assms(2) by simp_all
  have seek: "odr_seek o3 ODR_S_SET (pos o1) = (True, o3\<lparr>pos := pos o1\<rparr>)"
    using p3 by (intro seek_set) (simp add: odr_wf_def)
  have "odr_wf (o3\<lparr>pos := pos o1\<rparr>)" "pos (o3\<lparr>pos := pos o1\<rparr>) < length (buf (o3\<lparr>pos := pos o1\<rparr>))"
    using p3 by (simp_all add: odr_wf_def)
  then obtain o4 where o4: "odr_putc (o3\<lparr>pos := pos o1\<rparr>) (byte_of (length ?bs)) = (True, o4)"
      "wrote (o3\<lparr>pos := pos o1\<rparr>) [byte_of (length ?bs)] o4"
    by (rule putc_over [where c = "byte_of (length ?bs)"])
  have w: "wrote o1 (oid_octets v) (o4\<lparr>pos := pos o3\<rparr>)"
    using wrote_overwrite [OF w3 o4(2)] by (simp add: oid_octets_def)
  then have a: "appended o1 (oid_octets v) (o4\<lparr>pos := pos o3\<rparr>)" using wrote_appended [OF assms(1)] by blast
  have "pos o3 = top (o4\<lparr>pos := pos o3\<rparr>)" using appended_at_end [OF a] by (simp add: at_end_def)
  then have seek4: "odr_seek o4 ODR_S_END 0 = (True, o4\<lparr>pos := pos o3\<rparr>)"
    using o4(2) by (simp add: seek_end wrote_def)
  have len: "int (pos o3) - int (pos o1) - 1 = int (length ?bs)" using p3(1) by simp
  have enclen: "ber_enclen (o3\<lparr>pos := pos o1\<rparr>) (int (length ?bs)) 1 True = (1, o4)"
    using ok(6) o4(1) by (simp add: ber_enclen_def of_nat_byte)
  have put: "put_ids o2 ((v ! 0 * 40 + v ! 1) # butlast (drop 2 v)) = Some (True, o3)"
    using o3(1) by (simp add: oid_ids_def)
  have "ber_oidc o1 v n = Some (True, v, o4\<lparr>pos := pos o3\<rparr>)"
    using assms(3) o2(1) ok(1-4) put by (simp add: ber_oidc_def Let_def len seek enclen seek4 del: put_ids.simps)
  with a show ?thesis by blast
qed

lemma oid_decode:
  assumes "direction o1 = ODR_DECODE" "rest_of o1 = oid_octets v @ rest" "bp o1 \<le> length (buf o1)" "oid_ok v"
  shows "ber_oidc o1 w OID_SIZE = Some (True, v, odr_advance o1 (int (length (oid_octets v))))"
proof -
  note ok = oid_ok_facts [OF assms(4)]
  let ?bs = "ids_octets (oid_ids v)"
  have dl: "ber_declen (rest_of o1) 0 (odr_max o1) = Some (1, int (length ?bs))"
    using declen_short [of "length ?bs" "odr_max o1" "?bs @ rest" 0] rest_max [OF assms(3)] assms(2) ok(6)
    by (simp add: oid_octets_def)
  have "rest_of (odr_advance o1 1) = drop 1 (rest_of o1)"
    by (simp add: odr_advance_def nat_add_distrib)
  then have r: "rest_of (odr_advance o1 1) = ?bs @ rest" using assms(2) by (simp add: oid_octets_def)
  have m: "odr_max (odr_advance o1 1) = int (length ?bs + length rest)"
    using rest_max [OF assms(3)] assms(2) by (simp add: odr_max_def odr_advance_def oid_octets_def)
  have "odr_advance (odr_advance o1 1) (int (length ?bs)) = odr_advance o1 (int (length (oid_octets v)))"
    by (simp add: odr_advance_def oid_octets_def add.assoc)
  with dl r m decode_loop_oid [OF assms(4)] ok assms(1) show ?thesis
    by (simp add: ber_oidc_def Let_def)
qed

interpretation oid: odr_codec odr_oid "(0, 6)" False oid_octets oid_ok 0
  unfolding odr_oid_def [abs_def]
proof (rule primitive_codec, goal_cases)
  case (2 name o1 x)
  then show ?case using oid_encode [of o1 x OID_SIZE] by (auto simp: with_value_def)
next
  case (3 name o1 x rest)
  then show ?case using oid_decode [of o1 x rest] by (simp add: with_value_def)
qed (simp add: tag_ok_def)

section \<open>Properties\<close>

text \<open>
  C21: object identifiers over the wire. An identifier of 2 to 19 components that fit a signed
  16-bit integer, with a valid first pair, goes through encoder and decoder unchanged.
\<close>

theorem oid_transfers:
  assumes "0 \<le> p0" "p0 \<le> 2" "0 \<le> p1" "p1 < 2 ^ 15" "p0 < 2 \<longrightarrow> p1 < 40" "\<forall>x \<in> set xs. arc_ok x" "length xs \<le> 17"
  shows "transfers odr_oid (p0 # p1 # xs @ [-1])"
proof (rule oid.message)
  show ok: "oid_ok (p0 # p1 # xs @ [-1])" using assms by (auto simp: oid_ok_def)
  show "length (element_octets False oid_octets (0, 6) (p0 # p1 # xs @ [-1])) \<le> odr_limit"
    using oid_ok_facts(6) [OF ok] by (simp add: element_octets_def tag_octets_def oid_octets_def odr_limit_def)
qed simp

theorem oid_transfers_witness: "transfers odr_oid (1 # 2 # [840, 10003, 5, 10] @ [-1])"
  by (rule oid_transfers) (simp_all add: arc_ok_def)

text \<open>
  C22: dotted notation. Printing an identifier of 2 to 19 components and parsing the text again
  into an array of \<open>OID_SIZE\<close> cells stores the same components and the terminator.
\<close>

theorem oid_dotstring_roundtrip:
  assumes "\<forall>x \<in> set (x # xs). arc_ok x" and "1 \<le> length xs" and "length xs \<le> 18" and "length a = OID_SIZE"
  shows "\<exists>s. oid_oid_to_dotstring (x # xs @ [-1]) = Some s \<and>
    oid_dotstring_to_oid (str s) a = Some (True, x # xs @ -1 # drop (length xs + 2) a)"
proof (intro exI conjI)
  let ?s = "dec_int x @ dotted_tail xs"
  show "oid_oid_to_dotstring (x # xs @ [-1]) = Some ?s"
    using dotstring_arcs [OF assms(1), of "[]"] assms(3) by (simp add: OID_SIZE_def)
  let ?a = "butlast (x # xs) @ drop (length xs) a"
  have l: "length a = 20" using assms(4) by (simp add: OID_SIZE_def)
  have loop: "dot_loop (str ?s) a 0 0 = Some (?a, length xs, last (x # xs))"
    using dot_loop_arcs [OF assms(1), of 0 a] assms(3,4) by (simp add: OID_SIZE_def)
  have ln: "length ?a = 20" using l assms(3) by simp
  have lst: "arc_ok (last (x # xs))" using assms(1) last_in_set by blast
  have c1: "set_cell ?a (length xs) (last (x # xs)) = Some (?a[length xs := last (x # xs)])"
    using set_cell_arc [OF lst, of "length xs" ?a] ln assms(3) by simp
  have e: "?a[length xs := last (x # xs)] = x # xs @ drop (Suc (length xs)) a"
    using assms(3) l by (intro butlast_set_last) simp
  have "Suc (length xs) < length (x # xs @ drop (Suc (length xs)) a)" using l assms(3) by simp
  then have c2: "set_cell (x # xs @ drop (Suc (length xs)) a) (Suc (length xs)) (-1) =
      Some (x # xs @ -1 # drop (length xs + 2) a)"
    using l assms(3) by (simp add: set_cell_def wrap16_def list_update_append Cons_nth_drop_Suc [symmetric])
  show "oid_dotstring_to_oid (str ?s) a = Some (True, x # xs @ -1 # drop (length xs + 2) a)"
    using loop c1 c2 e no_nul_dotted [OF assms(1)] assms(2) by (auto simp: oid_dotstring_to_oid_def)
qed

theorem oid_dotstring_roundtrip_witness:
  "\<exists>s. oid_oid_to_dotstring (1 # [2, 840, 10003, 5, 10] @ [-1]) = Some s \<and>
    oid_dotstring_to_oid (str s) (replicate 20 0) =
      Some (True, 1 # [2, 840, 10003, 5, 10] @ -1 # drop (length [2, 840, 10003, 5, 10::int] + 2) (replicate 20 0))"
  by (rule oid_dotstring_roundtrip) (simp_all add: arc_ok_def OID_SIZE_def)

text \<open>
  The array is too short for its own limit. Dotted text of 20 or more components makes the
  parser write the terminator into the cell behind an array of \<open>OID_SIZE\<close> cells, although its loop
  is written to stop at the last cell.
\<close>

theorem oid_dotstring_overflow:
  assumes "\<forall>x \<in> set (x # xs). arc_ok x" and "OID_SIZE \<le> length (x # xs)" and "length a = OID_SIZE"
  shows "oid_dotstring_to_oid (str (dec_int x @ dotted_tail xs)) a = None"
proof -
  obtain a' v where l: "dot_loop (str (dec_int x @ dotted_tail xs)) a 0 0 = Some (a', OID_SIZE - 1, v)" and a': "length a' = OID_SIZE"
    using dot_loop_index [OF assms(1) _ assms(3), of 0] assms(2) by (auto simp: OID_SIZE_def min_def)
  show ?thesis using l a' no_nul_dotted [OF assms(1)]
    by (simp add: oid_dotstring_to_oid_def set_cell_def OID_SIZE_def)
qed

theorem oid_dotstring_overflow_witness:
  "oid_dotstring_to_oid (str (dec_int 1 @ dotted_tail (replicate 19 5))) (replicate 20 0) = None"
  by (rule oid_dotstring_overflow) (auto simp: arc_ok_def OID_SIZE_def)

text \<open>
  C23: the array operations implement sequences of components. On arrays that hold a sequence and
  the terminator, \<open>oid_oidlen\<close> is its length, \<open>oid_oidcmp\<close> the lexicographic comparison, \<open>oid_oidcpy\<close>
  the copy and \<open>oid_oidcat\<close> the concatenation, provided the target has the room, whose other cells
  are kept.
\<close>

theorem oid_arrays_refine:
  assumes "\<forall>x \<in> set as. 0 \<le> x" and "\<forall>x \<in> set bs. 0 \<le> x" and "length bs \<le> length t"
  shows "oid_oidlen (as @ -1 # t) = Some (length as) \<and>
    oid_oidcmp (as @ -1 # t) (bs @ -1 # r) = Some (if as = bs then 0 else if ord_class.lexordp bs as then 1 else -1) \<and>
    oid_oidcpy (y # t) (bs @ -1 # r) = Some (bs @ -1 # drop (length bs) t) \<and>
    oid_oidcat (as @ -1 # t) (bs @ -1 # r) = Some (as @ bs @ -1 # drop (length bs) t)"
  using oidlen_arcs [OF assms(1)] oidcmp_arcs [OF assms(1,2)] oidcpy_arcs [OF assms(2), of "y # t" r]
    oidcat_arcs [OF assms] assms(3) by simp

theorem oid_arrays_refine_witness:
  "oid_oidlen ([1, 2] @ -1 # [0, 0]) = Some (length [1, 2::int]) \<and>
    oid_oidcmp ([1, 2] @ -1 # [0, 0]) ([3] @ -1 # []) =
      Some (if [1, 2] = [3::int] then 0 else if ord_class.lexordp [3] [1, 2::int] then 1 else -1) \<and>
    oid_oidcpy (7 # [0, 0]) ([3] @ -1 # []) = Some ([3] @ -1 # drop (length [3::int]) [0, 0]) \<and>
    oid_oidcat ([1, 2] @ -1 # [0, 0]) ([3] @ -1 # []) = Some ([1, 2] @ [3] @ -1 # drop (length [3::int]) [0, 0])"
  by (rule oid_arrays_refine) simp_all

end
