(* ===== verification/Yaz_Wrbuf.thy ===== *)
theory Yaz_Wrbuf
  imports Yaz_Prelude
begin

text \<open>
  The growing buffer of \<^verbatim>\<open>wrbuf.c\<close>. The memory the buffer owns is the list \<open>wbuf\<close>; an access
  outside it has no result. Memory obtained from the allocator holds arbitrary bytes, which the
  model reads from the function \<open>wfresh\<close>. Sizes are natural numbers: a buffer whose size leaves
  the range of \<^verbatim>\<open>size_t\<close> cannot be allocated. The contract \<open>byte_sink\<close> says what a client may
  rely on: on a well-formed buffer every output operation returns, appends its text to the content
  and keeps the buffer well formed. The escaping writers are clients of it.
\<close>

section \<open>Buffer\<close>

record wrbuf =
  wbuf :: "byte list"
  wpos :: nat
  wsize :: nat
  wfresh :: "nat \<Rightarrow> byte"

definition wrbuf_grow :: "wrbuf \<Rightarrow> nat \<Rightarrow> wrbuf" where
  "wrbuf_grow b minsize =
     (let togrow0 = (if wsize b = 0 then 1024 else wsize b);
          togrow = (if togrow0 < minsize then minsize else togrow0);
          size' = wsize b + togrow
      in b\<lparr>wbuf := take (1 + size') (wbuf b @ map (wfresh b) [length (wbuf b)..<1 + size']), wsize := size'\<rparr>)"

definition wrbuf_alloc :: "(nat \<Rightarrow> byte) \<Rightarrow> wrbuf" where
  "wrbuf_alloc fresh = wrbuf_grow \<lparr>wbuf = [], wpos = 0, wsize = 0, wfresh = fresh\<rparr> 1"

definition wrbuf_rewind :: "wrbuf \<Rightarrow> wrbuf" where
  "wrbuf_rewind b = b\<lparr>wpos := 0\<rparr>"

text \<open>\<open>poke\<close> is \<^verbatim>\<open>memcpy\<close> (or \<^verbatim>\<open>memmove\<close>) to offset \<open>i\<close>: it must stay inside the memory.\<close>

definition poke :: "byte list \<Rightarrow> nat \<Rightarrow> byte list \<Rightarrow> byte list cres" where
  "poke m i s = (if i + length s \<le> length m then Some (take i m @ s @ drop (i + length s) m) else None)"

definition wrbuf_write :: "wrbuf \<Rightarrow> byte list \<Rightarrow> wrbuf cres" where
  "wrbuf_write b s =
     (if length s = 0 then Some b
      else let b1 = (if wpos b + length s \<ge> wsize b then wrbuf_grow b (length s) else b) in
        do {
          m \<leftarrow> poke (wbuf b1) (wpos b1) s;
          Some (b1\<lparr>wbuf := m, wpos := wpos b1 + length s\<rparr>)})"

definition wrbuf_insert :: "wrbuf \<Rightarrow> nat \<Rightarrow> byte list \<Rightarrow> wrbuf cres" where
  "wrbuf_insert b i s =
     (if length s = 0 \<or> i > wpos b then Some b
      else let b1 = (if wpos b + length s \<ge> wsize b then wrbuf_grow b (length s) else b) in
        do {
          m1 \<leftarrow> poke (wbuf b1) (i + length s) (take (wpos b1 - i) (drop i (wbuf b1)));
          m2 \<leftarrow> poke m1 i s;
          Some (b1\<lparr>wbuf := m2, wpos := wpos b1 + length s\<rparr>)})"

definition wrbuf_putc :: "wrbuf \<Rightarrow> byte \<Rightarrow> wrbuf cres" where
  "wrbuf_putc b c =
     (let b1 = (if wpos b \<ge> wsize b then wrbuf_grow b 1 else b) in
      do {
        m \<leftarrow> poke (wbuf b1) (wpos b1) [c];
        Some (b1\<lparr>wbuf := m, wpos := wpos b1 + 1\<rparr>)})"

definition wrbuf_puts :: "wrbuf \<Rightarrow> byte list \<Rightarrow> wrbuf cres" where
  "wrbuf_puts b s = wrbuf_write b (cstr s)"

definition wrbuf_vp_puts :: "byte list \<Rightarrow> wrbuf \<Rightarrow> wrbuf cres" where
  "wrbuf_vp_puts s client_data = wrbuf_puts client_data s"

text \<open>A failed assertion has no result either.\<close>

definition wrbuf_cstr :: "wrbuf \<Rightarrow> (byte list \<times> wrbuf) cres" where
  "wrbuf_cstr b =
     (if wpos b \<le> wsize b then do {
        m \<leftarrow> poke (wbuf b) (wpos b) [0];
        Some (cstr m, b\<lparr>wbuf := m\<rparr>)}
      else None)"

definition wrbuf_cstr_null :: "wrbuf option \<Rightarrow> (byte list option \<times> wrbuf option) cres" where
  "wrbuf_cstr_null w =
     (case w of
        None \<Rightarrow> Some (None, w)
      | Some b \<Rightarrow>
          if wpos b = 0 then Some (None, w)
          else do {(s, b1) \<leftarrow> wrbuf_cstr b; Some (Some s, Some b1)})"

definition wrbuf_cut_right :: "wrbuf \<Rightarrow> nat \<Rightarrow> wrbuf" where
  "wrbuf_cut_right b no_to_remove =
     b\<lparr>wpos := wpos b - (if no_to_remove > wpos b then wpos b else no_to_remove)\<rparr>"

text \<open>The loop of \<open>wrbuf_chop_right\<close> counts \<open>pos\<close> down over trailing blanks.\<close>

fun chop_pos :: "byte list \<Rightarrow> nat \<Rightarrow> nat cres" where
  "chop_pos m 0 = Some 0"
| "chop_pos m (Suc p) =
     (if p < length m then if m ! p = ch CHR '' '' then chop_pos m p else Some (Suc p) else None)"

definition wrbuf_chop_right :: "wrbuf \<Rightarrow> wrbuf cres" where
  "wrbuf_chop_right b = map_option (\<lambda>p. b\<lparr>wpos := p\<rparr>) (chop_pos (wbuf b) (wpos b))"

section \<open>Writers\<close>

text \<open>A loop over the bytes of the argument.\<close>

fun for_each :: "('s \<Rightarrow> byte \<Rightarrow> 's cres) \<Rightarrow> 's \<Rightarrow> byte list \<Rightarrow> 's cres" where
  "for_each f b [] = Some b"
| "for_each f b (c # cs) = do {b1 \<leftarrow> f b c; for_each f b1 cs}"

definition wrbuf_puts_replace_char :: "wrbuf \<Rightarrow> byte list \<Rightarrow> byte \<Rightarrow> byte \<Rightarrow> wrbuf cres" where
  "wrbuf_puts_replace_char b s from to =
     for_each (\<lambda>b c. if c = from then wrbuf_putc b to else wrbuf_putc b c) b (cstr s)"

text \<open>\<open>strstr\<close>: the text before the first occurrence and the text from there on.\<close>

fun strstr :: "byte list \<Rightarrow> byte list \<Rightarrow> (byte list \<times> byte list) option" where
  "strstr [] from = (if from = [] then Some ([], []) else None)"
| "strstr (c # s) from =
     (if take (length from) (c # s) = from then Some ([], c # s)
      else map_option (\<lambda>(pre, r). (c # pre, r)) (strstr s from))"

partial_function (option) replace_loop :: "wrbuf \<Rightarrow> byte list \<Rightarrow> byte list \<Rightarrow> byte list \<Rightarrow> wrbuf cres" where
  "replace_loop b cp0 from to =
     (case strstr cp0 from of
        None \<Rightarrow> wrbuf_puts b cp0
      | Some (pre, cp1) \<Rightarrow> do {
          b1 \<leftarrow> (if pre \<noteq> [] then wrbuf_write b pre else Some b);
          b2 \<leftarrow> wrbuf_puts b1 to;
          replace_loop b2 (drop (length from) cp1) from to})"

definition wrbuf_puts_replace_str :: "wrbuf \<Rightarrow> byte list \<Rightarrow> byte list \<Rightarrow> byte list \<Rightarrow> wrbuf cres" where
  "wrbuf_puts_replace_str b s from to = replace_loop b (cstr s) (cstr from) (cstr to)"

definition xml_dropped :: "byte \<Rightarrow> bool" where
  "xml_dropped c \<longleftrightarrow> 0 \<le> schar c \<and> schar c \<le> 31 \<and> c \<noteq> 9 \<and> c \<noteq> 10 \<and> c \<noteq> 13"

definition xmlputs_char :: "wrbuf \<Rightarrow> byte \<Rightarrow> wrbuf cres" where
  "xmlputs_char b c =
     (if xml_dropped c then Some b
      else if c = ch CHR ''<'' then wrbuf_puts b (str ''&lt;'')
      else if c = ch CHR ''>'' then wrbuf_puts b (str ''&gt;'')
      else if c = ch CHR ''&'' then wrbuf_puts b (str ''&amp;'')
      else if c = 34 then wrbuf_puts b (str ''&quot;'')
      else if c = 39 then wrbuf_puts b (str ''&apos;'')
      else wrbuf_putc b c)"

definition wrbuf_xmlputs_n :: "wrbuf \<Rightarrow> byte list \<Rightarrow> wrbuf cres" where
  "wrbuf_xmlputs_n b s = for_each xmlputs_char b s"

definition wrbuf_xmlputs :: "wrbuf \<Rightarrow> byte list \<Rightarrow> wrbuf cres" where
  "wrbuf_xmlputs b s = wrbuf_xmlputs_n b (cstr s)"

definition wrbuf_xml_strip :: "wrbuf \<Rightarrow> byte list \<Rightarrow> wrbuf cres" where
  "wrbuf_xml_strip b s = for_each (\<lambda>b c. if xml_dropped c then Some b else wrbuf_putc b c) b s"

text \<open>
  \<open>wrbuf_printf\<close> is given the formatted text: \<^verbatim>\<open>vsnprintf\<close> keeps its first 4094 bytes.
\<close>

definition wrbuf_printf :: "wrbuf \<Rightarrow> byte list \<Rightarrow> wrbuf cres" where
  "wrbuf_printf b text = wrbuf_puts b (take 4094 text)"

definition hex_upper :: "nat \<Rightarrow> byte" where
  "hex_upper d = (if d < 10 then byte_of (48 + d) else byte_of (55 + d))"

definition hex_lower :: "nat \<Rightarrow> byte" where
  "hex_lower d = (if d < 10 then byte_of (48 + d) else byte_of (87 + d))"

definition escaped_char :: "wrbuf \<Rightarrow> byte \<Rightarrow> wrbuf cres" where
  "escaped_char b c =
     (if schar c < 32 \<or> schar c > 126
      then wrbuf_printf b ([92, ch CHR ''x''] @ [hex_upper (unat c div 16), hex_upper (unat c mod 16)])
      else wrbuf_putc b c)"

definition wrbuf_write_escaped :: "wrbuf \<Rightarrow> byte list \<Rightarrow> wrbuf cres" where
  "wrbuf_write_escaped b s = for_each escaped_char b s"

definition wrbuf_puts_escaped :: "wrbuf \<Rightarrow> byte list \<Rightarrow> wrbuf cres" where
  "wrbuf_puts_escaped b s = wrbuf_write_escaped b (cstr s)"

definition json_char :: "wrbuf \<Rightarrow> byte \<Rightarrow> wrbuf cres" where
  "json_char b c =
     (if schar c > 0 \<and> schar c < 32 then do {
        b1 \<leftarrow> wrbuf_putc b 92;
        if c = 8 then wrbuf_putc b1 (ch CHR ''b'')
        else if c = 12 then wrbuf_putc b1 (ch CHR ''f'')
        else if c = 10 then wrbuf_putc b1 (ch CHR ''n'')
        else if c = 13 then wrbuf_putc b1 (ch CHR ''r'')
        else if c = 9 then wrbuf_putc b1 (ch CHR ''t'')
        else wrbuf_printf b1
          ([ch CHR ''u'', hex_lower 0, hex_lower 0] @ [hex_lower (unat c div 16), hex_lower (unat c mod 16)])}
      else if c = 34 then do {b1 \<leftarrow> wrbuf_putc b 92; wrbuf_putc b1 34}
      else if c = 92 then do {b1 \<leftarrow> wrbuf_putc b 92; wrbuf_putc b1 92}
      else wrbuf_putc b c)"

definition wrbuf_json_write :: "wrbuf \<Rightarrow> byte list \<Rightarrow> wrbuf cres" where
  "wrbuf_json_write b s = for_each json_char b s"

definition wrbuf_json_puts :: "wrbuf \<Rightarrow> byte list \<Rightarrow> wrbuf cres" where
  "wrbuf_json_puts b s = wrbuf_json_write b (cstr s)"

section \<open>The contract of an output buffer\<close>

definition appends_to :: "('s \<Rightarrow> bool) \<Rightarrow> ('s \<Rightarrow> byte list) \<Rightarrow> ('s \<Rightarrow> 's cres) \<Rightarrow> byte list \<Rightarrow> bool" where
  "appends_to okb content f s \<longleftrightarrow> (\<forall>b. okb b \<longrightarrow> (\<exists>b'. f b = Some b' \<and> okb b' \<and> content b' = content b @ s))"

locale byte_sink =
  fixes okb :: "'s \<Rightarrow> bool"
    and content :: "'s \<Rightarrow> byte list"
    and put :: "'s \<Rightarrow> byte list \<Rightarrow> 's cres"
  assumes put: "okb b \<Longrightarrow> \<exists>b'. put b s = Some b' \<and> okb b' \<and> content b' = content b @ s"
begin

lemma appends_put: "appends_to okb content (\<lambda>b. put b s) s"
  using put by (simp add: appends_to_def)

lemma appends_nothing: "appends_to okb content Some []"
  by (simp add: appends_to_def)

lemma appends_bind:
  "appends_to okb content f s \<Longrightarrow> appends_to okb content g t \<Longrightarrow>
   appends_to okb content (\<lambda>b. do {b1 \<leftarrow> f b; g b1}) (s @ t)"
  by (fastforce simp: appends_to_def)

lemma appends_each:
  "(\<And>c. c \<in> set s \<Longrightarrow> appends_to okb content (\<lambda>b. f b c) (esc c)) \<Longrightarrow>
   appends_to okb content (\<lambda>b. for_each f b s) (concat (map esc s))"
proof (induction s)
  case Nil
  then show ?case by (simp add: appends_nothing)
next
  case (Cons c s)
  then show ?case using appends_bind [of "\<lambda>b. f b c" "esc c" "\<lambda>b. for_each f b s" "concat (map esc s)"] by simp
qed

end

definition wrbuf_wf :: "wrbuf \<Rightarrow> bool" where
  "wrbuf_wf b \<longleftrightarrow> length (wbuf b) = wsize b + 1 \<and> wpos b \<le> wsize b \<and> 0 < wsize b"

definition wrbuf_content :: "wrbuf \<Rightarrow> byte list" where
  "wrbuf_content b = take (wpos b) (wbuf b)"

abbreviation wr_appends :: "(wrbuf \<Rightarrow> wrbuf cres) \<Rightarrow> byte list \<Rightarrow> bool" where
  "wr_appends \<equiv> appends_to wrbuf_wf wrbuf_content"

lemma wrbuf_grow_spec:
  assumes "length (wbuf b) \<le> wsize b + 1" "wpos b \<le> length (wbuf b)"
  shows "length (wbuf (wrbuf_grow b n)) = wsize (wrbuf_grow b n) + 1"
    "wsize b + n \<le> wsize (wrbuf_grow b n)" "wsize b < wsize (wrbuf_grow b n)"
    "wpos (wrbuf_grow b n) = wpos b" "wrbuf_content (wrbuf_grow b n) = wrbuf_content b"
    "take (length (wbuf b)) (wbuf (wrbuf_grow b n)) = wbuf b"
  using assms by (auto simp: wrbuf_grow_def Let_def wrbuf_content_def)

lemma wrbuf_alloc_wf: "wrbuf_wf (wrbuf_alloc fresh)" "wrbuf_content (wrbuf_alloc fresh) = []"
  by (simp_all add: wrbuf_alloc_def wrbuf_wf_def wrbuf_grow_def wrbuf_content_def)

text \<open>Room for \<open>n\<close> more bytes, as \<open>wrbuf_write\<close> and \<open>wrbuf_putc\<close> make it.\<close>

definition with_room :: "wrbuf \<Rightarrow> nat \<Rightarrow> wrbuf \<Rightarrow> bool" where
  "with_room b n b1 \<longleftrightarrow> wrbuf_wf b1 \<and> wpos b1 = wpos b \<and> wpos b + n \<le> wsize b1 \<and>
     take (length (wbuf b)) (wbuf b1) = wbuf b"

lemma grow_room: "wrbuf_wf b \<Longrightarrow> with_room b n (wrbuf_grow b n)"
  using wrbuf_grow_spec [of b n] by (simp add: with_room_def wrbuf_wf_def)

lemma enough_room: "wrbuf_wf b \<Longrightarrow> wpos b + n \<le> wsize b \<Longrightarrow> with_room b n b"
  by (simp add: with_room_def wrbuf_wf_def)

lemma with_room:
  assumes "wrbuf_wf b"
  shows "with_room b n (if wpos b + n \<ge> wsize b then wrbuf_grow b n else b)"
    "with_room b (Suc 0) (if wpos b \<ge> wsize b then wrbuf_grow b (Suc 0) else b)"
  using grow_room [OF assms] enough_room [OF assms] by auto

lemma with_room_content: "with_room b n b1 \<Longrightarrow> wrbuf_wf b \<Longrightarrow> wrbuf_content b1 = wrbuf_content b"
  unfolding with_room_def wrbuf_content_def wrbuf_wf_def
  by (metis Suc_eq_plus1 le_Suc_eq min.absorb1 take_take)

lemma poke_append:
  assumes "wrbuf_wf b" "with_room b (length s) b1"
  shows "\<exists>m. poke (wbuf b1) (wpos b1) s = Some m \<and> wrbuf_wf (b1\<lparr>wbuf := m, wpos := wpos b1 + length s\<rparr>) \<and>
    wrbuf_content (b1\<lparr>wbuf := m, wpos := wpos b1 + length s\<rparr>) = wrbuf_content b @ s"
  using assms with_room_content [OF assms(2,1)]
  by (auto simp: poke_def wrbuf_wf_def with_room_def wrbuf_content_def)

lemma write_appends: "wrbuf_wf b \<Longrightarrow> \<exists>b'. wrbuf_write b s = Some b' \<and> wrbuf_wf b' \<and> wrbuf_content b' = wrbuf_content b @ s"
  using poke_append [OF _ with_room(1), of b s] by (fastforce simp: wrbuf_write_def Let_def)

lemma putc_appends: "wr_appends (\<lambda>b. wrbuf_putc b c) [c]"
  unfolding appends_to_def
proof (intro allI impI)
  fix b assume "wrbuf_wf b"
  then show "\<exists>b'. wrbuf_putc b c = Some b' \<and> wrbuf_wf b' \<and> wrbuf_content b' = wrbuf_content b @ [c]"
    using poke_append [of b "[c]"] with_room(2) [of b]
    by (fastforce simp: wrbuf_putc_def Let_def)
qed

interpretation wr: byte_sink wrbuf_wf wrbuf_content wrbuf_write
  by unfold_locales (rule write_appends)

lemma puts_appends: "wr_appends (\<lambda>b. wrbuf_puts b s) (cstr s)"
  using write_appends by (simp add: appends_to_def wrbuf_puts_def)

lemma puts_appends_text: "no_nul s \<Longrightarrow> wr_appends (\<lambda>b. wrbuf_puts b s) s"
  using puts_appends [of s] by simp

lemma printf_appends: "no_nul s \<Longrightarrow> length s \<le> 4094 \<Longrightarrow> wr_appends (\<lambda>b. wrbuf_printf b s) s"
  using puts_appends_text [of s] by (simp add: wrbuf_printf_def)

lemmas wr_appends_intros = wr.appends_nothing putc_appends puts_appends_text printf_appends

section \<open>Escaping\<close>

definition xml_escape :: "byte \<Rightarrow> byte list" where
  "xml_escape c =
     (if xml_dropped c then []
      else if c = ch CHR ''<'' then str ''&lt;''
      else if c = ch CHR ''>'' then str ''&gt;''
      else if c = ch CHR ''&'' then str ''&amp;''
      else if c = 34 then str ''&quot;''
      else if c = 39 then str ''&apos;''
      else [c])"

definition json_escape :: "byte \<Rightarrow> byte list" where
  "json_escape c =
     (if schar c > 0 \<and> schar c < 32
      then 92 # (if c = 8 then str ''b'' else if c = 12 then str ''f'' else if c = 10 then str ''n''
        else if c = 13 then str ''r'' else if c = 9 then str ''t''
        else [ch CHR ''u'', hex_lower 0, hex_lower 0, hex_lower (unat c div 16), hex_lower (unat c mod 16)])
      else if c = 34 then [92, 34] else if c = 92 then [92, 92] else [c])"

lemma xmlputs_char_appends: "wr_appends (\<lambda>b. xmlputs_char b c) (xml_escape c)"
  by (auto simp: xmlputs_char_def xml_escape_def intro: wr_appends_intros)

lemma xmlputs_appends: "wr_appends (\<lambda>b. wrbuf_xmlputs_n b s) (concat (map xml_escape s))"
  unfolding wrbuf_xmlputs_n_def by (rule wr.appends_each) (rule xmlputs_char_appends)

lemma byte_of_nonzero: "0 < n \<Longrightarrow> n < 256 \<Longrightarrow> byte_of n \<noteq> 0"
  by (metis less_irrefl unat_byte_of_less unsigned_0)

lemma hex_nonzero: "d < 16 \<Longrightarrow> hex_lower d \<noteq> 0" "d < 16 \<Longrightarrow> hex_upper d \<noteq> 0"
  by (simp_all add: hex_lower_def hex_upper_def byte_of_nonzero)

lemma byte_nibbles: "unat (c :: byte) div 16 < 16" "unat c mod 16 < 16"
  by (simp_all add: div_less_iff_less_mult)

lemma json_char_appends: "wr_appends (\<lambda>b. json_char b c) (json_escape c)"
proof -
  have two: "wr_appends (\<lambda>b. do {b1 \<leftarrow> wrbuf_putc b 92; wrbuf_putc b1 d}) [92, d]" for d
    using wr.appends_bind [OF putc_appends putc_appends, of 92 d] by simp
  have "wr_appends (\<lambda>b. do {b1 \<leftarrow> wrbuf_putc b 92;
      wrbuf_printf b1 ([ch CHR ''u'', hex_lower 0, hex_lower 0] @ [hex_lower (unat c div 16), hex_lower (unat c mod 16)])})
    ([92] @ [ch CHR ''u'', hex_lower 0, hex_lower 0] @ [hex_lower (unat c div 16), hex_lower (unat c mod 16)])"
    using hex_nonzero(1) [OF byte_nibbles(1), of c] hex_nonzero(1) [OF byte_nibbles(2), of c] hex_nonzero(1) [of 0]
    by (intro wr.appends_bind putc_appends printf_appends) auto
  then show ?thesis
    using two [of "ch CHR ''b''"] two [of "ch CHR ''f''"] two [of "ch CHR ''n''"] two [of "ch CHR ''r''"]
      two [of "ch CHR ''t''"] two [of 34] two [of 92] putc_appends [of c]
    by (auto simp: json_char_def json_escape_def)
qed

lemma json_write_appends: "wr_appends (\<lambda>b. wrbuf_json_write b s) (concat (map json_escape s))"
  unfolding wrbuf_json_write_def by (rule wr.appends_each) (rule json_char_appends)

text \<open>The reader of the predefined entities.\<close>

fun xml_unescape :: "byte list \<Rightarrow> byte list" where
  "xml_unescape [] = []"
| "xml_unescape (c # s) =
     (if c \<noteq> ch CHR ''&'' then c # xml_unescape s
      else if take 3 s = str ''lt;'' then ch CHR ''<'' # xml_unescape (drop 3 s)
      else if take 3 s = str ''gt;'' then ch CHR ''>'' # xml_unescape (drop 3 s)
      else if take 4 s = str ''amp;'' then ch CHR ''&'' # xml_unescape (drop 4 s)
      else if take 5 s = str ''quot;'' then 34 # xml_unescape (drop 5 s)
      else if take 5 s = str ''apos;'' then 39 # xml_unescape (drop 5 s)
      else c # xml_unescape s)"

text \<open>
  The bytes XML 1.0 allows in a text (production Char): tab, line feed, carriage return and everything
  from 32 on. The code's test with signed characters drops exactly the others.
\<close>

definition xml_char :: "byte \<Rightarrow> bool" where
  "xml_char c \<longleftrightarrow> unat c \<in> {9, 10, 13} \<or> 32 \<le> unat c"

lemma xml_dropped_iff: "xml_dropped c \<longleftrightarrow> \<not> xml_char c"
proof (cases "unat c < 128")
  case True
  then have "schar c = int (unat c)" by (rule sint_low)
  then show ?thesis by (auto simp: xml_dropped_def xml_char_def word_unat_eq_iff simp del: of_nat_unat)
next
  case False
  then have "schar c < 0" by (simp add: sint_high)
  with False show ?thesis by (simp add: xml_dropped_def xml_char_def)
qed

lemma xml_unescape_escape: "xml_unescape (concat (map xml_escape s)) = filter xml_char s"
proof (induction s)
  case (Cons c s)
  have "xml_unescape (xml_escape c @ r) = (if xml_char c then [c] else []) @ xml_unescape r" for r
    by (auto simp: xml_escape_def xml_dropped_iff xml_char_def)
  with Cons show ?case by simp
qed simp

lemma xml_strip_appends: "wr_appends (\<lambda>b. wrbuf_xml_strip b s) (filter xml_char s)"
proof -
  have "wr_appends (\<lambda>b. if xml_dropped c then Some b else wrbuf_putc b c) (if xml_char c then [c] else [])" for c
    by (auto simp: xml_dropped_iff intro: wr_appends_intros)
  then have "wr_appends (\<lambda>b. wrbuf_xml_strip b s) (concat (map (\<lambda>c. if xml_char c then [c] else []) s))"
    unfolding wrbuf_xml_strip_def by (rule wr.appends_each)
  moreover have "concat (map (\<lambda>c. if xml_char c then [c] else []) s) = filter xml_char s" by (induction s) simp_all
  ultimately show ?thesis by simp
qed

lemma xml_escape_no_markup: "set (concat (map xml_escape s)) \<inter> {ch CHR ''<'', ch CHR ''>'', 34, 39} = {}"
proof -
  have "set (xml_escape c) \<inter> {ch CHR ''<'', ch CHR ''>'', 34, 39} = {}" for c
    by (auto simp: xml_escape_def)
  then show ?thesis by auto
qed

section \<open>Editing\<close>

lemma chop_pos_spec: "p \<le> length m \<Longrightarrow>
  \<exists>q. chop_pos m p = Some q \<and> q \<le> p \<and> take q m = rev (dropWhile (\<lambda>c. c = ch CHR '' '') (rev (take p m)))"
proof (induction p)
  case (Suc p)
  then have "take (Suc p) m = take p m @ [m ! p]" by (simp add: take_Suc_conv_app_nth)
  with Suc show ?case by (cases "m ! p = ch CHR '' ''") (fastforce intro: le_SucI)+
qed simp

lemma chop_right_spec:
  "wrbuf_wf b \<Longrightarrow> \<exists>b'. wrbuf_chop_right b = Some b' \<and> wrbuf_wf b' \<and>
     wrbuf_content b' = rev (dropWhile (\<lambda>c. c = ch CHR '' '') (rev (wrbuf_content b)))"
  using chop_pos_spec [of "wpos b" "wbuf b"]
  by (auto simp: wrbuf_chop_right_def wrbuf_wf_def wrbuf_content_def)

lemma cut_right_spec:
  "wrbuf_wf b \<Longrightarrow> wrbuf_wf (wrbuf_cut_right b n) \<and>
     wrbuf_content (wrbuf_cut_right b n) = take (length (wrbuf_content b) - n) (wrbuf_content b)"
  by (auto simp: wrbuf_cut_right_def wrbuf_wf_def wrbuf_content_def min_def)

lemma cstr_spec:
  "wrbuf_wf b \<Longrightarrow> \<exists>b'. wrbuf_cstr b = Some (cstr (wrbuf_content b), b') \<and> wrbuf_wf b' \<and> wrbuf_content b' = wrbuf_content b"
proof -
  assume wf: "wrbuf_wf b"
  have "cstr (s @ 0 # t) = cstr s" for s t by (induction s) simp_all
  with wf show ?thesis by (auto simp: wrbuf_cstr_def poke_def wrbuf_wf_def wrbuf_content_def)
qed

lemma length_content: "wrbuf_wf b \<Longrightarrow> length (wrbuf_content b) = wpos b"
  by (simp add: wrbuf_wf_def wrbuf_content_def)

lemma insert_spec:
  assumes "wrbuf_wf b"
  shows "\<exists>b'. wrbuf_insert b i s = Some b' \<and> wrbuf_wf b' \<and> wrbuf_content b' =
    (if i \<le> length (wrbuf_content b) then take i (wrbuf_content b) @ s @ drop i (wrbuf_content b) else wrbuf_content b)"
proof (cases "s = [] \<or> i > wpos b")
  case True
  then show ?thesis using assms by (auto simp: wrbuf_insert_def length_content)
next
  case False
  define b1 where "b1 = (if wpos b + length s \<ge> wsize b then wrbuf_grow b (length s) else b)"
  have room: "with_room b (length s) b1" using with_room(1) [OF assms] by (simp add: b1_def)
  define c where "c = wrbuf_content b"
  have c: "c = take (wpos b) (wbuf b1)" "length c = wpos b"
    using with_room_content [OF room assms] room length_content [OF assms] by (simp_all add: c_def wrbuf_content_def with_room_def)
  have len: "wpos b + length s < length (wbuf b1)" "wpos b1 = wpos b" "i \<le> wpos b" "i < wpos b + length s"
    using room False length_greater_0_conv [of s] by (auto simp: with_room_def wrbuf_wf_def simp del: length_greater_0_conv)
  define m1 where "m1 = take (i + length s) (wbuf b1) @ drop i c @ drop (wpos b + length s) (wbuf b1)"
  have p1: "poke (wbuf b1) (i + length s) (take (wpos b1 - i) (drop i (wbuf b1))) = Some m1"
    using len c by (simp add: poke_def m1_def c(1) drop_take min_def add.commute)
  define m2 where "m2 = take i (wbuf b1) @ s @ drop i c @ drop (wpos b + length s) (wbuf b1)"
  have p2: "poke m1 i s = Some m2" using len c(2) by (simp add: poke_def m1_def m2_def)
  have "wrbuf_insert b i s = Some (b1\<lparr>wbuf := m2, wpos := wpos b1 + length s\<rparr>)"
    using False p1 p2 by (simp add: wrbuf_insert_def Let_def b1_def [symmetric])
  moreover have "wrbuf_wf (b1\<lparr>wbuf := m2, wpos := wpos b1 + length s\<rparr>)"
    using room len c(2) by (auto simp: wrbuf_wf_def with_room_def m2_def)
  moreover have "wrbuf_content (b1\<lparr>wbuf := m2, wpos := wpos b1 + length s\<rparr>) = take i c @ s @ drop i c"
    using len c by (simp add: wrbuf_content_def m2_def min_def)
  ultimately show ?thesis using len(3) c(2) by (auto simp: c_def)
qed

section \<open>Replacing\<close>

lemma strstr_empty: "strstr s [] = Some ([], s)"
  by (cases s) auto

lemma strstr_split: "strstr s from = Some (pre, r) \<Longrightarrow> s = pre @ r \<and> take (length from) r = from"
  by (induction s arbitrary: pre r) (auto split: if_splits)

lemma length_take_pos: "take (length f) r = f \<Longrightarrow> f \<noteq> [] \<Longrightarrow> length r - length f < length r"
  by (cases r) (auto simp: diff_less)

lemma replace_loop_empty: "replace_loop b s from to = Some y \<Longrightarrow> from \<noteq> []"
  by (erule replace_loop.raw_induct [rotated, where P = "\<lambda>b s from to y. from \<noteq> []"])
    (fastforce simp: strstr_empty bind_Some_iff)

text \<open>The text with every occurrence replaced, leftmost first and without overlap.\<close>

function replaced :: "byte list \<Rightarrow> byte list \<Rightarrow> byte list \<Rightarrow> byte list" where
  "replaced s from to =
     (if from = [] then s
      else case strstr s from of
        None \<Rightarrow> s
      | Some (pre, r) \<Rightarrow> pre @ to @ replaced (drop (length from) r) from to)"
  by pat_completeness auto
termination
proof (relation "measure (\<lambda>(s, from, to). length s)", goal_cases)
  case (2 s fr to x pre r)
  then have "s = pre @ r" "take (length fr) r = fr" using strstr_split by auto
  then show ?case using 2(1) length_take_pos [of fr r] by simp
qed simp

declare replaced.simps [simp del]

lemma replace_loop_appends:
  "from \<noteq> [] \<Longrightarrow> no_nul s \<Longrightarrow> no_nul to \<Longrightarrow> wr_appends (\<lambda>b. replace_loop b s from to) (replaced s from to)"
proof (induction "length s" arbitrary: s rule: less_induct)
  case less
  show ?case
  proof (cases "strstr s from")
    case None
    then show ?thesis using puts_appends_text [OF less.prems(2)] less.prems(1)
      by (simp add: replace_loop.simps [of _ s] replaced.simps [of s])
  next
    case (Some p)
    obtain pre r where p: "p = (pre, r)" by force
    have split: "s = pre @ r" "take (length from) r = from" using strstr_split Some p by auto
    let ?rest = "drop (length from) r"
    have "length ?rest < length s" using split(1) length_take_pos [OF split(2) less.prems(1)] by simp
    moreover have "no_nul ?rest" using less.prems(2) split(1) set_drop_subset [of "length from" r] by auto
    ultimately have IH: "wr_appends (\<lambda>b. replace_loop b ?rest from to) (replaced ?rest from to)"
      using less.hyps less.prems by simp
    have pre: "wr_appends (\<lambda>b. if pre \<noteq> [] then wrbuf_write b pre else Some b) pre"
      using wr.appends_put [of pre] wr.appends_nothing by (cases "pre = []") simp_all
    have "wr_appends (\<lambda>b. do {b1 \<leftarrow> (if pre \<noteq> [] then wrbuf_write b pre else Some b);
        do {b2 \<leftarrow> wrbuf_puts b1 to; replace_loop b2 ?rest from to}}) (pre @ to @ replaced ?rest from to)"
      by (intro wr.appends_bind [OF pre] wr.appends_bind puts_appends_text less.prems IH)
    then show ?thesis using Some less.prems(1)
      by (simp add: p replace_loop.simps [of _ s] replaced.simps [of s])
  qed
qed

section \<open>Properties\<close>

text \<open>
  C24: the buffer implements a byte string. On a well-formed buffer every editing operation stays
  inside the memory it owns, keeps the buffer well formed, and does to the content what its name
  says: append, insert at an offset (nothing when the offset is behind the content), cut from the
  right, remove trailing blanks, and hand out the content as a C string.
\<close>

theorem wrbuf_refines:
  assumes "wrbuf_wf b"
  shows "(\<exists>b'. wrbuf_write b s = Some b' \<and> wrbuf_wf b' \<and> wrbuf_content b' = wrbuf_content b @ s) \<and>
    (\<exists>b'. wrbuf_putc b c = Some b' \<and> wrbuf_wf b' \<and> wrbuf_content b' = wrbuf_content b @ [c]) \<and>
    (\<exists>b'. wrbuf_insert b i s = Some b' \<and> wrbuf_wf b' \<and> wrbuf_content b' =
      (if i \<le> length (wrbuf_content b) then take i (wrbuf_content b) @ s @ drop i (wrbuf_content b) else wrbuf_content b)) \<and>
    wrbuf_wf (wrbuf_cut_right b n) \<and>
    wrbuf_content (wrbuf_cut_right b n) = take (length (wrbuf_content b) - n) (wrbuf_content b) \<and>
    (\<exists>b'. wrbuf_chop_right b = Some b' \<and> wrbuf_wf b' \<and>
      wrbuf_content b' = rev (dropWhile (\<lambda>c. c = ch CHR '' '') (rev (wrbuf_content b)))) \<and>
    (\<exists>b'. wrbuf_cstr b = Some (cstr (wrbuf_content b), b') \<and> wrbuf_wf b' \<and> wrbuf_content b' = wrbuf_content b)"
  by (intro conjI write_appends [OF assms] putc_appends [unfolded appends_to_def, rule_format, OF assms]
      insert_spec [OF assms] cut_right_spec [OF assms, THEN conjunct1] cut_right_spec [OF assms, THEN conjunct2]
      chop_right_spec [OF assms] cstr_spec [OF assms])

theorem wrbuf_refines_witness:
  "\<exists>b'. wrbuf_write (wrbuf_alloc of_nat) (str ''ab'') = Some b' \<and> wrbuf_wf b' \<and>
    wrbuf_content b' = wrbuf_content (wrbuf_alloc of_nat) @ str ''ab''"
  by (rule wrbuf_refines [THEN conjunct1]) (rule wrbuf_alloc_wf(1))

text \<open>
  C25: XML text is escaped without loss. What \<open>wrbuf_xmlputs_n\<close> appends holds no markup character
  and no quote, and resolving the five predefined entities in it gives back exactly those bytes of the
  input that XML 1.0 allows: tab, line feed, carriage return and everything from 32 on, bytes above 127
  included. \<open>wrbuf_xml_strip\<close> appends exactly these bytes as they are.
\<close>

theorem xmlputs_unescape:
  assumes "wrbuf_wf b"
  shows "(\<exists>b' t. wrbuf_xmlputs_n b s = Some b' \<and> wrbuf_wf b' \<and> wrbuf_content b' = wrbuf_content b @ t \<and>
      xml_unescape t = filter (\<lambda>c. unat c \<in> {9, 10, 13} \<or> 32 \<le> unat c) s \<and>
      set t \<inter> {ch CHR ''<'', ch CHR ''>'', 34, 39} = {}) \<and>
    (\<exists>b'. wrbuf_xml_strip b s = Some b' \<and> wrbuf_wf b' \<and>
      wrbuf_content b' = wrbuf_content b @ filter (\<lambda>c. unat c \<in> {9, 10, 13} \<or> 32 \<le> unat c) s)"
proof -
  have allowed: "xml_char = (\<lambda>c. unat c \<in> {9, 10, 13} \<or> 32 \<le> unat c)" by (rule ext) (rule xml_char_def)
  obtain b' where "wrbuf_xmlputs_n b s = Some b'" "wrbuf_wf b'"
      "wrbuf_content b' = wrbuf_content b @ concat (map xml_escape s)"
    using xmlputs_appends [of s] assms by (auto simp: appends_to_def)
  moreover obtain b'' where "wrbuf_xml_strip b s = Some b''" "wrbuf_wf b''" "wrbuf_content b'' = wrbuf_content b @ filter xml_char s"
    using xml_strip_appends [of s] assms by (auto simp: appends_to_def)
  ultimately show ?thesis
    unfolding allowed [symmetric] using xml_unescape_escape [of s] xml_escape_no_markup [of s] by blast
qed

theorem xmlputs_unescape_witness:
  "(\<exists>b' t. wrbuf_xmlputs_n (wrbuf_alloc (\<lambda>i. 0)) [97, 60, 13, 1, 0xC3] = Some b' \<and> wrbuf_wf b' \<and>
      wrbuf_content b' = wrbuf_content (wrbuf_alloc (\<lambda>i. 0)) @ t \<and> xml_unescape t = [97, 60, 13, 0xC3] \<and>
      set t \<inter> {ch CHR ''<'', ch CHR ''>'', 34, 39} = {}) \<and>
    (\<exists>b'. wrbuf_xml_strip (wrbuf_alloc (\<lambda>i. 0)) [97, 60, 13, 1, 0xC3] = Some b' \<and> wrbuf_wf b' \<and>
      wrbuf_content b' = wrbuf_content (wrbuf_alloc (\<lambda>i. 0)) @ [97, 60, 13, 0xC3])"
  using xmlputs_unescape [OF wrbuf_alloc_wf(1), of "\<lambda>i. 0" "[97, 60, 13, 1, 0xC3]"] by simp

text \<open>
  C26: replacing a string. \<open>wrbuf_puts_replace_str\<close> returns exactly when the text to replace is not
  empty, and then appends the input with every occurrence replaced; with an empty text to replace
  its loop does not end.
\<close>

theorem replace_str_returns:
  assumes "wrbuf_wf b"
  shows "if cstr from = [] then wrbuf_puts_replace_str b s from to = None
    else \<exists>b'. wrbuf_puts_replace_str b s from to = Some b' \<and> wrbuf_wf b' \<and>
      wrbuf_content b' = wrbuf_content b @ replaced (cstr s) (cstr from) (cstr to)"
  using replace_loop_appends [of "cstr from" "cstr s" "cstr to"] replace_loop_empty [of b "cstr s" "cstr from" "cstr to"] assms
  by (cases "replace_loop b (cstr s) (cstr from) (cstr to)"; cases "cstr from = []")
    (auto simp: wrbuf_puts_replace_str_def appends_to_def)

theorem replace_str_returns_witness:
  "if cstr (str ''X'') = [] then wrbuf_puts_replace_str (wrbuf_alloc (\<lambda>i. 0)) (str ''aXb'') (str ''X'') (str ''YY'') = None
    else \<exists>b'. wrbuf_puts_replace_str (wrbuf_alloc (\<lambda>i. 0)) (str ''aXb'') (str ''X'') (str ''YY'') = Some b' \<and> wrbuf_wf b' \<and>
      wrbuf_content b' = wrbuf_content (wrbuf_alloc (\<lambda>i. 0)) @ replaced (cstr (str ''aXb'')) (cstr (str ''X'')) (cstr (str ''YY''))"
  by (rule replace_str_returns) (rule wrbuf_alloc_wf(1))

end
