(* ===== verification/Yaz_Scan.thy ===== *)
theory Yaz_Scan
  imports Yaz_Prelude
begin

text \<open>
  Reading numbers, as several parsers of the program do: hexadecimal numbers with \<^verbatim>\<open>sscanf\<close>, decimal
  numbers with \<^verbatim>\<open>strtoll\<close> (\<^verbatim>\<open>odr_strtol\<close> and \<^verbatim>\<open>odr_atoi\<close> of \<^verbatim>\<open>odr_mem.c\<close>) and numbers in protocol text
  (\<^verbatim>\<open>atoin.c\<close>).
\<close>

section \<open>Hexadecimal numbers\<close>

text \<open>
  \<open>sscanf_4x\<close> is \<^verbatim>\<open>sscanf(s, "%4x%n", &code, &no_read)\<close>: white space, then at most four characters of
  sign, prefix \<^verbatim>\<open>0x\<close> and hexadecimal digits. The result is the code and the number of bytes read;
  without a digit nothing is stored and \<^verbatim>\<open>no_read\<close> keeps its initial value 0.
\<close>

definition hex_value :: "byte \<Rightarrow> nat option" where
  "hex_value c =
     (if 48 \<le> unat c \<and> unat c \<le> 57 then Some (unat c - 48)
      else if 97 \<le> unat c \<and> unat c \<le> 102 then Some (unat c - 87)
      else if 65 \<le> unat c \<and> unat c \<le> 70 then Some (unat c - 55)
      else None)"

definition hex_digits :: "byte list \<Rightarrow> nat list" where
  "hex_digits s = map (\<lambda>c. the (hex_value c)) (takeWhile (\<lambda>c. hex_value c \<noteq> None) s)"

definition hex_number :: "nat list \<Rightarrow> nat" where
  "hex_number ds = foldl (\<lambda>a d. a * 16 + d) 0 ds"

definition c_isspace :: "byte \<Rightarrow> bool" where
  "c_isspace c \<longleftrightarrow> c \<in> set [32, 9, 10, 11, 12, 13]"

definition sscanf_4x :: "byte list \<Rightarrow> 32 word \<times> nat" where
  "sscanf_4x s =
     (let w = takeWhile c_isspace s;
          t = take 4 (drop (length w) s);
          sg = (if deref t = ch CHR ''+'' \<or> deref t = ch CHR ''-'' then 1 else 0);
          t1 = drop sg t;
          px = (if deref t1 = ch CHR ''0'' \<and> (deref (tl t1) = ch CHR ''x'' \<or> deref (tl t1) = ch CHR ''X'') then 2 else 0);
          ds = hex_digits (drop px t1)
      in if ds = [] then (0, 0)
         else (if sg = 1 \<and> deref t = ch CHR ''-'' then - of_nat (hex_number ds) else of_nat (hex_number ds),
               length w + sg + px + length ds))"

section \<open>Decimal and octal numbers\<close>

text \<open>\<^verbatim>\<open>strtoll\<close> with base 10: white space, a sign, digits; the value is limited to 64 bits.\<close>

definition digits_value :: "byte list \<Rightarrow> int" where
  "digits_value s = foldl (\<lambda>a c. a * 10 + (int (unat c) - 48)) 0 (takeWhile yaz_isdigit s)"

definition odr_strtol :: "byte list \<Rightarrow> int" where
  "odr_strtol s =
     (let t = dropWhile c_isspace (cstr s);
          neg = (deref t = ch CHR ''-'');
          v = digits_value (if neg \<or> deref t = ch CHR ''+'' then tl t else t)
      in if neg then max (- v) (- (2 ^ 63)) else min v (2 ^ 63 - 1))"

definition odr_atoi :: "byte list \<Rightarrow> int" where
  "odr_atoi s = odr_strtol s"

text \<open>Octal digits, for \<^verbatim>\<open>sscanf\<close> with \<^verbatim>\<open>%o\<close> on a text that begins with one.\<close>

definition octal_number :: "byte list \<Rightarrow> nat" where
  "octal_number s = foldl (\<lambda>a c. a * 8 + (unat c - 48)) 0 (takeWhile (\<lambda>c. 48 \<le> unat c \<and> unat c \<le> 55) s)"

section \<open>Numbers (atoin.c)\<close>

definition digit_value :: "byte \<Rightarrow> int option" where
  "digit_value c =
     (if yaz_isdigit c then Some (uint c - 48)
      else if yaz_isupper c then Some (uint c - 55)
      else if yaz_islower c then Some (uint c - 87)
      else None)"

text \<open>\<open>atoul_loop\<close> has read \<open>i\<close> digits with value \<open>val\<close>; the result is (return value, value).\<close>

fun atoul_loop :: "int \<Rightarrow> byte list \<Rightarrow> int \<Rightarrow> int \<Rightarrow> int \<times> int" where
  "atoul_loop base [] i val = (i, val)"
| "atoul_loop base (c # s) i val =
     (case digit_value c of
        None \<Rightarrow> (i, val)
      | Some digit \<Rightarrow>
          if digit \<ge> base then (i, val)
          else if val > (2 ^ 64 - 1 - digit) div base then (-1, val)
          else atoul_loop base s (i + 1) (val * base + digit))"

text \<open>The value is unchanged (\<open>val0\<close>) for a base out of range.\<close>

definition yaz_atoul :: "int \<Rightarrow> byte list \<Rightarrow> int \<Rightarrow> int \<times> int" where
  "yaz_atoul base ptr val0 = (if base < 2 \<or> base > 36 then (-1, val0) else atoul_loop base ptr 0 0)"

definition yaz_atoi :: "int \<Rightarrow> byte list \<Rightarrow> int \<Rightarrow> int \<times> int" where
  "yaz_atoi base ptr val0 =
     (case yaz_atoul base ptr 0 of (ret, uval) \<Rightarrow>
        if ret = -1 then (-1, val0)
        else if uval > 2147483647 then (-1, val0)
        else (ret, uval))"

definition atoi_n_check :: "byte list \<Rightarrow> int \<Rightarrow> bool \<times> int" where
  "atoi_n_check b val0 = (case yaz_atoi 10 b val0 of (ret, val) \<Rightarrow> (ret = int (length b), val))"

definition atoi_n :: "byte list \<Rightarrow> int" where
  "atoi_n b = (case atoi_n_check b 0 of (ok, val) \<Rightarrow> if ok then val else 0)"

section \<open>Decimal text\<close>

lemma str_dec: "str (dec_digits n) = (if n < 10 then [byte_of (48 + n)] else str (dec_digits (n div 10)) @ [byte_of (48 + n mod 10)])"
  by (simp add: dec_digits.simps [of n] of_char_digit)

lemma dec_isdigit: "c \<in> set (str (dec_digits n)) \<Longrightarrow> yaz_isdigit c"
proof (induction n rule: dec_digits.induct)
  case (1 n)
  have "yaz_isdigit (byte_of (48 + d))" if "d < 10" for d
    using that by (simp add: yaz_isdigit_def word_le_nat_alt)
  then show ?case using 1 by (cases "n < 10") (auto simp: str_dec [of n] simp del: list.map)
qed

lemma dec_value: "foldl (\<lambda>a c. a * 10 + (int (unat c) - 48)) 0 (str (dec_digits n)) = int n"
proof (induction n rule: dec_digits.induct)
  case (1 n)
  show ?case
  proof (cases "n < 10")
    case True
    then show ?thesis by (simp add: str_dec [of n] del: list.map)
  next
    case False
    then show ?thesis
      using 1 by (simp add: str_dec [of n] zdiv_int zmod_int del: list.map)
  qed
qed

lemma dec_not_empty: "str (dec_digits n) \<noteq> []"
  by (simp add: dec_digits.simps [of n])

lemma dec_length: "n < 10 ^ Suc k \<Longrightarrow> length (dec_digits n) \<le> Suc k"
proof (induction k arbitrary: n)
  case 0
  then show ?case by (simp add: dec_digits.simps [of n])
next
  case (Suc k)
  then have "n div 10 < 10 ^ Suc k" by (simp add: less_mult_imp_div_less)
  then show ?case using Suc.IH [of "n div 10"] by (simp add: dec_digits.simps [of n])
qed

section \<open>Reading decimal digits\<close>

lemma digit_value_isdigit: "yaz_isdigit c \<Longrightarrow> digit_value c = Some (uint c - 48)"
  by (simp add: digit_value_def)

lemma digit_range: "yaz_isdigit c \<Longrightarrow> 48 \<le> uint c \<and> uint c \<le> 57"
proof -
  assume "yaz_isdigit c"
  then have "48 \<le> unat c" "unat c \<le> 57" by (auto simp: yaz_isdigit_def word_le_nat_alt)
  moreover have "uint c = int (unat c)" by (simp only: uint_nat)
  ultimately show ?thesis by linarith
qed

lemma atoul_digits:
  "\<forall>c \<in> set s. yaz_isdigit c \<Longrightarrow> 0 \<le> v \<Longrightarrow> (v + 1) * 10 ^ length s \<le> 10 ^ 10 \<Longrightarrow> r = [] \<or> digit_value (hd r) = None \<Longrightarrow>
   atoul_loop 10 (s @ r) i v = (i + int (length s), foldl (\<lambda>a c. a * 10 + (int (unat c) - 48)) v s)"
proof (induction s arbitrary: i v)
  case Nil
  then show ?case by (cases r) auto
next
  case (Cons c s)
  define d where "d = uint c - 48"
  have d: "0 \<le> d" "d \<le> 9" using Cons.prems(1) digit_range [of c] by (auto simp: d_def)
  have one: "1 \<le> (10 :: int) ^ length s" by simp
  have "(v + 1) * 10 ^ length (c # s) = (v + 1) * 10 * 10 ^ length s" by (simp add: mult.assoc)
  then have v: "(v + 1) * 10 * 10 ^ length s \<le> 10 ^ 10" using Cons.prems(3) by (simp only:)
  have "(v * 10 + d + 1) * 10 ^ length s \<le> (v + 1) * 10 * 10 ^ length s" using d by (intro mult_right_mono) auto
  then have next_bound: "(v * 10 + d + 1) * 10 ^ length s \<le> 10 ^ 10" using v by linarith
  have "0 \<le> (v + 1) * 10" using Cons.prems(2) by simp
  from mult_left_mono [OF one this] have "(v + 1) * 10 \<le> (v + 1) * 10 * 10 ^ length s" by (simp only: mult_1_right)
  from order_trans [OF this v] have "v \<le> 10 ^ 10" using Cons.prems(2) by simp
  then have "\<not> v > (2 ^ 64 - 1 - d) div 10" using d by simp
  then show ?case
    using Cons.IH [of "v * 10 + d" "i + 1"] Cons.prems d next_bound digit_value_isdigit [of c] by (simp add: d_def)
qed

lemma atoi_dec:
  assumes "n < 2 ^ 31" and "r = [] \<or> digit_value (hd r) = None"
  shows "yaz_atoi 10 (str (dec_digits n) @ r) v0 = (int (length (dec_digits n)), int n)"
proof -
  have "length (dec_digits n) \<le> 10" using dec_length [of n 9] assms(1) by simp
  then have "(10 :: int) ^ length (dec_digits n) \<le> 10 ^ 10" by (intro power_increasing) simp_all
  then have "atoul_loop 10 (str (dec_digits n) @ r) 0 0 = (int (length (dec_digits n)), int n)"
    using atoul_digits [of "str (dec_digits n)" 0 r 0] dec_isdigit assms(2) dec_value [of n] by simp
  then show ?thesis using assms(1) by (simp add: yaz_atoi_def yaz_atoul_def)
qed

end
