(* ===== verification/Yaz_Json.thy ===== *)
theory Yaz_Json
  imports Yaz_Utf8 Yaz_Wrbuf Yaz_Scan
begin

text \<open>
  The JSON trees, parser and writer of \<^verbatim>\<open>json.c\<close>. The type of \<^verbatim>\<open>double\<close> is a parameter \<open>'d\<close> of the
  model, with \<^verbatim>\<open>strtod\<close> (value and number of bytes read) and the output of \<^verbatim>\<open>%lg\<close> as parameters of the
  operations that use them. A null pointer to a node is \<^const>\<open>None\<close>; reading a node through it has no
  result. Freed nodes are dropped; the sharing of a substituted node between the substitution table
  and the tree is not visible in values.
\<close>

section \<open>Nodes\<close>

datatype 'd json_node =
    json_object "'d json_node option"
  | json_array "'d json_node option"
  | json_list "'d json_node option" "'d json_node option"
  | json_pair "'d json_node option" "'d json_node option"
  | json_string "byte list"
  | json_number 'd
  | json_true
  | json_false
  | json_null

section \<open>Parser\<close>

record 'd json_parser =
  pbuf :: "byte list"
  cp :: "byte list"
  err_msg :: "string option"
  parse_level :: nat
  max_level :: nat
  subst :: "(int \<times> 'd json_node) list"

text \<open>\<open>json_parser_create\<close> leaves the other fields as the fresh memory \<open>p\<close> has them.\<close>

definition json_parser_create :: "'d json_parser \<Rightarrow> 'd json_parser" where
  "json_parser_create p = p\<lparr>pbuf := [], cp := [], subst := []\<rparr>"

fun subst_set :: "(int \<times> 'a) list \<Rightarrow> int \<Rightarrow> 'a \<Rightarrow> (int \<times> 'a) list" where
  "subst_set [] idx n = [(idx, n)]"
| "subst_set ((i, m) # sb) idx n = (if i = idx then (i, n) # sb else (i, m) # subst_set sb idx n)"

definition json_parser_subst :: "'d json_parser \<Rightarrow> int \<Rightarrow> 'd json_node \<Rightarrow> 'd json_parser" where
  "json_parser_subst p idx n = p\<lparr>subst := subst_set (subst p) idx n\<rparr>"

definition is_ws :: "byte \<Rightarrow> bool" where
  "is_ws c \<longleftrightarrow> c \<in> set [32, 9, 13, 10]"

definition look_ch :: "'d json_parser \<Rightarrow> byte \<times> 'd json_parser" where
  "look_ch p = (let p1 = p\<lparr>cp := dropWhile is_ws (cp p)\<rparr> in (deref (cp p1), p1))"

definition move_ch :: "'d json_parser \<Rightarrow> 'd json_parser" where
  "move_ch p = (if deref (cp p) \<noteq> 0 then p\<lparr>cp := tl (cp p)\<rparr> else p)"

definition json_err :: "'d json_parser \<Rightarrow> string \<Rightarrow> 'd json_parser" where
  "json_err p m = p\<lparr>err_msg := Some m\<rparr>"

text \<open>
  \<open>json_one_char\<close> returns the bytes produced and the rest of the input, \<^const>\<open>None\<close> for the return
  value 0. It is not called at the terminator of the input.
\<close>

definition simple_escape :: "byte \<Rightarrow> byte option" where
  "simple_escape c =
     (if c = 34 then Some 34 else if c = 92 then Some 92 else if c = ch CHR ''/'' then Some c
      else if c = ch CHR ''b'' then Some 8 else if c = ch CHR ''f'' then Some 12
      else if c = ch CHR ''n'' then Some 10 else if c = ch CHR ''r'' then Some 13
      else if c = ch CHR ''t'' then Some 9 else None)"

definition unicode_escape :: "byte list \<Rightarrow> (byte list \<times> byte list) option" where
  "unicode_escape p =
     (if 4 \<le> length p \<and> (\<forall>c \<in> set (take 4 p). schar c > 0) then
        (case sscanf_4x p of (code, no_read) \<Rightarrow>
          if no_read \<noteq> 4 then None
          else case yaz_write_UTF8_char (ucast code) [] 6 ICONV_NONE of (failed, out, _, _) \<Rightarrow>
            if \<not> failed then Some (out, drop 4 p) else None)
      else None)"

fun json_one_char :: "byte list \<Rightarrow> (byte list \<times> byte list) option" where
  "json_one_char [] = None"
| "json_one_char (c # p) =
     (if c = 92 \<and> deref p \<noteq> 0 then
        (case simple_escape (deref p) of
           Some out \<Rightarrow> Some ([out], tl p)
         | None \<Rightarrow> if deref p = ch CHR ''u'' then unicode_escape (tl p) else None)
      else if 0 < schar c \<and> schar c \<le> 31 then None
      else Some ([c], p))"

text \<open>
  The two passes of \<open>json_parse_string\<close>: the first finds the end and the length, the second copies.
  The length is an \<open>int\<close>: no result when it overflows. \<open>Some None\<close> of the first pass is an invalid
  character; the second pass does not end there. Both loops stop when a character does not get
  shorter, which does not happen.
\<close>

definition json_int_max :: nat where
  "json_int_max = 2147483647"

function string_len :: "byte list \<Rightarrow> nat \<Rightarrow> (nat \<times> byte list) option cres" where
  "string_len s l =
     (if deref s = 0 \<or> deref s = 34 then Some (Some (l, s))
      else case json_one_char s of
        None \<Rightarrow> Some None
      | Some (out, s1) \<Rightarrow>
          if l + length out > json_int_max then None
          else if length s1 < length s then string_len s1 (l + length out) else None)"
  by pat_completeness auto
termination
  by (relation "measure (\<lambda>(s, l). length s)") auto

function string_copy :: "byte list \<Rightarrow> byte list \<Rightarrow> (byte list \<times> byte list) cres" where
  "string_copy s dst =
     (if deref s = 0 \<or> deref s = 34 then Some (dst, s)
      else case json_one_char s of
        None \<Rightarrow> None
      | Some (out, s1) \<Rightarrow> if length s1 < length s then string_copy s1 (dst @ out) else None)"
  by pat_completeness auto
termination
  by (relation "measure (\<lambda>(s, dst). length s)") auto

declare string_len.simps [simp del] string_copy.simps [simp del]

text \<open>
  A parsing function returns the node, \<^const>\<open>None\<close> being the null pointer, and the parser. Those that
  read a string may have no result (above), and the recursive ones neither when they run out of fuel.
\<close>

type_synonym 'd parse_result = "'d json_node option \<times> 'd json_parser"

text \<open>The buffer has \<open>l + 1\<close> bytes, an \<open>int\<close> again; the copy and its terminator must fit.\<close>

definition json_parse_string :: "'d json_parser \<Rightarrow> 'd parse_result cres" where
  "json_parse_string p =
     (case look_ch p of (c, p1) \<Rightarrow>
        if c \<noteq> 34 then Some (None, json_err p1 ''string expected'')
        else let p2 = move_ch p1 in
          case string_len (cp p2) 0 of
            None \<Rightarrow> None
          | Some None \<Rightarrow> Some (None, json_err p2 ''invalid character'')
          | Some (Some (l, s)) \<Rightarrow>
              if deref s = 0 then Some (None, json_err p2 ''missing \"'')
              else if l + 1 > json_int_max then None
              else do {
                (dst, s1) \<leftarrow> string_copy (cp p2) [];
                if length dst + 1 > l + 1 then None
                else Some (Some (json_string dst), p2\<lparr>cp := tl s1\<rparr>)})"

definition is_digit :: "byte \<Rightarrow> bool" where
  "is_digit c \<longleftrightarrow> 48 \<le> schar c \<and> schar c \<le> 57"

text \<open>The syntax check of \<open>json_parse_number\<close>: the rest of the input behind the number.\<close>

definition scan_digits :: "byte list \<Rightarrow> byte list option" where
  "scan_digits s = (if is_digit (deref s) then Some (dropWhile is_digit s) else None)"

definition scan_int :: "byte list \<Rightarrow> byte list option" where
  "scan_int s =
     (if deref s = ch CHR ''0'' then Some (tl s)
      else if 49 \<le> schar (deref s) \<and> schar (deref s) \<le> 57 then Some (dropWhile is_digit (tl s))
      else None)"

definition scan_frac :: "byte list \<Rightarrow> byte list option" where
  "scan_frac s = (if deref s = ch CHR ''.'' then scan_digits (tl s) else Some s)"

definition scan_exp :: "byte list \<Rightarrow> byte list option" where
  "scan_exp s =
     (if deref s = ch CHR ''e'' \<or> deref s = ch CHR ''E''
      then let s1 = tl s in
        scan_digits (if deref s1 = ch CHR ''+'' \<or> deref s1 = ch CHR ''-'' then tl s1 else s1)
      else Some s)"

definition scan_number :: "byte list \<Rightarrow> byte list option" where
  "scan_number s = do {
     s1 \<leftarrow> scan_int (if deref s = ch CHR ''-'' then tl s else s);
     s2 \<leftarrow> scan_frac s1;
     scan_exp s2}"

definition json_parse_number :: "(byte list \<Rightarrow> 'd \<times> nat) \<Rightarrow> 'd json_parser \<Rightarrow> 'd parse_result" where
  "json_parse_number strtod p =
     (case scan_number (cp p) of
        None \<Rightarrow> (None, json_err p ''bad number'')
      | Some s \<Rightarrow>
          case strtod (cp p) of (v, n) \<Rightarrow>
            if n = 0 then (None, json_err p ''bad number'')
            else if n \<noteq> length (cp p) - length s then (None, json_err p ''bad number'')
            else (Some (json_number v), p\<lparr>cp := drop n (cp p)\<rparr>))"

fun scan_idx :: "byte list \<Rightarrow> int \<Rightarrow> int \<times> byte list" where
  "scan_idx [] idx = (idx, [])"
| "scan_idx (c # s) idx = (if is_digit c then scan_idx s (wrap32 (idx * 10 + (uint c - 48))) else (idx, c # s))"

definition json_parse_subst :: "'d json_parser \<Rightarrow> 'd parse_result" where
  "json_parse_subst p =
     (case scan_idx (tl (cp p)) 0 of (idx, s) \<Rightarrow>
        let p1 = p\<lparr>cp := s\<rparr> in
        case map_of (subst p1) idx of
          Some n \<Rightarrow> (Some n, p1)
        | None \<Rightarrow> (None, json_err p1 ''bad token''))"

definition json_parse_token :: "'d json_parser \<Rightarrow> 'd parse_result" where
  "json_parse_token p =
     (let tok = takeWhile (\<lambda>c. 97 \<le> schar c \<and> schar c \<le> 122) (take 7 (cp p));
          p1 = p\<lparr>cp := drop (length tok) (cp p)\<rparr>
      in if tok = str ''true'' then (Some json_true, p1)
         else if tok = str ''false'' then (Some json_false, p1)
         else if tok = str ''null'' then (Some json_null, p1)
         else (None, json_err p1 ''bad token''))"

text \<open>
  The loop of \<open>json_parse_elements\<close> and \<open>json_parse_members\<close> behind the first item: the link to the
  next list node, or \<^const>\<open>None\<close> when an item fails. It stops when an item hands back more input than
  it was given, which the items of the parser do not do.
\<close>

lemma shorter_tl: "deref s \<noteq> 0 \<Longrightarrow> length (tl s) < length s"
  by (cases s) auto

function list_rest :: "('d json_parser \<Rightarrow> 'd parse_result option) \<Rightarrow> 'd json_parser \<Rightarrow>
    ('d json_node option option \<times> 'd json_parser) option" where
  "list_rest item p =
     (case look_ch p of (c, p1) \<Rightarrow>
        if c \<noteq> ch CHR '','' then Some (Some None, p1)
        else let p2 = move_ch p1 in
          case item p2 of
            None \<Rightarrow> None
          | Some (None, p3) \<Rightarrow> Some (None, p3)
          | Some (Some n2, p3) \<Rightarrow>
              if length (cp p3) > length (cp p2) then None
              else do {
                (r, p4) \<leftarrow> list_rest item p3;
                Some (map_option (\<lambda>l. Some (json_list (Some n2) l)) r, p4)})"
  by pat_completeness auto
termination
proof (relation "measure (\<lambda>(item, p). length (cp p))", goal_cases)
  case (2 item p c p1 p2 a b p3 n2)
  have "length (cp p1) \<le> length (cp p)"
    using 2(1) by (auto simp: look_ch_def Let_def length_dropWhile_le)
  moreover have "length (cp p2) < length (cp p1)"
    using 2(1,2,3) shorter_tl [of "dropWhile is_ws (cp p)"] by (auto simp: move_ch_def look_ch_def Let_def)
  ultimately show ?case using 2 by simp
qed simp

declare list_rest.simps [simp del]

definition json_parse_items ::
    "('d json_parser \<Rightarrow> 'd parse_result option) \<Rightarrow> 'd json_parser \<Rightarrow> 'd parse_result option" where
  "json_parse_items item p =
     (case item p of
        None \<Rightarrow> None
      | Some (None, p1) \<Rightarrow> Some (None, p1)
      | Some (Some n1, p1) \<Rightarrow> do {
          (r, p2) \<leftarrow> list_rest item p1;
          Some (map_option (\<lambda>l. json_list (Some n1) l) r, p2)})"

definition json_parse_elements ::
    "('d json_parser \<Rightarrow> 'd parse_result option) \<Rightarrow> 'd json_parser \<Rightarrow> 'd parse_result option" where
  "json_parse_elements pvalue = json_parse_items pvalue"

definition json_parse_array ::
    "('d json_parser \<Rightarrow> 'd parse_result option) \<Rightarrow> 'd json_parser \<Rightarrow> 'd parse_result option" where
  "json_parse_array pvalue p =
     (case look_ch p of (c, p1) \<Rightarrow>
        if c \<noteq> ch CHR ''['' then Some (None, json_err p1 ''expecting ['')
        else let p2 = move_ch p1 in
          if parse_level p2 \<ge> max_level p2 then Some (None, json_err p2 ''Too much nesting'')
          else let p3 = p2\<lparr>parse_level := parse_level p2 + 1\<rparr> in
            case look_ch p3 of (c, p4) \<Rightarrow> do {
              (link, p5) \<leftarrow> (if c \<noteq> ch CHR '']'' then json_parse_elements pvalue p4 else Some (None, p4));
              case look_ch (p5\<lparr>parse_level := parse_level p5 - 1\<rparr>) of (c, p6) \<Rightarrow>
                if c \<noteq> ch CHR '']''
                then Some (None, if err_msg p6 = None then json_err p6 ''expecting ]'' else p6)
                else Some (Some (json_array link), move_ch p6)})"

definition json_parse_pair ::
    "('d json_parser \<Rightarrow> 'd parse_result option) \<Rightarrow> 'd json_parser \<Rightarrow> 'd parse_result option" where
  "json_parse_pair pvalue p =
     (case json_parse_string p of
        None \<Rightarrow> None
      | Some (None, p1) \<Rightarrow> Some (None, p1)
      | Some (Some s, p1) \<Rightarrow>
          case look_ch p1 of (c, p2) \<Rightarrow>
            if c \<noteq> ch CHR '':'' then Some (None, json_err p2 ''missing :'')
            else do {
              (v, p3) \<leftarrow> pvalue (move_ch p2);
              Some (map_option (\<lambda>n. json_pair (Some s) (Some n)) v, p3)})"

definition json_parse_members ::
    "('d json_parser \<Rightarrow> 'd parse_result option) \<Rightarrow> 'd json_parser \<Rightarrow> 'd parse_result option" where
  "json_parse_members pvalue = json_parse_items (json_parse_pair pvalue)"

definition json_parse_object ::
    "('d json_parser \<Rightarrow> 'd parse_result option) \<Rightarrow> 'd json_parser \<Rightarrow> 'd parse_result option" where
  "json_parse_object pvalue p =
     (case look_ch p of (c, p1) \<Rightarrow>
        if c \<noteq> ch CHR ''{'' then Some (None, json_err p1 ''{ expected'')
        else case look_ch (move_ch p1) of (c, p2) \<Rightarrow>
          let close = (\<lambda>link p. case look_ch p of (c, p') \<Rightarrow>
                if c \<noteq> ch CHR ''}'' then (None, json_err p' ''Missing }'')
                else (Some (json_object link), move_ch p'))
          in if c \<noteq> ch CHR ''}'' then
               if parse_level p2 \<ge> max_level p2 then Some (None, json_err p2 ''Too much nesting'')
               else do {
                 (m, p3) \<leftarrow> json_parse_members pvalue (p2\<lparr>parse_level := parse_level p2 + 1\<rparr>);
                 let p4 = p3\<lparr>parse_level := parse_level p3 - 1\<rparr> in
                 case m of None \<Rightarrow> Some (None, p4) | Some n \<Rightarrow> Some (close (Some n) p4)}
             else Some (close None p2))"

text \<open>The fuel is the nesting depth; \<open>max_level\<close> bounds it.\<close>

fun json_parse_value :: "(byte list \<Rightarrow> 'd \<times> nat) \<Rightarrow> nat \<Rightarrow> 'd json_parser \<Rightarrow> 'd parse_result option" where
  "json_parse_value strtod 0 p = None"
| "json_parse_value strtod (Suc fuel) p =
     (case look_ch p of (c, p1) \<Rightarrow>
        if c = 34 then json_parse_string p1
        else if strchr_ok (str ''0123456789-'') c then Some (json_parse_number strtod p1)
        else if c = ch CHR ''{'' then json_parse_object (json_parse_value strtod fuel) p1
        else if c = ch CHR ''['' then json_parse_array (json_parse_value strtod fuel) p1
        else if c = ch CHR ''%'' then Some (json_parse_subst p1)
        else if c = 0 then Some (None, p1)
        else Some (json_parse_token p1))"

definition json_parser_parse ::
    "(byte list \<Rightarrow> 'd \<times> nat) \<Rightarrow> 'd json_parser \<Rightarrow> byte list \<Rightarrow> 'd parse_result option" where
  "json_parser_parse strtod p json_str =
     (let p1 = p\<lparr>pbuf := cstr json_str, cp := cstr json_str, err_msg := None, parse_level := 0, max_level := 1000\<rparr>
      in do {
        (n, p2) \<leftarrow> json_parse_value strtod (Suc (max_level p1)) p1;
        if n = None then Some (None, p2)
        else if err_msg p2 \<noteq> None then Some (None, p2)
        else case look_ch p2 of (c, p3) \<Rightarrow>
          if c \<noteq> 0 then Some (None, json_err p3 ''extra characters'') else Some (n, p3)})"

definition json_parser_get_errmsg :: "'d json_parser \<Rightarrow> string option" where
  "json_parser_get_errmsg p = err_msg p"

definition json_parser_get_position :: "'d json_parser \<Rightarrow> nat" where
  "json_parser_get_position p = length (pbuf p) - length (cp p)"

text \<open>\<open>json_parse2\<close> returns the node, the error message and the position.\<close>

definition json_parse2 ::
    "(byte list \<Rightarrow> 'd \<times> nat) \<Rightarrow> 'd json_parser \<Rightarrow> byte list \<Rightarrow> ('d json_node option \<times> string option \<times> nat) option" where
  "json_parse2 strtod fresh json_str = do {
     (n, p) \<leftarrow> json_parser_parse strtod (json_parser_create fresh) json_str;
     Some (n, if n = None then json_parser_get_errmsg p else None, json_parser_get_position p)}"

definition json_parse ::
    "(byte list \<Rightarrow> 'd \<times> nat) \<Rightarrow> 'd json_parser \<Rightarrow> byte list \<Rightarrow> ('d json_node option \<times> string option) option" where
  "json_parse strtod fresh json_str = do {
     (n, e, _) \<leftarrow> json_parse2 strtod fresh json_str;
     Some (n, e)}"

section \<open>Writer\<close>

definition json_indent :: "wrbuf \<Rightarrow> int \<Rightarrow> wrbuf cres" where
  "json_indent result indent =
     (let l = wpos result in
      if l = 0 \<or> wbuf result ! (l - 1) = 10
      then for_each wrbuf_putc result (replicate (nat indent) (ch CHR '' ''))
      else Some result)"

fun json_write_wrbuf_r :: "('d \<Rightarrow> byte list) \<Rightarrow> 'd json_node \<Rightarrow> wrbuf \<Rightarrow> int \<Rightarrow> wrbuf cres" where
  "json_write_wrbuf_r lg (json_object link) b indent = do {
     b1 \<leftarrow> json_indent b indent;
     b2 \<leftarrow> wrbuf_puts b1 (str ''{'');
     b3 \<leftarrow> (case link of
        None \<Rightarrow> Some b2
      | Some n \<Rightarrow> do {
          let sub_indent = (if indent \<ge> 0 then indent + 2 else -1);
          c1 \<leftarrow> (if indent \<ge> 0 then do {c0 \<leftarrow> wrbuf_puts b2 [10]; json_indent c0 sub_indent} else Some b2);
          c2 \<leftarrow> json_write_wrbuf_r lg n c1 sub_indent;
          if indent \<ge> 0 then do {c3 \<leftarrow> wrbuf_puts c2 [10]; json_indent c3 indent} else Some c2});
     wrbuf_puts b3 (str ''}'')}"
| "json_write_wrbuf_r lg (json_array link) b indent = do {
     b1 \<leftarrow> json_indent b indent;
     b2 \<leftarrow> wrbuf_puts b1 (str ''['');
     b3 \<leftarrow> (case link of
        None \<Rightarrow> Some b2
      | Some n \<Rightarrow> do {
          let sub_indent = (if indent \<ge> 0 then indent + 2 else -1);
          c1 \<leftarrow> (if indent \<ge> 0 then wrbuf_puts b2 [10] else Some b2);
          c2 \<leftarrow> json_write_wrbuf_r lg n c1 sub_indent;
          if indent \<ge> 0 then do {c3 \<leftarrow> wrbuf_puts c2 [10]; json_indent c3 indent} else Some c2});
     wrbuf_puts b3 (str '']'')}"
| "json_write_wrbuf_r lg (json_list l0 l1) b indent =
     (case l0 of None \<Rightarrow> None | Some n0 \<Rightarrow> do {
        b1 \<leftarrow> json_write_wrbuf_r lg n0 b indent;
        case l1 of
          None \<Rightarrow> Some b1
        | Some n1 \<Rightarrow> do {
            b2 \<leftarrow> wrbuf_puts b1 (str '','');
            b3 \<leftarrow> (if indent \<ge> 0 then wrbuf_puts b2 [10] else Some b2);
            json_write_wrbuf_r lg n1 b3 indent}})"
| "json_write_wrbuf_r lg (json_pair l0 l1) b indent = do {
     b1 \<leftarrow> (if indent \<ge> 0 then json_indent b indent else Some b);
     case l0 of None \<Rightarrow> None | Some n0 \<Rightarrow> do {
       b2 \<leftarrow> json_write_wrbuf_r lg n0 b1 indent;
       b3 \<leftarrow> wrbuf_puts b2 (str '':'');
       b4 \<leftarrow> (if indent \<ge> 0 then wrbuf_puts b3 (str '' '') else Some b3);
       case l1 of None \<Rightarrow> None | Some n1 \<Rightarrow> json_write_wrbuf_r lg n1 b4 indent}}"
| "json_write_wrbuf_r lg (json_string s) b indent = do {
     b1 \<leftarrow> wrbuf_puts b [34];
     b2 \<leftarrow> wrbuf_json_puts b1 s;
     wrbuf_puts b2 [34]}"
| "json_write_wrbuf_r lg (json_number d) b indent = wrbuf_printf b (lg d)"
| "json_write_wrbuf_r lg json_true b indent = wrbuf_puts b (str ''true'')"
| "json_write_wrbuf_r lg json_false b indent = wrbuf_puts b (str ''false'')"
| "json_write_wrbuf_r lg json_null b indent = wrbuf_puts b (str ''null'')"

definition json_write_wrbuf_pretty :: "('d \<Rightarrow> byte list) \<Rightarrow> 'd json_node \<Rightarrow> wrbuf \<Rightarrow> wrbuf cres" where
  "json_write_wrbuf_pretty lg node result = json_write_wrbuf_r lg node result 0"

definition json_write_wrbuf :: "('d \<Rightarrow> byte list) \<Rightarrow> 'd json_node \<Rightarrow> wrbuf \<Rightarrow> wrbuf cres" where
  "json_write_wrbuf lg node result = json_write_wrbuf_r lg node result (-1)"

section \<open>Access\<close>

text \<open>
  The two links of a node. The loops below follow the links of whatever node they meet; in a node
  without links the union holds something else, and there is no result.
\<close>

fun json_links :: "'d json_node \<Rightarrow> ('d json_node option \<times> 'd json_node option) cres" where
  "json_links (json_object l) = Some (l, None)"
| "json_links (json_array l) = Some (l, None)"
| "json_links (json_list l0 l1) = Some (l0, l1)"
| "json_links (json_pair l0 l1) = Some (l0, l1)"
| "json_links _ = None"

lemma json_links_size: "json_links n = Some (l0, l1) \<Longrightarrow> size_option size l1 \<le> size n"
  by (cases n) auto

text \<open>\<open>pair_named\<close> is the test on a member of the object.\<close>

definition pair_named :: "byte list \<Rightarrow> 'd json_node option \<Rightarrow> bool" where
  "pair_named name c =
     (case c of
        Some (json_pair (Some (json_string s)) _) \<Rightarrow> cstr s = cstr name
      | _ \<Rightarrow> False)"

fun pair_value :: "'d json_node option \<Rightarrow> 'd json_node option" where
  "pair_value (Some (json_pair _ v)) = v"
| "pair_value _ = None"

function objectp_loop :: "'d json_node option \<Rightarrow> byte list \<Rightarrow> 'd json_node option option cres" where
  "objectp_loop None name = Some None"
| "objectp_loop (Some n) name = do {
     (c, nx) \<leftarrow> json_links n;
     if pair_named name c then Some (Some (pair_value c)) else objectp_loop nx name}"
  by pat_completeness auto
termination
proof (relation "measure (\<lambda>(n, name). size_option size n)", goal_cases)
  case (2 n name a c nx)
  then show ?case using json_links_size [of n c nx] by simp
qed simp

definition json_get_objectp :: "'d json_node option \<Rightarrow> byte list \<Rightarrow> 'd json_node option option cres" where
  "json_get_objectp n name =
     (case n of Some (json_object l) \<Rightarrow> objectp_loop l name | _ \<Rightarrow> Some None)"

definition json_get_object :: "'d json_node option \<Rightarrow> byte list \<Rightarrow> 'd json_node option cres" where
  "json_get_object n name = map_option (\<lambda>np. case np of Some v \<Rightarrow> v | None \<Rightarrow> None) (json_get_objectp n name)"

text \<open>\<open>json_detach_object\<close> returns the node and the changed object.\<close>

fun clear_value :: "'d json_node option \<Rightarrow> 'd json_node option" where
  "clear_value (Some (json_pair k v)) = Some (json_pair k None)"
| "clear_value c = c"

fun set_link0 :: "'d json_node \<Rightarrow> 'd json_node option \<Rightarrow> 'd json_node" where
  "set_link0 (json_object _) l = json_object l"
| "set_link0 (json_array _) l = json_array l"
| "set_link0 (json_list _ l1) l = json_list l l1"
| "set_link0 (json_pair _ l1) l = json_pair l l1"
| "set_link0 n l = n"

fun set_link1 :: "'d json_node \<Rightarrow> 'd json_node option \<Rightarrow> 'd json_node" where
  "set_link1 (json_list l0 _) l = json_list l0 l"
| "set_link1 (json_pair l0 _) l = json_pair l0 l"
| "set_link1 n l = n"

function clear_pair :: "'d json_node option \<Rightarrow> byte list \<Rightarrow> 'd json_node option" where
  "clear_pair None name = None"
| "clear_pair (Some n) name =
     (case json_links n of
        None \<Rightarrow> Some n
      | Some (c, nx) \<Rightarrow>
          if pair_named name c then Some (set_link0 n (clear_value c))
          else Some (set_link1 n (clear_pair nx name)))"
  by pat_completeness auto
termination
proof (relation "measure (\<lambda>(n, name). size_option size n)", goal_cases)
  case (2 n name a c nx)
  then show ?case using json_links_size [of n c nx] by simp
qed simp

definition json_detach_object ::
    "'d json_node option \<Rightarrow> byte list \<Rightarrow> ('d json_node option \<times> 'd json_node option) cres" where
  "json_detach_object n name = do {
     np \<leftarrow> json_get_objectp n name;
     case (np, n) of
       (Some v, Some (json_object l)) \<Rightarrow> Some (v, Some (json_object (clear_pair l name)))
     | _ \<Rightarrow> Some (None, n)}"

function elem_loop :: "'d json_node option \<Rightarrow> int \<Rightarrow> 'd json_node option cres" where
  "elem_loop None idx = Some None"
| "elem_loop (Some n) idx = do {
     (l0, l1) \<leftarrow> json_links n;
     if idx - 1 < 0 then Some l0 else elem_loop l1 (idx - 1)}"
  by pat_completeness auto
termination
proof (relation "measure (\<lambda>(n, idx). size_option size n)", goal_cases)
  case (2 n idx a l0 l1)
  then show ?case using json_links_size [of n l0 l1] by simp
qed simp

definition json_get_elem :: "'d json_node option \<Rightarrow> int \<Rightarrow> 'd json_node option cres" where
  "json_get_elem n idx = (case n of Some (json_array l) \<Rightarrow> elem_loop l idx | _ \<Rightarrow> Some None)"

function count_loop :: "'d json_node option \<Rightarrow> nat cres" where
  "count_loop None = Some 0"
| "count_loop (Some n) = do {
     (l0, l1) \<leftarrow> json_links n;
     map_option Suc (count_loop l1)}"
  by pat_completeness auto
termination
proof (relation "measure (size_option size)", goal_cases)
  case (2 n a l0 l1)
  then show ?case using json_links_size [of n l0 l1] by simp
qed simp

definition json_count_children :: "'d json_node option \<Rightarrow> nat cres" where
  "json_count_children n =
     (case n of Some (json_array l) \<Rightarrow> count_loop l | Some (json_object l) \<Rightarrow> count_loop l | _ \<Rightarrow> Some 0)"

text \<open>The loop of \<open>json_append_array\<close> stores the source list in the first null link of the chain.\<close>

fun append_link :: "'d json_node option \<Rightarrow> 'd json_node option \<Rightarrow> 'd json_node option cres" where
  "append_link None src = Some src"
| "append_link (Some (json_list l0 l1)) src = map_option (\<lambda>l. Some (json_list l0 l)) (append_link l1 src)"
| "append_link (Some (json_pair l0 l1)) src = map_option (\<lambda>l. Some (json_pair l0 l)) (append_link l1 src)"
| "append_link (Some _) src = None"

definition json_append_array :: "'d json_node option \<Rightarrow> 'd json_node option \<Rightarrow> (int \<times> 'd json_node option) cres" where
  "json_append_array dst src =
     (case (dst, src) of
        (Some (json_array d), Some (json_array s)) \<Rightarrow>
          map_option (\<lambda>l. (0, Some (json_array l))) (append_link d s)
      | _ \<Rightarrow> Some (-1, dst))"

end
