(* ===== verification/Yaz_Json_Laws.thy ===== *)
theory Yaz_Json_Laws
  imports Yaz_Json
begin

text \<open>
  Correctness of the JSON parser and writer: the parser returns on every input and its trees have
  the shape of a JSON value, it accepts every text of the JSON grammar, and it reads back what the
  writer produces.
\<close>

section \<open>JSON values and their trees\<close>

datatype 'd jv =
    JObj "(byte list \<times> 'd jv) list"
  | JArr "'d jv list"
  | JStr "byte list"
  | JNum 'd
  | JTrue
  | JFalse
  | JNull

fun chain :: "'d json_node list \<Rightarrow> 'd json_node option" where
  "chain [] = None"
| "chain (n # ns) = Some (json_list (Some n) (chain ns))"

fun repr :: "'d jv \<Rightarrow> 'd json_node" where
  "repr (JObj ms) = json_object (chain (map (\<lambda>(k, v). json_pair (Some (json_string k)) (Some (repr v))) ms))"
| "repr (JArr vs) = json_array (chain (map repr vs))"
| "repr (JStr s) = json_string s"
| "repr (JNum d) = json_number d"
| "repr JTrue = json_true"
| "repr JFalse = json_false"
| "repr JNull = json_null"

abbreviation pair_node :: "byte list \<times> 'd jv \<Rightarrow> 'd json_node" where
  "pair_node m \<equiv> json_pair (Some (json_string (fst m))) (Some (repr (snd m)))"

lemma repr_JObj: "repr (JObj ms) = json_object (chain (map pair_node ms))"
  by (simp add: case_prod_unfold)

declare repr.simps(1) [simp del]

section \<open>Strings\<close>

lemma json_one_char_shorter: "json_one_char s = Some (out, s1) \<Longrightarrow> length s1 < length s"
  by (cases s) (auto simp: unicode_escape_def split: if_splits option.splits prod.splits)

lemma write_UTF8_length: "yaz_write_UTF8_char x [] 6 e = (failed, out, left, e') \<Longrightarrow> length out \<le> 6"
  by (auto simp: yaz_write_UTF8_char_def split: if_splits)

text \<open>A character is not longer than the text it is read from.\<close>

lemma json_one_char_length: "json_one_char s = Some (out, s1) \<Longrightarrow> length out + length s1 \<le> length s"
proof (cases s)
  case (Cons c p)
  assume a: "json_one_char s = Some (out, s1)"
  consider "s1 = p" "length out = 1" | "s1 = tl p" "length out = 1" "p \<noteq> []" | "unicode_escape (tl p) = Some (out, s1)" "p \<noteq> []"
    using a Cons by (cases "p = []") (auto split: if_splits option.splits)
  then show ?thesis
  proof cases
    case 3
    then have "length out \<le> 6" "s1 = drop 4 (tl p)" "4 \<le> length (tl p)"
      using write_UTF8_length by (auto simp: unicode_escape_def split: if_splits prod.splits)
    then show ?thesis using Cons 3(2) by (cases p) auto
  qed (use Cons in auto)
qed simp

lemma string_len_step:
  "string_len s l =
     (if deref s = 0 \<or> deref s = 34 then Some (Some (l, s))
      else case json_one_char s of
        None \<Rightarrow> Some None
      | Some (out, s1) \<Rightarrow> if l + length out > json_int_max then None else string_len s1 (l + length out))"
  by (subst string_len.simps) (auto split: option.splits dest: json_one_char_shorter)

lemma string_copy_step:
  "string_copy s dst =
     (if deref s = 0 \<or> deref s = 34 then Some (dst, s)
      else case json_one_char s of None \<Rightarrow> None | Some (out, s1) \<Rightarrow> string_copy s1 (dst @ out))"
  by (subst string_copy.simps) (auto split: option.splits dest: json_one_char_shorter)

text \<open>
  Where the text is short enough for the counter, the second pass writes exactly the bytes the first pass
  counted, and not more than the text has.
\<close>

lemma string_passes_agree:
  "l + length s \<le> json_int_max \<Longrightarrow>
   string_len s l = Some (map_option (\<lambda>(d, r). (l + (length d - length dst), r)) (string_copy s dst)) \<and>
   (\<forall>d r. string_copy s dst = Some (d, r) \<longrightarrow> length dst \<le> length d \<and> length d + length r \<le> length dst + length s)"
proof (induction "length s" arbitrary: s l dst rule: less_induct)
  case less
  show ?case
  proof (cases "deref s = 0 \<or> deref s = 34")
    case True
    then show ?thesis by (simp add: string_len_step [of s] string_copy_step [of s])
  next
    case False
    show ?thesis
    proof (cases "json_one_char s")
      case None
      then show ?thesis using False by (simp add: string_len_step [of s] string_copy_step [of s])
    next
      case (Some x)
      obtain out s1 where x: "x = (out, s1)" by force
      have "length s1 < length s" "length out + length s1 \<le> length s"
        using json_one_char_shorter json_one_char_length Some x by blast+
      with less.hyps [of s1 "l + length out" "dst @ out"] less.prems show ?thesis
        using False Some x by (cases "string_copy s1 (dst @ out)") (auto simp: string_len_step [of s] string_copy_step [of s])
    qed
  qed
qed

lemma json_one_char_suffix: "json_one_char s = Some (out, s1) \<Longrightarrow> \<exists>pre. s = pre @ s1"
proof (cases s)
  case (Cons c p)
  assume "json_one_char s = Some (out, s1)"
  with Cons have "s1 = p \<or> s1 = tl p \<or> s1 = drop 4 (tl p)"
    by (auto simp: unicode_escape_def split: if_splits option.splits prod.splits)
  then have "\<exists>n. s1 = drop n s" using Cons by (metis drop_Suc_Cons drop_0 drop_Suc)
  then show ?thesis by (metis append_take_drop_id)
qed simp

lemma string_copy_suffix: "string_copy s dst = Some (d, r) \<Longrightarrow> \<exists>pre. s = pre @ r"
proof (induction "length s" arbitrary: s dst rule: less_induct)
  case less
  show ?case
  proof (cases "deref s = 0 \<or> deref s = 34")
    case True
    then show ?thesis using less.prems by (simp add: string_copy_step [of s])
  next
    case False
    then obtain out s1 where c: "json_one_char s = Some (out, s1)" "string_copy s1 (dst @ out) = Some (d, r)"
      using less.prems by (auto simp: string_copy_step [of s] split: option.splits)
    have "\<exists>pre. s1 = pre @ r" using less.hyps [OF json_one_char_shorter [OF c(1)] c(2)] .
    then show ?thesis using json_one_char_suffix [OF c(1)] by (metis append_assoc)
  qed
qed

section \<open>Every parsing function returns\<close>

text \<open>
  The outcome of a parsing function: it consumes a prefix of the input, keeps the nesting level and
  the tables, does not clear an error, sets one when it fails, and a node it returns satisfies \<open>ok\<close>.
\<close>

definition kept :: "'d json_parser \<Rightarrow> 'd json_parser \<Rightarrow> bool" where
  "kept p p' \<longleftrightarrow> (\<exists>pre. cp p = pre @ cp p') \<and> pbuf p' = pbuf p \<and> parse_level p' = parse_level p \<and>
     max_level p' = max_level p \<and> subst p' = subst p \<and> (err_msg p \<noteq> None \<longrightarrow> err_msg p' \<noteq> None)"

definition outcome :: "('d json_node \<Rightarrow> bool) \<Rightarrow> 'd json_parser \<Rightarrow> 'd parse_result \<Rightarrow> bool" where
  "outcome ok p r \<longleftrightarrow> kept p (snd r) \<and> (case fst r of None \<Rightarrow> err_msg (snd r) \<noteq> None | Some n \<Rightarrow> ok n)"

named_theorems kept_intros \<open>steps of the parser that keep its tables\<close>

lemma kept_refl [kept_intros, simp]: "kept p p"
  by (simp add: kept_def)

lemma kept_trans: "kept p p' \<Longrightarrow> kept p' p'' \<Longrightarrow> kept p p''"
  by (auto simp: kept_def)

lemma kept_length: "kept p p' \<Longrightarrow> length (cp p') \<le> length (cp p)"
  by (auto simp: kept_def)

lemma kept_cp: "cp p = pre @ s \<Longrightarrow> kept p (p\<lparr>cp := s\<rparr>)"
  by (auto simp: kept_def)

lemma kept_drop [kept_intros]: "kept p (p\<lparr>cp := drop n (cp p)\<rparr>)"
  by (rule kept_cp [of p "take n (cp p)"]) simp

lemma kept_tl [kept_intros]: "kept p (p\<lparr>cp := tl (cp p)\<rparr>)"
  using kept_drop [of p 1] by (simp add: drop_Suc)

lemma kept_look: "look_ch p = (c, p1) \<Longrightarrow> kept p p1"
  using kept_cp [of p "takeWhile is_ws (cp p)" "dropWhile is_ws (cp p)"] by (auto simp: look_ch_def Let_def)

lemma kept_move [kept_intros]: "kept p (move_ch p)"
  by (simp add: move_ch_def kept_tl)

lemma kept_err: "kept p p' \<Longrightarrow> kept p (json_err p' m)"
  by (simp add: kept_def json_err_def)

lemma err_json_err [simp]: "err_msg (json_err p m) = Some m"
  by (simp add: json_err_def)

lemma outcome_err: "kept p p' \<Longrightarrow> outcome ok p (None, json_err p' m)"
  by (simp add: outcome_def kept_err)

lemma outcome_node: "kept p p' \<Longrightarrow> ok n \<Longrightarrow> outcome ok p (Some n, p')"
  by (simp add: outcome_def)

lemma outcome_trans: "kept p p1 \<Longrightarrow> outcome ok p1 r \<Longrightarrow> outcome ok p r"
  by (auto simp: outcome_def intro: kept_trans)

lemma parse_string_outcome:
  assumes short: "length (cp p) < json_int_max"
  shows "\<exists>r. json_parse_string p = Some r \<and> outcome (\<lambda>n. \<exists>s. n = json_string s) p r"
proof -
  obtain c p1 where l: "look_ch p = (c, p1)" by force
  define p2 where "p2 = move_ch p1"
  have k2: "kept p p2" unfolding p2_def using kept_look [OF l] kept_move kept_trans by blast
  have fit: "length (cp p2) < json_int_max" using kept_length [OF k2] short by simp
  note agree = string_passes_agree [of 0 "cp p2" "[]"]
  show ?thesis
  proof (cases "c = 34")
    case False
    then show ?thesis using kept_look [OF l] by (simp add: json_parse_string_def l outcome_err)
  next
    case True
    show ?thesis
    proof (cases "string_copy (cp p2) []")
      case None
      then have "string_len (cp p2) 0 = Some None" using agree fit by simp
      then show ?thesis using True k2 by (simp add: json_parse_string_def l p2_def [symmetric] outcome_err)
    next
      case (Some x)
      obtain dst s1 where x: "x = (dst, s1)" by force
      have len: "string_len (cp p2) 0 = Some (Some (length dst, s1))" "length dst < json_int_max"
        using agree fit Some x by auto
      obtain pre where pre: "cp p2 = pre @ s1" using string_copy_suffix Some x by blast
      have "kept p2 (p2\<lparr>cp := tl s1\<rparr>)"
        by (rule kept_cp [of p2 "pre @ take 1 s1"]) (metis append_assoc append_take_drop_id drop_0 drop_Suc pre One_nat_def)
      then have "kept p (p2\<lparr>cp := tl s1\<rparr>)" using k2 kept_trans by blast
      then show ?thesis using True Some x len k2
        by (simp add: json_parse_string_def l p2_def [symmetric] outcome_err outcome_node)
    qed
  qed
qed

lemma parse_number_outcome: "outcome (\<lambda>n. \<exists>d. n = json_number d) p (json_parse_number strtod p)"
  by (auto simp: json_parse_number_def outcome_err outcome_node kept_drop split: option.splits prod.splits)

lemma scan_idx_suffix: "scan_idx s i = (j, r) \<Longrightarrow> \<exists>pre. s = pre @ r"
proof (induction s i rule: scan_idx.induct)
  case (2 c s i)
  then show ?case by (cases "is_digit c") (auto intro: exI [of _ "c # _"])
qed simp

lemma parse_subst_outcome:
  assumes "\<forall>n \<in> snd ` set (subst p). ok n"
  shows "outcome ok p (json_parse_subst p)"
proof -
  obtain idx s where i: "scan_idx (tl (cp p)) 0 = (idx, s)" by force
  then obtain pre where "tl (cp p) = pre @ s" using scan_idx_suffix by blast
  then have "kept (p\<lparr>cp := tl (cp p)\<rparr>) (p\<lparr>cp := s\<rparr>)" using kept_cp [of "p\<lparr>cp := tl (cp p)\<rparr>" pre s] by simp
  then have "kept p (p\<lparr>cp := s\<rparr>)" using kept_tl kept_trans by blast
  moreover have "ok n" if "map_of (subst p) idx = Some n" for n
    using assms map_of_SomeD [OF that] by force
  ultimately show ?thesis using i
    by (auto simp: json_parse_subst_def Let_def outcome_err outcome_node split: option.splits)
qed

lemma parse_token_outcome: "outcome (\<lambda>n. n \<in> {json_true, json_false, json_null}) p (json_parse_token p)"
  by (auto simp: json_parse_token_def Let_def outcome_err outcome_node kept_drop)

text \<open>A chain of list nodes whose items satisfy \<open>ok\<close>.\<close>

definition chained :: "('d json_node \<Rightarrow> bool) \<Rightarrow> 'd json_node option \<Rightarrow> bool" where
  "chained ok l \<longleftrightarrow> (\<exists>ns. l = chain ns \<and> (\<forall>n \<in> set ns. ok n))"

lemma chained_intros: "chained ok None" "ok n \<Longrightarrow> chained ok l \<Longrightarrow> chained ok (Some (json_list (Some n) l))"
proof -
  show "chained ok None" by (auto simp: chained_def intro: exI [of _ "[]"])
  assume "ok n" "chained ok l"
  then obtain ns where "l = chain ns" "\<forall>m \<in> set (n # ns). ok m" by (auto simp: chained_def)
  then show "chained ok (Some (json_list (Some n) l))" unfolding chained_def by (intro exI [of _ "n # ns"]) simp
qed

text \<open>
  The contract of the parser of one item at a nesting level: it returns, on an input whose strings can be
  counted. The list loops, arrays and objects are built on it.
\<close>

locale item_parser =
  fixes item :: "'d json_parser \<Rightarrow> 'd parse_result option"
    and level :: nat
    and limit :: nat
    and table :: "(int \<times> 'd json_node) list"
    and ok :: "'d json_node \<Rightarrow> bool"
  assumes item: "parse_level p = level \<Longrightarrow> max_level p = limit \<Longrightarrow> subst p = table \<Longrightarrow> length (cp p) < json_int_max \<Longrightarrow>
    \<exists>r. item p = Some r \<and> outcome ok p r"
begin

definition ready :: "'d json_parser \<Rightarrow> bool" where
  "ready p \<longleftrightarrow> parse_level p = level \<and> max_level p = limit \<and> subst p = table \<and> length (cp p) < json_int_max"

lemma ready_kept: "ready p \<Longrightarrow> kept p p' \<Longrightarrow> ready p'"
  by (auto simp: ready_def kept_def)

lemma item_returns: "ready p \<Longrightarrow> \<exists>r p'. item p = Some (r, p') \<and> outcome ok p (r, p')"
  using item [of p] by (auto simp: ready_def)

lemma list_rest_returns:
  "ready p \<Longrightarrow> \<exists>r p'. list_rest item p = Some (r, p') \<and> kept p p' \<and>
     (case r of None \<Rightarrow> err_msg p' \<noteq> None | Some l \<Rightarrow> chained ok l)"
proof (induction "length (cp p)" arbitrary: p rule: less_induct)
  case less
  obtain c p1 where l: "look_ch p = (c, p1)" by force
  show ?case
  proof (cases "c = ch CHR '',''")
    case False
    then show ?thesis using kept_look [OF l] by (auto simp: list_rest.simps [of item p] l chained_intros)
  next
    case True
    define p2 where "p2 = move_ch p1"
    have k2: "kept p p2" unfolding p2_def using kept_look [OF l] kept_move kept_trans by blast
    have "length (cp p2) < length (cp p1)"
      using l True shorter_tl [of "cp p1"] by (auto simp: p2_def move_ch_def look_ch_def Let_def)
    then have short: "length (cp p2) < length (cp p)" using kept_length [OF kept_look [OF l]] by simp
    obtain r2 p3 where i: "item p2 = Some (r2, p3)" "outcome ok p2 (r2, p3)"
      using item_returns [OF ready_kept [OF less.prems k2]] by blast
    have k3: "kept p2 p3" using i(2) by (simp add: outcome_def)
    show ?thesis
    proof (cases r2)
      case None
      then show ?thesis using i k2 k3 True
        by (auto simp: list_rest.simps [of item p] l p2_def [symmetric] outcome_def intro: kept_trans)
    next
      case (Some n2)
      have "length (cp p3) < length (cp p)" using short kept_length [OF k3] by simp
      from less.hyps [OF this ready_kept [OF ready_kept [OF less.prems k2] k3]] obtain r p4 where
          r: "list_rest item p3 = Some (r, p4)" "kept p3 p4"
            "case r of None \<Rightarrow> err_msg p4 \<noteq> None | Some l \<Rightarrow> chained ok l"
        by blast
      have k4: "kept p p4" using k2 k3 r(2) kept_trans by blast
      have e: "list_rest item p = Some (map_option (\<lambda>l. Some (json_list (Some n2) l)) r, p4)"
        using True i(1) Some r(1) kept_length [OF k3]
        by (simp add: list_rest.simps [of item p] l p2_def [symmetric])
      have "ok n2" using i(2) Some by (simp add: outcome_def)
      then show ?thesis using e k4 r(3)
        by (cases r) (auto simp: chained_intros)
    qed
  qed
qed

lemma items_return:
  "ready p \<Longrightarrow> \<exists>r. json_parse_items item p = Some r \<and>
     outcome (\<lambda>n. chained ok (Some n)) p r"
proof -
  assume ready: "ready p"
  obtain r1 p1 where i: "item p = Some (r1, p1)" "outcome ok p (r1, p1)" using item_returns [OF ready] by blast
  have k1: "kept p p1" using i(2) by (simp add: outcome_def)
  show ?thesis
  proof (cases r1)
    case None
    then show ?thesis using i by (simp add: json_parse_items_def outcome_def)
  next
    case (Some n1)
    obtain r p2 where r: "list_rest item p1 = Some (r, p2)" "kept p1 p2"
        "case r of None \<Rightarrow> err_msg p2 \<noteq> None | Some l \<Rightarrow> chained ok l"
      using list_rest_returns [OF ready_kept [OF ready k1]] by blast
    have "ok n1" using i(2) Some by (simp add: outcome_def)
    then show ?thesis using i(1) Some r kept_trans [OF k1 r(2)]
      by (cases r) (auto simp: json_parse_items_def outcome_def chained_intros)
  qed
qed

end

definition is_value :: "'d json_node \<Rightarrow> bool" where
  "is_value n \<longleftrightarrow> (\<exists>v. n = repr v)"

definition is_member :: "'d json_node \<Rightarrow> bool" where
  "is_member n \<longleftrightarrow> (\<exists>m. n = pair_node m)"

lemma is_value_leaf:
  "is_value (json_string s)" "is_value (json_number d)" "is_value json_true" "is_value json_false" "is_value json_null"
  unfolding is_value_def
  by (metis repr.simps(3), metis repr.simps(4), metis repr.simps(5), metis repr.simps(6), metis repr.simps(7))

lemma map_ex: "\<forall>n \<in> set ns. \<exists>v. n = f v \<Longrightarrow> \<exists>vs. ns = map f vs"
  by (induction ns) (auto, metis list.simps(9))

lemma is_value_array: "chained is_value l \<Longrightarrow> is_value (json_array l)"
  unfolding chained_def is_value_def using map_ex [of _ repr] by (metis repr.simps(2))

lemma is_value_object:
  assumes "chained is_member l"
  shows "is_value (json_object l)"
proof -
  obtain ns where ns: "l = chain ns" "\<forall>n \<in> set ns. is_member n" using assms by (auto simp: chained_def)
  from ns(2) obtain ms where "ns = map pair_node ms"
    using map_ex [of ns pair_node] unfolding is_member_def by blast
  then show ?thesis unfolding is_value_def by (intro exI [of _ "JObj ms"]) (simp only: ns(1) repr_JObj)
qed

lemma outcome_mono: "outcome ok p r \<Longrightarrow> (\<And>n. ok n \<Longrightarrow> ok' n) \<Longrightarrow> outcome ok' p r"
  by (auto simp: outcome_def split: option.splits)

lemma kept_level: "kept (p\<lparr>parse_level := l\<rparr>) p' \<Longrightarrow> kept p (p'\<lparr>parse_level := parse_level p\<rparr>)"
  by (simp add: kept_def)

lemma array_returns:
  assumes "parse_level p < max_level p \<Longrightarrow> item_parser pv (Suc (parse_level p)) (max_level p) (subst p) is_value"
    and short: "length (cp p) < json_int_max"
  shows "\<exists>r. json_parse_array pv p = Some r \<and> outcome is_value p r"
proof -
  obtain c p1 where l1: "look_ch p = (c, p1)" by force
  have k1: "kept p p1" using kept_look [OF l1] .
  define p2 where "p2 = move_ch p1"
  have k2: "kept p p2" unfolding p2_def using k1 kept_move kept_trans by blast
  have same: "parse_level p2 = parse_level p" "max_level p2 = max_level p" "subst p2 = subst p"
    using k2 by (simp_all add: kept_def)
  consider "c \<noteq> ch CHR ''[''" | "c = ch CHR ''[''" "parse_level p \<ge> max_level p" | "c = ch CHR ''[''" "parse_level p < max_level p"
    by linarith
  then show ?thesis
  proof cases
    case 1
    then show ?thesis using k1 by (simp add: json_parse_array_def l1 outcome_err)
  next
    case 2
    then show ?thesis using k2 same by (simp add: json_parse_array_def l1 p2_def [symmetric] outcome_err)
  next
    case 3
    define p3 where "p3 = p2\<lparr>parse_level := Suc (parse_level p)\<rparr>"
    note ip = assms(1) [OF 3(2)]
    obtain c' p4 where l4: "look_ch p3 = (c', p4)" by force
    have k4: "kept p3 p4" using kept_look [OF l4] .
    have rd: "item_parser.ready (Suc (parse_level p)) (max_level p) (subst p) p4"
      using k4 same kept_length [OF k2] kept_length [OF k4] short
      by (simp add: item_parser.ready_def [OF ip] kept_def p3_def)
    obtain link p5 where m: "(if c' \<noteq> ch CHR '']'' then json_parse_elements pv p4 else Some (None, p4)) = Some (link, p5)"
        and k5: "kept p4 p5" and ch: "chained is_value link"
    proof (cases "c' = ch CHR '']''")
      case True
      then show thesis using that [of None p4] by (simp add: chained_intros)
    next
      case False
      obtain r where r: "json_parse_items pv p4 = Some r" "outcome (\<lambda>n. chained is_value (Some n)) p4 r"
        using item_parser.items_return [OF ip rd] by blast
      then show thesis using that [of "fst r" "snd r"] False
        by (cases r; cases "fst r") (auto simp: json_parse_elements_def outcome_def chained_intros)
    qed
    define p5' where "p5' = p5\<lparr>parse_level := parse_level p\<rparr>"
    have k5': "kept p p5'" using kept_trans [OF k2 kept_level [OF kept_trans [OF k4 k5, unfolded p3_def]]] same
      by (simp add: p5'_def)
    have lev: "p5\<lparr>parse_level := parse_level p5 - Suc 0\<rparr> = p5'"
      using kept_trans [OF k4 k5] by (simp add: p5'_def kept_def p3_def)
    obtain c6 p6 where l6: "look_ch p5' = (c6, p6)" by force
    have k6: "kept p p6" using k5' kept_look [OF l6] kept_trans by blast
    have "json_parse_array pv p = Some (if c6 \<noteq> ch CHR '']''
        then (None, if err_msg p6 = None then json_err p6 ''expecting ]'' else p6) else (Some (json_array link), move_ch p6))"
      using 3 same m by (simp add: json_parse_array_def l1 p2_def [symmetric] p3_def [symmetric] l4 lev l6)
    moreover have "outcome is_value p (Some (json_array link), move_ch p6)"
      using outcome_node [of p "move_ch p6" is_value "json_array link"] kept_trans [OF k6 kept_move] is_value_array [OF ch] by blast
    moreover have "outcome is_value p (None, if err_msg p6 = None then json_err p6 ''expecting ]'' else p6)"
      using k6 by (simp add: outcome_def kept_err)
    ultimately show ?thesis by (auto split: if_splits)
  qed
qed

lemma pair_returns:
  assumes "item_parser pv level limit table is_value"
  shows "item_parser (json_parse_pair pv) level limit table is_member"
proof (unfold_locales)
  fix p :: "'a json_parser"
  assume p: "parse_level p = level" "max_level p = limit" "subst p = table" "length (cp p) < json_int_max"
  obtain s p1 where s: "json_parse_string p = Some (s, p1)" "outcome (\<lambda>n. \<exists>s. n = json_string s) p (s, p1)"
    using parse_string_outcome [OF p(4)] by (metis surj_pair)
  have k1: "kept p p1" using s(2) by (simp add: outcome_def)
  obtain c p2 where l2: "look_ch p1 = (c, p2)" by force
  have k2: "kept p p2" using k1 kept_look [OF l2] kept_trans by blast
  have k3: "kept p (move_ch p2)" using k2 kept_move kept_trans by blast
  have "item_parser.ready level limit table (move_ch p2)"
    using k3 p kept_length [OF k3] by (simp add: item_parser.ready_def [OF assms] kept_def)
  then obtain v p3 where v: "pv (move_ch p2) = Some (v, p3)" "outcome is_value (move_ch p2) (v, p3)"
    using item_parser.item_returns [OF assms] by blast
  have k4: "kept p p3" using k3 v(2) kept_trans by (auto simp: outcome_def)
  have member: "is_member (json_pair (Some (json_string t)) (Some n))" if "is_value n" for t n
  proof -
    from that obtain w where "n = repr w" by (auto simp: is_value_def)
    then show ?thesis unfolding is_member_def by (intro exI [of _ "(t, w)"]) simp
  qed
  show "\<exists>r. json_parse_pair pv p = Some r \<and> outcome is_member p r"
  proof (cases s)
    case None
    then show ?thesis using s by (simp add: json_parse_pair_def outcome_def)
  next
    case (Some n)
    then obtain t where n: "n = json_string t" using s(2) by (auto simp: outcome_def)
    show ?thesis
    proof (cases "c = ch CHR '':''")
      case False
      then show ?thesis using s(1) Some k2 by (simp add: json_parse_pair_def l2 outcome_err)
    next
      case True
      then show ?thesis using s(1) Some n v k4
        by (cases v) (auto simp: json_parse_pair_def l2 outcome_def member)
    qed
  qed
qed

lemma object_returns:
  assumes "parse_level p < max_level p \<Longrightarrow> item_parser pv (Suc (parse_level p)) (max_level p) (subst p) is_value"
    and short: "length (cp p) < json_int_max"
  shows "\<exists>r. json_parse_object pv p = Some r \<and> outcome is_value p r"
proof -
  obtain c p1 where l1: "look_ch p = (c, p1)" by force
  have k1: "kept p p1" using kept_look [OF l1] .
  obtain c' p2 where l2: "look_ch (move_ch p1) = (c', p2)" by force
  have k2: "kept p p2" using k1 kept_move kept_look [OF l2] kept_trans by blast
  have same: "parse_level p2 = parse_level p" "max_level p2 = max_level p" "subst p2 = subst p"
    using k2 by (simp_all add: kept_def)
  define close where "close = (\<lambda>link (p :: 'a json_parser). case look_ch p of (c, p') \<Rightarrow>
      if c \<noteq> ch CHR ''}'' then (None, json_err p' ''Missing }'')
      else (Some (json_object link :: 'a json_node), move_ch p'))"
  have close: "outcome is_value p (close link q)" if "kept p q" "chained is_member link" for link q
  proof -
    obtain d q' where l: "look_ch q = (d, q')" by force
    have k: "kept p q'" using that(1) kept_look [OF l] kept_trans by blast
    show ?thesis using k kept_trans [OF k kept_move] is_value_object [OF that(2)]
      by (simp add: close_def l outcome_err outcome_node)
  qed
  consider "c \<noteq> ch CHR ''{''" | "c = ch CHR ''{''" "c' = ch CHR ''}''"
    | "c = ch CHR ''{''" "c' \<noteq> ch CHR ''}''" "parse_level p \<ge> max_level p"
    | "c = ch CHR ''{''" "c' \<noteq> ch CHR ''}''" "parse_level p < max_level p"
    by linarith
  then show ?thesis
  proof cases
    case 1
    then show ?thesis using k1 by (simp add: json_parse_object_def l1 outcome_err)
  next
    case 2
    then show ?thesis using close [OF k2 chained_intros(1)]
      by (simp add: json_parse_object_def l1 l2 close_def Let_def)
  next
    case 3
    then show ?thesis using k2 same by (simp add: json_parse_object_def l1 l2 outcome_err Let_def)
  next
    case 4
    define p3 where "p3 = p2\<lparr>parse_level := Suc (parse_level p)\<rparr>"
    note ip = pair_returns [OF assms(1) [OF 4(3)]]
    have "item_parser.ready (Suc (parse_level p)) (max_level p) (subst p) p3"
      using same kept_length [OF k2] short by (simp add: item_parser.ready_def [OF ip] p3_def)
    then obtain m p4 where m: "json_parse_items (json_parse_pair pv) p3 = Some (m, p4)"
        "outcome (\<lambda>n. chained is_member (Some n)) p3 (m, p4)"
      using item_parser.items_return [OF ip] by (metis surj_pair)
    have k4: "kept p3 p4" using m(2) by (simp add: outcome_def)
    define p4' where "p4' = p4\<lparr>parse_level := parse_level p\<rparr>"
    have k4': "kept p p4'" using kept_trans [OF k2 kept_level [OF k4 [unfolded p3_def]]] same by (simp add: p4'_def)
    have lev: "p4\<lparr>parse_level := parse_level p4 - Suc 0\<rparr> = p4'" using k4 by (simp add: p4'_def kept_def p3_def)
    have "json_parse_object pv p = Some (case m of None \<Rightarrow> (None, p4') | Some n \<Rightarrow> close (Some n) p4')"
      using 4 same m(1) by (auto simp: json_parse_object_def json_parse_members_def l1 l2 close_def Let_def p3_def [symmetric] lev split: option.splits)
    then show ?thesis using close [OF k4'] m(2) k4'
      by (cases m) (auto simp: outcome_def p4'_def)
  qed
qed

text \<open>One level of \<open>json_parse_value\<close>.\<close>

lemma value_step:
  assumes "level < limit \<Longrightarrow> item_parser (json_parse_value strtod fuel) (Suc level) limit table is_value"
    and "\<forall>n \<in> snd ` set table. is_value n"
  shows "item_parser (json_parse_value strtod (Suc fuel)) level limit table is_value"
proof unfold_locales
  fix p :: "'a json_parser"
  assume p: "parse_level p = level" "max_level p = limit" "subst p = table" "length (cp p) < json_int_max"
  obtain c p1 where l: "look_ch p = (c, p1)" by force
  have k: "kept p p1" using kept_look [OF l] .
  have p1: "parse_level p1 = level" "max_level p1 = limit" "subst p1 = table" "length (cp p1) < json_int_max"
    using k p kept_length [OF k] by (simp_all add: kept_def)
  let ?pv = "json_parse_value strtod fuel"
  have obj: "\<exists>r. json_parse_object ?pv p1 = Some r \<and> outcome is_value p1 r"
    and arr: "\<exists>r. json_parse_array ?pv p1 = Some r \<and> outcome is_value p1 r"
    using object_returns [of p1 ?pv] array_returns [of p1 ?pv] assms(1) p1 by simp_all
  have string: "\<exists>r. json_parse_string p1 = Some r \<and> outcome is_value p1 r"
    using parse_string_outcome [OF p1(4)] outcome_mono [of "\<lambda>n. \<exists>s. n = json_string s" p1 _ is_value] is_value_leaf by blast
  have leaves: "outcome is_value p1 (json_parse_number strtod p1)"
      "outcome is_value p1 (json_parse_token p1)" "outcome is_value p1 (json_parse_subst p1)"
    using assms(2) p1(3) by (auto intro!: outcome_mono [OF parse_number_outcome]
        outcome_mono [OF parse_token_outcome] parse_subst_outcome simp: is_value_leaf)
  have zero: "strchr_ok d 0" for d by (simp add: strchr_ok_def)
  have "\<exists>r. json_parse_value strtod (Suc fuel) p = Some r \<and> outcome is_value p1 r"
    unfolding json_parse_value.simps l prod.case using obj arr string leaves zero
    by (auto simp del: list.map split_paired_Ex)
  then show "\<exists>r. json_parse_value strtod (Suc fuel) p = Some r \<and> outcome is_value p r"
    using outcome_trans [OF k] by blast
qed

lemma value_returns:
  "limit \<le> level + fuel \<Longrightarrow> \<forall>n \<in> snd ` set table. is_value n \<Longrightarrow>
   item_parser (json_parse_value strtod (Suc fuel)) level limit table is_value"
proof (induction fuel arbitrary: level)
  case (0 level)
  then show ?case by (intro value_step) simp_all
next
  case (Suc fuel)
  show ?case
  proof (rule value_step)
    show "item_parser (json_parse_value strtod (Suc fuel)) (Suc level) limit table is_value"
      using Suc.prems by (intro Suc.IH) simp_all
  qed (rule Suc.prems(2))
qed

interpretation jvalue: item_parser "json_parse_value strtod (Suc 1000)" 0 1000 "[]" is_value for strtod
  by (rule value_returns) simp_all

lemma parser_parse_outcome:
  assumes "\<forall>n \<in> snd ` set (subst p). is_value n" and "length (cstr s) < json_int_max"
  shows "\<exists>n p'. json_parser_parse strtod p s = Some (n, p') \<and> (n = None \<longleftrightarrow> err_msg p' \<noteq> None) \<and>
    (\<forall>m. n = Some m \<longrightarrow> is_value m \<and> deref (cp p') = 0) \<and> (\<exists>pre. cstr s = pre @ cp p') \<and> pbuf p' = cstr s"
proof -
  define p1 where "p1 = p\<lparr>pbuf := cstr s, cp := cstr s, err_msg := None, parse_level := 0, max_level := 1000\<rparr>"
  have "item_parser (json_parse_value strtod (Suc 1000)) 0 1000 (subst p) is_value"
    using assms by (intro value_returns) simp_all
  then obtain n p2 where v: "json_parse_value strtod (Suc (max_level p1)) p1 = Some (n, p2)" "outcome is_value p1 (n, p2)"
    using item_parser.item [of "json_parse_value strtod (Suc 1000)" 0 1000 "subst p" is_value p1] assms(2)
    by (auto simp: p1_def)
  obtain c p3 where l: "look_ch p2 = (c, p3)" by force
  have k: "kept p1 p2" "kept p1 p3" using v(2) kept_look [OF l] kept_trans by (auto simp: outcome_def)
  have e: "err_msg p3 = err_msg p2" and c: "c = deref (cp p3)" using l by (auto simp: look_ch_def Let_def)
  have "json_parser_parse strtod p s =
      (if n = None then Some (None, p2) else if err_msg p2 \<noteq> None then Some (None, p2)
       else if c \<noteq> 0 then Some (None, json_err p3 ''extra characters'') else Some (n, p3))"
    using v(1) by (auto simp: json_parser_parse_def Let_def p1_def [symmetric] l simp del: json_parse_value.simps)
  then show ?thesis using v(2) k e c by (cases n) (auto simp: outcome_def kept_def p1_def json_err_def)
qed

section \<open>The grammar\<close>

text \<open>
  The grammar of RFC 8259, written down without the functions of the parser. White space, and what may
  follow a value: white space, a delimiter or the end of the input.
\<close>

definition ws :: "byte list \<Rightarrow> bool" where
  "ws w \<longleftrightarrow> set w \<subseteq> {32, 9, 10, 13}"

definition delim :: "byte list \<Rightarrow> bool" where
  "delim r \<longleftrightarrow> r = [] \<or> hd r \<in> {44, 93, 125, 32, 9, 10, 13}"

text \<open>
  Texts of a string between its quotes: plain bytes from 32 on, the eight short escapes, and code units
  as four hexadecimal digits, each of which stands for its UTF-8 encoding.
\<close>

definition escape_table :: "(byte \<times> byte) list" where
  "escape_table = [(34, 34), (92, 92), (47, 47), (98, 8), (102, 12), (110, 10), (114, 13), (116, 9)]"

definition hex_digit :: "byte \<Rightarrow> nat \<Rightarrow> bool" where
  "hex_digit h d \<longleftrightarrow> d < 10 \<and> unat h = 48 + d \<or> 10 \<le> d \<and> d < 16 \<and> (unat h = 55 + d \<or> unat h = 87 + d)"

inductive str_text :: "byte list \<Rightarrow> byte list \<Rightarrow> bool" where
  str_empty: "str_text [] []"
| str_plain: "str_text s t \<Longrightarrow> 32 \<le> unat c \<Longrightarrow> c \<noteq> 34 \<Longrightarrow> c \<noteq> 92 \<Longrightarrow> str_text (c # s) (c # t)"
| str_escape: "str_text s t \<Longrightarrow> (e, c) \<in> set escape_table \<Longrightarrow> str_text (c # s) (92 # e # t)"
| str_unicode: "str_text s t \<Longrightarrow> hex_digit h1 d1 \<Longrightarrow> hex_digit h2 d2 \<Longrightarrow> hex_digit h3 d3 \<Longrightarrow> hex_digit h4 d4 \<Longrightarrow>
    str_text (utf8_ref (((d1 * 16 + d2) * 16 + d3) * 16 + d4) @ s) (92 # 117 # h1 # h2 # h3 # h4 # t)"

text \<open>Numbers: a sign, an integer without leading zeros, a fraction, an exponent with \<^verbatim>\<open>e\<close> or \<^verbatim>\<open>E\<close>.\<close>

definition all_digits :: "byte list \<Rightarrow> bool" where
  "all_digits ds \<longleftrightarrow> (\<forall>c \<in> set ds. 48 \<le> unat c \<and> unat c \<le> 57)"

definition int_part :: "byte list \<Rightarrow> bool" where
  "int_part t \<longleftrightarrow> t = [48] \<or> all_digits t \<and> t \<noteq> [] \<and> hd t \<noteq> 48"

definition frac_part :: "byte list \<Rightarrow> bool" where
  "frac_part t \<longleftrightarrow> t = [] \<or> (\<exists>ds. t = 46 # ds \<and> all_digits ds \<and> ds \<noteq> [])"

definition exp_part :: "byte list \<Rightarrow> bool" where
  "exp_part t \<longleftrightarrow> t = [] \<or>
     (\<exists>m sign ds. t = m # sign @ ds \<and> m \<in> {101, 69} \<and> sign \<in> {[], [43], [45]} \<and> all_digits ds \<and> ds \<noteq> [])"

definition number_syntax :: "byte list \<Rightarrow> bool" where
  "number_syntax t \<longleftrightarrow> (\<exists>sign ip fp xp. t = sign @ ip @ fp @ xp \<and> sign \<in> {[], [45]} \<and>
     int_part ip \<and> frac_part fp \<and> exp_part xp)"

text \<open>
  The text of the number \<open>d\<close>: \<^verbatim>\<open>strtod\<close> reads all of it as \<open>d\<close>, whatever may follow a value behind it.
\<close>

definition number_text :: "(byte list \<Rightarrow> 'd \<times> nat) \<Rightarrow> 'd \<Rightarrow> byte list \<Rightarrow> bool" where
  "number_text strtod d t \<longleftrightarrow> number_syntax t \<and> (\<forall>r. delim r \<longrightarrow> strtod (t @ r) = (d, length t))"

inductive json_text :: "(byte list \<Rightarrow> 'd \<times> nat) \<Rightarrow> 'd jv \<Rightarrow> byte list \<Rightarrow> bool"
  and elements_text :: "(byte list \<Rightarrow> 'd \<times> nat) \<Rightarrow> 'd jv list \<Rightarrow> byte list \<Rightarrow> bool"
  and members_text :: "(byte list \<Rightarrow> 'd \<times> nat) \<Rightarrow> (byte list \<times> 'd jv) list \<Rightarrow> byte list \<Rightarrow> bool"
  for strtod :: "byte list \<Rightarrow> 'd \<times> nat" where
  text_space: "ws w \<Longrightarrow> json_text strtod v t \<Longrightarrow> json_text strtod v (w @ t)"
| text_true: "json_text strtod JTrue (str ''true'')"
| text_false: "json_text strtod JFalse (str ''false'')"
| text_null: "json_text strtod JNull (str ''null'')"
| text_number: "number_text strtod d t \<Longrightarrow> json_text strtod (JNum d) t"
| text_string: "str_text s t \<Longrightarrow> json_text strtod (JStr s) (34 # t @ [34])"
| text_array0: "ws w \<Longrightarrow> json_text strtod (JArr []) (91 # w @ [93])"
| text_array: "elements_text strtod vs t \<Longrightarrow> ws w \<Longrightarrow> json_text strtod (JArr vs) (91 # t @ w @ [93])"
| text_object0: "ws w \<Longrightarrow> json_text strtod (JObj []) (123 # w @ [125])"
| text_object: "members_text strtod ms t \<Longrightarrow> ws w \<Longrightarrow> json_text strtod (JObj ms) (123 # t @ w @ [125])"
| elements_one: "json_text strtod v t \<Longrightarrow> elements_text strtod [v] t"
| elements_more: "json_text strtod v t \<Longrightarrow> ws w \<Longrightarrow> elements_text strtod vs t' \<Longrightarrow>
    elements_text strtod (v # vs) (t @ w @ 44 # t')"
| members_one: "ws w \<Longrightarrow> str_text k t \<Longrightarrow> ws w' \<Longrightarrow> json_text strtod v t' \<Longrightarrow>
    members_text strtod [(k, v)] (w @ 34 # t @ 34 # w' @ 58 # t')"
| members_more: "ws w \<Longrightarrow> str_text k t \<Longrightarrow> ws w' \<Longrightarrow> json_text strtod v t' \<Longrightarrow> ws w'' \<Longrightarrow>
    members_text strtod ms t'' \<Longrightarrow>
    members_text strtod ((k, v) # ms) (w @ 34 # t @ 34 # w' @ 58 # t' @ w'' @ 44 # t'')"

fun jdepth :: "'d jv \<Rightarrow> nat" where
  "jdepth (JObj ms) = Suc (fold max (map (\<lambda>m. jdepth (snd m)) ms) 0)"
| "jdepth (JArr vs) = Suc (fold max (map jdepth vs) 0)"
| "jdepth _ = 0"

section \<open>The parser accepts the grammar\<close>

lemma ws_alt: "ws w \<longleftrightarrow> (\<forall>c \<in> set w. is_ws c)"
  by (auto simp: ws_def is_ws_def)

lemma escape_table_simple: "(e, c) \<in> set escape_table \<Longrightarrow> simple_escape e = Some c"
  by (auto simp: escape_table_def simple_escape_def)

lemma hex_digit_value: "hex_digit h d \<Longrightarrow> hex_value h = Some d"
  by (auto simp: hex_digit_def hex_value_def)

lemma is_digit_iff: "is_digit c \<longleftrightarrow> 48 \<le> unat c \<and> unat c \<le> 57"
proof (cases "unat c < 128")
  case True
  then show ?thesis by (auto simp: is_digit_def sint_low simp del: of_nat_unat)
next
  case False
  then have "schar c < 0" by (simp add: sint_high)
  with False show ?thesis by (simp add: is_digit_def)
qed

lemma schar_pos_iff: "0 < schar c \<and> schar c < 32 \<longleftrightarrow> 0 < unat c \<and> unat c < 32" for c :: byte
proof (cases "unat c < 128")
  case True
  then show ?thesis unfolding sint_low [OF True] by (simp del: of_nat_unat)
next
  case False
  have "sint c < 0" using False by (simp add: sint_high)
  then show ?thesis using False by simp
qed

lemma hex_value_class:
  assumes "hex_value h = Some d"
  shows "d < 16" "\<not> c_isspace h" "h \<noteq> ch CHR ''+''" "h \<noteq> ch CHR ''-''" "h \<noteq> ch CHR ''x''" "h \<noteq> ch CHR ''X''" "0 < schar h" "h \<noteq> 0"
proof -
  have u: "48 \<le> unat h \<and> unat h \<le> 57 \<or> 97 \<le> unat h \<and> unat h \<le> 102 \<or> 65 \<le> unat h \<and> unat h \<le> 70"
    using assms by (auto simp: hex_value_def split: if_splits)
  show "d < 16" using assms by (auto simp: hex_value_def split: if_splits)
  have ne: "h \<noteq> c" if "unat c \<notin> {48..57} \<union> {65..70} \<union> {97..102}" for c using u that by auto
  show "\<not> c_isspace h" using ne by (auto simp: c_isspace_def)
  show "h \<noteq> ch CHR ''+''" "h \<noteq> ch CHR ''-''" "h \<noteq> ch CHR ''x''" "h \<noteq> ch CHR ''X''" "h \<noteq> 0" by (rule ne; simp)+
  have "sint h = int (unat h)" using u by (intro sint_low) auto
  then show "0 < schar h" using u by (auto simp del: of_nat_unat)
qed

lemma unat_code: "n < 2 ^ 16 \<Longrightarrow> unat (ucast (of_nat n :: 32 word) :: 64 word) = n"
  by (simp add: unsigned_ucast_eq unsigned_of_nat take_bit_nat_eq_self)

lemma unicode_escape_digits:
  assumes "hex_value h1 = Some d1" "hex_value h2 = Some d2" "hex_value h3 = Some d3" "hex_value h4 = Some d4"
  shows "unicode_escape (h1 # h2 # h3 # h4 # r) = Some (utf8_ref (((d1 * 16 + d2) * 16 + d3) * 16 + d4), r)"
proof -
  note h = assms [THEN hex_value_class(1)] hex_value_class(2-8) [OF assms(1)] hex_value_class(2-8) [OF assms(2)]
    hex_value_class(7) [OF assms(3)] hex_value_class(7) [OF assms(4)]
  let ?n = "((d1 * 16 + d2) * 16 + d3) * 16 + d4"
  have "sscanf_4x (h1 # h2 # h3 # h4 # r) = (of_nat ?n, 4)"
    using h assms by (simp add: sscanf_4x_def Let_def hex_digits_def hex_number_def)
  moreover have n: "?n < 2 ^ 16" using h(1-4) by simp
  then have "unat (ucast (of_nat ?n :: 32 word) :: 64 word) = ?n"
    by (rule unat_code)
  moreover have "length (utf8_ref ?n) \<le> 6" by (simp add: utf8_ref_def)
  ultimately show ?thesis using h n write_UTF8_ref [of "ucast (of_nat ?n :: 32 word) :: 64 word" 6 "[]" ICONV_NONE]
    by (simp add: unicode_escape_def)
qed

lemma simple_escape_nonzero: "simple_escape e = Some c \<Longrightarrow> e \<noteq> 0"
  by (auto simp: simple_escape_def)

lemma str_text_copy: "str_text s t \<Longrightarrow> string_copy (t @ 34 # r) dst = Some (dst @ s, 34 # r)"
proof (induction arbitrary: dst rule: str_text.induct)
  case str_empty
  then show ?case by (simp add: string_copy_step [of "34 # r"])
next
  case (str_plain s t c)
  then have "c \<noteq> 0" "\<not> (0 < schar c \<and> schar c \<le> 31)" using schar_pos_iff [of c] by auto
  with str_plain show ?case by (subst string_copy_step) auto
next
  case (str_escape s t e c)
  then have "simple_escape e = Some c" by (intro escape_table_simple)
  with str_escape show ?case by (subst string_copy_step) (simp add: simple_escape_nonzero)
next
  case (str_unicode s t h1 d1 h2 d2 h3 d3 h4 d4)
  have "simple_escape 117 = None" by (simp add: simple_escape_def)
  then show ?case using unicode_escape_digits [OF str_unicode(2-5) [THEN hex_digit_value]] str_unicode.IH
    by (subst string_copy_step) simp
qed

lemma look_ws: "ws w \<Longrightarrow> cp p = w @ c # s \<Longrightarrow> \<not> is_ws c \<Longrightarrow> look_ch p = (c, p\<lparr>cp := c # s\<rparr>)"
  by (simp add: look_ch_def Let_def ws_alt dropWhile_append1 dropWhile_append2)

lemma move_Cons: "cp p = c # s \<Longrightarrow> c \<noteq> 0 \<Longrightarrow> move_ch p = p\<lparr>cp := s\<rparr>"
  by (simp add: move_ch_def)

lemma parse_string_text:
  assumes "str_text s t" "ws w" "cp p = w @ 34 # t @ 34 # r" "length (cp p) < json_int_max"
  shows "json_parse_string p = Some (Some (json_string s), p\<lparr>cp := r\<rparr>)"
proof -
  have l: "look_ch p = (34, p\<lparr>cp := 34 # t @ 34 # r\<rparr>)" using assms by (intro look_ws) (simp_all add: is_ws_def)
  have c: "string_copy (t @ 34 # r) [] = Some (s, 34 # r)" using str_text_copy [OF assms(1)] by simp
  then have "string_len (t @ 34 # r) 0 = Some (Some (length s, 34 # r))" "length s < json_int_max"
    using string_passes_agree [of 0 "t @ 34 # r" "[]"] assms(3,4) by auto
  with l c show ?thesis by (simp add: json_parse_string_def move_Cons)
qed

lemma delim_class:
  assumes "delim r"
  shows "\<not> is_digit (deref r)" "deref r \<noteq> ch CHR ''.''" "deref r \<noteq> ch CHR ''e''" "deref r \<noteq> ch CHR ''E''"
    "\<not> (97 \<le> schar (deref r) \<and> schar (deref r) \<le> 122)"
proof -
  have "deref r \<in> {0, 44, 93, 125, 32, 9, 13, 10}" using assms by (cases r) (auto simp: delim_def)
  then show "\<not> is_digit (deref r)" "deref r \<noteq> ch CHR ''.''" "deref r \<noteq> ch CHR ''e''" "deref r \<noteq> ch CHR ''E''"
    "\<not> (97 \<le> schar (deref r) \<and> schar (deref r) \<le> 122)"
    by (auto simp: is_digit_def)
qed

lemma dropWhile_delim:
  assumes "\<not> P (deref r)"
  shows "dropWhile P (s @ r) = dropWhile P s @ r"
  using assms by (induction s) (auto, cases r, auto)

lemma deref_append: "deref (s @ r) = (if s = [] then deref r else deref s)"
  by (cases s) simp_all

lemma scan_digits_append: "scan_digits s = Some s' \<Longrightarrow> delim r \<Longrightarrow> scan_digits (s @ r) = Some (s' @ r)"
  using dropWhile_delim [of is_digit r s] delim_class(1) [of r]
  by (auto simp: scan_digits_def deref_append is_digit_def split: if_splits)

lemma scan_int_append: "scan_int s = Some s' \<Longrightarrow> delim r \<Longrightarrow> scan_int (s @ r) = Some (s' @ r)"
  using dropWhile_delim [of is_digit r "tl s"] delim_class(1) [of r]
  by (cases s) (auto simp: scan_int_def split: if_splits)

lemma scan_frac_append: "scan_frac s = Some s' \<Longrightarrow> delim r \<Longrightarrow> scan_frac (s @ r) = Some (s' @ r)"
  using delim_class(2) [of r] scan_digits_append [of "tl s" s' r]
  by (cases s) (auto simp: scan_frac_def split: if_splits)

lemma scan_exp_append: "scan_exp s = Some s' \<Longrightarrow> delim r \<Longrightarrow> scan_exp (s @ r) = Some (s' @ r)"
proof (cases s)
  case Nil
  assume "scan_exp s = Some s'" "delim r"
  then show ?thesis using delim_class(3,4) [of r] Nil by (simp add: scan_exp_def)
next
  case (Cons c u)
  assume a: "scan_exp s = Some s'" "delim r"
  show ?thesis
  proof (cases u)
    case Nil
    then show ?thesis using a Cons by (auto simp: scan_exp_def scan_digits_def is_digit_def split: if_splits)
  next
    case (Cons d v)
    then show ?thesis using a \<open>s = c # u\<close> scan_digits_append [of u s' r] scan_digits_append [of v s' r]
      by (auto simp: scan_exp_def Let_def split: if_splits)
  qed
qed

lemma scan_number_append:
  assumes "scan_number t = Some []" "delim r"
  shows "scan_number (t @ r) = Some r"
proof -
  let ?u = "if deref t = ch CHR ''-'' then tl t else t"
  obtain s1 s2 where s: "scan_int ?u = Some s1" "scan_frac s1 = Some s2" "scan_exp s2 = Some []"
    using assms(1) by (auto simp: scan_number_def bind_Some_iff)
  have "t \<noteq> []" using s(1) by (auto simp: scan_int_def)
  then have "(if deref (t @ r) = ch CHR ''-'' then tl (t @ r) else t @ r) = ?u @ r" by (simp add: deref_append)
  then show ?thesis
    using scan_int_append [OF s(1) assms(2)] scan_frac_append [OF s(2) assms(2)] scan_exp_append [OF s(3) assms(2)]
    by (simp add: scan_number_def)
qed

lemma scan_number_first:
  assumes "scan_number t = Some s"
  shows "t \<noteq> []" "deref t \<in> set (str ''0123456789-'')"
proof -
  let ?u = "if deref t = ch CHR ''-'' then tl t else t"
  obtain s1 where "scan_int ?u = Some s1" using assms by (auto simp: scan_number_def bind_Some_iff)
  then have *: "deref ?u = ch CHR ''0'' \<or> 49 \<le> schar (deref ?u) \<and> schar (deref ?u) \<le> 57"
    by (auto simp: scan_int_def split: if_splits)
  then show "t \<noteq> []" by auto
  show "deref t \<in> set (str ''0123456789-'')"
  proof (cases "deref t = ch CHR ''-''")
    case False
    have "deref t = of_int (sint (deref t))" by simp
    moreover have "sint (deref t) \<in> {48..57}" using * False by auto
    then have "sint (deref t) \<in> set [48..57]" unfolding set_upto .
    then have "of_int (sint (deref t)) \<in> (of_int :: int \<Rightarrow> byte) ` set [48..57]" by blast
    ultimately show ?thesis by (auto simp: upto.simps)
  qed simp
qed

text \<open>The scanner accepts the numbers of the grammar.\<close>

lemma drop_digits:
  assumes "all_digits ds" and "r = [] \<or> \<not> is_digit (hd r)"
  shows "dropWhile is_digit (ds @ r) = r"
  using assms by (cases r) (auto simp: all_digits_def is_digit_iff dropWhile_append2)

lemma scan_digits_text:
  assumes "all_digits ds" and "ds \<noteq> []" and "r = [] \<or> \<not> is_digit (hd r)"
  shows "scan_digits (ds @ r) = Some r"
proof -
  have "is_digit (deref (ds @ r))" using assms(1,2) by (cases ds) (auto simp: all_digits_def is_digit_iff)
  then show ?thesis using drop_digits [OF assms(1,3)] by (simp add: scan_digits_def)
qed

lemma not_digits: "\<not> is_digit 46" "\<not> is_digit 101" "\<not> is_digit 69" "\<not> is_digit 43" "\<not> is_digit 45"
  by (simp_all add: is_digit_iff)

lemma digits_no_nul: "all_digits ds \<Longrightarrow> no_nul ds"
  by (auto simp: all_digits_def dest!: bspec [of _ _ 0])

lemma scan_int_text:
  assumes "int_part t" and "r = [] \<or> \<not> is_digit (hd r)"
  shows "scan_int (t @ r) = Some r" "t \<noteq> []" "hd t \<noteq> 45" "no_nul t"
proof -
  show "t \<noteq> []" "hd t \<noteq> 45" "no_nul t"
    using assms(1) by (cases t; auto simp: int_part_def all_digits_def)+
  show "scan_int (t @ r) = Some r"
  proof (cases "t = [48]")
    case False
    then obtain c ds where t: "t = c # ds" "all_digits ds" "is_digit c" "c \<noteq> 48"
      using assms(1) by (cases t) (auto simp: int_part_def all_digits_def is_digit_iff)
    have "unat c \<noteq> 48" using t(4) by (auto simp: word_unat_eq_iff)
    moreover have "schar c = int (unat c)" using t(3) by (intro sint_low) (simp add: is_digit_iff)
    ultimately have "schar c \<noteq> 48" by (simp del: of_nat_unat)
    then show ?thesis using t drop_digits [OF t(2) assms(2)] by (auto simp: scan_int_def is_digit_def)
  qed (simp add: scan_int_def)
qed

lemma scan_frac_text:
  assumes "frac_part t" and "r = [] \<or> \<not> is_digit (hd r) \<and> hd r \<noteq> 46"
  shows "scan_frac (t @ r) = Some r" "no_nul t" "t = [] \<or> \<not> is_digit (hd t)"
  using assms scan_digits_text [of "tl t" r]
  by (cases r; auto simp: frac_part_def scan_frac_def all_digits_def not_digits)+

lemma scan_exp_text:
  assumes "exp_part t"
  shows "scan_exp t = Some []" "no_nul t" "t = [] \<or> \<not> is_digit (hd t) \<and> hd t \<noteq> 46"
proof -
  show "no_nul t" "t = [] \<or> \<not> is_digit (hd t) \<and> hd t \<noteq> 46"
    using assms by (auto simp: exp_part_def not_digits dest: digits_no_nul)
  show "scan_exp t = Some []"
  proof (cases "t = []")
    case False
    then obtain m sign ds where t: "t = m # sign @ ds" "m \<in> {101, 69}" "sign \<in> {[], [43], [45]}" "all_digits ds" "ds \<noteq> []"
      using assms by (auto simp: exp_part_def)
    have d: "is_digit (deref ds)" using t(4,5) by (cases ds) (auto simp: all_digits_def is_digit_iff)
    then have "deref ds \<noteq> 43" "deref ds \<noteq> 45" using not_digits by metis+
    then show ?thesis using t scan_digits_text [OF t(4,5), of "[]"] by (auto simp: scan_exp_def Let_def)
  qed (simp add: scan_exp_def)
qed

lemma scan_number_text:
  assumes "number_syntax t"
  shows "scan_number t = Some []" "no_nul t"
proof -
  obtain sign ip fp xp where t: "t = sign @ ip @ fp @ xp" "sign \<in> {[], [45]}" "int_part ip" "frac_part fp" "exp_part xp"
    using assms by (auto simp: number_syntax_def)
  note x = scan_exp_text [OF t(5)] and f = scan_frac_text [OF t(4) scan_exp_text(3) [OF t(5)]]
  have "fp @ xp = [] \<or> \<not> is_digit (hd (fp @ xp))" using x(3) f(3) by (cases fp) auto
  note i = scan_int_text [OF t(3) this]
  have "deref ip \<noteq> 45" using i(2,3) by (cases ip) auto
  then show "scan_number t = Some []"
    using t(1,2) i(1,2) f(1) x(1) by (auto simp: scan_number_def deref_append)
  show "no_nul t" using t(1,2) i(4) f(2) x(2) by auto
qed

lemma number_textD:
  assumes "number_text strtod d t"
  shows "scan_number t = Some []" "no_nul t" "delim r \<Longrightarrow> strtod (t @ r) = (d, length t)"
  using assms scan_number_text by (auto simp: number_text_def)

lemma parse_number_text:
  assumes "number_text strtod d t" "cp p = t @ r" "delim r"
  shows "json_parse_number strtod p = (Some (json_number d), p\<lparr>cp := r\<rparr>)"
  using assms scan_number_append [of t r] scan_number_first [of t "[]"] number_textD [OF assms(1)]
  by (simp add: json_parse_number_def)

lemma parse_token_text:
  assumes "tok \<in> {str ''true'', str ''false'', str ''null''}" "cp p = tok @ r" "delim r"
  shows "json_parse_token p = (Some (if tok = str ''true'' then json_true else if tok = str ''false'' then json_false else json_null),
    p\<lparr>cp := r\<rparr>)"
proof -
  let ?P = "\<lambda>c :: byte. 97 \<le> schar c \<and> schar c \<le> 122"
  have all: "\<forall>c \<in> set tok. ?P c" and len: "length tok \<le> 7" using assms(1) by auto
  have "takeWhile ?P (take n r) = []" for n
    using delim_class(5) [OF assms(3)] by (cases r; cases n) auto
  then have "takeWhile ?P (take 7 (tok @ r)) = tok" using all len by (simp add: takeWhile_append2)
  then show ?thesis using assms(1,2) by (auto simp: json_parse_token_def Let_def)
qed

lemmas token_texts = parse_token_text [of "str ''true''", simplified] parse_token_text [of "str ''false''", simplified]
  parse_token_text [of "str ''null''", simplified]

lemma rest_end:
  assumes "cp p = w @ c # s" "ws w" "c \<in> {93, 125}"
  shows "list_rest item p = Some (Some None, p\<lparr>cp := c # s\<rparr>)"
  using look_ws [OF assms(2,1)] assms(3) by (auto simp: list_rest.simps [of item p] is_ws_def)

lemma rest_comma:
  assumes "cp p = w @ 44 # s" "ws w" "item (p\<lparr>cp := s\<rparr>) = Some (Some m, q)" "length (cp q) \<le> length s"
    and "list_rest item q = Some (Some l, p')"
  shows "list_rest item p = Some (Some (Some (json_list (Some m) l)), p')"
proof -
  have l: "look_ch p = (44, p\<lparr>cp := 44 # s\<rparr>)" using look_ws [OF assms(2,1)] by (simp add: is_ws_def)
  have m: "move_ch (p\<lparr>cp := 44 # s\<rparr>) = p\<lparr>cp := s\<rparr>" by (simp add: move_ch_def)
  show ?thesis using assms(3-5) by (simp add: list_rest.simps [of item p] l m)
qed

lemma items_first:
  assumes "item p = Some (Some n, q)" "list_rest item q = Some (Some l, p')"
  shows "json_parse_items item p = Some (Some (json_list (Some n) l), p')"
  using assms by (simp add: json_parse_items_def)

lemma le_fold_max: "x \<in> set xs \<Longrightarrow> x \<le> fold max xs (a :: nat)"
proof -
  have mono: "a \<le> fold max xs a" for xs and a :: nat
    by (induction xs arbitrary: a) (auto, meson le_trans max.cobounded2)
  show "x \<in> set xs \<Longrightarrow> x \<le> fold max xs a"
    by (induction xs arbitrary: a) (auto intro: le_trans [OF _ mono])
qed

text \<open>The nesting limit leaves room for \<open>d\<close> more levels, and the strings of the input can be counted.\<close>

definition room :: "'d json_parser \<Rightarrow> nat \<Rightarrow> bool" where
  [simp]: "room p d \<longleftrightarrow> parse_level p + d \<le> max_level p \<and> length (cp p) < json_int_max"

text \<open>What the induction shows of a value, of elements and of members.\<close>

definition reads_value :: "(byte list \<Rightarrow> 'd \<times> nat) \<Rightarrow> 'd jv \<Rightarrow> byte list \<Rightarrow> bool" where
  "reads_value strtod v t \<longleftrightarrow> (\<forall>fuel p r. cp p = t @ r \<and> delim r \<and> room p (jdepth v) \<and> jdepth v \<le> fuel \<longrightarrow>
     json_parse_value strtod (Suc fuel) p = Some (Some (repr v), p\<lparr>cp := r\<rparr>))"

definition reads_items :: "(nat \<Rightarrow> 'd json_parser \<Rightarrow> 'd parse_result option) \<Rightarrow> 'd json_node list \<Rightarrow> nat \<Rightarrow> byte list \<Rightarrow> bool" where
  "reads_items item ns d t \<longleftrightarrow> (\<forall>fuel p w c s n. cp p = t @ w @ c # s \<and> ws w \<and> c \<in> {93, 125} \<and> chain ns = Some n \<and>
     room p d \<and> d \<le> fuel \<longrightarrow>
     (\<exists>n1 q l. item (Suc fuel) p = Some (Some n1, q) \<and> length (cp q) \<le> length (cp p) \<and>
        list_rest (item (Suc fuel)) q = Some (Some l, p\<lparr>cp := c # s\<rparr>) \<and> n = json_list (Some n1) l))"

lemma reads_valueD:
  "reads_value strtod v t \<Longrightarrow> cp p = t @ r \<Longrightarrow> delim r \<Longrightarrow> room p (jdepth v) \<Longrightarrow> jdepth v \<le> fuel \<Longrightarrow>
   json_parse_value strtod (Suc fuel) p = Some (Some (repr v), p\<lparr>cp := r\<rparr>)"
  by (simp add: reads_value_def del: json_parse_value.simps)

lemma reads_itemsD:
  "reads_items item ns d t \<Longrightarrow> cp p = t @ w @ c # s \<Longrightarrow> ws w \<Longrightarrow> c \<in> {93, 125} \<Longrightarrow> chain ns = Some n \<Longrightarrow>
   room p d \<Longrightarrow> d \<le> fuel \<Longrightarrow>
   json_parse_items (item (Suc fuel)) p = Some (Some n, p\<lparr>cp := c # s\<rparr>)"
  unfolding reads_items_def using items_first by metis

lemma delim_ws: "ws w \<Longrightarrow> c \<in> {44, 93, 125} \<Longrightarrow> delim (w @ c # s)"
  by (cases w) (auto simp: delim_def ws_def)

lemma reads_one:
  assumes "\<And>fuel p r. cp p = t @ r \<Longrightarrow> delim r \<Longrightarrow> room p d \<Longrightarrow> d \<le> fuel \<Longrightarrow>
      item (Suc fuel) p = Some (Some n, p\<lparr>cp := r\<rparr>)"
  shows "reads_items item [n] d t"
  unfolding reads_items_def
proof (intro allI impI, elim conjE)
  fix fuel w c s m and p :: "'a json_parser"
  assume a: "cp p = t @ w @ c # s" "ws w" "c \<in> {93, 125}" "chain [n] = Some m" "room p d" "d \<le> fuel"
  let ?q = "p\<lparr>cp := w @ c # s\<rparr>"
  have "item (Suc fuel) p = Some (Some n, ?q)"
    using a by (intro assms) (auto intro!: delim_ws)
  moreover have "list_rest (item (Suc fuel)) ?q = Some (Some None, p\<lparr>cp := c # s\<rparr>)"
    using rest_end [of ?q w c s] a(2,3) by simp
  ultimately show "\<exists>n1 q l. item (Suc fuel) p = Some (Some n1, q) \<and> length (cp q) \<le> length (cp p) \<and>
      list_rest (item (Suc fuel)) q = Some (Some l, p\<lparr>cp := c # s\<rparr>) \<and> m = json_list (Some n1) l"
    using a(1,4) by auto
qed

lemma reads_more:
  assumes "\<And>fuel p r. cp p = t @ r \<Longrightarrow> delim r \<Longrightarrow> room p d \<Longrightarrow> d \<le> fuel \<Longrightarrow>
      item (Suc fuel) p = Some (Some n, p\<lparr>cp := r\<rparr>)"
    and "reads_items item ns d' t'" "ws w'" "ns \<noteq> []"
  shows "reads_items item (n # ns) (max d d') (t @ w' @ 44 # t')"
  unfolding reads_items_def
proof (intro allI impI, elim conjE)
  fix fuel w c s m and p :: "'a json_parser"
  assume a: "cp p = (t @ w' @ 44 # t') @ w @ c # s" "ws w" "c \<in> {93, 125}" "chain (n # ns) = Some m"
    "room p (max d d')" "max d d' \<le> fuel"
  obtain k where k: "chain ns = Some k" using assms(4) by (cases ns) auto
  let ?q = "p\<lparr>cp := w' @ 44 # t' @ w @ c # s\<rparr>" and ?p' = "p\<lparr>cp := t' @ w @ c # s\<rparr>"
  have i: "item (Suc fuel) p = Some (Some n, ?q)"
    using a by (intro assms(1)) (auto intro!: delim_ws assms(3))
  have "cp ?p' = t' @ w @ c # s \<and> ws w \<and> c \<in> {93, 125} \<and> chain ns = Some k \<and> room ?p' d' \<and> d' \<le> fuel"
    using a k max.cobounded2 [of d' d] by auto
  then obtain n1 q l where r: "item (Suc fuel) ?p' = Some (Some n1, q)" "length (cp q) \<le> length (cp ?p')"
      "list_rest (item (Suc fuel)) q = Some (Some l, ?p'\<lparr>cp := c # s\<rparr>)" "k = json_list (Some n1) l"
    using assms(2) unfolding reads_items_def by blast
  have "list_rest (item (Suc fuel)) ?q = Some (Some (Some (json_list (Some n1) l)), p\<lparr>cp := c # s\<rparr>)"
    using r assms(3) by (intro rest_comma [of _ w' "t' @ w @ c # s" _ n1 q l]) simp_all
  then show "\<exists>n1 q l. item (Suc fuel) p = Some (Some n1, q) \<and> length (cp q) \<le> length (cp p) \<and>
      list_rest (item (Suc fuel)) q = Some (Some l, p\<lparr>cp := c # s\<rparr>) \<and> m = json_list (Some n1) l"
    using i a(1,4) k r(4) by auto
qed

lemma fold_max: "fold max xs (a :: nat) = max a (fold max xs 0)"
proof (induction xs arbitrary: a)
  case (Cons x xs)
  show ?case using Cons [of "max x a"] Cons [of "max x 0"] by simp
qed simp

text \<open>Every parsing function starts by skipping white space.\<close>

lemma look_again: "look_ch p = (c, p1) \<Longrightarrow> look_ch p1 = (c, p1)"
proof -
  have "dropWhile P (dropWhile P s) = dropWhile P s" for P and s :: "byte list" by (induction s) auto
  then show "look_ch p = (c, p1) \<Longrightarrow> look_ch p1 = (c, p1)" by (auto simp: look_ch_def Let_def)
qed

lemma value_look: "look_ch p = (c, p1) \<Longrightarrow> json_parse_value strtod fuel p1 = json_parse_value strtod fuel p"
  using look_again [of p c p1] by (cases fuel) simp_all

lemma string_look: "look_ch p = (c, p1) \<Longrightarrow> json_parse_string p1 = json_parse_string p"
  using look_again [of p c p1] by (simp add: json_parse_string_def)

lemma pair_look: "look_ch p = (c, p1) \<Longrightarrow> json_parse_pair pv p1 = json_parse_pair pv p"
  using string_look [of p c p1] by (simp add: json_parse_pair_def)

lemma items_look: "item p1 = item p \<Longrightarrow> json_parse_items item p1 = json_parse_items item p"
  by (simp add: json_parse_items_def)

text \<open>The first byte of a text that is not white space.\<close>

definition starts :: "byte set \<Rightarrow> byte list \<Rightarrow> bool" where
  "starts A t \<longleftrightarrow> (\<exists>w c s. t = w @ c # s \<and> ws w \<and> \<not> is_ws c \<and> c \<notin> A)"

lemma starts_look: "starts A t \<Longrightarrow> cp p = t @ r \<Longrightarrow> \<exists>c p1. look_ch p = (c, p1) \<and> c \<notin> A"
  using look_ws [of _ p] by (fastforce simp: starts_def)

lemma array_text:
  assumes "reads_items (json_parse_value strtod) ns d t" "starts {93} t" "chain ns = Some n" "ws w"
    and "cp p = 91 # t @ w @ 93 # r" "room p (Suc d)" "d \<le> fuel"
  shows "json_parse_array (json_parse_value strtod (Suc fuel)) p = Some (Some (json_array (Some n)), p\<lparr>cp := r\<rparr>)"
proof -
  have l1: "look_ch p = (91, p)" using look_ws [of "[]" p 91] assms(5) by (simp add: ws_alt is_ws_def)
  have m1: "move_ch p = p\<lparr>cp := t @ w @ 93 # r\<rparr>" using assms(5) by (simp add: move_ch_def)
  define p3 where "p3 = p\<lparr>cp := t @ w @ 93 # r, parse_level := Suc (parse_level p)\<rparr>"
  obtain c p4 where l4: "look_ch p3 = (c, p4)" "c \<noteq> 93"
    using starts_look [OF assms(2), of p3 "w @ 93 # r"] by (auto simp: p3_def)
  have "json_parse_items (json_parse_value strtod (Suc fuel)) p4 = json_parse_items (json_parse_value strtod (Suc fuel)) p3"
    using value_look [OF l4(1)] by (rule items_look)
  also have "\<dots> = Some (Some n, p3\<lparr>cp := 93 # r\<rparr>)"
    using assms by (intro reads_itemsD [OF assms(1)]) (simp_all add: p3_def)
  finally have i: "json_parse_elements (json_parse_value strtod (Suc fuel)) p4 = Some (Some n, p3\<lparr>cp := 93 # r\<rparr>)"
    by (simp only: json_parse_elements_def)
  have l6: "look_ch (p\<lparr>cp := 93 # r\<rparr>) = (93, p\<lparr>cp := 93 # r\<rparr>)"
    using look_ws [of "[]" "p\<lparr>cp := 93 # r\<rparr>" 93] by (simp add: ws_alt is_ws_def)
  have m6: "move_ch (p\<lparr>cp := 93 # r\<rparr>) = p\<lparr>cp := r\<rparr>" by (simp add: move_ch_def)
  show ?thesis using assms(6) l4 [unfolded p3_def] i [unfolded p3_def]
    by (simp add: json_parse_array_def l1 m1 Let_def l6 m6 del: json_parse_value.simps)
qed

lemma look_close: "ws w \<Longrightarrow> c \<in> {93, 125} \<Longrightarrow> look_ch (p\<lparr>cp := w @ c # s\<rparr>) = (c, p\<lparr>cp := c # s\<rparr>)"
  using look_ws [of w "p\<lparr>cp := w @ c # s\<rparr>" c s] by (auto simp: is_ws_def)

lemma look_same: "cp p = c # s \<Longrightarrow> \<not> is_ws c \<Longrightarrow> look_ch p = (c, p)"
  using look_ws [of "[]" p c s] by (simp add: ws_alt)

lemma array_empty:
  assumes "ws w" "cp p = 91 # w @ 93 # r" "parse_level p < max_level p"
  shows "json_parse_array pv p = Some (Some (json_array None), p\<lparr>cp := r\<rparr>)"
proof -
  have l1: "look_ch p = (91, p)" using assms(2) by (rule look_same) (simp add: is_ws_def)
  have m1: "move_ch p = p\<lparr>cp := w @ 93 # r\<rparr>" using assms(2) by (simp add: move_ch_def)
  have l2: "look_ch (p\<lparr>cp := w @ 93 # r, parse_level := l\<rparr>) = (93, p\<lparr>cp := 93 # r, parse_level := l\<rparr>)" for l
    using look_ws [OF assms(1), of "p\<lparr>cp := w @ 93 # r, parse_level := l\<rparr>" 93 r] by (simp add: is_ws_def)
  show ?thesis
    using look_close [of "[]" 93 r p] assms(3)
    by (simp add: json_parse_array_def l1 m1 l2 Let_def ws_alt move_ch_def [of "p\<lparr>cp := 93 # r\<rparr>"])
qed

lemma object_empty:
  assumes "ws w" "cp p = 123 # w @ 125 # r"
  shows "json_parse_object pv p = Some (Some (json_object None), p\<lparr>cp := r\<rparr>)"
proof -
  have l1: "look_ch p = (123, p)" using assms(2) by (rule look_same) (simp add: is_ws_def)
  have m1: "move_ch p = p\<lparr>cp := w @ 125 # r\<rparr>" using assms(2) by (simp add: move_ch_def)
  show ?thesis
    using look_close [OF assms(1), of 125 r p] look_close [of "[]" 125 r p]
    by (simp add: json_parse_object_def l1 m1 Let_def ws_alt move_ch_def [of "p\<lparr>cp := 125 # r\<rparr>"])
qed

lemma object_text:
  assumes "reads_items (\<lambda>f. json_parse_pair (json_parse_value strtod f)) ns d t" "starts {125} t" "chain ns = Some n" "ws w"
    and "cp p = 123 # t @ w @ 125 # r" "room p (Suc d)" "d \<le> fuel"
  shows "json_parse_object (json_parse_value strtod (Suc fuel)) p = Some (Some (json_object (Some n)), p\<lparr>cp := r\<rparr>)"
proof -
  let ?pair = "json_parse_pair (json_parse_value strtod (Suc fuel))"
  have l1: "look_ch p = (123, p)" using assms(5) by (rule look_same) (simp add: is_ws_def)
  have m1: "move_ch p = p\<lparr>cp := t @ w @ 125 # r\<rparr>" using assms(5) by (simp add: move_ch_def)
  obtain c p2 where l2: "look_ch (p\<lparr>cp := t @ w @ 125 # r\<rparr>) = (c, p2)" "c \<noteq> 125"
    using starts_look [OF assms(2), of "p\<lparr>cp := t @ w @ 125 # r\<rparr>" "w @ 125 # r"] by auto
  have p2: "parse_level p2 = parse_level p" "max_level p2 = max_level p"
    using kept_look [OF l2(1)] by (simp_all add: kept_def)
  define q where "q = p\<lparr>cp := t @ w @ 125 # r, parse_level := Suc (parse_level p)\<rparr>"
  have lq: "look_ch q = (c, p2\<lparr>parse_level := Suc (parse_level p)\<rparr>)"
    using l2(1) by (auto simp: look_ch_def Let_def q_def)
  have "json_parse_items ?pair (p2\<lparr>parse_level := Suc (parse_level p)\<rparr>) = json_parse_items ?pair q"
    using pair_look [OF lq] by (rule items_look)
  also have "\<dots> = Some (Some n, q\<lparr>cp := 125 # r\<rparr>)"
    using assms by (intro reads_itemsD [OF assms(1)]) (simp_all add: q_def)
  finally have i: "json_parse_members (json_parse_value strtod (Suc fuel)) (p2\<lparr>parse_level := Suc (parse_level p)\<rparr>) =
      Some (Some n, q\<lparr>cp := 125 # r\<rparr>)"
    by (simp only: json_parse_members_def)
  show ?thesis using assms(6) l2 i [unfolded q_def] p2 look_close [of "[]" 125 r p]
    by (simp add: json_parse_object_def l1 m1 Let_def ws_alt move_ch_def [of "p\<lparr>cp := 125 # r\<rparr>"] del: json_parse_value.simps)
qed

lemma pair_text:
  assumes "reads_value strtod v t'" "str_text k t" "ws w" "ws w'"
    and "cp p = (w @ 34 # t @ 34 # w' @ 58 # t') @ r" "delim r" "room p (jdepth v)" "jdepth v \<le> fuel"
  shows "json_parse_pair (json_parse_value strtod (Suc fuel)) p = Some (Some (pair_node (k, v)), p\<lparr>cp := r\<rparr>)"
proof -
  have s: "json_parse_string p = Some (Some (json_string k), p\<lparr>cp := w' @ 58 # t' @ r\<rparr>)"
    using assms(5,7) by (intro parse_string_text [OF assms(2,3)]) simp_all
  have l: "look_ch (p\<lparr>cp := w' @ 58 # t' @ r\<rparr>) = (58, p\<lparr>cp := 58 # t' @ r\<rparr>)"
    using look_ws [OF assms(4), of "p\<lparr>cp := w' @ 58 # t' @ r\<rparr>" 58 "t' @ r"] by (simp add: is_ws_def)
  have m: "move_ch (p\<lparr>cp := 58 # t' @ r\<rparr>) = p\<lparr>cp := t' @ r\<rparr>" by (simp add: move_ch_def)
  have "json_parse_value strtod (Suc fuel) (p\<lparr>cp := t' @ r\<rparr>) = Some (Some (repr v), p\<lparr>cp := r\<rparr>)"
    using reads_valueD [OF assms(1), of "p\<lparr>cp := t' @ r\<rparr>" r fuel] assms(5-8) by simp
  with s l m show ?thesis by (simp add: json_parse_pair_def del: json_parse_value.simps)
qed

lemma value_dispatch:
  assumes "cp p = c # s" "\<not> is_ws c"
  shows "c = 34 \<Longrightarrow> json_parse_value strtod (Suc fuel) p = json_parse_string p"
    "c \<in> set (str ''0123456789-'') \<Longrightarrow> json_parse_value strtod (Suc fuel) p = Some (json_parse_number strtod p)"
    "c = 123 \<Longrightarrow> json_parse_value strtod (Suc fuel) p = json_parse_object (json_parse_value strtod fuel) p"
    "c = 91 \<Longrightarrow> json_parse_value strtod (Suc fuel) p = json_parse_array (json_parse_value strtod fuel) p"
    "c \<in> set (str ''tfn'') \<Longrightarrow> json_parse_value strtod (Suc fuel) p = Some (json_parse_token p)"
  using look_same [OF assms] by (auto simp: strchr_ok_def)

lemma starts_space:
  assumes "ws w" "starts A t"
  shows "starts A (w @ t)"
proof -
  obtain w' c s where "t = w' @ c # s" "ws w'" "\<not> is_ws c" "c \<notin> A" using assms(2) by (auto simp: starts_def)
  then show ?thesis using assms(1) unfolding starts_def by (intro exI [of _ "w @ w'"] exI [of _ c] exI [of _ s]) (auto simp: ws_alt)
qed

lemma starts_byte: "\<not> is_ws c \<Longrightarrow> c \<notin> A \<Longrightarrow> starts A (c # s)"
  unfolding starts_def by (intro exI [of _ "[]"] exI [of _ c] exI [of _ s]) (auto simp: ws_alt)

lemma starts_append:
  assumes "starts A t"
  shows "starts A (t @ r)"
proof -
  obtain w c s where "t = w @ c # s" "ws w" "\<not> is_ws c" "c \<notin> A" using assms by (auto simp: starts_def)
  then show ?thesis unfolding starts_def by (intro exI [of _ w] exI [of _ c] exI [of _ "s @ r"]) simp
qed

lemma number_text_first: "number_text strtod d t \<Longrightarrow> \<exists>c s. t = c # s \<and> \<not> is_ws c \<and> c \<in> set (str ''0123456789-'')"
  using scan_number_first [of t "[]"] number_textD(1) [of strtod d t] by (cases t) (auto simp: is_ws_def)

lemma text_starts:
  "json_text strtod v t \<Longrightarrow> starts {93, 125} t"
  "elements_text strtod vs t \<Longrightarrow> starts {93, 125} t"
  "members_text strtod ms t \<Longrightarrow> starts {93, 125} t"
proof (induction rule: json_text_elements_text_members_text.inducts)
  case (text_number d t)
  then show ?case using number_text_first [of strtod d t] by (auto intro!: starts_byte)
qed (auto intro: starts_space starts_append intro!: starts_byte simp: is_ws_def)

lemma starts_mono: "starts A t \<Longrightarrow> B \<subseteq> A \<Longrightarrow> starts B t"
  unfolding starts_def by blast

lemma text_reads:
  "json_text strtod v t \<Longrightarrow> reads_value strtod v t"
  "elements_text strtod vs t \<Longrightarrow> vs \<noteq> [] \<and> reads_items (json_parse_value strtod) (map repr vs) (fold max (map jdepth vs) 0) t"
  "members_text strtod ms t \<Longrightarrow> ms \<noteq> [] \<and> reads_items (\<lambda>f. json_parse_pair (json_parse_value strtod f))
     (map pair_node ms) (fold max (map (\<lambda>m. jdepth (snd m)) ms) 0) t"
proof (induction rule: json_text_elements_text_members_text.inducts)
  case (text_space w v t)
  show ?case unfolding reads_value_def
  proof (intro allI impI, elim conjE)
    fix fuel r and p :: "'a json_parser"
    assume a: "cp p = (w @ t) @ r" "delim r" "room p (jdepth v)" "jdepth v \<le> fuel"
    let ?q = "p\<lparr>cp := t @ r\<rparr>"
    have "look_ch p = look_ch ?q" using a(1) text_space.hyps(1) by (simp add: look_ch_def Let_def ws_alt dropWhile_append2)
    then have "json_parse_value strtod (Suc fuel) p = json_parse_value strtod (Suc fuel) ?q" by simp
    also have "\<dots> = Some (Some (repr v), p\<lparr>cp := r\<rparr>)"
      using reads_valueD [OF text_space.IH(2), of ?q r fuel] a by simp
    finally show "json_parse_value strtod (Suc fuel) p = Some (Some (repr v), p\<lparr>cp := r\<rparr>)" .
  qed
next
  case (text_number d t)
  from number_text_first [OF text_number] obtain c s where
      t: "t = c # s" "\<not> is_ws c" "c \<in> set (str ''0123456789-'')" by (elim exE conjE)
  show ?case unfolding reads_value_def
  proof (intro allI impI, elim conjE)
    fix fuel r and p :: "'a json_parser"
    assume a: "cp p = t @ r" "delim r"
    show "json_parse_value strtod (Suc fuel) p = Some (Some (repr (JNum d)), p\<lparr>cp := r\<rparr>)"
      using value_dispatch(2) [of p c "s @ r" strtod fuel, OF _ t(2,3)] parse_number_text [OF text_number a] a(1) t(1)
      by (simp del: json_parse_value.simps)
  qed
next
  case (text_string s t)
  show ?case unfolding reads_value_def
  proof (intro allI impI, elim conjE)
    fix fuel r and p :: "'a json_parser"
    assume "cp p = (34 # t @ [34]) @ r" "room p (jdepth (JStr s :: 'a jv))"
    then show "json_parse_value strtod (Suc fuel) p = Some (Some (repr (JStr s)), p\<lparr>cp := r\<rparr>)"
      using value_dispatch(1) [of p 34] parse_string_text [OF text_string, of "[]" p r] by (simp add: is_ws_def ws_alt del: json_parse_value.simps)
  qed
next
  case (text_array0 w)
  show ?case unfolding reads_value_def
  proof (intro allI impI, elim conjE)
    fix fuel r and p :: "'a json_parser"
    assume a: "cp p = (91 # w @ [93]) @ r" "room p (jdepth (JArr [] :: 'a jv))"
    then show "json_parse_value strtod (Suc fuel) p = Some (Some (repr (JArr [])), p\<lparr>cp := r\<rparr>)"
      using value_dispatch(4) [of p 91] array_empty [OF text_array0, of p r] by (simp add: is_ws_def del: json_parse_value.simps)
  qed
next
  case (text_array vs t w)
  show ?case unfolding reads_value_def
  proof (intro allI impI, elim conjE)
    fix fuel r and p :: "'a json_parser"
    assume a: "cp p = (91 # t @ w @ [93]) @ r" "room p (jdepth (JArr vs))" "jdepth (JArr vs) \<le> fuel"
    obtain f where f: "fuel = Suc f" using a(3) by (cases fuel) auto
    obtain n where n: "chain (map repr vs) = Some n" using text_array.IH(2) by (cases vs) auto
    have "json_parse_array (json_parse_value strtod (Suc f)) p = Some (Some (json_array (Some n)), p\<lparr>cp := r\<rparr>)"
      using text_array.IH(2) a f n text_array.hyps starts_mono [OF text_starts(2) [OF text_array.IH(1)]]
      by (intro array_text [of strtod "map repr vs" "fold max (map jdepth vs) 0" t]) auto
    then show "json_parse_value strtod (Suc fuel) p = Some (Some (repr (JArr vs)), p\<lparr>cp := r\<rparr>)"
      using value_dispatch(4) [of p 91 _ strtod fuel] a(1) f n by (simp add: is_ws_def del: json_parse_value.simps)
  qed
next
  case (text_object0 w)
  show ?case unfolding reads_value_def
  proof (intro allI impI, elim conjE)
    fix fuel r and p :: "'a json_parser"
    assume a: "cp p = (123 # w @ [125]) @ r"
    then show "json_parse_value strtod (Suc fuel) p = Some (Some (repr (JObj [])), p\<lparr>cp := r\<rparr>)"
      using value_dispatch(3) [of p 123] object_empty [OF text_object0, of p r] by (simp add: is_ws_def repr_JObj del: json_parse_value.simps)
  qed
next
  case (text_object ms t w)
  show ?case unfolding reads_value_def
  proof (intro allI impI, elim conjE)
    fix fuel r and p :: "'a json_parser"
    assume a: "cp p = (123 # t @ w @ [125]) @ r" "room p (jdepth (JObj ms))" "jdepth (JObj ms) \<le> fuel"
    obtain f where f: "fuel = Suc f" using a(3) by (cases fuel) auto
    obtain n where n: "chain (map pair_node ms) = Some n" using text_object.IH(2) by (cases ms) auto
    have "json_parse_object (json_parse_value strtod (Suc f)) p = Some (Some (json_object (Some n)), p\<lparr>cp := r\<rparr>)"
      using text_object.IH(2) a f n text_object.hyps starts_mono [OF text_starts(3) [OF text_object.IH(1)]]
      by (intro object_text [of strtod "map pair_node ms" "fold max (map (\<lambda>m. jdepth (snd m)) ms) 0" t]) auto
    then show "json_parse_value strtod (Suc fuel) p = Some (Some (repr (JObj ms)), p\<lparr>cp := r\<rparr>)"
      using value_dispatch(3) [of p 123 _ strtod fuel] a(1) f n by (simp add: is_ws_def repr_JObj del: json_parse_value.simps)
  qed
next
  case (elements_one v t)
  then show ?case using reads_one [of t "jdepth v" "json_parse_value strtod" "repr v"] reads_valueD [OF elements_one.IH(2)]
    by (simp del: json_parse_value.simps)
next
  case (elements_more v t w vs t')
  then show ?case
    using reads_more [of t "jdepth v" "json_parse_value strtod" "repr v" "map repr vs" _ t' w] reads_valueD [OF elements_more.IH(2)]
    by (simp add: fold_max [of _ "jdepth v"] del: json_parse_value.simps)
next
  case (members_one w k t w' v t')
  then show ?case
    using reads_one [of "w @ 34 # t @ 34 # w' @ 58 # t'" "jdepth v" "\<lambda>f. json_parse_pair (json_parse_value strtod f)" "pair_node (k, v)"]
      pair_text [OF members_one.IH(2) members_one.hyps(2,1,3)]
    by (simp del: json_parse_value.simps)
next
  case (members_more w k t w' v t' w'' ms t'')
  then show ?case
    using reads_more [of "w @ 34 # t @ 34 # w' @ 58 # t'" "jdepth v" "\<lambda>f. json_parse_pair (json_parse_value strtod f)" "pair_node (k, v)"
        "map pair_node ms" _ t'' w''] pair_text [OF members_more.IH(2) members_more.hyps(2,1,3)]
    by (simp add: fold_max [of _ "jdepth v"] del: json_parse_value.simps)
qed (auto simp: reads_value_def value_dispatch(5) token_texts is_ws_def simp del: json_parse_value.simps)

lemma text_no_nul:
  "json_text strtod v t \<Longrightarrow> no_nul t"
  "elements_text strtod vs t \<Longrightarrow> no_nul t"
  "members_text strtod ms t \<Longrightarrow> no_nul t"
proof -
  have ws: "ws w \<Longrightarrow> no_nul w" for w by (auto simp: ws_alt is_ws_def)
  have str: "str_text s t \<Longrightarrow> no_nul t" for s t
    by (induction rule: str_text.induct)
      (auto dest!: hex_digit_value escape_table_simple dest: simple_escape_nonzero hex_value_class(8))
  show "json_text strtod v t \<Longrightarrow> no_nul t" "elements_text strtod vs t \<Longrightarrow> no_nul t" "members_text strtod ms t \<Longrightarrow> no_nul t"
    by (induction rule: json_text_elements_text_members_text.inducts) (auto dest: ws str number_textD(2))
qed

lemma look_end:
  assumes "ws (cp p)"
  shows "look_ch p = (0, p\<lparr>cp := []\<rparr>)"
proof -
  have "dropWhile is_ws (cp p) = []" using assms by (simp add: ws_alt)
  then show ?thesis by (simp only: look_ch_def Let_def) simp
qed

lemma parse_text:
  assumes "json_text strtod v t" "jdepth v \<le> 1000" "ws w" "length (t @ w) < json_int_max"
  shows "\<exists>p'. json_parser_parse strtod p (t @ w) = Some (Some (repr v), p') \<and> err_msg p' = None"
proof -
  have nn: "no_nul (t @ w)" using text_no_nul(1) [OF assms(1)] assms(3) by (auto simp: ws_alt is_ws_def)
  define p1 where "p1 = p\<lparr>pbuf := t @ w, cp := t @ w, err_msg := None, parse_level := 0, max_level := 1000\<rparr>"
  have "delim w" using assms(3) by (cases w) (auto simp: delim_def ws_def)
  then have v: "json_parse_value strtod (Suc 1000) p1 = Some (Some (repr v), p1\<lparr>cp := w\<rparr>)"
    using assms(2,4) by (intro reads_valueD [OF text_reads(1) [OF assms(1)]]) (simp_all add: p1_def)
  have "look_ch (p1\<lparr>cp := w\<rparr>) = (0, p1\<lparr>cp := []\<rparr>)" using look_end [of "p1\<lparr>cp := w\<rparr>"] assms(3) by simp
  then show ?thesis using v nn
    by (simp add: json_parser_parse_def Let_def p1_def del: json_parse_value.simps)
qed

section \<open>The writer produces the grammar\<close>

text \<open>
  The values the writer writes as JSON: strings hold no NUL, and \<^verbatim>\<open>%lg\<close> prints numbers in the syntax of
  the grammar, in less than the writer's buffer. \<open>g d\<close> is the number that \<^verbatim>\<open>strtod\<close> makes of the
  text printed for \<open>d\<close>.
\<close>

fun jv_ok :: "(byte list \<Rightarrow> 'd \<times> nat) \<Rightarrow> ('d \<Rightarrow> byte list) \<Rightarrow> ('d \<Rightarrow> 'd) \<Rightarrow> 'd jv \<Rightarrow> bool" where
  "jv_ok strtod lg g (JObj ms) \<longleftrightarrow> (\<forall>m \<in> set ms. no_nul (fst m) \<and> jv_ok strtod lg g (snd m))"
| "jv_ok strtod lg g (JArr vs) \<longleftrightarrow> (\<forall>v \<in> set vs. jv_ok strtod lg g v)"
| "jv_ok strtod lg g (JStr s) \<longleftrightarrow> no_nul s"
| "jv_ok strtod lg g (JNum d) \<longleftrightarrow> number_text strtod (g d) (lg d) \<and> length (lg d) \<le> 4094"
| "jv_ok strtod lg g _ \<longleftrightarrow> True"

lemma jdepth_map: "jdepth (map_jv g v) = jdepth v"
proof (induction v)
  case (JObj ms)
  have "map (\<lambda>m. jdepth (snd m)) (map (map_prod id (map_jv g)) ms) = map (\<lambda>m. jdepth (snd m)) ms"
    using JObj by (auto simp: snds.simps)
  then show ?case by (simp add: comp_def del: map_map)
next
  case (JArr vs)
  have "map jdepth (map (map_jv g) vs) = map jdepth vs" using JArr by auto
  then show ?case by (simp del: map_map)
qed simp_all

definition emits :: "(wrbuf \<Rightarrow> wrbuf cres) \<Rightarrow> (byte list \<Rightarrow> bool) \<Rightarrow> bool" where
  "emits f T \<longleftrightarrow> (\<forall>b. wrbuf_wf b \<longrightarrow>
     (\<exists>b' t. f b = Some b' \<and> wrbuf_wf b' \<and> wrbuf_content b' = wrbuf_content b @ t \<and> T t))"

lemma emits_text: "wr_appends f s \<Longrightarrow> T s \<Longrightarrow> emits f T"
  by (auto simp: emits_def appends_to_def)

lemma emits_bind:
  assumes "emits f S" "emits g T" "\<And>s u. S s \<Longrightarrow> T u \<Longrightarrow> U (s @ u)"
  shows "emits (\<lambda>b. do {b1 \<leftarrow> f b; g b1}) U"
  unfolding emits_def
proof (intro allI impI)
  fix b assume "wrbuf_wf b"
  then obtain b1 s where f: "f b = Some b1" "wrbuf_wf b1" "wrbuf_content b1 = wrbuf_content b @ s" "S s"
    using assms(1) unfolding emits_def by blast
  then obtain b2 u where g: "g b1 = Some b2" "wrbuf_wf b2" "wrbuf_content b2 = wrbuf_content b1 @ u" "T u"
    using assms(2) unfolding emits_def by blast
  show "\<exists>b' t. (do {b1 \<leftarrow> f b; g b1}) = Some b' \<and> wrbuf_wf b' \<and> wrbuf_content b' = wrbuf_content b @ t \<and> U t"
    using f g assms(3) [OF f(4) g(4)] by (intro exI [of _ b2] exI [of _ "s @ u"]) simp
qed

text \<open>Texts one after the other.\<close>

definition cat :: "(byte list \<Rightarrow> bool) \<Rightarrow> (byte list \<Rightarrow> bool) \<Rightarrow> byte list \<Rightarrow> bool" where
  "cat S T t \<longleftrightarrow> (\<exists>s u. t = s @ u \<and> S s \<and> T u)"

lemma emits_seq: "emits f S \<Longrightarrow> emits g T \<Longrightarrow> emits (\<lambda>b. do {b1 \<leftarrow> f b; g b1}) (cat S T)"
  by (erule emits_bind, assumption) (auto simp: cat_def)

lemma catE: "cat S T t \<Longrightarrow> (\<And>s u. t = s @ u \<Longrightarrow> S s \<Longrightarrow> T u \<Longrightarrow> thesis) \<Longrightarrow> thesis"
  by (auto simp: cat_def)

lemma emits_mono: "emits f S \<Longrightarrow> (\<And>s. S s \<Longrightarrow> T s) \<Longrightarrow> emits f T"
  unfolding emits_def by blast

lemma emits_puts: "no_nul s \<Longrightarrow> emits (\<lambda>b. wrbuf_puts b s) ((=) s)"
  by (rule emits_text [OF puts_appends_text]) simp_all

lemma emits_indent: "emits (\<lambda>b. json_indent b i) ws"
proof -
  have "wr_appends (\<lambda>b. for_each wrbuf_putc b (replicate n c)) (concat (map (\<lambda>c. [c]) (replicate n c)))" for n c
    by (rule wr.appends_each) (rule putc_appends)
  moreover have "concat (map (\<lambda>c. [c]) (replicate n c)) = replicate n c" for n and c :: byte
    by (induction n) simp_all
  ultimately have "emits (\<lambda>b. for_each wrbuf_putc b (replicate (nat i) (ch CHR '' ''))) ws"
    by (intro emits_text [of _ "replicate (nat i) (ch CHR '' '')"]) (simp_all add: ws_alt is_ws_def)
  moreover have "emits Some ws" using emits_text [OF wr.appends_nothing] by (simp add: ws_alt)
  ultimately show ?thesis unfolding emits_def json_indent_def Let_def by (auto simp: ws_alt)
qed

lemma hex_lower_digit: "d < 16 \<Longrightarrow> hex_digit (hex_lower d) d"
  by (simp add: hex_digit_def hex_lower_def)

lemma str_text_escape: "no_nul s \<Longrightarrow> str_text s (concat (map json_escape s))"
proof (induction s)
  case (Cons c s)
  then have IH: "str_text s (concat (map json_escape s))" "c \<noteq> 0" by simp_all
  note esc = str_escape [OF IH(1)]
  consider "0 < schar c \<and> schar c < 32" "c \<in> {8, 12, 10, 13, 9}" | "0 < schar c \<and> schar c < 32" "c \<notin> {8, 12, 10, 13, 9}"
    | "\<not> (0 < schar c \<and> schar c < 32)" "c \<in> {34, 92}" | "\<not> (0 < schar c \<and> schar c < 32)" "c \<notin> {34, 92}" by blast
  then show ?case
  proof cases
    case 1
    then show ?thesis using esc [of "ch CHR ''b''" 8] esc [of "ch CHR ''f''" 12] esc [of "ch CHR ''n''" 10]
        esc [of "ch CHR ''r''" 13] esc [of "ch CHR ''t''" 9]
      by (auto simp: json_escape_def [of c] escape_table_def)
  next
    case 2
    let ?h = "unat c div 16" and ?l = "unat c mod 16"
    have "str_text (utf8_ref (((0 * 16 + 0) * 16 + ?h) * 16 + ?l) @ s)
        (92 # 117 # hex_lower 0 # hex_lower 0 # hex_lower ?h # hex_lower ?l # concat (map json_escape s))"
      using byte_nibbles by (intro str_unicode IH(1) hex_lower_digit) simp_all
    moreover have "((0 * 16 + 0) * 16 + ?h) * 16 + ?l = unat c" by simp
    moreover have "utf8_ref (unat c) = [c]" using 2(1) by (simp add: schar_pos_iff utf8_ref_def)
    ultimately show ?thesis using 2 by (simp add: json_escape_def [of c])
  next
    case 3
    then show ?thesis using esc [of 34 34] esc [of 92 92] by (auto simp: json_escape_def [of c] escape_table_def)
  next
    case 4
    then have "32 \<le> unat c" using IH(2) schar_pos_iff [of c] by (cases "unat c = 0") (auto simp: unat_eq_0)
    then show ?thesis using 4 IH str_plain [OF IH(1), of c] by (auto simp: json_escape_def [of c])
  qed
qed (simp add: str_empty)

lemma elements_space: "ws w \<Longrightarrow> elements_text strtod vs t \<Longrightarrow> elements_text strtod vs (w @ t)"
proof (erule elements_text.cases, goal_cases)
  case (1 v t')
  then show ?case by (auto intro!: elements_one text_space)
next
  case (2 v t1 w1 vs1 t2)
  then show ?case using elements_more [OF text_space [OF 2(1,4)] 2(5,6)] by simp
qed

lemma members_space: "ws w \<Longrightarrow> members_text strtod ms t \<Longrightarrow> members_text strtod ms (w @ t)"
proof (erule members_text.cases, goal_cases)
  case (1 w1 k t1 w2 v t2)
  then have "ws (w @ w1)" by (auto simp: ws_alt)
  from members_one [OF this 1(5-7)] show ?case using 1 by simp
next
  case (2 w1 k t1 w2 v t2 w3 ms' t3)
  then have "ws (w @ w1)" by (auto simp: ws_alt)
  from members_more [OF this 2(5-9)] show ?case using 2 by simp
qed

lemma ws_Nil [simp]: "ws []" and ws_nl [simp]: "ws [10]" and ws_blank [simp]: "ws [32]"
  by (simp_all add: ws_alt is_ws_def)

lemma ws_append: "ws v \<Longrightarrow> ws w \<Longrightarrow> ws (v @ w)"
  by (auto simp: ws_alt)

text \<open>Optional line breaks and indentation are white space.\<close>

lemma emits_skip: "emits Some ws"
  by (rule emits_text [OF wr.appends_nothing]) simp

lemma emits_nl: "emits (\<lambda>b. if P then wrbuf_puts b [10] else Some b) ws"
  using emits_skip emits_mono [OF emits_puts [of "[10]"], of ws] by (cases P) auto

lemma emits_nl_indent: "emits (\<lambda>b. if P then do {c \<leftarrow> wrbuf_puts b [10]; json_indent c i} else Some b) ws"
proof -
  have "emits (\<lambda>b. do {c \<leftarrow> wrbuf_puts b [10]; json_indent c i}) ws"
    by (rule emits_bind [OF emits_puts emits_indent]) (auto intro: ws_append simp: ws_alt is_ws_def)
  then show ?thesis using emits_skip by (cases P) simp_all
qed

lemma emits_blank: "emits (\<lambda>b. if P then wrbuf_puts b (str '' '') else Some b) ws"
  using emits_skip emits_mono [OF emits_puts [of "[32]"], of ws] by (cases P) auto

lemma emits_opt_indent: "emits (\<lambda>b. if P then json_indent b i else Some b) ws"
  using emits_skip emits_indent by (cases P) simp_all

lemma emits_string: "no_nul s \<Longrightarrow> emits (\<lambda>b. json_write_wrbuf_r lg (json_string s) b i) (\<lambda>t. \<exists>u. str_text s u \<and> t = 34 # u @ [34])"
proof -
  assume nn: "no_nul s"
  have j: "emits (\<lambda>b. wrbuf_json_puts b s) (str_text s)"
    using emits_text [OF json_write_appends [of s], of "str_text s"] str_text_escape [OF nn] nn
    by (simp add: wrbuf_json_puts_def)
  show ?thesis unfolding json_write_wrbuf_r.simps
    by (rule emits_bind [OF emits_puts emits_bind [OF j emits_puts, of "[34]" "\<lambda>t. \<exists>u. str_text s u \<and> t = u @ [34]"]]) auto
qed

lemma emits_elements:
  "vs \<noteq> [] \<Longrightarrow> (\<And>v. v \<in> set vs \<Longrightarrow> emits (\<lambda>b. json_write_wrbuf_r lg (repr v) b i) (json_text strtod (h v))) \<Longrightarrow>
   chain (map repr vs) = Some n \<Longrightarrow> emits (\<lambda>b. json_write_wrbuf_r lg n b i) (elements_text strtod (map h vs))"
proof (induction vs arbitrary: n)
  case (Cons v vs)
  have v: "emits (\<lambda>b. json_write_wrbuf_r lg (repr v) b i) (json_text strtod (h v))" using Cons.prems(2) by simp
  show ?case
  proof (cases vs)
    case Nil
    then have "n = json_list (Some (repr v)) None" using Cons.prems(3) by simp
    then show ?thesis using Nil emits_mono [OF v elements_one] by simp
  next
    case (Cons v' vs')
    obtain m where m: "chain (map repr vs) = Some m" using Cons by simp
    have n: "n = json_list (Some (repr v)) (Some m)" using Cons.prems(3) m by simp
    have r: "emits (\<lambda>b. json_write_wrbuf_r lg m b i) (elements_text strtod (map h vs))"
      using Cons.IH [OF _ _ m] Cons.prems(2) Cons by simp
    have "emits (\<lambda>b. json_write_wrbuf_r lg n b i) (cat (json_text strtod (h v)) (cat ((=) [44]) (cat ws (elements_text strtod (map h vs)))))"
      using emits_seq [OF v emits_seq [OF emits_puts [of "[44]"] emits_seq [OF emits_nl [of "0 \<le> i"] r]]] by (simp add: n)
    then show ?thesis
    proof (rule emits_mono, elim catE)
      fix s t t1 t2 t3 t4 t5
      assume "s = t @ t1" "t1 = t2 @ t3" "[44] = t2" "t3 = t4 @ t5" "json_text strtod (h v) t" "ws t4" "elements_text strtod (map h vs) t5"
      then show "elements_text strtod (map h (v # vs)) s"
        using elements_more [of strtod "h v" t "[]" "map h vs" "t4 @ t5"] elements_space [of t4 strtod "map h vs" t5] by auto
    qed
  qed
qed simp

definition member_text :: "(byte list \<Rightarrow> 'd \<times> nat) \<Rightarrow> byte list \<times> 'd jv \<Rightarrow> byte list \<Rightarrow> bool" where
  "member_text strtod m u \<longleftrightarrow> (\<exists>w t w' t'. u = w @ 34 # t @ 34 # w' @ 58 # t' \<and> ws w \<and> str_text (fst m) t \<and> ws w' \<and>
     json_text strtod (snd m) t')"

lemma members_textI:
  "member_text strtod m u \<Longrightarrow> members_text strtod [m] u"
  "member_text strtod m u \<Longrightarrow> members_text strtod ms u' \<Longrightarrow> members_text strtod (m # ms) (u @ 44 # u')"
proof -
  assume "member_text strtod m u"
  then obtain w t w' t' where u: "u = w @ 34 # t @ 34 # w' @ 58 # t'" and
    m: "ws w" "str_text (fst m) t" "ws w'" "json_text strtod (snd m) t'"
    unfolding member_text_def by (elim exE conjE)
  show "members_text strtod [m] u" using members_one [OF m] u by simp
  assume "members_text strtod ms u'"
  then show "members_text strtod (m # ms) (u @ 44 # u')"
    using members_more [OF m, of "[]" ms u'] u by simp
qed

lemma emits_pair:
  assumes "no_nul k" "emits (\<lambda>b. json_write_wrbuf_r lg (repr v) b i) (json_text strtod v')"
  shows "emits (\<lambda>b. json_write_wrbuf_r lg (pair_node (k, v)) b i) (member_text strtod (k, v'))"
proof -
  have "emits (\<lambda>b. json_write_wrbuf_r lg (pair_node (k, v)) b i)
      (cat ws (cat (\<lambda>t. \<exists>u. str_text k u \<and> t = 34 # u @ [34]) (cat ((=) [58]) (cat ws (json_text strtod v')))))"
    using emits_seq [OF emits_opt_indent [of "0 \<le> i" i] emits_seq [OF emits_string [OF assms(1), of lg i]
        emits_seq [OF emits_puts [of "[58]"] emits_seq [OF emits_blank [of "0 \<le> i"] assms(2)]]]]
    by simp
  then show ?thesis
  proof (rule emits_mono, elim catE exE conjE)
    fix s w t1 t2 t3 u t4 t5 w' t'
    assume "s = w @ t1" "t1 = t2 @ t3" "t2 = 34 # u @ [34]" "t3 = t4 @ t5" "[58] = t4" "t5 = w' @ t'"
      and a: "ws w" "str_text k u" "ws w'" "json_text strtod v' t'"
    then have s: "s = w @ 34 # u @ 34 # [] @ 58 # w' @ t'" by auto
    show "member_text strtod (k, v') s"
      unfolding member_text_def s using a text_space [OF a(3,4)]
      by (intro exI [of _ w] exI [of _ u] exI [of _ "[]"] exI [of _ "w' @ t'"]) simp
  qed
qed

lemma emits_members:
  "ms \<noteq> [] \<Longrightarrow> (\<And>m. m \<in> set ms \<Longrightarrow> emits (\<lambda>b. json_write_wrbuf_r lg (pair_node m) b i) (member_text strtod (h m))) \<Longrightarrow>
   chain (map pair_node ms) = Some n \<Longrightarrow> emits (\<lambda>b. json_write_wrbuf_r lg n b i) (members_text strtod (map h ms))"
proof (induction ms arbitrary: n)
  case (Cons v vs)
  have v: "emits (\<lambda>b. json_write_wrbuf_r lg (pair_node v) b i) (member_text strtod (h v))" using Cons.prems(2) by simp
  show ?case
  proof (cases vs)
    case Nil
    then have "n = json_list (Some (pair_node v)) None" using Cons.prems(3) by simp
    then show ?thesis using Nil emits_mono [OF v members_textI(1)] by simp
  next
    case (Cons v' vs')
    obtain m where m: "chain (map pair_node vs) = Some m" using Cons by simp
    have n: "n = json_list (Some (pair_node v)) (Some m)" using Cons.prems(3) m by simp
    have r: "emits (\<lambda>b. json_write_wrbuf_r lg m b i) (members_text strtod (map h vs))"
      using Cons.IH [OF _ _ m] Cons.prems(2) Cons by simp
    have "emits (\<lambda>b. json_write_wrbuf_r lg n b i) (cat (member_text strtod (h v)) (cat ((=) [44]) (cat ws (members_text strtod (map h vs)))))"
      using emits_seq [OF v emits_seq [OF emits_puts [of "[44]"] emits_seq [OF emits_nl [of "0 \<le> i"] r]]] by (simp add: n)
    then show ?thesis
    proof (rule emits_mono, elim catE)
      fix s t t1 t2 t3 t4 t5
      assume "s = t @ t1" "t1 = t2 @ t3" "[44] = t2" "t3 = t4 @ t5" "member_text strtod (h v) t" "ws t4" "members_text strtod (map h vs) t5"
      then show "members_text strtod (map h (v # vs)) s"
        using members_textI(2) [of strtod "h v" t "map h vs" "t4 @ t5"] members_space [of t4 strtod "map h vs" t5] by auto
    qed
  qed
qed simp

lemma emits_value:
  "jv_ok strtod lg g v \<Longrightarrow> emits (\<lambda>b. json_write_wrbuf_r lg (repr v) b i) (json_text strtod (map_jv g v))"
proof (induction v arbitrary: i)
  case (JArr vs)
  let ?j = "if i \<ge> 0 then i + 2 else -1"
  show ?case
  proof (cases "vs = []")
    case True
    then have "emits (\<lambda>b. json_write_wrbuf_r lg (repr (JArr vs)) b i) (cat ws (cat ((=) [91]) ((=) [93])))"
      using emits_seq [OF emits_indent [of i] emits_seq [OF emits_puts [of "[91]"] emits_puts [of "[93]"]]] by simp
    then show ?thesis
      by (rule emits_mono) (use True text_space [OF _ text_array0 [of "[]"]] in \<open>auto elim!: catE\<close>)
  next
    case False
    then obtain n where n: "chain (map repr vs) = Some n" by (cases vs) auto
    have r: "emits (\<lambda>b. json_write_wrbuf_r lg n b ?j) (elements_text strtod (map (map_jv g) vs))"
      using JArr by (intro emits_elements [OF False _ n]) auto
    have "emits (\<lambda>b. json_write_wrbuf_r lg (repr (JArr vs)) b i)
        (cat ws (cat ((=) [91]) (cat (cat ws (cat (elements_text strtod (map (map_jv g) vs)) ws)) ((=) [93]))))"
      using emits_seq [OF emits_indent [of i] emits_seq [OF emits_puts [of "[91]"]
          emits_seq [OF emits_seq [OF emits_nl [of "0 \<le> i"] emits_seq [OF r emits_nl_indent [of "0 \<le> i" i]]] emits_puts [of "[93]"]]]]
      by (simp add: n Let_def)
    then show ?thesis
    proof (rule emits_mono, elim catE)
      fix s w t1 t2 t3 t4 t5 w1 t6 t7 w2
      assume a: "s = w @ t1" "t1 = t2 @ t3" "[91] = t2" "t3 = t4 @ t5" "[93] = t5" "t4 = w1 @ t6" "t6 = t7 @ w2"
        "ws w" "ws w1" "elements_text strtod (map (map_jv g) vs) t7" "ws w2"
      then have "json_text strtod (JArr (map (map_jv g) vs)) (91 # (w1 @ t7) @ w2 @ [93])" by (intro text_array elements_space)
      from text_space [OF a(8) this] show "json_text strtod (map_jv g (JArr vs)) s" using a by auto
    qed
  qed
next
  case (JObj ms)
  let ?h = "map_prod id (map_jv g)"
  let ?j = "if i \<ge> 0 then i + 2 else -1"
  show ?case
  proof (cases "ms = []")
    case True
    then have "emits (\<lambda>b. json_write_wrbuf_r lg (repr (JObj ms)) b i) (cat ws (cat ((=) [123]) ((=) [125])))"
      using emits_seq [OF emits_indent [of i] emits_seq [OF emits_puts [of "[123]"] emits_puts [of "[125]"]]] by (simp add: repr_JObj)
    then show ?thesis
      by (rule emits_mono) (use True text_space [OF _ text_object0 [of "[]"]] in \<open>auto elim!: catE\<close>)
  next
    case False
    then obtain n where n: "chain (map pair_node ms) = Some n" by (cases ms) auto
    have "emits (\<lambda>b. json_write_wrbuf_r lg (pair_node m) b ?j) (member_text strtod (?h m))" if "m \<in> set ms" for m
      using emits_pair [of "fst m" lg "snd m" ?j strtod "map_jv g (snd m)"] JObj that by (cases m) fastforce
    then have r: "emits (\<lambda>b. json_write_wrbuf_r lg n b ?j) (members_text strtod (map ?h ms))"
      by (intro emits_members [OF False _ n])
    have "emits (\<lambda>b. json_write_wrbuf_r lg (repr (JObj ms)) b i)
        (cat ws (cat ((=) [123]) (cat (cat ws (cat (members_text strtod (map ?h ms)) ws)) ((=) [125]))))"
      using emits_seq [OF emits_indent [of i] emits_seq [OF emits_puts [of "[123]"]
          emits_seq [OF emits_seq [OF emits_nl_indent [of "0 \<le> i" ?j] emits_seq [OF r emits_nl_indent [of "0 \<le> i" i]]] emits_puts [of "[125]"]]]]
      by (simp add: n Let_def repr_JObj)
    then show ?thesis
    proof (rule emits_mono, elim catE)
      fix s w t1 t2 t3 t4 t5 w1 t6 t7 w2
      assume a: "s = w @ t1" "t1 = t2 @ t3" "[123] = t2" "t3 = t4 @ t5" "[125] = t5" "t4 = w1 @ t6" "t6 = t7 @ w2"
        "ws w" "ws w1" "members_text strtod (map ?h ms) t7" "ws w2"
      then have "json_text strtod (JObj (map ?h ms)) (123 # (w1 @ t7) @ w2 @ [125])" by (intro text_object members_space)
      from text_space [OF a(8) this] show "json_text strtod (map_jv g (JObj ms)) s" using a by auto
    qed
  qed
next
  case (JStr s)
  then have "no_nul s" by simp
  from emits_string [OF this] show ?case by (auto intro: emits_mono text_string)
next
  case (JNum d)
  then show ?case by (auto dest: number_textD(2) intro!: emits_text [OF printf_appends] text_number)
next
  case JTrue
  then show ?case by (auto intro!: emits_text [OF puts_appends_text] text_true [simplified])
next
  case JFalse
  then show ?case by (auto intro!: emits_text [OF puts_appends_text] text_false [simplified])
next
  case JNull
  then show ?case by (auto intro!: emits_text [OF puts_appends_text] text_null [simplified])
qed

text \<open>What the writer needs of a value, without \<^verbatim>\<open>strtod\<close>.\<close>

fun printable_jv :: "('d \<Rightarrow> byte list) \<Rightarrow> 'd jv \<Rightarrow> bool" where
  "printable_jv lg (JObj ms) \<longleftrightarrow> (\<forall>m \<in> set ms. no_nul (fst m) \<and> printable_jv lg (snd m))"
| "printable_jv lg (JArr vs) \<longleftrightarrow> (\<forall>v \<in> set vs. printable_jv lg v)"
| "printable_jv lg (JStr s) \<longleftrightarrow> no_nul s"
| "printable_jv lg (JNum d) \<longleftrightarrow> number_syntax (lg d) \<and> length (lg d) \<le> 4094"
| "printable_jv lg _ \<longleftrightarrow> True"

lemma printable_ok:
  assumes "\<And>t r. number_syntax t \<Longrightarrow> delim r \<Longrightarrow> strtod (t @ r) = (fst (strtod t), length t)"
  shows "printable_jv lg v \<Longrightarrow> jv_ok strtod lg (\<lambda>d. fst (strtod (lg d))) v"
proof (induction v)
  case (JObj ms)
  then show ?case by (fastforce simp: snds.simps)
qed (auto simp: number_text_def assms)

section \<open>Access to trees\<close>

lemma count_chain: "count_loop (chain ns) = Some (length ns)"
  by (induction ns) auto

lemma elem_chain: "elem_loop (chain ns) i = Some (if nat i < length ns then Some (ns ! nat i) else None)"
proof (induction ns arbitrary: i)
  case (Cons n ns)
  show ?case
  proof (cases "i < 1")
    case False
    then have "nat i = Suc (nat (i - 1))" by simp
    then show ?thesis using Cons [of "i - 1"] False by simp
  qed simp
qed simp

lemma append_chain: "append_link (chain ns) (chain ms) = Some (chain (ns @ ms))"
  by (induction ns) auto

lemma object_chain:
  "objectp_loop (chain (map pair_node ms)) name =
     Some (map_option (\<lambda>m. Some (repr (snd m))) (find (\<lambda>m. cstr (fst m) = cstr name) ms))"
  by (induction ms) (auto simp: pair_named_def)

lemma list_write_None:
  "n0 = None \<or> (\<forall>b. \<exists>n. n0 = Some n \<and> json_write_wrbuf_r lg n b i = None) \<or>
   (\<forall>b. \<exists>n. n1 = Some n \<and> json_write_wrbuf_r lg n b i = None) \<Longrightarrow> json_write_wrbuf_r lg (json_list n0 n1) b i = None"
  by (auto simp: bind_eq_None_conv split: option.splits)

lemma cleared_write_None:
  "find (\<lambda>m. cstr (fst m) = cstr name) ms \<noteq> None \<Longrightarrow>
   \<exists>n. clear_pair (chain (map pair_node ms)) name = Some n \<and> (\<forall>b. json_write_wrbuf_r lg n b i = None)"
proof (induction ms)
  case (Cons m ms)
  show ?case
  proof (cases "cstr (fst m) = cstr name")
    case True
    have "json_write_wrbuf_r lg (json_pair (Some (json_string k)) None) b i = None" for k b
      by (auto simp: bind_eq_None_conv)
    then show ?thesis using True by (auto simp: pair_named_def simp del: json_write_wrbuf_r.simps intro!: list_write_None)
  next
    case False
    with Cons obtain n where n: "clear_pair (chain (map pair_node ms)) name = Some n" "\<forall>b. json_write_wrbuf_r lg n b i = None"
      by auto
    then show ?thesis using False by (auto simp: pair_named_def simp del: json_write_wrbuf_r.simps intro!: list_write_None)
  qed
qed simp

section \<open>Properties\<close>

text \<open>
  C27: what the writer writes, the parser reads. Take a JSON value whose strings hold no NUL, whose nesting is
  at most 1000 and whose numbers \<^verbatim>\<open>%lg\<close> prints in the number syntax of JSON (as it does for finite
  numbers), and let \<^verbatim>\<open>strtod\<close> read a number of that syntax to its end, whatever may follow a value
  behind it. Then the compact and the pretty printed text, where the buffer stays below 2^31 - 1 bytes, parse to the tree that
  was written, with each number \<open>d\<close> replaced by what \<^verbatim>\<open>strtod\<close> makes of its printed text: only the
  precision of \<^verbatim>\<open>%lg\<close> is lost.
\<close>

theorem json_write_parse:
  fixes strtod :: "byte list \<Rightarrow> 'd \<times> nat" and lg :: "'d \<Rightarrow> byte list"
  assumes "\<And>t r. number_syntax t \<Longrightarrow> delim r \<Longrightarrow> strtod (t @ r) = (fst (strtod t), length t)"
    and "printable_jv lg v" "jdepth v \<le> 1000" "wrbuf_wf b"
    and "wfun = json_write_wrbuf lg \<or> wfun = json_write_wrbuf_pretty lg"
    and "length (wrbuf_content (the (wfun (repr v) b))) < 2147483647"
  shows "\<exists>b' t. wfun (repr v) b = Some b' \<and> wrbuf_wf b' \<and> wrbuf_content b' = wrbuf_content b @ t \<and>
    json_parse strtod fresh t = Some (Some (repr (map_jv (\<lambda>d. fst (strtod (lg d))) v)), None)"
proof -
  let ?g = "\<lambda>d. fst (strtod (lg d))"
  obtain i where i: "wfun = (\<lambda>n b. json_write_wrbuf_r lg n b i)"
    using assms(5) by (auto simp: json_write_wrbuf_def [abs_def] json_write_wrbuf_pretty_def [abs_def])
  have ok: "jv_ok strtod lg ?g v" using printable_ok [OF assms(1,2)] .
  obtain b' t where b': "wfun (repr v) b = Some b'" "wrbuf_wf b'" "wrbuf_content b' = wrbuf_content b @ t"
      "json_text strtod (map_jv ?g v) t"
    using emits_value [OF ok, of i] assms(4) unfolding emits_def i by blast
  have "length t < 2147483647" using assms(6) b'(1,3) by simp
  then have "json_parse strtod fresh t = Some (Some (repr (map_jv ?g v)), None)"
    using parse_text [OF b'(4), of "[]" "json_parser_create fresh"] assms(3)
    by (auto simp: json_parse_def json_parse2_def jdepth_map json_int_max_def)
  with b' show ?thesis by blast
qed

text \<open>A \<^verbatim>\<open>strtod\<close> whose numbers are their texts, up to the next delimiter.\<close>

definition number_span :: "byte list \<Rightarrow> byte list" where
  "number_span s = takeWhile (\<lambda>c. c \<notin> {44, 93, 125, 32, 9, 10, 13}) s"

lemma number_span_text: "number_syntax t \<Longrightarrow> delim r \<Longrightarrow> number_span (t @ r) = t"
proof -
  assume t: "number_syntax t" and r: "delim r"
  have d: "c \<notin> {44, 93, 125, 32, 9, 10, 13}" if "all_digits ds" "c \<in> set ds" for c ds
    using that by (auto simp: all_digits_def)
  have "\<forall>c \<in> set t. c \<notin> {44, 93, 125, 32, 9, 10, 13}"
    using t by (auto simp: number_syntax_def int_part_def frac_part_def exp_part_def dest: d)
  moreover have "takeWhile (\<lambda>c. c \<notin> {44, 93, 125, 32, 9, 10, 13}) r = []" using r by (cases r) (auto simp: delim_def)
  ultimately show "number_span (t @ r) = t" by (simp add: number_span_def takeWhile_append2)
qed

definition text_strtod :: "byte list \<Rightarrow> byte list \<times> nat" where
  "text_strtod s = (number_span s, length (number_span s))"

lemma text_strtod_text: "number_syntax t \<Longrightarrow> delim r \<Longrightarrow> text_strtod (t @ r) = (t, length t)"
  by (simp add: text_strtod_def number_span_text)

lemma number_syntaxI:
  "sign \<in> {[], [45]} \<Longrightarrow> int_part ip \<Longrightarrow> frac_part fp \<Longrightarrow> exp_part xp \<Longrightarrow> number_syntax (sign @ ip @ fp @ xp)"
  unfolding number_syntax_def by blast

lemma number_1234567: "number_syntax (str ''1.23457e+06'')"
proof -
  have "exp_part (101 # [43] @ str ''06'')"
    unfolding exp_part_def by (intro disjI2 exI conjI, rule refl) (simp_all add: all_digits_def)
  then have "number_syntax ([] @ str ''1'' @ str ''.23457'' @ 101 # [43] @ str ''06'')"
    by (intro number_syntaxI) (simp_all add: int_part_def frac_part_def all_digits_def)
  then show ?thesis by simp
qed

theorem json_write_parse_witness:
  "\<exists>b' t. json_write_wrbuf_pretty (\<lambda>d. d) (repr (JObj [(str ''a'', JArr [JNum (str ''1.23457e+06''), JTrue])])) (wrbuf_alloc (\<lambda>i. 0)) = Some b' \<and>
    wrbuf_wf b' \<and> wrbuf_content b' = wrbuf_content (wrbuf_alloc (\<lambda>i. 0)) @ t \<and>
    json_parse text_strtod \<lparr>pbuf = [], cp = [], err_msg = None, parse_level = 0, max_level = 0, subst = []\<rparr> t =
      Some (Some (repr (map_jv (\<lambda>d. fst (text_strtod d)) (JObj [(str ''a'', JArr [JNum (str ''1.23457e+06''), JTrue])]))), None)"
proof (rule json_write_parse [where lg = "\<lambda>d. d" and wfun = "json_write_wrbuf_pretty (\<lambda>d. d)"])
  show "text_strtod (t @ r) = (fst (text_strtod t), length t)" if "number_syntax t" "delim r" for t r
    using text_strtod_text [OF that] text_strtod_text [OF that(1), of "[]"] by (simp add: delim_def)
  show "printable_jv (\<lambda>d. d) (JObj [(str ''a'', JArr [JNum (str ''1.23457e+06''), JTrue])])"
    using number_1234567 by (simp del: list.map)
  show "jdepth (JObj [(str ''a'', JArr [JNum (str ''1.23457e+06''), JTrue])]) \<le> 1000" by simp
  show "wrbuf_wf (wrbuf_alloc (\<lambda>i. 0))" by (rule wrbuf_alloc_wf)
  have "length (wrbuf_content (the (json_write_wrbuf_pretty (\<lambda>d. d) (repr (JObj [(str ''a'', JArr [JNum (str ''1.23457e+06''), JTrue])])) (wrbuf_alloc (\<lambda>i. 0))))) \<le> 100"
    by code_simp
  then show "length (wrbuf_content (the (json_write_wrbuf_pretty (\<lambda>d. d) (repr (JObj [(str ''a'', JArr [JNum (str ''1.23457e+06''), JTrue])])) (wrbuf_alloc (\<lambda>i. 0))))) < 2147483647"
    by linarith
qed (rule disjI2, rule refl)


lemma string_example: "str_text ([9, 0xC3, 0xA9, 97] :: byte list) (92 # 116 # 92 # 117 # str ''00E9a'')"
proof -
  have "str_text (9 # utf8_ref (((0 * 16 + 0) * 16 + 14) * 16 + 9) @ 97 # []) (92 # 116 # 92 # 117 # 48 # 48 # 69 # 57 # 97 # [])"
    by (intro str_escape str_unicode str_plain str_empty) (simp_all add: escape_table_def hex_digit_def)
  then show ?thesis by (simp add: utf8_ref_def byte_of_def)
qed


text \<open>
  C29: the parser returns on every input of less than 2^31 - 1 bytes (behind that the length of a string may
  overflow), and either reports an error message and no tree, or no error and a tree that has the shape of a
  JSON value.
\<close>

theorem json_parse_total:
  assumes "length (cstr s) < 2147483647"
  shows "\<exists>n e. json_parse strtod fresh s = Some (n, e) \<and>
    (case n of None \<Rightarrow> e \<noteq> None | Some m \<Rightarrow> e = None \<and> (\<exists>v. m = repr v))"
proof -
  obtain n p' where p: "json_parser_parse strtod (json_parser_create fresh) s = Some (n, p')"
      "n = None \<longleftrightarrow> err_msg p' \<noteq> None" "\<forall>m. n = Some m \<longrightarrow> is_value m \<and> deref (cp p') = 0"
    using parser_parse_outcome [of "json_parser_create fresh" s strtod] assms
    by (auto simp: json_parser_create_def json_int_max_def)
  then show ?thesis
    by (cases n) (auto simp: json_parse_def json_parse2_def json_parser_get_errmsg_def is_value_def)
qed

theorem json_parse_total_witness:
  "\<exists>n e. json_parse text_strtod \<lparr>pbuf = [], cp = [], err_msg = None, parse_level = 0, max_level = 0, subst = []\<rparr> (str ''[tru]'') = Some (n, e) \<and>
    (case n of None \<Rightarrow> e \<noteq> None | Some m \<Rightarrow> e = None \<and> (\<exists>v. m = repr v))"
  by (rule json_parse_total) simp

text \<open>
  C31: the string buffer has the right size. On a text of less than 2^31 - 1 bytes the first pass counts
  without overflow the bytes that the second pass writes, and ends at the same place; with the terminator they fit
  the \<open>l + 1\<close> bytes allocated, which is an \<open>int\<close> again. So \<open>json_parse_string\<close> neither overflows nor writes
  behind its buffer, and returns.
\<close>

theorem json_string_fits:
  assumes "length s < 2147483647" "length (cp p) < 2147483647"
  shows "string_len s 0 = Some (map_option (\<lambda>(dst, r). (length dst, r)) (string_copy s [])) \<and>
    (case string_copy s [] of None \<Rightarrow> True | Some (dst, r) \<Rightarrow> length (dst @ [0]) \<le> 2147483647) \<and>
    (\<exists>r. json_parse_string p = Some r)"
  using string_passes_agree [of 0 s "[]"] parse_string_outcome [of p] assms by (auto simp: json_int_max_def split: option.splits)

theorem json_string_fits_witness:
  "string_len (str ''ab'' @ [34]) 0 = Some (map_option (\<lambda>(dst, r). (length dst, r)) (string_copy (str ''ab'' @ [34]) [])) \<and>
    (case string_copy (str ''ab'' @ [34]) [] of None \<Rightarrow> True | Some (dst, r) \<Rightarrow> length (dst @ [0]) \<le> 2147483647) \<and>
    (\<exists>r. json_parse_string \<lparr>pbuf = [], cp = 34 # str ''ab'' @ [34], err_msg = None, parse_level = 0, max_level = 0, subst = [] :: (int \<times> int json_node) list\<rparr> = Some r)"
  by (rule json_string_fits) simp_all

text \<open>
  C30: the accessors work on the sequence a tree represents: children are counted, elements are found
  by index, members by the first name that matches, and appending an array concatenates.
\<close>

theorem json_access:
  "json_count_children (Some (repr (JArr vs))) = Some (length vs) \<and>
   json_count_children (Some (repr (JObj ms))) = Some (length ms) \<and>
   json_get_elem (Some (repr (JArr vs))) i = Some (if nat i < length vs then Some (repr (vs ! nat i)) else None) \<and>
   json_get_object (Some (repr (JObj ms))) name =
     Some (map_option (\<lambda>m. repr (snd m)) (find (\<lambda>m. cstr (fst m) = cstr name) ms)) \<and>
   json_append_array (Some (repr (JArr vs))) (Some (repr (JArr vs'))) = Some (0, Some (repr (JArr (vs @ vs'))))"
proof -
  have "json_get_object (Some (repr (JObj ms))) name =
      Some (map_option (\<lambda>m. repr (snd m)) (find (\<lambda>m. cstr (fst m) = cstr name) ms))"
    by (cases "find (\<lambda>m. cstr (fst m) = cstr name) ms")
      (simp_all add: json_get_object_def json_get_objectp_def repr_JObj object_chain)
  then show ?thesis
    by (simp add: json_count_children_def json_get_elem_def json_append_array_def repr_JObj count_chain elem_chain
        append_chain)
qed

text \<open>
  An object from which a member was detached cannot be written: \<open>json_detach_object\<close> leaves a
  pair with a null value behind, and the writer reads a node through it.
\<close>

theorem json_detach_write_undefined:
  assumes "find (\<lambda>m. cstr (fst m) = cstr name) ms = Some m"
  shows "\<exists>n. json_detach_object (Some (repr (JObj ms))) name = Some (Some (repr (snd m)), Some n) \<and>
    json_write_wrbuf lg n b = None"
proof -
  obtain k where k: "clear_pair (chain (map pair_node ms)) name = Some k" "\<forall>b. json_write_wrbuf_r lg k b (-1) = None"
    using cleared_write_None [of name ms lg "-1"] assms by auto
  have "json_detach_object (Some (repr (JObj ms))) name = Some (Some (repr (snd m)), Some (json_object (Some k)))"
    using k(1) assms by (simp add: json_detach_object_def json_get_objectp_def repr_JObj object_chain)
  moreover have "json_write_wrbuf lg (json_object (Some k)) b = None"
    using k(2) by (auto simp: json_write_wrbuf_def bind_eq_None_conv Let_def)
  ultimately show ?thesis by blast
qed

theorem json_detach_write_undefined_witness:
  "\<exists>n. json_detach_object (Some (repr (JObj [(str ''a'', JTrue)]))) (str ''a'') =
      Some (Some (repr (snd (str ''a'', JTrue :: int jv))), Some n) \<and>
    json_write_wrbuf (\<lambda>d. []) n (wrbuf_alloc (\<lambda>i. 0)) = None"
  by (rule json_detach_write_undefined) simp

end
