(* ===== verification/Yaz_Match.thy ===== *)
theory Yaz_Match
  imports Yaz_Prelude
begin

text \<open>
  String comparison of \<^verbatim>\<open>matchstr.c\<close> and glob matching of \<^verbatim>\<open>match_glob.c\<close>. A C string is the list of
  its bytes without the terminator, except where a function is given a count and may read behind the
  terminator: there the list has all bytes that may be read.
\<close>

section \<open>Comparison (matchstr.c)\<close>

definition lower :: "byte \<Rightarrow> byte" where
  "lower c = (if yaz_isupper c then yaz_tolower c else c)"

fun yaz_strncasecmp :: "byte list \<Rightarrow> byte list \<Rightarrow> nat \<Rightarrow> int cres" where
  "yaz_strncasecmp s1 s2 0 = Some 0"
| "yaz_strncasecmp (c1 # s1) (c2 # s2) (Suc n) =
     (if lower c1 \<noteq> lower c2 then Some (uint (lower c1) - uint (lower c2)) else yaz_strncasecmp s1 s2 n)"
| "yaz_strncasecmp _ _ (Suc n) = None"

definition yaz_strcasecmp :: "byte list \<Rightarrow> byte list \<Rightarrow> int cres" where
  "yaz_strcasecmp s1 s2 = yaz_strncasecmp (s1 @ [0]) (s2 @ [0]) (length s1 + 1)"

text \<open>The return value of \<open>yaz_matchstr\<close> is 0 (\<^const>\<open>True\<close> here) when the strings match.\<close>

function yaz_matchstr :: "byte list \<Rightarrow> byte list \<Rightarrow> bool" where
  "yaz_matchstr s1 s2 =
     (if deref s1 = 0 \<or> deref s2 = 0 then deref s1 = 0 \<and> deref s2 = 0
      else if deref s2 = ch CHR ''?'' then True
      else let s1' = (if deref s1 = ch CHR ''-'' then tl s1 else s1);
               s2' = (if deref s2 = ch CHR ''-'' then tl s2 else s2)
        in if deref s1' = 0 \<or> deref s2' = 0 then deref s1' = 0 \<and> deref s2' = 0
           else if deref s2' \<noteq> ch CHR ''.'' \<and> lower (deref s1') \<noteq> lower (deref s2') then deref s1' = 0 \<and> deref s2' = 0
           else yaz_matchstr (tl s1') (tl s2'))"
  by pat_completeness auto
termination
  by (relation "measure (\<lambda>(s1, s2). length s1)") (auto simp: Let_def deref_def split: list.splits if_splits)

declare yaz_matchstr.simps [simp del]

text \<open>Characters are signed here.\<close>

fun yaz_strcmp_del :: "byte list \<Rightarrow> byte list \<Rightarrow> byte list option \<Rightarrow> int" where
  "yaz_strcmp_del (x # a) (y # b) b_del =
     (if x \<noteq> y then schar x - schar y else yaz_strcmp_del a b b_del)"
| "yaz_strcmp_del a b b_del =
     (case b_del of
        Some d \<Rightarrow> if strchr_ok d (deref b) then schar (deref a) else schar (deref a) - schar (deref b)
      | None \<Rightarrow> schar (deref a) - schar (deref b))"

text \<open>Of the results of \<^verbatim>\<open>memcmp\<close> and \<^verbatim>\<open>strcmp\<close> only the sign is specified.\<close>

fun memcmp :: "byte list \<Rightarrow> byte list \<Rightarrow> nat \<Rightarrow> int" where
  "memcmp (x # a) (y # b) (Suc n) = (if x < y then -1 else if y < x then 1 else memcmp a b n)"
| "memcmp _ _ _ = 0"

definition yaz_memcmp :: "byte list \<Rightarrow> byte list \<Rightarrow> int" where
  "yaz_memcmp a b =
     (let m_len = min (length a) (length b); r = memcmp a b m_len
      in if r \<noteq> 0 then r else wrap32 (int (length a) - int (length b)))"

definition strcmp :: "byte list \<Rightarrow> byte list \<Rightarrow> int" where
  "strcmp a b = memcmp (a @ [0]) (b @ [0]) (length a + 1)"

definition yaz_strcmp_null :: "byte list option \<Rightarrow> byte list option \<Rightarrow> int" where
  "yaz_strcmp_null v1 v2 =
     (case v1 of
        Some a \<Rightarrow> (case v2 of Some b \<Rightarrow> strcmp a b | None \<Rightarrow> 1)
      | None \<Rightarrow> (case v2 of Some _ \<Rightarrow> -1 | None \<Rightarrow> 0))"

section \<open>Glob patterns (match_glob.c)\<close>

text \<open>\<^verbatim>\<open>tolower\<close> of the C locale. The loop over the tx behind a star is \<open>glob_star\<close>.\<close>

definition tolower :: "byte \<Rightarrow> byte" where
  "tolower c = (if 65 \<le> c \<and> c \<le> 90 then c + 32 else c)"

definition glob_char :: "bool \<Rightarrow> byte \<Rightarrow> byte \<Rightarrow> bool" where
  "glob_char ci g c \<longleftrightarrow> g = ch CHR ''?'' \<or> (if ci then tolower g = tolower c else g = c)"

function (sequential) yaz_match_glob2 :: "byte list \<Rightarrow> byte list \<Rightarrow> bool \<Rightarrow> bool"
  and glob_star :: "byte list \<Rightarrow> byte list \<Rightarrow> bool \<Rightarrow> bool" where
  "yaz_match_glob2 [] tx ci = (tx = [])"
| "yaz_match_glob2 (g # glob) tx ci =
     (if g = ch CHR ''*'' then glob_star glob tx ci
      else case tx of
        [] \<Rightarrow> False
      | c # tx' \<Rightarrow> if \<not> glob_char ci g c then False else yaz_match_glob2 glob tx' ci)"
| "glob_star glob tx ci =
     (if yaz_match_glob2 glob tx ci then True
      else case tx of [] \<Rightarrow> False | c # tx' \<Rightarrow> glob_star glob tx' ci)"
  by pat_completeness auto
termination
  by (relation "measures [\<lambda>x. case x of Inl (g, t, ci) \<Rightarrow> length g | Inr (g, t, ci) \<Rightarrow> length g,
      \<lambda>x. case x of Inl (g, t, ci) \<Rightarrow> 0 | Inr (g, t, ci) \<Rightarrow> 1, \<lambda>x. case x of Inl (g, t, ci) \<Rightarrow> length t | Inr (g, t, ci) \<Rightarrow> length t]")
    auto

definition yaz_match_glob :: "byte list \<Rightarrow> byte list \<Rightarrow> bool" where
  "yaz_match_glob glob tx = yaz_match_glob2 glob tx False"

section \<open>Glob patterns: the meaning\<close>

inductive globs :: "bool \<Rightarrow> byte list \<Rightarrow> byte list \<Rightarrow> bool" for ci where
  globs_end: "globs ci [] []"
| globs_any: "globs ci glob t \<Longrightarrow> globs ci (ch CHR ''?'' # glob) (c # t)"
| globs_star: "globs ci glob t \<Longrightarrow> globs ci (ch CHR ''*'' # glob) (s @ t)"
| globs_same: "globs ci glob t \<Longrightarrow> g \<noteq> ch CHR ''*'' \<Longrightarrow> (if ci then tolower g = tolower c else g = c) \<Longrightarrow> globs ci (g # glob) (c # t)"

inductive_cases globs_NilE: "globs ci [] t"
inductive_cases globs_ConsE: "globs ci (g # glob) t"

lemma star_suffix: "glob_star glob tx ci \<longleftrightarrow> (\<exists>s t. tx = s @ t \<and> yaz_match_glob2 glob t ci)"
proof (induction tx)
  case (Cons c tx)
  have "(\<exists>s t. c # tx = s @ t \<and> P t) \<longleftrightarrow> P (c # tx) \<or> (\<exists>s t. tx = s @ t \<and> P t)" for P
    by (metis Cons_eq_append_conv append_Cons)
  with Cons show ?case by simp
qed simp

lemma glob_sound: "globs ci glob tx \<Longrightarrow> yaz_match_glob2 glob tx ci"
proof (induction rule: globs.induct)
  case (globs_star glob t s)
  then show ?case using star_suffix by auto
qed (auto simp: glob_char_def)

lemma glob_complete: "yaz_match_glob2 glob tx ci \<Longrightarrow> globs ci glob tx"
proof (induction glob arbitrary: tx)
  case Nil
  then show ?case by (simp add: globs_end)
next
  case (Cons g glob)
  show ?case
  proof (cases "g = ch CHR ''*''")
    case True
    then obtain s t where "tx = s @ t" "yaz_match_glob2 glob t ci" using Cons.prems star_suffix by auto
    then show ?thesis using True Cons.IH globs_star by blast
  next
    case False
    then obtain c t where "tx = c # t" "glob_char ci g c" "yaz_match_glob2 glob t ci"
      using Cons.prems by (auto split: list.splits if_splits)
    then show ?thesis using Cons.IH False globs_any globs_same by (auto simp: glob_char_def)
  qed
qed

section \<open>Matching independent of case and hyphens\<close>

definition norm_str :: "byte list \<Rightarrow> byte list" where
  "norm_str s = map lower (filter (\<lambda>c. c \<noteq> ch CHR ''-'') s)"

text \<open>No two hyphens in a row and none at the end.\<close>

fun hyphens_ok :: "byte list \<Rightarrow> bool" where
  "hyphens_ok [] = True"
| "hyphens_ok (c # s) = ((c \<noteq> ch CHR ''-'' \<or> deref s \<notin> {0, ch CHR ''-''}) \<and> hyphens_ok s)"

definition skip_hyphen :: "byte list \<Rightarrow> byte list" where
  "skip_hyphen s = (if deref s = ch CHR ''-'' then tl s else s)"

lemma skip_hyphen:
  assumes "no_nul s" "hyphens_ok s" "s \<noteq> []"
  obtains c r where "skip_hyphen s = c # r" "c \<noteq> 0" "c \<in> set s" "set r \<subseteq> set s" "norm_str s = lower c # norm_str r" "hyphens_ok r"
proof -
  obtain a s' where s: "s = a # s'" using assms(3) by (cases s) auto
  show thesis
  proof (cases "a = ch CHR ''-''")
    case True
    then obtain c r where "s' = c # r" "c \<noteq> ch CHR ''-''" using assms(2) s by (cases s') auto
    then show thesis using that [of c r] True assms s by (auto simp: skip_hyphen_def norm_str_def)
  next
    case False
    then show thesis using that [of a s'] assms s by (auto simp: skip_hyphen_def norm_str_def)
  qed
qed

lemma matchstr_step:
  "yaz_matchstr s1 s2 =
     (if deref s1 = 0 \<or> deref s2 = 0 then deref s1 = 0 \<and> deref s2 = 0
      else if deref s2 = ch CHR ''?'' then True
      else if deref (skip_hyphen s1) = 0 \<or> deref (skip_hyphen s2) = 0 then deref (skip_hyphen s1) = 0 \<and> deref (skip_hyphen s2) = 0
      else if deref (skip_hyphen s2) \<noteq> ch CHR ''.'' \<and> lower (deref (skip_hyphen s1)) \<noteq> lower (deref (skip_hyphen s2)) then False
      else yaz_matchstr (tl (skip_hyphen s1)) (tl (skip_hyphen s2)))"
  by (subst yaz_matchstr.simps) (simp only: Let_def skip_hyphen_def, auto)

lemma matchstr_norm:
  "no_nul s1 \<Longrightarrow> no_nul s2 \<Longrightarrow> hyphens_ok s1 \<Longrightarrow> hyphens_ok s2 \<Longrightarrow> ch CHR ''?'' \<notin> set s2 \<Longrightarrow> ch CHR ''.'' \<notin> set s2 \<Longrightarrow>
   yaz_matchstr s1 s2 \<longleftrightarrow> norm_str s1 = norm_str s2"
proof (induction "length s1" arbitrary: s1 s2 rule: less_induct)
  case less
  show ?case
  proof (cases "s1 = [] \<or> s2 = []")
    case True
    have ne: "norm_str s = [] \<longleftrightarrow> s = []" if hy: "no_nul s" "hyphens_ok s" for s
    proof (cases "s = []")
      case False
      then obtain c r where "norm_str s = lower c # norm_str r" using skip_hyphen [OF hy] by metis
      then show ?thesis using False by simp
    qed (simp add: norm_str_def)
    have z: "deref s = 0 \<longleftrightarrow> s = []" if "no_nul s" for s using that by (cases s) auto
    have "yaz_matchstr s1 s2 \<longleftrightarrow> s1 = [] \<and> s2 = []"
      using True z less.prems by (subst yaz_matchstr.simps) auto
    also have "\<dots> \<longleftrightarrow> norm_str s1 = norm_str s2" using True ne less.prems by metis
    finally show ?thesis .
  next
    case False
    obtain c1 r1 where 1: "skip_hyphen s1 = c1 # r1" "c1 \<noteq> 0" "set r1 \<subseteq> set s1" "norm_str s1 = lower c1 # norm_str r1" "hyphens_ok r1"
      using skip_hyphen [OF less.prems(1,3)] False by metis
    obtain c2 r2 where 2: "skip_hyphen s2 = c2 # r2" "c2 \<noteq> 0" "c2 \<in> set s2" "set r2 \<subseteq> set s2" "norm_str s2 = lower c2 # norm_str r2" "hyphens_ok r2"
      using skip_hyphen [OF less.prems(2,4)] False by metis
    have d: "deref s1 \<noteq> 0" "deref s2 \<noteq> 0" "deref s2 \<noteq> ch CHR ''?''" using False less.prems by (cases s1; cases s2; auto)+
    have "length r1 < length s1" using 1(1) False by (cases s1) (auto simp: skip_hyphen_def split: if_splits)
    then have "yaz_matchstr r1 r2 \<longleftrightarrow> norm_str r1 = norm_str r2"
      using less.prems 1 2 by (intro less.hyps) auto
    moreover have "c2 \<noteq> ch CHR ''.''" using 2(3) less.prems(6) by auto
    ultimately show ?thesis using 1 2 d by (simp add: matchstr_step [of s1 s2])
  qed
qed

lemma lower_eq_0: "lower c = 0 \<longleftrightarrow> c = 0" "0 = lower c \<longleftrightarrow> c = 0" "lower 0 = 0"
proof -
  have "lower c \<noteq> 0" if "c \<noteq> 0"
  proof (cases "yaz_isupper c")
    case True
    then have "65 \<le> unat c" "unat c \<le> 90" by (auto simp: yaz_isupper_def word_le_nat_alt)
    then have "unat (c + 32) = unat c + 32" by (simp add: unat_word_ariths)
    then have "c + 32 \<noteq> 0" by (metis add_is_0 unsigned_0 zero_neq_numeral)
    then show ?thesis using True by (simp add: lower_def yaz_tolower_def)
  qed (use that in \<open>simp add: lower_def\<close>)
  moreover show "lower 0 = 0" by (simp add: lower_def ctype_defs)
  ultimately show "lower c = 0 \<longleftrightarrow> c = 0" "0 = lower c \<longleftrightarrow> c = 0" by auto
qed

lemma uint_inj: "uint (a :: byte) = uint b \<longleftrightarrow> a = b"
  by (simp add: word_uint_eq_iff)

lemma strncasecmp_strings:
  "no_nul s1 \<Longrightarrow> no_nul s2 \<Longrightarrow>
   \<exists>r. yaz_strncasecmp (s1 @ [0]) (s2 @ [0]) (Suc (length s1)) = Some r \<and> (r = 0 \<longleftrightarrow> map lower s1 = map lower s2)"
proof (induction s1 arbitrary: s2)
  case Nil
  then show ?case by (cases s2) (auto simp: lower_eq_0 unsigned_eq_0_iff uint_inj)
next
  case (Cons c s1)
  then show ?case by (cases s2) (auto simp: lower_eq_0 unsigned_eq_0_iff uint_inj)
qed

text \<open>A count larger than the strings makes the comparison of equal strings read behind them.\<close>

lemma strncasecmp_overrun: "Suc (length s) < n \<Longrightarrow> yaz_strncasecmp (s @ [0]) (s @ [0]) n = None"
proof (induction s arbitrary: n)
  case Nil
  then obtain m where "n = Suc (Suc m)" by (metis Suc_lessE list.size(3) not0_implies_Suc not_less_zero)
  then show ?case by simp
next
  case (Cons c s)
  then show ?case by (cases n) auto
qed

section \<open>Properties\<close>

text \<open>
  C35: the glob matcher decides the meaning of patterns: a star stands for any text, a question mark
  for any byte, every other byte for itself, with case ignored on request.
\<close>

theorem glob_matcher_decides: "yaz_match_glob2 glob tx ci \<longleftrightarrow> globs ci glob tx"
  using glob_sound glob_complete by blast

text \<open>
  C36: \<open>yaz_matchstr\<close> compares independently of case and hyphens, for strings without two hyphens in a
  row or a hyphen at the end and a pattern without wildcards.
\<close>

theorem matchstr_ignores_case_and_hyphens:
  assumes "no_nul s1" "no_nul s2" "hyphens_ok s1" "hyphens_ok s2" "ch CHR ''?'' \<notin> set s2" "ch CHR ''.'' \<notin> set s2"
  shows "yaz_matchstr s1 s2 \<longleftrightarrow> norm_str s1 = norm_str s2"
  using assms by (rule matchstr_norm)

theorem matchstr_ignores_case_and_hyphens_witness:
  "yaz_matchstr (str ''ISO-8859-1'') (str ''iso88591'') \<longleftrightarrow> norm_str (str ''ISO-8859-1'') = norm_str (str ''iso88591'')"
  by (rule matchstr_ignores_case_and_hyphens) simp_all

text \<open>A hyphen at the end is not ignored, and neither is the second of two hyphens.\<close>

lemma matchstr_trailing_hyphen: "\<not> yaz_matchstr (str ''a-'') (str ''a'')" "\<not> yaz_matchstr (str ''a--b'') (str ''ab'')"
  by (simp_all add: yaz_matchstr.simps Let_def lower_def ctype_defs)

end
