(* ===== verification/Yaz_Iconv.thy ===== *)
theory Yaz_Iconv
  imports Yaz_Utf8 Yaz_Wrbuf Yaz_Match
begin

text \<open>
  Character set conversion: the conversion loop of \<^verbatim>\<open>siconv.c\<close>, the UCS-4 and ISO 8859-1 decoders and
  encoders (\<^verbatim>\<open>ucs4.c\<close>, \<^verbatim>\<open>iconv_encode_iso_8859_1.c\<close>), and the writers of \<^verbatim>\<open>wrbuf.c\<close> that convert. A
  handle is one of YAZ's own conversions: the handles that go to the system's \<^verbatim>\<open>iconv\<close> are not
  modelled. An encoder keeps data of type \<open>'e\<close>; the decoders here keep none. Output is the list of the
  bytes written so far and the room left; a return value of \<^verbatim>\<open>(size_t) -1\<close> is \<^const>\<open>True\<close> for a handle and
  \<^const>\<open>None\<close> for \<open>yaz_iconv\<close>.
\<close>

section \<open>Handles (iconv-p.h)\<close>

record 'e encoder =
  enc_data :: 'e
  write_handle :: "('e \<Rightarrow> iconv_errno \<Rightarrow> 64 word \<Rightarrow> byte list \<Rightarrow> nat \<Rightarrow> bool \<times> byte list \<times> nat \<times> 'e \<times> iconv_errno) option"
  flush_handle :: "('e \<Rightarrow> iconv_errno \<Rightarrow> byte list \<Rightarrow> nat \<Rightarrow> bool \<times> byte list \<times> nat \<times> 'e \<times> iconv_errno) option"
  enc_init :: "('e \<Rightarrow> 'e) option"

record decoder =
  dec_init :: "(byte list option \<Rightarrow> iconv_errno \<Rightarrow> (bool \<times> nat \<times> iconv_errno) cres) option"
  read_handle :: "(iconv_errno \<Rightarrow> byte list \<Rightarrow> (64 word \<times> nat \<times> iconv_errno) cres) option"

record 'e iconv =
  my_errno :: iconv_errno
  init_flag :: bool
  no_read_x :: nat
  unget_x :: "64 word"
  encoder :: "'e encoder"
  decoder :: decoder

definition yaz_iconv_isbuiltin :: "'e iconv \<Rightarrow> bool" where
  "yaz_iconv_isbuiltin cd \<longleftrightarrow> read_handle (decoder cd) \<noteq> None \<and> write_handle (encoder cd) \<noteq> None"

section \<open>UCS-4 (ucs4.c)\<close>

text \<open>The four bytes are combined in an \<^verbatim>\<open>int\<close>, whose sign is extended to the 64-bit result.\<close>

definition ucs4_value :: "byte \<Rightarrow> byte \<Rightarrow> byte \<Rightarrow> byte \<Rightarrow> 64 word" where
  "ucs4_value a b c d = scast (push_bit 24 (ucast a) OR push_bit 16 (ucast b) OR push_bit 8 (ucast c) OR ucast d :: 32 word)"

fun read_UCS4 :: "iconv_errno \<Rightarrow> byte list \<Rightarrow> (64 word \<times> nat \<times> iconv_errno) cres" where
  "read_UCS4 e (a # b # c # d # inp) = Some (ucs4_value a b c d, 4, e)"
| "read_UCS4 e _ = Some (0, 0, YAZ_ICONV_EINVAL)"

fun read_UCS4LE :: "iconv_errno \<Rightarrow> byte list \<Rightarrow> (64 word \<times> nat \<times> iconv_errno) cres" where
  "read_UCS4LE e (a # b # c # d # inp) = Some (ucs4_value d c b a, 4, e)"
| "read_UCS4LE e _ = Some (0, 0, YAZ_ICONV_EINVAL)"

definition write_UCS4 :: "'e \<Rightarrow> iconv_errno \<Rightarrow> 64 word \<Rightarrow> byte list \<Rightarrow> nat \<Rightarrow> bool \<times> byte list \<times> nat \<times> 'e \<times> iconv_errno" where
  "write_UCS4 e er x out left =
     (if left \<ge> 4
      then (False, out @ [ucast (drop_bit 24 x), ucast (drop_bit 16 x), ucast (drop_bit 8 x), ucast x], left - 4, e, er)
      else (True, out, left, e, YAZ_ICONV_E2BIG))"

definition write_UCS4LE :: "'e \<Rightarrow> iconv_errno \<Rightarrow> 64 word \<Rightarrow> byte list \<Rightarrow> nat \<Rightarrow> bool \<times> byte list \<times> nat \<times> 'e \<times> iconv_errno" where
  "write_UCS4LE e er x out left =
     (if left \<ge> 4
      then (False, out @ [ucast x, ucast (drop_bit 8 x), ucast (drop_bit 16 x), ucast (drop_bit 24 x)], left - 4, e, er)
      else (True, out, left, e, YAZ_ICONV_E2BIG))"

definition yaz_ucs4_encoder :: "byte list \<Rightarrow> 'e encoder \<Rightarrow> 'e encoder option" where
  "yaz_ucs4_encoder tocode e =
     (if yaz_matchstr tocode (str ''UCS4'') then Some (e\<lparr>write_handle := Some write_UCS4\<rparr>)
      else if yaz_matchstr tocode (str ''UCS4LE'') then Some (e\<lparr>write_handle := Some write_UCS4LE\<rparr>)
      else None)"

definition yaz_ucs4_decoder :: "byte list \<Rightarrow> decoder \<Rightarrow> decoder option" where
  "yaz_ucs4_decoder tocode d =
     (if yaz_matchstr tocode (str ''UCS4'') then Some (d\<lparr>read_handle := Some read_UCS4\<rparr>)
      else if yaz_matchstr tocode (str ''UCS4LE'') then Some (d\<lparr>read_handle := Some read_UCS4LE\<rparr>)
      else None)"

section \<open>UTF-8 handles (utf8.c)\<close>

definition utf8_write_handle :: "'e \<Rightarrow> iconv_errno \<Rightarrow> 64 word \<Rightarrow> byte list \<Rightarrow> nat \<Rightarrow> bool \<times> byte list \<times> nat \<times> 'e \<times> iconv_errno" where
  "utf8_write_handle e er x out left = (case write_UTF8 x out left of (r, out', left', er') \<Rightarrow> (r, out', left', e, er'))"

definition yaz_utf8_encoder :: "byte list \<Rightarrow> 'e encoder \<Rightarrow> 'e encoder option" where
  "yaz_utf8_encoder tocode e =
     (if yaz_matchstr tocode (str ''UTF8'') then Some (e\<lparr>write_handle := Some utf8_write_handle\<rparr>) else None)"

definition yaz_utf8_decoder :: "byte list \<Rightarrow> decoder \<Rightarrow> decoder option" where
  "yaz_utf8_decoder fromcode d =
     (if yaz_matchstr fromcode (str ''UTF8'')
      then Some (d\<lparr>dec_init := Some init_utf8, read_handle := Some (\<lambda>e inp. read_utf8 inp)\<rparr>) else None)"

section \<open>ISO 8859-1 (iconv\_encode\_iso\_8859\_1.c)\<close>

text \<open>The table of base letter, combining mark and composed letter, in the order of the source.\<close>

definition latin1_comb :: "(64 word \<times> 64 word \<times> 64 word) list" where
  "latin1_comb =
     [(65, 0x0300, 0xc0), (65, 0x0301, 0xc1), (65, 0x0302, 0xc2), (65, 0x0303, 0xc3), (65, 0x0308, 0xc4),
      (65, 0x030a, 0xc5), (67, 0x0327, 0xc7), (69, 0x0300, 0xc8), (69, 0x0301, 0xc9), (69, 0x0302, 0xca),
      (69, 0x0308, 0xcb), (73, 0x0300, 0xcc), (73, 0x0301, 0xcd), (73, 0x0302, 0xce), (73, 0x0308, 0xcf),
      (78, 0x0303, 0xd1), (79, 0x0300, 0xd2), (79, 0x0301, 0xd3), (79, 0x0302, 0xd4), (79, 0x0303, 0xd5),
      (79, 0x0308, 0xd6), (85, 0x0300, 0xd9), (85, 0x0301, 0xda), (85, 0x0302, 0xdb), (85, 0x0308, 0xdc),
      (89, 0x0301, 0xdd), (97, 0x0300, 0xe0), (97, 0x0301, 0xe1), (97, 0x0302, 0xe2), (97, 0x0303, 0xe3),
      (97, 0x0308, 0xe4), (97, 0x030a, 0xe5), (99, 0x0327, 0xe7), (101, 0x0300, 0xe8), (101, 0x0301, 0xe9),
      (101, 0x0302, 0xea), (101, 0x0308, 0xeb), (105, 0x0300, 0xec), (105, 0x0301, 0xed), (105, 0x0302, 0xee),
      (105, 0x0308, 0xef), (110, 0x0303, 0xf1), (111, 0x0300, 0xf2), (111, 0x0301, 0xf3), (111, 0x0302, 0xf4),
      (111, 0x0303, 0xf5), (111, 0x0308, 0xf6), (117, 0x0300, 0xf9), (117, 0x0301, 0xfa), (117, 0x0302, 0xfb),
      (117, 0x0308, 0xfc), (121, 0x0301, 0xfd), (121, 0x0308, 0xff)]"

definition latin1_find :: "64 word \<Rightarrow> 64 word \<Rightarrow> (64 word \<times> 64 word \<times> 64 word) option" where
  "latin1_find w x = find (\<lambda>(x1, x2, y). w = x1 \<and> x = x2) latin1_comb"

definition yaz_iso_8859_1_lookup_y :: "64 word \<Rightarrow> (64 word \<times> 64 word) option" where
  "yaz_iso_8859_1_lookup_y v =
     (if v \<ge> 0xc0 \<and> v \<le> 0xff
      then map_option (\<lambda>(x1, x2, y). (x1, x2)) (find (\<lambda>(x1, x2, y). v = y) latin1_comb) else None)"

definition yaz_iso_8859_1_lookup_x12 :: "64 word \<Rightarrow> 64 word \<Rightarrow> 64 word option" where
  "yaz_iso_8859_1_lookup_x12 x1 x2 =
     map_option (\<lambda>(a, b, y). y) (find (\<lambda>(a, b, y). x2 = b \<and> x1 = a) latin1_comb)"

text \<open>The encoder's data is \<open>compose_char\<close>.\<close>

definition write_iso_8859_1 ::
    "64 word \<Rightarrow> iconv_errno \<Rightarrow> 64 word \<Rightarrow> byte list \<Rightarrow> nat \<Rightarrow> bool \<times> byte list \<times> nat \<times> 64 word \<times> iconv_errno" where
  "write_iso_8859_1 w er x0 out0 left0 =
     (let comb = (if w \<noteq> 0 then latin1_find w x0 else None);
          x = (case comb of Some (x1, x2, y) \<Rightarrow> y | None \<Rightarrow> x0)
      in if w \<noteq> 0 \<and> left0 < 1 then (True, out0, left0, w, YAZ_ICONV_E2BIG)
         else let (out, left) = (if w \<noteq> 0 \<and> comb = None then (out0 @ [ucast w], left0 - 1) else (out0, left0))
           in if x > 32 \<and> x < 127 then (False, out, left, x, er)
              else if x > 255 \<or> x < 1 then (True, out, left, 0, YAZ_ICONV_EILSEQ)
              else if left < 1 then (True, out, left, 0, YAZ_ICONV_E2BIG)
              else (False, out @ [ucast x], left - 1, 0, er))"

definition flush_iso_8859_1 ::
    "64 word \<Rightarrow> iconv_errno \<Rightarrow> byte list \<Rightarrow> nat \<Rightarrow> bool \<times> byte list \<times> nat \<times> 64 word \<times> iconv_errno" where
  "flush_iso_8859_1 w er out left =
     (if w \<noteq> 0
      then if left < 1 then (True, out, left, w, YAZ_ICONV_E2BIG) else (False, out @ [ucast w], left - 1, 0, er)
      else (False, out, left, w, er))"

definition init_iso_8859_1 :: "64 word \<Rightarrow> 64 word" where
  "init_iso_8859_1 w = 0"

definition yaz_iso_8859_1_encoder :: "byte list \<Rightarrow> 64 word encoder \<Rightarrow> 64 word encoder option" where
  "yaz_iso_8859_1_encoder tocode e =
     (if yaz_matchstr tocode (str ''iso88591'')
      then Some (e\<lparr>write_handle := Some write_iso_8859_1, flush_handle := Some flush_iso_8859_1,
        enc_init := Some init_iso_8859_1\<rparr>)
      else None)"

definition read_ISO8859_1 :: "iconv_errno \<Rightarrow> byte list \<Rightarrow> (64 word \<times> nat \<times> iconv_errno) cres" where
  "read_ISO8859_1 e inp = (case inp of [] \<Rightarrow> None | c # _ \<Rightarrow> Some (ucast c, 1, e))"

definition yaz_iso_8859_1_decoder :: "byte list \<Rightarrow> decoder \<Rightarrow> decoder option" where
  "yaz_iso_8859_1_decoder fromcode d =
     (if yaz_matchstr fromcode (str ''iso88591'') then Some (d\<lparr>read_handle := Some read_ISO8859_1\<rparr>) else None)"

section \<open>Conversion (siconv.c)\<close>

text \<open>A call through a null handle has no result.\<close>

definition call_write :: "'e iconv \<Rightarrow> 64 word \<Rightarrow> byte list \<Rightarrow> nat \<Rightarrow> (bool \<times> byte list \<times> nat \<times> 'e iconv) cres" where
  "call_write cd x out left = do {
     h \<leftarrow> write_handle (encoder cd);
     case h (enc_data (encoder cd)) (my_errno cd) x out left of (r, out', left', e', er') \<Rightarrow>
       Some (r, out', left', cd\<lparr>encoder := (encoder cd)\<lparr>enc_data := e'\<rparr>, my_errno := er'\<rparr>)}"

text \<open>
  The loop of \<open>yaz_iconv\<close>: \<open>inp\<close> is the input left, \<open>n\<close> the number of bytes consumed. The result is the
  return value, the input left, the output and the handle.
\<close>

function iconv_loop :: "'e iconv \<Rightarrow> byte list \<Rightarrow> nat \<Rightarrow> byte list \<Rightarrow> nat \<Rightarrow>
    (nat option \<times> byte list \<times> byte list \<times> 'e iconv) cres" where
  "iconv_loop cd inp n out left =
     (if unget_x cd = 0 \<and> inp = [] then Some (Some n, inp, out, cd)
      else case (if unget_x cd \<noteq> 0 then Some (unget_x cd, no_read_x cd, cd)
                 else do {
                   h \<leftarrow> read_handle (decoder cd);
                   (x, k, er) \<leftarrow> h (my_errno cd) inp;
                   Some (x, k, cd\<lparr>my_errno := er\<rparr>)}) of
        None \<Rightarrow> None
      | Some (x, no_read, cd1) \<Rightarrow>
          if unget_x cd = 0 \<and> no_read = 0 then Some (None, inp, out, cd1)
          else if x \<noteq> 0 then
            case call_write cd1 x out left of
              None \<Rightarrow> None
            | Some (r, out', left', cd2) \<Rightarrow>
                if r \<and> my_errno cd2 = YAZ_ICONV_E2BIG
                then Some (None, inp, out', cd2\<lparr>unget_x := x, no_read_x := no_read\<rparr>)
                else if no_read > length inp then None
                else iconv_loop (cd2\<lparr>unget_x := 0\<rparr>) (drop no_read inp) (n + no_read) out' left'
          else if no_read > length inp then None
          else iconv_loop cd1 (drop no_read inp) (n + no_read) out left)"
  by pat_completeness auto
termination
  by (relation "measure (\<lambda>(cd, inp, n, out, left). length inp + (if unget_x cd = 0 then 0 else 1))")
    (auto split: if_splits simp: bind_Some_iff)

declare iconv_loop.simps [simp del]

text \<open>
  \<open>yaz_iconv\<close> on input \<open>inbuf\<close> (\<^const>\<open>None\<close> is the null pointer that asks for the end of the output)
  with room for \<open>left\<close> bytes.
\<close>

definition iconv_start :: "'e iconv \<Rightarrow> byte list option \<Rightarrow> ((nat option \<times> nat) \<times> 'e iconv) cres" where
  "iconv_start cd inbuf =
     (if \<not> init_flag cd then Some ((Some 0, 0), cd)
      else let enc = encoder cd;
               cd1 = cd\<lparr>my_errno := YAZ_ICONV_UNKNOWN, unget_x := 0, no_read_x := 0,
                 encoder := (case enc_init enc of Some f \<Rightarrow> enc\<lparr>enc_data := f (enc_data enc)\<rparr> | None \<Rightarrow> enc)\<rparr>
        in case dec_init (decoder cd1) of
             None \<Rightarrow> Some ((Some 0, 0), cd1)
           | Some h \<Rightarrow> do {
               (r, no_read, er) \<leftarrow> h inbuf (my_errno cd1);
               let cd2 = cd1\<lparr>my_errno := er\<rparr> in
               if r then Some ((None, 0), if er = YAZ_ICONV_EINVAL then cd2 else cd2\<lparr>init_flag := False\<rparr>)
               else Some ((Some 0, no_read), cd2)})"

definition iconv_flush :: "'e iconv \<Rightarrow> nat \<Rightarrow> (nat option \<times> byte list \<times> 'e iconv) cres" where
  "iconv_flush cd left = do {
     (r1, out1, left1, cd1) \<leftarrow> (if unget_x cd \<noteq> 0 then call_write cd (unget_x cd) [] left else Some (False, [], left, cd));
     (r2, out2, cd2) \<leftarrow> (case flush_handle (encoder cd1) of
        None \<Rightarrow> Some (r1, out1, cd1)
      | Some h \<Rightarrow> (case h (enc_data (encoder cd1)) (my_errno cd1) out1 left1 of (r, out', left', e', er') \<Rightarrow>
          Some (r, out', cd1\<lparr>encoder := (encoder cd1)\<lparr>enc_data := e'\<rparr>, my_errno := er'\<rparr>)));
     let cd3 = (if \<not> r2 then cd2\<lparr>init_flag := True\<rparr> else cd2) in
     Some (if r2 then None else Some 0, out2, cd3\<lparr>unget_x := 0\<rparr>)}"

definition yaz_iconv :: "'e iconv \<Rightarrow> byte list option \<Rightarrow> nat \<Rightarrow> (nat option \<times> byte list \<times> byte list \<times> 'e iconv) cres" where
  "yaz_iconv cd inbuf left = do {
     ((r, skip), cd1) \<leftarrow> iconv_start cd inbuf;
     if r = None then Some (None, (case inbuf of Some i \<Rightarrow> i | None \<Rightarrow> []), [], cd1)
     else let cd2 = cd1\<lparr>init_flag := False\<rparr> in
       case inbuf of
         None \<Rightarrow> do {(r, out, cd3) \<leftarrow> iconv_flush cd2 left; Some (r, [], out, cd3)}
       | Some inp \<Rightarrow> if skip > length inp then None else iconv_loop cd2 (drop skip inp) skip [] left}"

definition yaz_iconv_error :: "'e iconv \<Rightarrow> iconv_errno" where
  "yaz_iconv_error cd = my_errno cd"

text \<open>
  \<open>yaz_iconv_open\<close> starts with an encoder and a decoder without handles, lets the character sets fill
  them in, and returns the handle; the fields it does not set keep what the fresh memory holds.
\<close>

definition null_encoder :: "'e \<Rightarrow> 'e encoder" where
  "null_encoder e = \<lparr>enc_data = e, write_handle = None, flush_handle = None, enc_init = None\<rparr>"

definition null_decoder :: decoder where
  "null_decoder = \<lparr>dec_init = None, read_handle = None\<rparr>"

definition iconv_opened :: "'e encoder \<Rightarrow> decoder \<Rightarrow> nat \<Rightarrow> 64 word \<Rightarrow> 'e iconv" where
  "iconv_opened e d n x = \<lparr>my_errno = YAZ_ICONV_UNKNOWN, init_flag = True, no_read_x = n, unget_x = x, encoder = e, decoder = d\<rparr>"

section \<open>Converting writers (wrbuf.c)\<close>

partial_function (option) write2_loop :: "'e iconv \<Rightarrow> byte list \<Rightarrow> wrbuf \<Rightarrow> (wrbuf \<Rightarrow> byte list \<Rightarrow> wrbuf cres) \<Rightarrow>
    (int \<times> 'e iconv \<times> wrbuf) cres" where
  "write2_loop cd inp b wfunc =
     (if inp = [] then Some (0, cd, b)
      else case yaz_iconv cd (Some inp) 128 of
        None \<Rightarrow> None
      | Some (r, inp', out, cd') \<Rightarrow>
          if r = None \<and> yaz_iconv_error cd' \<noteq> YAZ_ICONV_E2BIG then Some (-1, cd', b)
          else do {b' \<leftarrow> wfunc b out; write2_loop cd' inp' b' wfunc})"

definition wrbuf_iconv_write2 :: "wrbuf \<Rightarrow> 'e iconv option \<Rightarrow> byte list \<Rightarrow> (wrbuf \<Rightarrow> byte list \<Rightarrow> wrbuf cres) \<Rightarrow>
    (int \<times> 'e iconv option \<times> wrbuf) cres" where
  "wrbuf_iconv_write2 b cd s wfunc =
     (case cd of
        Some c \<Rightarrow> do {(ret, c', b') \<leftarrow> write2_loop c s b wfunc; Some (ret, Some c', b')}
      | None \<Rightarrow> do {b' \<leftarrow> wfunc b s; Some (0, None, b')})"

definition wrbuf_iconv_puts2 where
  "wrbuf_iconv_puts2 b cd s wfunc = wrbuf_iconv_write2 b cd (cstr s) wfunc"

definition wrbuf_iconv_write_x where
  "wrbuf_iconv_write_x b cd s cdata = wrbuf_iconv_write2 b cd s (if cdata then wrbuf_xmlputs_n else wrbuf_write)"

definition wrbuf_iconv_write where
  "wrbuf_iconv_write b cd s = map_option snd (wrbuf_iconv_write2 b cd s wrbuf_write)"

definition wrbuf_iconv_puts where
  "wrbuf_iconv_puts b cd s = wrbuf_iconv_write b cd (cstr s)"

definition wrbuf_iconv_putchar where
  "wrbuf_iconv_putchar b cd c = wrbuf_iconv_write b cd [c]"

definition wrbuf_iconv_write_cdata where
  "wrbuf_iconv_write_cdata b cd s = map_option snd (wrbuf_iconv_write2 b cd s wrbuf_xmlputs_n)"

definition wrbuf_iconv_puts_cdata where
  "wrbuf_iconv_puts_cdata b cd s = map_option snd (wrbuf_iconv_puts2 b cd s wrbuf_xmlputs_n)"

definition wrbuf_iconv_json_write where
  "wrbuf_iconv_json_write b cd s = map_option snd (wrbuf_iconv_write2 b cd s wrbuf_json_write)"

definition wrbuf_iconv_json_puts where
  "wrbuf_iconv_json_puts b cd s = map_option snd (wrbuf_iconv_puts2 b cd s wrbuf_json_write)"

definition wrbuf_iconv_reset :: "wrbuf \<Rightarrow> 'e iconv option \<Rightarrow> ('e iconv option \<times> wrbuf) cres" where
  "wrbuf_iconv_reset b cd =
     (case cd of
        None \<Rightarrow> Some (None, b)
      | Some c \<Rightarrow> do {
          (r, _, out, c') \<leftarrow> yaz_iconv c None 16;
          b' \<leftarrow> (if r \<noteq> None then wrbuf_write b out else Some b);
          Some (Some c', b')})"

end
