(* ===== verification/Yaz_Iconv_Laws.thy ===== *)
theory Yaz_Iconv_Laws
  imports Yaz_Iconv
begin

text \<open>
  Correctness of the conversion. The contracts of a decoder and of an encoder are locales; their
  combination \<open>converter\<close> proves once that the conversion loop, called again and again with any
  amount of room, produces the output of the encoder for the code points of the input, whatever the
  boundaries of the output buffer. The interpretations are the decoders and encoders of UTF-8, UCS-4
  and ISO 8859-1.
\<close>

section \<open>Contracts\<close>

text \<open>A decoder reads back the encoding \<open>enc\<close> of each of its code points.\<close>

locale char_decoder =
  fixes rd :: "iconv_errno \<Rightarrow> byte list \<Rightarrow> (64 word \<times> nat \<times> iconv_errno) cres"
    and enc :: "64 word \<Rightarrow> byte list"
    and valid :: "64 word \<Rightarrow> bool"
  assumes rd: "valid x \<Longrightarrow> \<exists>er'. rd er (enc x @ rest) = Some (x, length (enc x), er')"
    and enc_not_Nil: "valid x \<Longrightarrow> enc x \<noteq> []"
    and valid_nonzero: "valid x \<Longrightarrow> x \<noteq> 0"

text \<open>
  An encoder is a transducer \<open>emit\<close> on its data. It writes what \<open>emit\<close> says, or it reports
  \<open>YAZ_ICONV_E2BIG\<close> because the room is too small; then what it has written and its new data are such
  that the same code point can be written again later. No code point needs more than \<open>most\<close> bytes.
\<close>

locale char_encoder =
  fixes wt :: "'e \<Rightarrow> iconv_errno \<Rightarrow> 64 word \<Rightarrow> byte list \<Rightarrow> nat \<Rightarrow> bool \<times> byte list \<times> nat \<times> 'e \<times> iconv_errno"
    and emit :: "'e \<Rightarrow> 64 word \<Rightarrow> 'e \<times> byte list"
    and valid :: "64 word \<Rightarrow> bool"
    and most :: nat
  assumes wt: "valid x \<Longrightarrow> wt e er x out left = (r, out', left', e', er') \<Longrightarrow>
    \<exists>s. out' = out @ s \<and> left' = left - length s \<and> length s \<le> left \<and>
      (if r \<and> er' = YAZ_ICONV_E2BIG
       then left < length (snd (emit e x)) \<and> (\<exists>e2 s2. emit e x = (e2, s @ s2) \<and> emit e' x = (e2, s2))
       else emit e x = (e', s))"
    and emit_bound: "valid x \<Longrightarrow> length (snd (emit e x)) \<le> most"
begin

text \<open>The output for a sequence of code points.\<close>

primrec emits_all :: "'e \<Rightarrow> 64 word list \<Rightarrow> 'e \<times> byte list" where
  "emits_all e [] = (e, [])"
| "emits_all e (x # xs) = (case emit e x of (e1, s) \<Rightarrow> case emits_all e1 xs of (e2, t) \<Rightarrow> (e2, s @ t))"

end

locale converter = char_decoder rd enc valid + char_encoder wt emit valid most
  for rd enc and wt :: "'e \<Rightarrow> iconv_errno \<Rightarrow> 64 word \<Rightarrow> byte list \<Rightarrow> nat \<Rightarrow> bool \<times> byte list \<times> nat \<times> 'e \<times> iconv_errno"
    and emit most and valid :: "64 word \<Rightarrow> bool" +
  fixes fl :: "('e \<Rightarrow> iconv_errno \<Rightarrow> byte list \<Rightarrow> nat \<Rightarrow> bool \<times> byte list \<times> nat \<times> 'e \<times> iconv_errno) option"
begin

text \<open>
  The handle between two calls, with the code points \<open>xs\<close> still to be converted: either none is
  pending, or the first one was read and is to be written again.
\<close>

definition holds :: "'e iconv \<Rightarrow> 'e \<Rightarrow> 64 word list \<Rightarrow> bool" where
  "holds cd e xs \<longleftrightarrow> write_handle (encoder cd) = Some wt \<and> flush_handle (encoder cd) = fl \<and> read_handle (decoder cd) = Some rd \<and>
     enc_data (encoder cd) = e \<and> (\<forall>x \<in> set xs. valid x) \<and>
     (unget_x cd = 0 \<or> (\<exists>x ys. xs = x # ys \<and> unget_x cd = x \<and> no_read_x cd = length (enc x)))"

definition input :: "64 word list \<Rightarrow> byte list" where
  "input xs = concat (map enc xs)"

lemma input_Nil: "input [] = []" and input_Cons: "input (x # xs) = enc x @ input xs"
  by (simp_all add: input_def)

lemma input_empty: "\<forall>x \<in> set xs. valid x \<Longrightarrow> input xs = [] \<longleftrightarrow> xs = []"
  using enc_not_Nil by (cases xs) (auto simp: input_def)

text \<open>One round of the loop.\<close>

lemma loop_round:
  assumes h: "holds cd e (x # xs)"
    and w: "\<And>er. wt e er x out left = (r er, out' er, left' er, e' er, er' er)"
  shows "\<exists>er cd'. (if r er \<and> er' er = YAZ_ICONV_E2BIG
     then iconv_loop cd (input (x # xs)) n out left = Some (None, input (x # xs), out' er, cd') \<and>
       my_errno cd' = YAZ_ICONV_E2BIG \<and> holds cd' (e' er) (x # xs)
     else iconv_loop cd (input (x # xs)) n out left = iconv_loop cd' (input xs) (n + length (enc x)) (out' er) (left' er) \<and>
       holds cd' (e' er) xs)  \<and> init_flag cd' = init_flag cd"
proof -
  have v: "valid x" "x \<noteq> 0" "enc x \<noteq> []" using h valid_nonzero enc_not_Nil by (auto simp: holds_def)
  have w2: "wt (enc_data (encoder cd)) er x out left = (r er, out' er, left' er, e' er, er' er)" for er
    using w h by (simp add: holds_def)
  obtain er0 where rd': "rd (my_errno cd) (enc x @ input xs) = Some (x, length (enc x), er0)"
    using rd [OF v(1)] by blast
  define er where "er = (if unget_x cd = 0 then er0 else my_errno cd)"
  let ?cd2 = "cd\<lparr>encoder := (encoder cd)\<lparr>enc_data := e' er\<rparr>, my_errno := er' er\<rparr>"
  show ?thesis
  proof (cases "r er \<and> er' er = YAZ_ICONV_E2BIG")
    case True
    then show ?thesis
      using h v rd' w2 [of er]
      by (intro exI [of _ er] exI [of _ "?cd2\<lparr>unget_x := x, no_read_x := length (enc x)\<rparr>"])
        (auto simp: iconv_loop.simps [of cd] input_Cons call_write_def holds_def er_def)
  next
    case False
    then show ?thesis
      using h v rd' w2 [of er]
      by (intro exI [of _ er] exI [of _ "?cd2\<lparr>unget_x := 0\<rparr>"])
        (auto simp: iconv_loop.simps [of cd] input_Cons call_write_def holds_def er_def)
  qed
qed

text \<open>
  What a call leaves: the code points \<open>zs\<close>, after \<open>s\<close> was written for those before them.
\<close>

definition converts :: "'e \<Rightarrow> 64 word list \<Rightarrow> byte list \<Rightarrow> 'e \<Rightarrow> 64 word list \<Rightarrow> bool" where
  "converts e xs s e' zs \<longleftrightarrow> emits_all e xs = (fst (emits_all e' zs), s @ snd (emits_all e' zs)) \<and> length zs \<le> length xs"

definition stops :: "nat option \<Rightarrow> 'e iconv \<Rightarrow> 64 word list \<Rightarrow> nat \<Rightarrow> bool" where
  "stops r cd zs k \<longleftrightarrow> (if zs = [] then r = Some k \<and> unget_x cd = 0 else r = None \<and> my_errno cd = YAZ_ICONV_E2BIG)"

lemma loop_converts:
  "holds cd e xs \<Longrightarrow>
   \<exists>r zs s e' cd'. iconv_loop cd (input xs) n out left = Some (r, input zs, out @ s, cd') \<and> holds cd' e' zs \<and>
     converts e xs s e' zs \<and> length s \<le> left \<and> stops r cd' zs (n + length (input xs)) \<and> init_flag cd' = init_flag cd \<and>
     (xs = [] \<or> left < most \<or> length zs < length xs)"
proof (induction xs arbitrary: cd e n out left)
  case Nil
  then have "unget_x cd = 0" by (simp add: holds_def)
  then have "iconv_loop cd (input []) n out left = Some (Some n, input [], out @ [], cd)"
    by (simp add: iconv_loop.simps [of cd] input_Nil)
  then show ?case using Nil \<open>unget_x cd = 0\<close>
    by (intro exI [of _ "Some n"] exI [of _ "[]"] exI [of _ e] exI [of _ cd]) (simp add: converts_def stops_def input_Nil)
next
  case (Cons x xs)
  define w where "w er = wt e er x out left" for er
  obtain er cd1 where round: "if fst (w er) \<and> snd (snd (snd (snd (w er)))) = YAZ_ICONV_E2BIG
     then iconv_loop cd (input (x # xs)) n out left = Some (None, input (x # xs), fst (snd (w er)), cd1) \<and>
       my_errno cd1 = YAZ_ICONV_E2BIG \<and> holds cd1 (fst (snd (snd (snd (w er))))) (x # xs)
     else iconv_loop cd (input (x # xs)) n out left =
         iconv_loop cd1 (input xs) (n + length (enc x)) (fst (snd (w er))) (fst (snd (snd (w er)))) \<and>
       holds cd1 (fst (snd (snd (snd (w er))))) xs" "init_flag cd1 = init_flag cd"
    using loop_round [OF Cons.prems, of out left "\<lambda>er. fst (w er)" "\<lambda>er. fst (snd (w er))" "\<lambda>er. fst (snd (snd (w er)))"
        "\<lambda>er. fst (snd (snd (snd (w er))))" "\<lambda>er. snd (snd (snd (snd (w er))))" n]
    by (auto simp: w_def)
  have v: "valid x" using Cons.prems by (simp add: holds_def)
  obtain r out' left' e1 er' where we: "w er = (r, out', left', e1, er')" by (metis surj_pair)
  obtain s where s: "out' = out @ s" "left' = left - length s" "length s \<le> left"
      "if r \<and> er' = YAZ_ICONV_E2BIG
       then left < length (snd (emit e x)) \<and> (\<exists>e2 s2. emit e x = (e2, s @ s2) \<and> emit e1 x = (e2, s2))
       else emit e x = (e1, s)"
    using wt [OF v we [unfolded w_def]] by blast
  show ?case
  proof (cases "r \<and> er' = YAZ_ICONV_E2BIG")
    case True
    have "converts e (x # xs) s e1 (x # xs)"
      using s(4) True by (auto simp: converts_def split: prod.splits)
    moreover have "left < most" using s(4) True emit_bound [OF v, of e] by auto
    ultimately show ?thesis using round we s(1,3) True
      by (intro exI [of _ None] exI [of _ "x # xs"] exI [of _ s] exI [of _ e1] exI [of _ cd1]) (auto simp: stops_def)
  next
    case False
    then have h1: "holds cd1 e1 xs" and l1: "iconv_loop cd (input (x # xs)) n out left =
        iconv_loop cd1 (input xs) (n + length (enc x)) out' left'"
      using round(1) we by auto
    obtain r' zs s' e' cd' where c: "iconv_loop cd1 (input xs) (n + length (enc x)) out' left' = Some (r', input zs, out' @ s', cd')"
        "holds cd' e' zs" "converts e1 xs s' e' zs" "length s' \<le> left'" "stops r' cd' zs (n + length (enc x) + length (input xs))"
        "init_flag cd' = init_flag cd1"
      using Cons.IH [OF h1, of "n + length (enc x)" out' left'] by blast
    have "converts e (x # xs) (s @ s') e' zs"
      using c(3) s(4) False by (auto simp: converts_def split: prod.splits)
    moreover have "length zs < length (x # xs)" using c(3) by (simp add: converts_def)
    ultimately show ?thesis using c l1 s round(2)
      by (intro exI [of _ r'] exI [of _ zs] exI [of _ "s @ s'"] exI [of _ e'] exI [of _ cd']) (auto simp: input_Cons add.assoc)
  qed
qed

text \<open>A started handle is not initialised again.\<close>

lemma iconv_started: "\<not> init_flag cd \<Longrightarrow> yaz_iconv cd (Some inp) left = iconv_loop (cd\<lparr>init_flag := False\<rparr>) inp 0 [] left"
  by (simp add: yaz_iconv_def iconv_start_def Let_def)

lemma holds_flag: "holds (cd\<lparr>init_flag := f\<rparr>) e xs = holds cd e xs"
  by (simp add: holds_def)

lemma iconv_converts:
  assumes "holds cd e xs" "\<not> init_flag cd"
  shows "\<exists>r zs s e' cd'. yaz_iconv cd (Some (input xs)) left = Some (r, input zs, s, cd') \<and> holds cd' e' zs \<and> \<not> init_flag cd' \<and>
     converts e xs s e' zs \<and> length s \<le> left \<and> stops r cd' zs (length (input xs)) \<and> (xs = [] \<or> left < most \<or> length zs < length xs)"
  using loop_converts [of "cd\<lparr>init_flag := False\<rparr>" e xs 0 "[]" left] assms
  by (fastforce simp: iconv_started holds_flag)

text \<open>The converting writers, with a writer \<open>wfunc\<close> that appends byte by byte.\<close>

lemma write2_converts:
  assumes wf: "\<And>s. wr_appends (\<lambda>b. wfunc b s) (concat (map esc s))" and most: "most \<le> 128"
  shows "holds cd e xs \<Longrightarrow> \<not> init_flag cd \<Longrightarrow> wrbuf_wf b \<Longrightarrow>
    \<exists>cd' b'. write2_loop cd (input xs) b wfunc = Some (0, cd', b') \<and> holds cd' (fst (emits_all e xs)) [] \<and> \<not> init_flag cd' \<and>
      wrbuf_wf b' \<and> wrbuf_content b' = wrbuf_content b @ concat (map esc (snd (emits_all e xs)))"
proof (induction "length xs" arbitrary: xs cd e b rule: less_induct)
  case less
  show ?case
  proof (cases "xs = []")
    case True
    then show ?thesis using less.prems by (simp add: write2_loop.simps [of cd] input_Nil)
  next
    case False
    then have ne: "input xs \<noteq> []" using less.prems(1) input_empty by (auto simp: holds_def)
    obtain r zs s e1 cd1 where i: "yaz_iconv cd (Some (input xs)) 128 = Some (r, input zs, s, cd1)" "holds cd1 e1 zs" "\<not> init_flag cd1"
        "converts e xs s e1 zs" "stops r cd1 zs (length (input xs))" "length zs < length xs"
      using iconv_converts [OF less.prems(1,2), of 128] False most by fastforce
    obtain b1 where b1: "wfunc b s = Some b1" "wrbuf_wf b1" "wrbuf_content b1 = wrbuf_content b @ concat (map esc s)"
      using wf [of s] less.prems(3) by (auto simp: appends_to_def)
    obtain cd' b' where w: "write2_loop cd1 (input zs) b1 wfunc = Some (0, cd', b')" "holds cd' (fst (emits_all e1 zs)) []"
        "\<not> init_flag cd'" "wrbuf_wf b'" "wrbuf_content b' = wrbuf_content b1 @ concat (map esc (snd (emits_all e1 zs)))"
      using less.hyps [OF i(6,2,3) b1(2)] by blast
    have "\<not> (r = None \<and> yaz_iconv_error cd1 \<noteq> YAZ_ICONV_E2BIG)"
      using i(5) by (auto simp: stops_def yaz_iconv_error_def split: if_splits)
    then have "write2_loop cd (input xs) b wfunc = Some (0, cd', b')"
      using ne i(1) b1(1) w(1) by (simp add: write2_loop.simps [of cd])
    then show ?thesis using w b1(3) i(4) by (auto simp: converts_def)
  qed
qed

end

section \<open>UTF-8, UCS-4 and ISO 8859-1 satisfy the contracts\<close>

definition code_point :: "64 word \<Rightarrow> bool" where
  "code_point x \<longleftrightarrow> 0 < unat x \<and> unat x < 2 ^ 31"

definition latin1_point :: "64 word \<Rightarrow> bool" where
  "latin1_point x \<longleftrightarrow> 0 < unat x \<and> unat x < 256"

definition utf8_enc :: "64 word \<Rightarrow> byte list" where
  "utf8_enc x = utf8_ref (unat x)"

definition ucs4_enc :: "64 word \<Rightarrow> byte list" where
  "ucs4_enc x = [ucast (drop_bit 24 x), ucast (drop_bit 16 x), ucast (drop_bit 8 x), ucast x]"

definition latin1_enc :: "64 word \<Rightarrow> byte list" where
  "latin1_enc x = [ucast x]"

text \<open>What the ISO 8859-1 encoder emits; its data is the base letter held back.\<close>

definition latin1_emit :: "64 word \<Rightarrow> 64 word \<Rightarrow> 64 word \<times> byte list" where
  "latin1_emit w x0 =
     (let comb = (if w \<noteq> 0 then latin1_find w x0 else None);
          x = (case comb of Some (x1, x2, y) \<Rightarrow> y | None \<Rightarrow> x0);
          pre = (if w \<noteq> 0 \<and> comb = None then [ucast w] else [])
      in if x > 32 \<and> x < 127 then (x, pre) else if x > 255 \<or> x < 1 then (0, pre) else (0, pre @ [ucast x]))"

lemma utf8_decoder: "char_decoder (\<lambda>e inp. read_utf8 inp) utf8_enc code_point"
proof
  fix x er rest assume "code_point x"
  then show "\<exists>er'. read_utf8 (utf8_enc x @ rest) = Some (x, length (utf8_enc x), er')"
    using read_ref [of "unat x" rest ICONV_NONE] by (simp add: code_point_def utf8_enc_def read_utf8_def)
qed (auto simp: code_point_def utf8_enc_def)

lemma ucs4_bits:
  "bit (push_bit 24 (ucast (ucast (drop_bit 24 x) :: byte)) OR push_bit 16 (ucast (ucast (drop_bit 16 x) :: byte)) OR
     push_bit 8 (ucast (ucast (drop_bit 8 x) :: byte)) OR ucast (ucast x :: byte) :: 32 word) n \<longleftrightarrow> n < 32 \<and> bit x n"
  for x :: "64 word"
proof -
  consider "n < 8" | "8 \<le> n" "n < 16" | "16 \<le> n" "n < 24" | "24 \<le> n" "n < 32" | "32 \<le> n" by linarith
  then show ?thesis by cases (auto simp: bit_simps)
qed

lemma ucs4_value_bytes:
  assumes "unat x < 2 ^ 31"
  shows "ucs4_value (ucast (drop_bit 24 x)) (ucast (drop_bit 16 x)) (ucast (drop_bit 8 x)) (ucast x) = x"
proof (rule bit_word_eqI)
  fix n assume n: "n < LENGTH(64)"
  have t: "take_bit 31 x = x"
    using assms by (intro word_unat_eq_iff [THEN iffD2]) (simp add: unsigned_take_bit_eq take_bit_nat_eq_self)
  have hi: "\<not> bit x k" if "31 \<le> k" for k using that by (metis t bit_take_bit_iff not_le)
  show "bit (ucs4_value (ucast (drop_bit 24 x)) (ucast (drop_bit 16 x)) (ucast (drop_bit 8 x)) (ucast x)) n = bit x n"
    unfolding ucs4_value_def bit_signed_iff ucs4_bits using hi [of n] hi [of 31] n by (auto simp: min_def)
qed

lemma ucs4_decoder: "char_decoder read_UCS4 ucs4_enc code_point"
  by standard (auto simp: code_point_def ucs4_enc_def ucs4_value_bytes)

lemma unat_up: "unat (ucast (b :: byte) :: 64 word) = unat b"
  unfolding unsigned_ucast_eq by (rule take_bit_nat_eq_self) (rule less_trans [OF unat_byte_less], simp)

lemma ucast_eq_0_up: "(ucast (b :: byte) :: 64 word) = 0 \<longleftrightarrow> b = 0"
  by (metis unat_up unsigned_0 unsigned_eq_0_iff)

lemma unat_pos: "(b :: byte) \<noteq> 0 \<Longrightarrow> 0 < unat b"
  by (metis neq0_conv unsigned_eq_0_iff)

lemma latin1_decoder: "char_decoder read_ISO8859_1 latin1_enc latin1_point"
proof
  fix x er rest assume "latin1_point x"
  then have "unat x mod 256 = unat x" by (simp add: latin1_point_def)
  then have "(ucast (ucast x :: byte) :: 64 word) = x"
    by (intro word_unat_eq_iff [THEN iffD2]) (simp only: unat_up bit_arith)
  then show "\<exists>er'. read_ISO8859_1 er (latin1_enc x @ rest) = Some (x, length (latin1_enc x), er')"
    by (simp add: read_ISO8859_1_def latin1_enc_def)
qed (auto simp: latin1_point_def latin1_enc_def)

lemma length_utf8_ref: "0 < length (utf8_ref n)" "length (utf8_ref n) \<le> 6"
  by (simp_all add: utf8_ref_def)

lemma write_UTF8_full:
  assumes "unat x < 2 ^ 31" "left < length (utf8_ref (unat x))"
  shows "write_UTF8 x out left = (True, out, left, YAZ_ICONV_E2BIG)"
  using assms by (auto simp: write_UTF8_def yaz_write_UTF8_char_def utf8_ref_def unat_le_numeral split: if_splits)

lemma utf8_encoder: "char_encoder utf8_write_handle (\<lambda>e x. (e, utf8_enc x)) code_point 6"
proof
  fix x e er out left r out' left' e' er'
  assume "code_point x" and w: "utf8_write_handle e er x out left = (r, out', left', e', er')"
  then have x: "unat x < 2 ^ 31" by (simp add: code_point_def)
  show "\<exists>s. out' = out @ s \<and> left' = left - length s \<and> length s \<le> left \<and>
      (if r \<and> er' = YAZ_ICONV_E2BIG
       then left < length (snd (e, utf8_enc x)) \<and> (\<exists>e2 s2. (e, utf8_enc x) = (e2, s @ s2) \<and> (e', utf8_enc x) = (e2, s2))
       else (e, utf8_enc x) = (e', s))"
  proof (cases "left < length (utf8_enc x)")
    case True
    then show ?thesis using w write_UTF8_full [OF x, of left out] by (auto simp: utf8_write_handle_def utf8_enc_def)
  next
    case False
    then show ?thesis using w write_UTF8_ref [OF x, of left out ICONV_NONE]
      by (auto simp: utf8_write_handle_def utf8_enc_def write_UTF8_def)
  qed
qed (simp add: utf8_enc_def length_utf8_ref)

lemma ucs4_encoder: "char_encoder write_UCS4 (\<lambda>e x. (e, ucs4_enc x)) code_point 4"
  by standard (auto simp: write_UCS4_def ucs4_enc_def split: if_splits)

lemma find_mem: "find P xs = Some p \<Longrightarrow> p \<in> set xs"
  by (induction xs) (auto split: if_splits)

lemma latin1_comb_range: "(x1, x2, y) \<in> set latin1_comb \<Longrightarrow> 192 \<le> y \<and> y \<le> 255"
  by (auto simp: latin1_comb_def)

lemma latin1_encoder: "char_encoder write_iso_8859_1 latin1_emit code_point 2"
proof
  fix x w er out left r out' left' w' er'
  assume wt: "write_iso_8859_1 w er x out left = (r, out', left', w', er')"
  show "\<exists>s. out' = out @ s \<and> left' = left - length s \<and> length s \<le> left \<and>
      (if r \<and> er' = YAZ_ICONV_E2BIG
       then left < length (snd (latin1_emit w x)) \<and> (\<exists>e2 s2. latin1_emit w x = (e2, s @ s2) \<and> latin1_emit w' x = (e2, s2))
       else latin1_emit w x = (w', s))"
  proof (cases "w \<noteq> 0")
    case False
    then show ?thesis using wt by (auto simp: write_iso_8859_1_def latin1_emit_def Let_def split: if_splits)
  next
    case True
    show ?thesis
    proof (cases "latin1_find w x")
      case None
      then show ?thesis using wt True by (auto simp: write_iso_8859_1_def latin1_emit_def Let_def split: if_splits)
    next
      case (Some p)
      obtain x1 x2 y where p: "p = (x1, x2, y)" by (cases p)
      have "(x1, x2, y) \<in> set latin1_comb" using find_mem Some p by (simp add: latin1_find_def)
      then have "y \<ge> 192" "y \<le> 255" using latin1_comb_range by blast+
      then have y: "\<not> y < 127" "\<not> 255 < y" "\<not> y < 1" by (simp_all add: word_le_nat_alt word_less_nat_alt)
      have emit: "latin1_emit w x = (0, [ucast y])" using True Some p y by (simp add: latin1_emit_def Let_def)
      have "write_iso_8859_1 w er x out left = (if left < 1 then (True, out, left, w, YAZ_ICONV_E2BIG)
          else (False, out @ [ucast y], left - 1, 0, er))"
        using True Some p y by (simp add: write_iso_8859_1_def Let_def)
      then show ?thesis using wt emit by (auto split: if_splits)
    qed
  qed
qed (simp add: latin1_emit_def Let_def)

lemma encoder_mono:
  assumes "char_encoder wt emit V most" "\<And>x. V' x \<Longrightarrow> V x"
  shows "char_encoder wt emit V' most"
  using assms(1) assms(2) by (simp add: char_encoder_def)

lemma latin1_code_point: "latin1_point x \<Longrightarrow> code_point x"
  by (simp add: latin1_point_def code_point_def)

interpretation utf8_ucs4: converter "\<lambda>e inp. read_utf8 inp" utf8_enc write_UCS4 "\<lambda>e x. (e, ucs4_enc x)" 4 code_point None
  by (rule converter.intro [OF utf8_decoder ucs4_encoder])

interpretation ucs4_utf8: converter read_UCS4 ucs4_enc utf8_write_handle "\<lambda>e x. (e, utf8_enc x)" 6 code_point None
  by (rule converter.intro [OF ucs4_decoder utf8_encoder])

interpretation latin1_utf8: converter read_ISO8859_1 latin1_enc utf8_write_handle "\<lambda>e x. (e, utf8_enc x)" 6 latin1_point None
  by (rule converter.intro [OF latin1_decoder encoder_mono [OF utf8_encoder latin1_code_point]])

interpretation utf8_latin1: converter "\<lambda>e inp. read_utf8 inp" utf8_enc write_iso_8859_1 latin1_emit 2 code_point "Some flush_iso_8859_1"
  by (rule converter.intro [OF utf8_decoder latin1_encoder])

section \<open>From an opened handle\<close>

text \<open>A call that starts the conversion.\<close>

lemma iconv_first:
  assumes "iconv_start cd (Some inp) = Some ((Some 0, 0), cd1)"
  shows "yaz_iconv cd (Some inp) left = yaz_iconv (cd1\<lparr>init_flag := False\<rparr>) (Some inp) left"
  using assms by (simp add: yaz_iconv_def iconv_start_def [of "cd1\<lparr>init_flag := False\<rparr>"] Let_def)

lemma write2_first:
  assumes "inp \<noteq> []" "iconv_start cd (Some inp) = Some ((Some 0, 0), cd1)"
  shows "write2_loop cd inp b wfunc = write2_loop (cd1\<lparr>init_flag := False\<rparr>) inp b wfunc"
  using assms(1) iconv_first [OF assms(2)] by (simp add: write2_loop.simps)

text \<open>The bytes skipped at the start show in the count that \<open>yaz_iconv\<close> returns, and in nothing else.\<close>

lemma iconv_loop_count:
  "iconv_loop cd inp (n + m) out left = map_option (\<lambda>(r, y). (map_option (\<lambda>k. k + m) r, y)) (iconv_loop cd inp n out left)"
proof (induction cd inp n out left rule: iconv_loop.induct)
  case (1 cd inp n out left)
  note IH = 1
  define d where "d = (if unget_x cd \<noteq> 0 then Some (unget_x cd, no_read_x cd, cd)
                 else do {
                   h \<leftarrow> read_handle (decoder cd);
                   (x, k, er) \<leftarrow> h (my_errno cd) inp;
                   Some (x, k, cd\<lparr>my_errno := er\<rparr>)})"
  note unfold = iconv_loop.simps [of cd inp, folded d_def]
  note IH = IH [folded d_def]
  show ?case
  proof (cases "unget_x cd = 0 \<and> inp = []")
    case True
    then show ?thesis by (simp add: iconv_loop.simps [of cd])
  next
    case F: False
    show ?thesis
    proof (cases d)
      case None
      then show ?thesis using F by (simp add: unfold)
    next
      case (Some t)
      obtain x no_read cd1 where d: "d = Some (x, no_read, cd1)" using Some by (cases t) auto
      note IH1 = IH(1) [OF F d refl refl] and IH2 = IH(2) [OF F d refl refl]
      show ?thesis
      proof (cases "(unget_x cd = 0 \<and> no_read = 0) \<or> no_read > length inp")
        case True
        then show ?thesis using F by (auto simp: unfold d split: option.splits)
      next
        case G: False
        then show ?thesis
        proof (cases "x = 0")
          case True
          then show ?thesis using F G IH2 by (auto simp: unfold d add.assoc add.commute [of m])
        next
          case False
          then show ?thesis using F G IH1 by (auto simp: unfold d add.assoc add.commute [of m] split: option.splits)
        qed
      qed
    qed
  qed
qed

lemma write2_begins:
  assumes "inp \<noteq> []" "iconv_start cd (Some inp) = Some ((Some 0, k), cd1)" "k \<le> length inp" "unget_x cd1 = 0" "wrbuf_wf b"
  shows "\<exists>b0. write2_loop cd inp b wrbuf_write = write2_loop (cd1\<lparr>init_flag := False\<rparr>) (drop k inp) b0 wrbuf_write \<and>
    wrbuf_wf b0 \<and> wrbuf_content b0 = wrbuf_content b"
proof -
  let ?cd = "cd1\<lparr>init_flag := False\<rparr>"
  have y: "yaz_iconv cd (Some inp) 128 = iconv_loop ?cd (drop k inp) (0 + k) [] 128"
    using assms(2,3) by (simp add: yaz_iconv_def Let_def)
  show ?thesis
  proof (cases "drop k inp = []")
    case True
    from wr.appends_put [of "[]"] assms(5) obtain b0 where b0: "wrbuf_write b [] = Some b0" "wrbuf_wf b0" "wrbuf_content b0 = wrbuf_content b"
      by (auto simp: appends_to_def)
    have "yaz_iconv cd (Some inp) 128 = Some (Some k, [], [], ?cd)"
      using y True assms(4) by (simp add: iconv_loop.simps [of ?cd])
    then show ?thesis using b0 True assms(1) by (simp add: write2_loop.simps [of cd] write2_loop.simps [of ?cd])
  next
    case False
    have "yaz_iconv ?cd (Some (drop k inp)) 128 = iconv_loop ?cd (drop k inp) 0 [] 128" by (simp add: yaz_iconv_def iconv_start_def)
    then have "write2_loop cd inp b wrbuf_write = write2_loop ?cd (drop k inp) b wrbuf_write"
      using False assms(1) y [unfolded iconv_loop_count]
      by (simp add: write2_loop.simps [of cd] write2_loop.simps [of ?cd] split: option.splits)
    then show ?thesis using assms(5) by blast
  qed
qed

lemma stateless_emits:
  "utf8_ucs4.emits_all e xs = (e, concat (map ucs4_enc xs))"
  "ucs4_utf8.emits_all e xs = (e, concat (map utf8_enc xs))"
  "latin1_utf8.emits_all e xs = (e, concat (map utf8_enc xs))"
  by (induction xs) simp_all

lemma write_bytewise: "wr_appends (\<lambda>b. wrbuf_write b s) (concat (map (\<lambda>c. [c]) s))"
proof -
  have "concat (map (\<lambda>c. [c]) s) = s" by (induction s) simp_all
  then show ?thesis using wr.appends_put [of s] by simp
qed

lemma bytewise: "concat (map (\<lambda>c. [c]) s) = s"
  by (induction s) simp_all

lemma latin1_input: "latin1_utf8.input (map ucast s) = s"
proof -
  have "latin1_enc (ucast c) = [c]" for c
    unfolding latin1_enc_def by (intro list.inject [THEN iffD2] conjI byte_eqI refl) (simp only: unat_ucast8 unat_up, simp)
  then show ?thesis by (induction s) (simp_all add: latin1_utf8.input_Nil latin1_utf8.input_Cons)
qed

lemma latin1_points: "no_nul s \<Longrightarrow> \<forall>x \<in> set (map ucast s). latin1_point x"
  by (auto simp: latin1_point_def unat_up ucast_eq_0_up) (metis unat_pos)

text \<open>Conversion of an ISO 8859-1 string with a handle just opened.\<close>

lemma latin1_utf8_opened:
  assumes "yaz_utf8_encoder tocode (null_encoder w) = Some en" "yaz_iso_8859_1_decoder fromcode null_decoder = Some de"
    and "wrbuf_wf b" "no_nul s" "\<And>s. wr_appends (\<lambda>b. wfunc b s) (concat (map esc s))"
  shows "\<exists>cd' b'. wrbuf_iconv_write2 b (Some (iconv_opened en de n u)) s wfunc = Some (0, Some cd', b') \<and>
    wrbuf_wf b' \<and> wrbuf_content b' = wrbuf_content b @ concat (map esc (concat (map (\<lambda>c. utf8_ref (unat c)) s)))"
proof (cases "s = []")
  case True
  then show ?thesis using assms(3) by (simp add: wrbuf_iconv_write2_def write2_loop.simps)
next
  case False
  have h: "write_handle en = Some utf8_write_handle" "enc_init en = None" "read_handle de = Some read_ISO8859_1" "dec_init de = None" "flush_handle en = None"
    using assms(1,2) by (auto simp: yaz_utf8_encoder_def yaz_iso_8859_1_decoder_def null_encoder_def null_decoder_def split: if_splits)
  let ?cd1 = "(iconv_opened en de n u)\<lparr>unget_x := 0, no_read_x := 0\<rparr>"
  have st: "iconv_start (iconv_opened en de n u) (Some s) = Some ((Some 0, 0), ?cd1)"
    using h by (simp add: iconv_start_def iconv_opened_def Let_def)
  have "latin1_utf8.holds (?cd1\<lparr>init_flag := False\<rparr>) (enc_data en) (map ucast s)"
    using h latin1_points [OF assms(4)] by (simp add: latin1_utf8.holds_def iconv_opened_def)
  from latin1_utf8.write2_converts [OF assms(5) _ this _ assms(3)] obtain cd' b' where
    "write2_loop (?cd1\<lparr>init_flag := False\<rparr>) s b wfunc = Some (0, cd', b')" "wrbuf_wf b'"
    "wrbuf_content b' = wrbuf_content b @ concat (map esc (concat (map utf8_enc (map ucast s))))"
    by (auto simp: latin1_input stateless_emits)
  then show ?thesis using write2_first [OF False st, of b wfunc]
    by (simp add: wrbuf_iconv_write2_def utf8_enc_def unat_up o_def)
qed

text \<open>
  The start of a conversion from UTF-8. \<open>init_utf8\<close> means to skip a byte order mark, but it skips the other
  characters of the form EF xx BF: those from U+F03F to U+FFFF whose low six bits are set, U+FEFF apart.
  \<open>after_init\<close> is the text that is left.
\<close>

definition skipped :: "64 word \<Rightarrow> bool" where
  "skipped x \<longleftrightarrow> 0xF000 \<le> unat x \<and> unat x \<le> 0xFFFF \<and> unat x mod 64 = 63 \<and> unat x \<noteq> 0xFEFF"

definition after_init :: "64 word list \<Rightarrow> 64 word list" where
  "after_init xs = (case xs of [] \<Rightarrow> [] | x # xs' \<Rightarrow> if skipped x then xs' else xs)"

lemma after_init_set: "\<forall>x \<in> set xs. P x \<Longrightarrow> \<forall>x \<in> set (after_init xs). P x"
  by (auto simp: after_init_def split: list.splits if_splits)

lemma byte_of_eq: "m < 256 \<Longrightarrow> k < 256 \<Longrightarrow> byte_of m = byte_of k \<longleftrightarrow> m = k"
  by (metis unat_byte_of mod_less)

lemma utf8_start_byte:
  assumes "code_point x"
  shows "utf8_enc x \<noteq> []" and "hd (utf8_enc x) = 0xef \<longleftrightarrow> 0xF000 \<le> unat x \<and> unat x \<le> 0xFFFF"
proof -
  have b: "unat x < 2 ^ 31" using assms by (simp add: code_point_def)
  show "utf8_enc x \<noteq> []" by (simp add: utf8_enc_def utf8_ref_def)
  have e: "byte_of m = 0xef \<longleftrightarrow> m = 0xef" if "m < 256" for m
    using byte_of_eq [OF that, of "0xef"] by (simp add: byte_of_def)
  from b show "hd (utf8_enc x) = 0xef \<longleftrightarrow> 0xF000 \<le> unat x \<and> unat x \<le> 0xFFFF"
    by (cases rule: utf8_ranges) (auto simp: utf8_enc_def utf8_ref_def e div_less_iff_less_mult less_eq_div_iff_mult_less_eq)
qed

lemma utf8_init:
  assumes "xs \<noteq> []" "\<forall>x \<in> set xs. code_point x"
  shows "\<exists>k. init_utf8 (Some (concat (map utf8_enc xs))) er = Some (False, k, er) \<and>
    k \<le> length (concat (map utf8_enc xs)) \<and> drop k (concat (map utf8_enc xs)) = concat (map utf8_enc (after_init xs))"
proof -
  obtain x ys where xs: "xs = x # ys" using assms(1) by (cases xs) simp_all
  have cp: "code_point x" using assms(2) xs by simp
  show ?thesis
  proof (cases "0xF000 \<le> unat x \<and> unat x \<le> 0xFFFF")
    case True
    define n where "n = unat x"
    have n: "n div 64 mod 64 < 64" "n mod 64 < 64" "n div 4096 = 15" using True by (auto simp: n_def)
    have enc: "utf8_enc x = [0xef, byte_of (0x80 + n div 64 mod 64), byte_of (0x80 + n mod 64)]"
      using True n(3) by (simp add: utf8_enc_def utf8_ref_def n_def byte_of_def)
    have bb: "byte_of (0x80 + n div 64 mod 64) = 0xbb \<longleftrightarrow> n div 64 mod 64 = 0x3b"
      using n(1) byte_of_eq [of "0x80 + n div 64 mod 64" "0xbb"] by (simp add: byte_of_def)
    have bf: "byte_of (0x80 + n mod 64) = 0xbf \<longleftrightarrow> n mod 64 = 63"
      using n(2) byte_of_eq [of "0x80 + n mod 64" "0xbf"] by (simp add: byte_of_def)
    have "n = 4096 * 15 + 64 * (n div 64 mod 64) + n mod 64"
    proof -
      have "n div 64 div 64 = 15" using n(3) by (simp add: div_mult2_eq [symmetric])
      then show ?thesis using div_mult_mod_eq [of n 64] div_mult_mod_eq [of "n div 64" 64] by linarith
    qed
    then have "n = 0xFEFF \<longleftrightarrow> n div 64 mod 64 = 0x3b" if "n mod 64 = 63" using that by (auto simp del: mod_mult_self1)
    then have "n div 64 mod 64 \<noteq> 0x3b \<and> n mod 64 = 63 \<longleftrightarrow> skipped x"
      using True unfolding skipped_def n_def by blast
    then show ?thesis using bb bf by (auto simp: xs enc init_utf8_def after_init_def)
  next
    case False
    then have "hd (utf8_enc x) \<noteq> 0xef" "\<not> skipped x" using utf8_start_byte(2) [OF cp] by (auto simp: skipped_def)
    then show ?thesis using utf8_start_byte(1) [OF cp] by (auto simp: xs init_utf8_def after_init_def hd_conv_nth nth_append)
  qed
qed

lemma utf8_start:
  assumes "dec_init de = Some init_utf8" "xs \<noteq> []" "\<forall>x \<in> set xs. code_point x"
  shows "\<exists>k. iconv_start (iconv_opened en de n u) (Some (concat (map utf8_enc xs))) = Some ((Some 0, k), (iconv_opened en de n u)\<lparr>unget_x := 0, no_read_x := 0,
      encoder := (case enc_init en of Some f \<Rightarrow> en\<lparr>enc_data := f (enc_data en)\<rparr> | None \<Rightarrow> en)\<rparr>) \<and>
    k \<le> length (concat (map utf8_enc xs)) \<and> drop k (concat (map utf8_enc xs)) = concat (map utf8_enc (after_init xs))"
  using utf8_init [OF assms(2,3), of YAZ_ICONV_UNKNOWN] assms(1) by (auto simp: iconv_start_def iconv_opened_def Let_def)

lemma after_init_hd:
  "after_init xs = (if xs \<noteq> [] \<and> 0xF000 \<le> unat (hd xs) \<and> unat (hd xs) \<le> 0xFFFF \<and> unat (hd xs) mod 64 = 63 \<and> unat (hd xs) \<noteq> 0xFEFF
     then tl xs else xs)"
  by (cases xs) (simp_all add: after_init_def skipped_def)

lemma utf8_begins:
  assumes "dec_init de = Some init_utf8" "xs \<noteq> []" "\<forall>x \<in> set xs. code_point x" "wrbuf_wf b"
  shows "\<exists>b0. write2_loop (iconv_opened en de n u) (concat (map utf8_enc xs)) b wrbuf_write =
      write2_loop ((iconv_opened en de n u)\<lparr>unget_x := 0, no_read_x := 0,
        encoder := (case enc_init en of Some f \<Rightarrow> en\<lparr>enc_data := f (enc_data en)\<rparr> | None \<Rightarrow> en), init_flag := False\<rparr>)
        (concat (map utf8_enc (after_init xs))) b0 wrbuf_write \<and> wrbuf_wf b0 \<and> wrbuf_content b0 = wrbuf_content b"
proof -
  obtain x ys where "xs = x # ys" "code_point x" using assms(2,3) by (cases xs) simp_all
  then have ne: "concat (map utf8_enc xs) \<noteq> []" using utf8_start_byte(1) [of x] by simp
  from utf8_start [OF assms(1-3), of en n u] obtain k where
    k: "iconv_start (iconv_opened en de n u) (Some (concat (map utf8_enc xs))) = Some ((Some 0, k), (iconv_opened en de n u)\<lparr>unget_x := 0, no_read_x := 0,
      encoder := (case enc_init en of Some f \<Rightarrow> en\<lparr>enc_data := f (enc_data en)\<rparr> | None \<Rightarrow> en)\<rparr>)"
    "k \<le> length (concat (map utf8_enc xs))" "drop k (concat (map utf8_enc xs)) = concat (map utf8_enc (after_init xs))"
    by blast
  show ?thesis using write2_begins [OF ne k(1,2) _ assms(4)] unfolding k(3) by simp
qed

lemma utf8_ucs4_opened:
  assumes "yaz_ucs4_encoder (str ''UCS4'') (null_encoder w) = Some en" "yaz_utf8_decoder fromcode null_decoder = Some de"
    and "wrbuf_wf b" "\<forall>x \<in> set xs. code_point x"
  shows "\<exists>cd' b'. wrbuf_iconv_write2 b (Some (iconv_opened en de n u)) (concat (map utf8_enc xs)) wrbuf_write = Some (0, Some cd', b') \<and>
    wrbuf_wf b' \<and> wrbuf_content b' = wrbuf_content b @ concat (map ucs4_enc (after_init xs))"
proof (cases "xs = []")
  case True
  then show ?thesis using assms(3) by (simp add: wrbuf_iconv_write2_def write2_loop.simps after_init_def)
next
  case False
  have h: "write_handle en = Some write_UCS4" "enc_init en = None" "flush_handle en = None"
      "read_handle de = Some (\<lambda>e inp. read_utf8 inp)" "dec_init de = Some init_utf8"
    using assms(1,2) by (auto simp: yaz_ucs4_encoder_def yaz_utf8_decoder_def null_encoder_def null_decoder_def matchstr_norm split: if_splits)
  let ?cd1 = "(iconv_opened en de n u)\<lparr>unget_x := 0, no_read_x := 0, encoder := en\<rparr>"
  obtain b0 where b0: "write2_loop (iconv_opened en de n u) (concat (map utf8_enc xs)) b wrbuf_write =
      write2_loop (?cd1\<lparr>init_flag := False\<rparr>) (utf8_ucs4.input (after_init xs)) b0 wrbuf_write"
      "wrbuf_wf b0" "wrbuf_content b0 = wrbuf_content b"
    using utf8_begins [OF h(5) False assms(4,3), of en n u] h(2) by (auto simp: utf8_ucs4.input_def)
  have "utf8_ucs4.holds (?cd1\<lparr>init_flag := False\<rparr>) (enc_data en) (after_init xs)"
    using h after_init_set [OF assms(4)] by (simp add: utf8_ucs4.holds_def iconv_opened_def)
  from utf8_ucs4.write2_converts [OF write_bytewise _ this _ b0(2)] show ?thesis
    using b0(1,3) by (auto simp: wrbuf_iconv_write2_def stateless_emits bytewise)
qed

lemma ucs4_utf8_opened:
  assumes "yaz_utf8_encoder tocode (null_encoder w) = Some en" "yaz_ucs4_decoder (str ''UCS4'') null_decoder = Some de"
    and "wrbuf_wf b" "\<forall>x \<in> set xs. code_point x"
  shows "\<exists>cd' b'. wrbuf_iconv_write2 b (Some (iconv_opened en de n u)) (ucs4_utf8.input xs) wrbuf_write = Some (0, Some cd', b') \<and>
    wrbuf_wf b' \<and> wrbuf_content b' = wrbuf_content b @ concat (map utf8_enc xs)"
proof (cases "xs = []")
  case True
  then show ?thesis using assms(3) by (simp add: wrbuf_iconv_write2_def write2_loop.simps ucs4_utf8.input_Nil)
next
  case False
  have ne: "ucs4_utf8.input xs \<noteq> []" using False ucs4_utf8.input_empty [OF assms(4)] by simp
  have h: "write_handle en = Some utf8_write_handle" "enc_init en = None" "flush_handle en = None"
      "read_handle de = Some read_UCS4" "dec_init de = None"
    using assms(1,2) by (auto simp: yaz_utf8_encoder_def yaz_ucs4_decoder_def null_encoder_def null_decoder_def matchstr_norm split: if_splits)
  let ?cd1 = "(iconv_opened en de n u)\<lparr>unget_x := 0, no_read_x := 0\<rparr>"
  have st: "iconv_start (iconv_opened en de n u) (Some (ucs4_utf8.input xs)) = Some ((Some 0, 0), ?cd1)"
    using h by (simp add: iconv_start_def iconv_opened_def Let_def)
  have "ucs4_utf8.holds (?cd1\<lparr>init_flag := False\<rparr>) (enc_data en) xs"
    using h assms(4) by (simp add: ucs4_utf8.holds_def iconv_opened_def)
  from ucs4_utf8.write2_converts [OF write_bytewise _ this _ assms(3)] show ?thesis
    using write2_first [OF ne st, of b wrbuf_write] by (auto simp: wrbuf_iconv_write2_def stateless_emits bytewise)
qed

section \<open>Composition of letters\<close>

definition latin1_out :: "64 word \<Rightarrow> byte list" where
  "latin1_out x = (if x > 255 \<or> x < 1 then [] else [ucast x])"

text \<open>ISO 8859-1 text of a sequence of code points, with letter and combining mark composed.\<close>

fun compose :: "64 word list \<Rightarrow> byte list" where
  "compose [] = []"
| "compose [x] = latin1_out x"
| "compose (x # x' # xs) =
     (case latin1_find x x' of
        Some (x1, x2, y) \<Rightarrow> ucast y # compose xs
      | None \<Rightarrow> latin1_out x @ compose (x' # xs))"

definition base :: "64 word \<Rightarrow> bool" where
  "base x \<longleftrightarrow> x > 32 \<and> x < 127"

lemma latin1_comb_base: "(x1, x2, y) \<in> set latin1_comb \<Longrightarrow> base x1"
  by (auto simp: latin1_comb_def base_def)

lemma no_base_find: "\<not> base x \<Longrightarrow> latin1_find x x' = None"
  using latin1_comb_base by (force simp: latin1_find_def find_None_iff)

lemma compose_no_base: "\<not> base x \<Longrightarrow> compose (x # xs) = latin1_out x @ compose xs"
  by (cases xs) (simp_all add: no_base_find)

lemma after_init_compose: "compose (after_init xs) = compose xs"
proof (cases xs)
  case (Cons x ys)
  have "compose (x # ys) = compose ys" if "skipped x"
  proof -
    have "x > 255" using that by (simp add: skipped_def word_less_nat_alt)
    then have "\<not> base x" "latin1_out x = []" by (auto simp: base_def latin1_out_def word_less_nat_alt)
    then show ?thesis by (simp add: compose_no_base)
  qed
  then show ?thesis by (simp add: Cons after_init_def)
qed (simp add: after_init_def)

lemma latin1_emit_cases:
  "base x \<Longrightarrow> latin1_emit 0 x = (x, [])"
  "\<not> base x \<Longrightarrow> latin1_emit 0 x = (0, latin1_out x)"
  "w \<noteq> 0 \<Longrightarrow> latin1_find w x = None \<Longrightarrow> base x \<Longrightarrow> latin1_emit w x = (x, [ucast w])"
  "w \<noteq> 0 \<Longrightarrow> latin1_find w x = None \<Longrightarrow> \<not> base x \<Longrightarrow> latin1_emit w x = (0, ucast w # latin1_out x)"
  "w \<noteq> 0 \<Longrightarrow> latin1_find w x = Some (x1, x2, y) \<Longrightarrow> latin1_emit w x = (0, [ucast y])"
proof -
  show "base x \<Longrightarrow> latin1_emit 0 x = (x, [])" "\<not> base x \<Longrightarrow> latin1_emit 0 x = (0, latin1_out x)"
    by (auto simp: latin1_emit_def base_def latin1_out_def)
  show "w \<noteq> 0 \<Longrightarrow> latin1_find w x = None \<Longrightarrow> base x \<Longrightarrow> latin1_emit w x = (x, [ucast w])"
    "w \<noteq> 0 \<Longrightarrow> latin1_find w x = None \<Longrightarrow> \<not> base x \<Longrightarrow> latin1_emit w x = (0, ucast w # latin1_out x)"
    by (auto simp: latin1_emit_def base_def latin1_out_def Let_def)
  assume a: "w \<noteq> 0" "latin1_find w x = Some (x1, x2, y)"
  then have "192 \<le> y" "y \<le> 255"
    using latin1_comb_range [OF find_mem [OF a(2) [unfolded latin1_find_def]]] by simp_all
  then have "\<not> y < 127" "\<not> 255 < y" "\<not> y < 1" by (simp_all add: word_le_nat_alt word_less_nat_alt)
  then show "latin1_emit w x = (0, [ucast y])" using a by (simp add: latin1_emit_def Let_def)
qed

text \<open>What the encoder still holds is written by the flush.\<close>

definition pending :: "64 word \<Rightarrow> byte list" where
  "pending w = (if w \<noteq> 0 then [ucast w] else [])"

lemma base_facts: "base w \<Longrightarrow> w \<noteq> 0" "base w \<Longrightarrow> latin1_out w = [ucast w]"
  by (auto simp: base_def latin1_out_def word_less_nat_alt)

lemma emits_compose:
  "snd (utf8_latin1.emits_all 0 xs) @ pending (fst (utf8_latin1.emits_all 0 xs)) = compose xs \<and>
   (\<forall>w. base w \<longrightarrow> snd (utf8_latin1.emits_all w xs) @ pending (fst (utf8_latin1.emits_all w xs)) = compose (w # xs))"
proof (induction xs)
  case Nil
  then show ?case using base_facts by (auto simp: pending_def)
next
  case (Cons x xs)
  show ?case
  proof (intro conjI allI impI)
    show "snd (utf8_latin1.emits_all 0 (x # xs)) @ pending (fst (utf8_latin1.emits_all 0 (x # xs))) = compose (x # xs)"
      using Cons by (cases "base x") (auto simp: latin1_emit_cases compose_no_base split: prod.splits)
    fix w assume w: "base w"
    show "snd (utf8_latin1.emits_all w (x # xs)) @ pending (fst (utf8_latin1.emits_all w (x # xs))) = compose (w # x # xs)"
    proof (cases "latin1_find w x")
      case None
      then show ?thesis using Cons base_facts [OF w]
        by (cases "base x") (auto simp: latin1_emit_cases compose_no_base split: prod.splits)
    next
      case (Some p)
      obtain x1 x2 y where "p = (x1, x2, y)" by (cases p)
      then show ?thesis using Some Cons base_facts(1) [OF w] by (auto simp: latin1_emit_cases(5) split: prod.splits)
    qed
  qed
qed

lemma latin1_reset:
  assumes "utf8_latin1.holds cd w []" "\<not> init_flag cd" "wrbuf_wf b"
  shows "\<exists>cd' b'. wrbuf_iconv_reset b (Some cd) = Some (Some cd', b') \<and> wrbuf_wf b' \<and> wrbuf_content b' = wrbuf_content b @ pending w"
proof -
  have h: "unget_x cd = 0" "flush_handle (encoder cd) = Some flush_iso_8859_1" "enc_data (encoder cd) = w"
    using assms(1) by (simp_all add: utf8_latin1.holds_def)
  have f: "flush_iso_8859_1 w er [] 16 = (False, pending w, 16 - length (pending w), if w \<noteq> 0 then 0 else w, er)" for er
    by (simp add: flush_iso_8859_1_def pending_def)
  obtain cd' where "yaz_iconv cd None 16 = Some (Some 0, [], pending w, cd')"
    using assms(2) h f by (simp add: yaz_iconv_def iconv_start_def iconv_flush_def Let_def)
  moreover obtain b' where "wrbuf_write b (pending w) = Some b'" "wrbuf_wf b'" "wrbuf_content b' = wrbuf_content b @ pending w"
    using write_appends [OF assms(3)] by blast
  ultimately show ?thesis by (simp add: wrbuf_iconv_reset_def)
qed

section \<open>Properties\<close>

text \<open>
  C32: ISO 8859-1 to UTF-8 through a buffer. Writing a string with a conversion just opened appends the
  UTF-8 encoding of every byte, also across the boundaries of the 128-byte conversion buffer, and the
  variant for XML appends the same text escaped.
\<close>

theorem latin1_to_utf8:
  assumes "yaz_utf8_encoder tocode (null_encoder w) = Some en" "yaz_iso_8859_1_decoder fromcode null_decoder = Some de"
    and "wrbuf_wf b" "no_nul s"
  shows "\<exists>cd' b'. wrbuf_iconv_write_x b (Some (iconv_opened en de n u)) s cdata = Some (0, Some cd', b') \<and> wrbuf_wf b' \<and>
    wrbuf_content b' = wrbuf_content b @
      (if cdata then concat (map xml_escape (concat (map (\<lambda>c. utf8_ref (unat c)) s))) else concat (map (\<lambda>c. utf8_ref (unat c)) s))"
  unfolding wrbuf_iconv_write_x_def
  using latin1_utf8_opened [OF assms, of wrbuf_xmlputs_n xml_escape n u] xmlputs_appends
    latin1_utf8_opened [OF assms, of wrbuf_write "\<lambda>c. [c]" n u] write_bytewise
  by (cases cdata) (simp_all add: bytewise)

theorem latin1_to_utf8_witness:
  "\<exists>cd' b'. wrbuf_iconv_write_x (wrbuf_alloc (\<lambda>i. 0))
      (Some (iconv_opened ((null_encoder ())\<lparr>write_handle := Some utf8_write_handle\<rparr>) (null_decoder\<lparr>read_handle := Some read_ISO8859_1\<rparr>) 0 0))
      [0x41, 0xe6] False = Some (0, Some cd', b') \<and> wrbuf_wf b' \<and>
    wrbuf_content b' = wrbuf_content (wrbuf_alloc (\<lambda>i. 0)) @
      (if False then concat (map xml_escape (concat (map (\<lambda>c. utf8_ref (unat c)) [0x41, 0xe6 :: byte])))
       else concat (map (\<lambda>c. utf8_ref (unat c)) [0x41, 0xe6 :: byte]))"
  by (rule latin1_to_utf8 [where tocode = "str ''UTF-8''" and fromcode = "str ''ISO-8859-1''"])
    (simp_all add: yaz_utf8_encoder_def yaz_iso_8859_1_decoder_def matchstr_norm norm_str_def lower_def ctype_defs wrbuf_alloc_wf)

text \<open>
  C33: UTF-8 to UCS-4 and back. A text of non-zero code points below 2^31 is converted completely, and
  converting the result gives back the text, less its first character where that is one the decoder takes for a
  byte order mark: U+F03F, U+F07F, ..., U+FFFF, those that are EF xx BF in UTF-8, but not the mark U+FEFF itself.
  So U+FF3F at the start of a text is lost.
\<close>

theorem utf8_ucs4_roundtrip:
  assumes "yaz_ucs4_encoder (str ''UCS4'') (null_encoder w1) = Some en1" "yaz_utf8_decoder (str ''UTF-8'') null_decoder = Some de1"
    and "yaz_utf8_encoder (str ''UTF-8'') (null_encoder w2) = Some en2" "yaz_ucs4_decoder (str ''UCS4'') null_decoder = Some de2"
    and "wrbuf_wf b" "\<forall>x \<in> set xs. code_point x"
  shows "\<exists>cd1 b1 t. wrbuf_iconv_write2 b (Some (iconv_opened en1 de1 n1 u1)) (concat (map utf8_enc xs)) wrbuf_write = Some (0, cd1, b1) \<and>
    wrbuf_content b1 = wrbuf_content b @ t \<and>
    (\<exists>cd2 b2. wrbuf_iconv_write2 b (Some (iconv_opened en2 de2 n2 u2)) t wrbuf_write = Some (0, cd2, b2) \<and>
      wrbuf_content b2 = wrbuf_content b @ concat (map utf8_enc
        (if xs \<noteq> [] \<and> 0xF000 \<le> unat (hd xs) \<and> unat (hd xs) \<le> 0xFFFF \<and> unat (hd xs) mod 64 = 63 \<and> unat (hd xs) \<noteq> 0xFEFF
         then tl xs else xs)))"
  using utf8_ucs4_opened [OF assms(1,2,5,6), of n1 u1] ucs4_utf8_opened [OF assms(3,4,5) after_init_set [OF assms(6)], of n2 u2]
  unfolding ucs4_utf8.input_def after_init_hd by blast

theorem utf8_ucs4_roundtrip_witness:
  "\<exists>cd1 b1 t. wrbuf_iconv_write2 (wrbuf_alloc (\<lambda>i. 0)) (Some (iconv_opened ((null_encoder ())\<lparr>write_handle := Some write_UCS4\<rparr>)
        (null_decoder\<lparr>dec_init := Some init_utf8, read_handle := Some (\<lambda>e inp. read_utf8 inp)\<rparr>) 0 0)) (concat (map utf8_enc [0xff21, 0xe6])) wrbuf_write = Some (0, cd1, b1) \<and>
    wrbuf_content b1 = wrbuf_content (wrbuf_alloc (\<lambda>i. 0)) @ t \<and>
    (\<exists>cd2 b2. wrbuf_iconv_write2 (wrbuf_alloc (\<lambda>i. 0)) (Some (iconv_opened ((null_encoder ())\<lparr>write_handle := Some utf8_write_handle\<rparr>)
        (null_decoder\<lparr>read_handle := Some read_UCS4\<rparr>) 0 0)) t wrbuf_write = Some (0, cd2, b2) \<and>
      wrbuf_content b2 = wrbuf_content (wrbuf_alloc (\<lambda>i. 0)) @ concat (map utf8_enc [0xff21, 0xe6]))"
proof -
  let ?xs = "[0xff21, 0xe6 :: 64 word]"
  have "\<exists>cd1 b1 t. wrbuf_iconv_write2 (wrbuf_alloc (\<lambda>i. 0)) (Some (iconv_opened ((null_encoder ())\<lparr>write_handle := Some write_UCS4\<rparr>)
        (null_decoder\<lparr>dec_init := Some init_utf8, read_handle := Some (\<lambda>e inp. read_utf8 inp)\<rparr>) 0 0)) (concat (map utf8_enc ?xs)) wrbuf_write = Some (0, cd1, b1) \<and>
    wrbuf_content b1 = wrbuf_content (wrbuf_alloc (\<lambda>i. 0)) @ t \<and>
    (\<exists>cd2 b2. wrbuf_iconv_write2 (wrbuf_alloc (\<lambda>i. 0)) (Some (iconv_opened ((null_encoder ())\<lparr>write_handle := Some utf8_write_handle\<rparr>)
        (null_decoder\<lparr>read_handle := Some read_UCS4\<rparr>) 0 0)) t wrbuf_write = Some (0, cd2, b2) \<and>
      wrbuf_content b2 = wrbuf_content (wrbuf_alloc (\<lambda>i. 0)) @ concat (map utf8_enc
        (if ?xs \<noteq> [] \<and> 0xF000 \<le> unat (hd ?xs) \<and> unat (hd ?xs) \<le> 0xFFFF \<and> unat (hd ?xs) mod 64 = 63 \<and> unat (hd ?xs) \<noteq> 0xFEFF
         then tl ?xs else ?xs)))"
    by (rule utf8_ucs4_roundtrip)
      (simp_all add: yaz_utf8_encoder_def yaz_utf8_decoder_def yaz_ucs4_encoder_def yaz_ucs4_decoder_def matchstr_norm norm_str_def
        lower_def ctype_defs wrbuf_alloc_wf code_point_def)
  then show ?thesis by (simp del: list.map)
qed

text \<open>
  C34: UTF-8 to ISO 8859-1. Writing a text and resetting the conversion appends the code points up to
  255, with a letter and a following combining mark composed where ISO 8859-1 has the letter, and
  leaves out the rest.
\<close>

theorem utf8_to_latin1_composes:
  assumes "yaz_iso_8859_1_encoder tocode (null_encoder w) = Some en" "yaz_utf8_decoder fromcode null_decoder = Some de"
    and "wrbuf_wf b" "\<forall>x \<in> set xs. code_point x" "xs \<noteq> []"
  shows "\<exists>cd1 b1 cd2 b2. wrbuf_iconv_write b (Some (iconv_opened en de n u)) (concat (map utf8_enc xs)) = Some (Some cd1, b1) \<and>
    wrbuf_iconv_reset b1 (Some cd1) = Some (cd2, b2) \<and> wrbuf_wf b2 \<and> wrbuf_content b2 = wrbuf_content b @ compose xs"
proof -
  have h: "write_handle en = Some write_iso_8859_1" "enc_init en = Some init_iso_8859_1" "flush_handle en = Some flush_iso_8859_1"
      "read_handle de = Some (\<lambda>e inp. read_utf8 inp)" "dec_init de = Some init_utf8"
    using assms(1,2) by (auto simp: yaz_iso_8859_1_encoder_def yaz_utf8_decoder_def null_encoder_def null_decoder_def split: if_splits)
  let ?cd1 = "(iconv_opened en de n u)\<lparr>unget_x := 0, no_read_x := 0, encoder := en\<lparr>enc_data := 0\<rparr>\<rparr>"
  let ?ys = "after_init xs"
  obtain b0 where b0: "write2_loop (iconv_opened en de n u) (concat (map utf8_enc xs)) b wrbuf_write =
      write2_loop (?cd1\<lparr>init_flag := False\<rparr>) (utf8_latin1.input ?ys) b0 wrbuf_write"
      "wrbuf_wf b0" "wrbuf_content b0 = wrbuf_content b"
    using utf8_begins [OF h(5) assms(5,4,3), of en n u] h(2) by (auto simp: utf8_latin1.input_def init_iso_8859_1_def)
  have "utf8_latin1.holds (?cd1\<lparr>init_flag := False\<rparr>) 0 ?ys"
    using h after_init_set [OF assms(4)] by (simp add: utf8_latin1.holds_def iconv_opened_def)
  from utf8_latin1.write2_converts [OF write_bytewise _ this _ b0(2)] obtain cd' b' where
    w: "write2_loop (?cd1\<lparr>init_flag := False\<rparr>) (utf8_latin1.input ?ys) b0 wrbuf_write = Some (0, cd', b')"
    "utf8_latin1.holds cd' (fst (utf8_latin1.emits_all 0 ?ys)) []" "\<not> init_flag cd'" "wrbuf_wf b'"
    "wrbuf_content b' = wrbuf_content b0 @ snd (utf8_latin1.emits_all 0 ?ys)"
    by (auto simp: bytewise)
  have "wrbuf_iconv_write b (Some (iconv_opened en de n u)) (concat (map utf8_enc xs)) = Some (Some cd', b')"
    using w(1) b0(1) by (simp add: wrbuf_iconv_write_def wrbuf_iconv_write2_def)
  then show ?thesis using latin1_reset [OF w(2-4)] w(5) b0(3) emits_compose [of ?ys] after_init_compose [of xs] by fastforce
qed

theorem utf8_to_latin1_composes_witness:
  "\<exists>cd1 b1 cd2 b2. wrbuf_iconv_write (wrbuf_alloc (\<lambda>i. 0)) (Some (iconv_opened ((null_encoder 0)\<lparr>write_handle := Some write_iso_8859_1,
        flush_handle := Some flush_iso_8859_1, enc_init := Some init_iso_8859_1\<rparr>)
        (null_decoder\<lparr>dec_init := Some init_utf8, read_handle := Some (\<lambda>e inp. read_utf8 inp)\<rparr>) 0 0)) (concat (map utf8_enc [65, 0x300])) = Some (Some cd1, b1) \<and>
    wrbuf_iconv_reset b1 (Some cd1) = Some (cd2, b2) \<and> wrbuf_wf b2 \<and> wrbuf_content b2 = wrbuf_content (wrbuf_alloc (\<lambda>i. 0)) @ compose [65, 0x300]"
  by (rule utf8_to_latin1_composes [where tocode = "str ''iso-8859-1''" and fromcode = "str ''UTF-8''"])
    (simp_all add: yaz_iso_8859_1_encoder_def yaz_utf8_decoder_def matchstr_norm norm_str_def
      lower_def ctype_defs wrbuf_alloc_wf code_point_def utf8_enc_def utf8_ref_def byte_of_def)

end
