(* ===== verification/Yaz_Comstack.thy ===== *)
theory Yaz_Comstack
  imports Yaz_Ber Yaz_Match Yaz_Wrbuf Yaz_Scan
begin

text \<open>
  Framing of incoming data: the test whether a complete HTTP or
  BER package has arrived (\<^verbatim>\<open>comstack.c\<close>), and the receiving side of the TCP transport
  (\<^verbatim>\<open>tcpip_get\<close> and \<^verbatim>\<open>tcpip_more\<close> of \<^verbatim>\<open>tcpip.c\<close>) for connections without TLS. The data received so far
  is a list; \<^verbatim>\<open>len\<close> of the code is its length, and a position \<^verbatim>\<open>i\<close> is a natural number.
\<close>

section \<open>Complete packages (comstack.c)\<close>

text \<open>The new position when a line end is skipped.\<close>

definition skip_crlf :: "byte list \<Rightarrow> nat \<Rightarrow> nat option" where
  "skip_crlf b i =
     (if i < length b then
        if b ! i = 13 \<and> i + 1 < length b \<and> b ! (i + 1) = 10 then Some (i + 2)
        else if b ! i = 10 then Some (i + 1)
        else None
      else None)"

lemma skip_crlf_grows: "skip_crlf b i = Some j \<Longrightarrow> i < j \<and> j \<le> i + 2 \<and> j \<le> length b"
  by (auto simp: skip_crlf_def split: if_splits)

text \<open>The search for the end of a chunk's first line; \<^const>\<open>None\<close> when more data is needed.\<close>

function chunk_line :: "byte list \<Rightarrow> nat \<Rightarrow> nat option" where
  "chunk_line b i =
     (if i + 1 \<ge> length b then None
      else case skip_crlf b i of Some j \<Rightarrow> Some j | None \<Rightarrow> chunk_line b (i + 1))"
  by pat_completeness auto
termination
  by (relation "measure (\<lambda>(b, i). length b - i)") auto

declare chunk_line.simps [simp del]

lemma chunk_line_grows: "chunk_line b i = Some j \<Longrightarrow> i < j \<and> j \<le> length b"
proof (induction b i rule: chunk_line.induct)
  case (1 b i)
  then show ?case
    by (subst (asm) (2) chunk_line.simps) (fastforce dest: skip_crlf_grows split: if_splits option.splits)
qed

text \<open>Trailing headers after the last chunk.\<close>

function chunk_trailer :: "byte list \<Rightarrow> nat \<Rightarrow> int" where
  "chunk_trailer b i =
     (if i < length b then
        (case skip_crlf b i of
           Some j \<Rightarrow> (case skip_crlf b j of Some k \<Rightarrow> int k | None \<Rightarrow> chunk_trailer b j)
         | None \<Rightarrow> chunk_trailer b (i + 1))
      else 0)"
  by pat_completeness auto
termination
  by (relation "measure (\<lambda>(b, i). length b - i)") (auto dest: skip_crlf_grows)

declare chunk_trailer.simps [simp del]

function cs_read_chunks :: "byte list \<Rightarrow> nat \<Rightarrow> int" where
  "cs_read_chunks b i =
     (if i \<ge> length b then 0
      else (case yaz_atoi 16 (drop i b) 0 of (ret, chunk_len) \<Rightarrow>
        if ret \<le> 0 then -1
        else let i1 = i + nat ret in
          if chunk_len = 0 then chunk_trailer b i1
          else (case chunk_line b i1 of
            None \<Rightarrow> 0
          | Some i2 \<Rightarrow>
              if chunk_len > 2147483647 - int i2 then -1
              else let i3 = i2 + nat chunk_len in
                if i3 + 2 \<ge> length b then 0
                else (case skip_crlf b i3 of None \<Rightarrow> 0 | Some i4 \<Rightarrow> cs_read_chunks b i4))))"
  by pat_completeness auto
termination
  by (relation "measure (\<lambda>(b, i). length b - i)") (auto dest!: skip_crlf_grows chunk_line_grows)

declare cs_read_chunks.simps [simp del]

text \<open>The first line end; \<^const>\<open>None\<close> when there is none.\<close>

fun first_eol :: "byte list \<Rightarrow> nat \<Rightarrow> nat option" where
  "first_eol [] i = None"
| "first_eol (c # s) i = (if c = 10 \<or> c = 13 then Some i else first_eol s (i + 1))"

text \<open>The first blank between \<open>j\<close> and \<open>i\<close>.\<close>

function find_blank :: "byte list \<Rightarrow> nat \<Rightarrow> nat \<Rightarrow> nat option" where
  "find_blank b j i = (if j < i then if b ! j = 32 then Some j else find_blank b (j + 1) i else None)"
  by pat_completeness auto
termination
  by (relation "measure (\<lambda>(b, j, i). i - j)") auto

declare find_blank.simps [simp del]

text \<open>
  The check of a response's status: (\<open>head_only\<close>, \<open>content_len\<close>). The comparison with \<^verbatim>\<open>HTTP/\<close> reads
  five bytes and the comparisons with 204 and 304 read three: undefined when they reach behind the data.
\<close>

definition http_status :: "byte list \<Rightarrow> nat \<Rightarrow> bool \<Rightarrow> (bool \<times> int) cres" where
  "http_status b i head_only =
     (if head_only then Some (True, 0)
      else if length b < 5 then None
      else if take 5 b = str ''HTTP/'' then
        case find_blank b 5 i of
          None \<Rightarrow> Some (False, 0)
        | Some j \<Rightarrow>
            if b ! (j + 1) = ch CHR ''1'' then Some (True, 0)
            else if j + 4 > length b then None
            else if take 3 (drop (j + 1) b) = str ''204'' then Some (True, 0)
            else if take 3 (drop (j + 1) b) = str ''304'' then Some (True, 0)
            else Some (False, -1)
      else Some (False, 0))"

definition nocase_at :: "byte list \<Rightarrow> nat \<Rightarrow> byte list \<Rightarrow> bool" where
  "nocase_at b i s \<longleftrightarrow> yaz_strncasecmp (drop i b) s (length s) = Some 0"

function skip_blanks :: "byte list \<Rightarrow> nat \<Rightarrow> nat" where
  "skip_blanks b i = (if i < length b \<and> b ! i = 32 then skip_blanks b (i + 1) else i)"
  by pat_completeness auto
termination
  by (relation "measure (\<lambda>(b, i). length b - i)") auto

declare skip_blanks.simps [simp del]

lemma skip_blanks_ge: "i \<le> skip_blanks b i"
  by (induction b i rule: skip_blanks.induct) (subst skip_blanks.simps, auto)

text \<open>The value of \<^verbatim>\<open>Transfer-Encoding\<close>; \<^const>\<open>None\<close> when more data is needed.\<close>

function encoding_value :: "byte list \<Rightarrow> nat \<Rightarrow> nat \<Rightarrow> bool \<Rightarrow> (nat \<times> bool) option" where
  "encoding_value b token_start i chunked =
     (if i + 2 \<ge> length b then None
      else let chunked' = (if i = token_start + 7 \<and> nocase_at b token_start (str ''chunked'') then True else chunked) in
        (case skip_crlf b i of
          Some j \<Rightarrow> Some (i, chunked')
        | None \<Rightarrow> encoding_value b token_start (i + 1) chunked'))"
  by pat_completeness auto
termination
  by (relation "measure (\<lambda>(b, ts, i, c). length b - i)") auto

declare encoding_value.simps [simp del]

lemma encoding_value_ge: "encoding_value b ts i c = Some (j, c') \<Longrightarrow> i \<le> j"
  by (induction b ts i c rule: encoding_value.induct)
    (subst (asm) (2) encoding_value.simps, fastforce simp: Let_def split: if_splits option.splits)

function http_headers :: "byte list \<Rightarrow> bool \<Rightarrow> bool \<Rightarrow> int \<Rightarrow> nat \<Rightarrow> int" where
  "http_headers b head_only chunked content_len i =
     (if i + 2 \<le> length b then
        if i > 8192 then -1
        else (case skip_crlf b i of
          None \<Rightarrow> http_headers b head_only chunked content_len (i + 1)
        | Some i1 \<Rightarrow>
          (case skip_crlf b i1 of
             Some i2 \<Rightarrow>
               if head_only then int i2
               else if chunked then cs_read_chunks b i2
               else if content_len = -1 then 0
               else if content_len mod 2 ^ 32 > 2147483647 - int i2 then -1
               else if int (length b) \<ge> int i2 + content_len then int i2 + content_len
               else 0
           | None \<Rightarrow>
               if i1 + 19 < length b \<and> nocase_at b i1 (str ''Transfer-Encoding:'') then
                 let i2 = skip_blanks b (i1 + 18) in
                 (case encoding_value b i2 i2 chunked of
                    None \<Rightarrow> 0
                  | Some (i3, chunked') \<Rightarrow> http_headers b head_only chunked' content_len i3)
               else if i1 + 16 < length b \<and> nocase_at b i1 (str ''Content-Length:'') then
                 let i2 = skip_blanks b (i1 + 15) in
                 if i2 = length b then 0
                 else (case yaz_atoi 10 (drop i2 b) content_len of (no_read, content_len') \<Rightarrow>
                   if no_read \<le> 0 then -1
                   else http_headers b head_only chunked content_len' (i2 + nat no_read))
               else http_headers b head_only chunked content_len (i1 + 1)))
      else 0)"
  by pat_completeness auto
termination
proof (relation "measure (\<lambda>(b, h, c, l, i). length b - i)", goal_cases)
  case (3 b h c l i i1 i2 x i3 c')
  have "i1 + 18 \<le> i2" "i2 \<le> i3" using 3 skip_blanks_ge [of "i1 + 18" b] encoding_value_ge [of b i2 i2 c i3 c'] by auto
  then show ?case using 3 skip_crlf_grows [of b i i1] by auto
next
  case (4 b h c l i i1 i2 nr cl)
  have "i1 + 15 \<le> i2" using 4 skip_blanks_ge [of "i1 + 15" b] by auto
  then show ?case using 4 skip_crlf_grows [of b i i1] by auto
qed (auto dest!: skip_crlf_grows)

declare http_headers.simps [simp del]

definition cs_complete_http :: "byte list \<Rightarrow> bool \<Rightarrow> int cres" where
  "cs_complete_http b head_only =
     (case first_eol b 0 of
        None \<Rightarrow> Some 0
      | Some i \<Rightarrow> do {
          (ho, content_len) \<leftarrow> http_status b i head_only;
          Some (http_headers b ho False content_len 2)})"

definition printable :: "byte \<Rightarrow> bool" where
  "printable c \<longleftrightarrow> schar c \<ge> 0x20 \<and> schar c < 0x7F"

definition cs_complete_auto_x :: "byte list \<Rightarrow> bool \<Rightarrow> int cres" where
  "cs_complete_auto_x b head_only =
     (if length b > 5 \<and> printable (b ! 0) \<and> printable (b ! 1) \<and> printable (b ! 2) \<and> printable (b ! 3)
      then cs_complete_http b head_only
      else completeBER_n b 0)"

definition cs_complete_auto :: "byte list \<Rightarrow> int cres" where
  "cs_complete_auto b = cs_complete_auto_x b False"

definition cs_complete_auto_head :: "byte list \<Rightarrow> int cres" where
  "cs_complete_auto_head b = cs_complete_auto_x b True"

section \<open>Receiving (tcpip.c, unix.c)\<close>

datatype cs_error = CSNONE | CSYSERR | CSOUTSTATE | CSNODATA | CSWRONGBUF | CSDENY | CSERRORSSL | CSBUFSIZE | CSPROTERR

text \<open>
  The fields of \<^verbatim>\<open>struct comstack\<close> and of its private state that receiving uses. A buffer is a null
  pointer or the memory it points to; \<open>want_read\<close> is the flag \<^verbatim>\<open>CS_WANT_READ\<close> of \<^verbatim>\<open>io_pending\<close>.
\<close>

record comstack =
  cerrno :: cs_error
  max_recv_bytes :: int
  want_read :: bool
  altbuf :: "byte list option"
  altsize :: int
  altlen :: nat
  complete :: "byte list \<Rightarrow> int cres"

text \<open>
  What the network does, in the order of the calls of \<^verbatim>\<open>recv\<close>: deliver a block of data (an empty one
  when the peer has closed the connection), have nothing yet (\<^verbatim>\<open>EWOULDBLOCK\<close>), fail with \<^verbatim>\<open>errno\<close> 0, or
  fail. A call returns at most the number of bytes it asks for; the rest of the block stays.
\<close>

datatype received = Received "byte list" | Would_block | No_errno | Recv_error

fun recv :: "nat \<Rightarrow> received list \<Rightarrow> received \<times> received list" where
  "recv n [] = (Would_block, [])"
| "recv n (Received d # net) = (Received (take n d), if length d \<le> n then net else Received (drop n d) # net)"
| "recv n (e # net) = (e, net)"

text \<open>Memory from the allocator has arbitrary content \<open>fresh\<close>; the allocator does not return on failure.\<close>

definition xmalloc :: "(nat \<Rightarrow> byte) \<Rightarrow> nat \<Rightarrow> byte list" where
  "xmalloc fresh n = map fresh [0..<n]"

definition xrealloc :: "(nat \<Rightarrow> byte) \<Rightarrow> byte list \<Rightarrow> nat \<Rightarrow> byte list" where
  "xrealloc fresh m n = take n (m @ map fresh [length m..<n])"

abbreviation bufchunk :: nat where
  "bufchunk \<equiv> 4096"

definition mem :: "byte list option \<Rightarrow> byte list" where
  "mem p = (case p of None \<Rightarrow> [] | Some m \<Rightarrow> m)"

text \<open>Room for one more chunk: \<^term>\<open>Inl bufsize\<close> when the limit is reached.\<close>

definition get_room ::
    "(nat \<Rightarrow> byte) \<Rightarrow> int \<Rightarrow> byte list option \<Rightarrow> int \<Rightarrow> nat \<Rightarrow> int + byte list option \<times> int" where
  "get_room fresh mx p bufsize hasread =
     (if bufsize = 0 then Inr (Some (xmalloc fresh bufchunk), int bufchunk)
      else if bufsize - int hasread < int bufchunk then
        let bufsize' = (if bufsize > mx div 2 then mx else bufsize * 2) in
        if bufsize' - int hasread < int bufchunk then Inl bufsize'
        else Inr (Some (xrealloc fresh (mem p) (nat bufsize')), bufsize')
      else Inr (p, bufsize))"

text \<open>The weight of the network's input bounds the number of calls of \<^verbatim>\<open>recv\<close> in a loop.\<close>

fun weight :: "received list \<Rightarrow> nat" where
  "weight [] = 0"
| "weight (Received d # net) = Suc (length d) + weight net"
| "weight (e # net) = Suc (weight net)"

lemma recv_weight: "recv n net = (Received d, net') \<Longrightarrow> d \<noteq> [] \<Longrightarrow> weight net' < weight net"
  by (cases "(n, net)" rule: recv.cases) (auto split: if_splits)

lemma recv_weight_No_errno: "recv n net = (No_errno, net') \<Longrightarrow> weight net' < weight net"
  by (cases "(n, net)" rule: recv.cases) (auto split: if_splits)

text \<open>
  The receiving loop ends with a return value (\<^const>\<open>Inl\<close>) or with the value of \<^verbatim>\<open>berlen\<close>. The two
  transports differ in the error code for a failed \<^verbatim>\<open>recv\<close>, which only TCP sets.
\<close>

function get_loop :: "bool \<Rightarrow> (nat \<Rightarrow> byte) \<Rightarrow> comstack \<Rightarrow> byte list option \<Rightarrow> int \<Rightarrow> nat \<Rightarrow> received list \<Rightarrow>
    ((int + int) \<times> comstack \<times> byte list option \<times> int \<times> nat \<times> received list) cres" where
  "get_loop tcp fresh h p bufsize hasread net =
     (if hasread > length (mem p) then None
      else do {
        berlen \<leftarrow> complete h (take hasread (mem p));
        if berlen \<noteq> 0 then Some (Inr berlen, h, p, bufsize, hasread, net)
        else (case get_room fresh (max_recv_bytes h) p bufsize hasread of
          Inl bufsize' \<Rightarrow> Some (Inl (-1), h\<lparr>cerrno := CSBUFSIZE\<rparr>, p, bufsize', hasread, net)
        | Inr (p', bufsize') \<Rightarrow>
            (case recv bufchunk net of
               (Would_block, net') \<Rightarrow> Some (Inr 0, h\<lparr>want_read := True\<rparr>, p', bufsize', hasread, net')
             | (No_errno, net') \<Rightarrow> get_loop tcp fresh h p' bufsize' hasread net'
             | (Recv_error, net') \<Rightarrow>
                 Some (Inl (-1), (if tcp then h\<lparr>cerrno := CSYSERR\<rparr> else h), p', bufsize', hasread, net')
             | (Received data, net') \<Rightarrow>
                 if data = [] then Some (Inl (int hasread), h, p', bufsize', hasread, net')
                 else do {
                   m \<leftarrow> poke (mem p') hasread data;
                   let hasread' = hasread + length data in
                   if int hasread' > max_recv_bytes h
                   then Some (Inl (-1), h\<lparr>cerrno := CSBUFSIZE\<rparr>, Some m, bufsize', hasread', net')
                   else get_loop tcp fresh h (Some m) bufsize' hasread' net'}))})"
  by pat_completeness auto
termination
  by (relation "measure (\<lambda>(tcp, fresh, h, p, bufsize, hasread, net). weight net)")
    (auto dest: recv_weight [OF sym] recv_weight_No_errno [OF sym])

declare get_loop.simps [simp del]

text \<open>The data behind the package (all data if there is no complete package) goes to the alternate buffer.\<close>

definition whole_chunks :: "nat \<Rightarrow> nat" where
  "whole_chunks tomove =
     (let rest = tomove mod bufchunk in if rest \<noteq> 0 then tomove + (bufchunk - rest) else tomove)"

definition alt_room :: "(nat \<Rightarrow> byte) \<Rightarrow> comstack \<Rightarrow> nat \<Rightarrow> byte list \<times> int" where
  "alt_room fresh h req =
     (case altbuf h of
        None \<Rightarrow> (xmalloc fresh req, int req)
      | Some a \<Rightarrow> if altsize h < int req then (xrealloc fresh a req, int req) else (a, altsize h))"

definition keep_surplus :: "(nat \<Rightarrow> byte) \<Rightarrow> comstack \<Rightarrow> byte list \<Rightarrow> nat \<Rightarrow> nat \<Rightarrow> comstack cres" where
  "keep_surplus fresh h m berlen hasread =
     (if hasread > berlen then
        let tomove = hasread - berlen in
        (case alt_room fresh h (whole_chunks tomove) of (a, asize) \<Rightarrow>
           if hasread > length m then None
           else do {
             a' \<leftarrow> poke a 0 (take tomove (drop berlen m));
             Some (h\<lparr>altbuf := Some a', altsize := asize, altlen := tomove\<rparr>)})
      else Some h)"

text \<open>Data left from the last call: its buffer and the caller's change places.\<close>

definition switch_buffers :: "comstack \<Rightarrow> byte list option \<Rightarrow> int \<Rightarrow> comstack \<times> byte list option \<times> int \<times> nat" where
  "switch_buffers h p bufsize =
     (if altlen h \<noteq> 0
      then (h\<lparr>altlen := 0, altbuf := p, altsize := bufsize\<rparr>, altbuf h, altsize h, altlen h)
      else (h, p, bufsize, 0))"

definition get_end :: "(nat \<Rightarrow> byte) \<Rightarrow> comstack \<Rightarrow> byte list option \<Rightarrow> int \<Rightarrow> nat \<Rightarrow> received list \<Rightarrow> int \<Rightarrow>
    (int \<times> comstack \<times> byte list option \<times> int \<times> received list) cres" where
  "get_end fresh h p bufsize hasread net berlen =
     (if berlen < 0 then Some (-1, h\<lparr>cerrno := CSPROTERR\<rparr>, p, bufsize, net)
      else do {
        h' \<leftarrow> keep_surplus fresh h (mem p) (nat berlen) hasread;
        m \<leftarrow> (if berlen < int bufchunk - 1 then poke (mem p) (nat berlen) [0] else Some (mem p));
        Some (if berlen \<noteq> 0 then berlen else 1, h', Some m, bufsize, net)})"

definition stack_get :: "bool \<Rightarrow> (nat \<Rightarrow> byte) \<Rightarrow> comstack \<Rightarrow> byte list option \<Rightarrow> int \<Rightarrow> received list \<Rightarrow>
    (int \<times> comstack \<times> byte list option \<times> int \<times> received list) cres" where
  "stack_get tcp fresh h p bufsize net =
     (case switch_buffers h p bufsize of (h1, p1, bufsize1, hasread) \<Rightarrow> do {
        (res, h2, p2, bufsize2, hasread2, net2) \<leftarrow>
          get_loop tcp fresh (h1\<lparr>want_read := False\<rparr>) p1 bufsize1 hasread net;
        (case res of
           Inl ret \<Rightarrow> Some (ret, h2, p2, bufsize2, net2)
         | Inr berlen \<Rightarrow> get_end fresh h2 p2 bufsize2 hasread2 net2 berlen)})"

definition tcpip_get where
  "tcpip_get = stack_get True"

definition unix_get where
  "unix_get = stack_get False"

definition tcpip_more :: "comstack \<Rightarrow> bool cres" where
  "tcpip_more h =
     (if altlen h = 0 then Some False
      else if altlen h > length (mem (altbuf h)) then None
      else map_option (\<lambda>r. r \<noteq> 0) (complete h (take (altlen h) (mem (altbuf h)))))"

definition cs_set_max_recv_bytes :: "comstack \<Rightarrow> int \<Rightarrow> comstack" where
  "cs_set_max_recv_bytes cs n = cs\<lparr>max_recv_bytes := n\<rparr>"

end
