(* ===== verification/Yaz_Comstack_Laws.thy ===== *)
theory Yaz_Comstack_Laws
  imports Yaz_Comstack
begin

text \<open>
  A package that has been recognised as complete stays the same package whatever arrives behind it.
\<close>

section \<open>Line ends\<close>

named_theorems more_data \<open>what is recognised in the data received so far stays recognised\<close>

lemma skip_crlf_more [more_data]: "skip_crlf b i = Some j \<Longrightarrow> skip_crlf (b @ c) i = Some j"
  by (auto simp: skip_crlf_def nth_append split: if_splits)

lemma skip_crlf_none_more: "skip_crlf b i = None \<Longrightarrow> i + 1 < length b \<Longrightarrow> skip_crlf (b @ c) i = None"
  by (auto simp: skip_crlf_def nth_append split: if_splits)

lemma chunk_line_more [more_data]: "chunk_line b i = Some j \<Longrightarrow> chunk_line (b @ c) i = Some j"
proof (induction b i rule: chunk_line.induct)
  case (1 b i)
  have i: "i + 1 < length b" using 1(2) by (subst (asm) chunk_line.simps) (auto split: if_splits)
  show ?case
  proof (cases "skip_crlf b i")
    case None
    then show ?thesis
      using 1 i skip_crlf_none_more [OF None i, of c] chunk_line.simps [of b i] chunk_line.simps [of "b @ c" i] by simp
  next
    case (Some k)
    then show ?thesis
      using 1 i skip_crlf_more [OF Some, of c] chunk_line.simps [of b i] chunk_line.simps [of "b @ c" i] by simp
  qed
qed

lemma chunk_trailer_end: "length b \<le> i + 1 \<Longrightarrow> skip_crlf b i = None \<Longrightarrow> chunk_trailer b i = 0"
  using chunk_trailer.simps [of b "Suc i"] by (simp add: chunk_trailer.simps [of b i])

lemma chunk_trailer_more: "chunk_trailer b i > 0 \<Longrightarrow> chunk_trailer (b @ c) i = chunk_trailer b i"
proof (induction b i rule: chunk_trailer.induct)
  case (1 b i)
  have i: "i < length b" using 1(3) by (subst (asm) chunk_trailer.simps) (auto split: if_splits)
  show ?case
  proof (cases "skip_crlf b i")
    case None
    then have "i + 1 < length b" using 1(3) chunk_trailer_end [of b i] by fastforce
    then have "skip_crlf (b @ c) i = None" by (rule skip_crlf_none_more [OF None])
    then show ?thesis
      using 1(1) [OF i None] 1(3) i None chunk_trailer.simps [of b i] chunk_trailer.simps [of "b @ c" i] by simp
  next
    case (Some j)
    note skip = skip_crlf_more [OF Some, of c]
    show ?thesis
    proof (cases "skip_crlf b j")
      case None
      then have tr: "chunk_trailer b i = chunk_trailer b j" using Some i by (simp add: chunk_trailer.simps [of b i])
      then have "j + 1 < length b" using 1(3) None chunk_trailer_end [of b j] by fastforce
      then have "skip_crlf (b @ c) j = None" by (rule skip_crlf_none_more [OF None])
      then show ?thesis using 1(2) [OF i Some None] 1(3) tr i skip by (simp add: chunk_trailer.simps [of "b @ c" i])
    next
      case S2: (Some k)
      then show ?thesis
        using i Some skip skip_crlf_more [OF S2, of c] by (simp add: chunk_trailer.simps)
    qed
  qed
qed

lemma chunk_trailer_range: "chunk_trailer b i = 0 \<or> int i + 1 < chunk_trailer b i \<and> chunk_trailer b i \<le> int (length b)"
proof (induction b i rule: chunk_trailer.induct)
  case (1 b i)
  show ?case
  proof (cases "skip_crlf b i")
    case None
    then show ?thesis using 1(1) chunk_trailer.simps [of b i] by auto
  next
    case (Some j)
    then show ?thesis
      using 1(2) [OF _ Some] skip_crlf_grows [OF Some] skip_crlf_grows [of b j] chunk_trailer.simps [of b i]
      by (cases "skip_crlf b j") auto
  qed
qed

section \<open>Numbers\<close>

lemma digit_value_nonneg: "digit_value c = Some d \<Longrightarrow> 0 \<le> d"
  by (auto simp: digit_value_def ctype_defs word_le_def split: if_splits)

lemma atoul_loop_range:
  "atoul_loop base s i v = (r, v') \<Longrightarrow> 0 \<le> i \<Longrightarrow> 0 \<le> v \<Longrightarrow> 0 < base \<Longrightarrow> -1 \<le> r \<and> r \<le> i + int (length s) \<and> 0 \<le> v'"
proof (induction s arbitrary: i v)
  case (Cons c s)
  show ?case
  proof (cases "digit_value c")
    case (Some d)
    note d = digit_value_nonneg [OF Some]
    show ?thesis using Cons.IH [of "i + 1" "v * base + d"] Cons.prems Some d by (auto split: if_splits)
  qed (use Cons.prems in auto)
qed auto

lemma atoul_loop_more:
  "atoul_loop base s i v = (r, v') \<Longrightarrow> r \<noteq> -1 \<Longrightarrow> r < i + int (length s) \<Longrightarrow> atoul_loop base (s @ c) i v = (r, v')"
  by (induction s arbitrary: i v) (auto split: option.splits if_splits)

lemma yaz_atoi_range: "yaz_atoi base s v = (r, v') \<Longrightarrow> 0 \<le> v \<or> 0 < r \<Longrightarrow> r \<le> int (length s) \<and> 0 \<le> v'"
  by (auto simp: yaz_atoi_def yaz_atoul_def split: prod.splits if_splits dest!: atoul_loop_range)

lemma yaz_atoi_more [more_data]:
  "yaz_atoi base s v = (r, v') \<Longrightarrow> 0 < r \<Longrightarrow> r < int (length s) \<Longrightarrow> yaz_atoi base (s @ c) v = (r, v')"
  by (auto simp: yaz_atoi_def yaz_atoul_def atoul_loop_more split: prod.splits if_splits)

section \<open>Chunked content\<close>

lemma cs_read_chunks_end: "length b \<le> i \<Longrightarrow> cs_read_chunks b i = 0"
  by (simp add: cs_read_chunks.simps)

lemma cs_read_chunks_more: "cs_read_chunks b i > 0 \<Longrightarrow> cs_read_chunks (b @ c) i = cs_read_chunks b i"
proof (induction b i rule: cs_read_chunks.induct)
  case (1 b i)
  have i: "i < length b" using 1(2) cs_read_chunks_end [of b i] by force
  obtain ret cl where at: "yaz_atoi 16 (drop i b) 0 = (ret, cl)" by fastforce
  note step = cs_read_chunks.simps [of b i, unfolded at]
  have ret: "0 < ret" using 1(2) i step by (auto split: if_splits)
  define i1 where "i1 = i + nat ret"
  have "ret < int (length (drop i b))"
  proof (rule ccontr)
    assume "\<not> ?thesis"
    then have "length b \<le> i1" using i by (simp add: i1_def)
    moreover from this have "chunk_line b i1 = None" "chunk_trailer b i1 = 0"
      by (simp_all add: chunk_line.simps chunk_trailer.simps)
    ultimately show False using 1(2) step ret i by (auto simp: i1_def Let_def split: if_splits)
  qed
  then have at': "yaz_atoi 16 (drop i (b @ c)) 0 = (ret, cl)" using yaz_atoi_more [OF at ret, of c] i by simp
  note step' = cs_read_chunks.simps [of "b @ c" i, unfolded at']
  show ?case
  proof (cases "cl = 0")
    case True
    then show ?thesis using 1(2) step step' ret i chunk_trailer_more [of b i1 c] by (simp add: i1_def Let_def)
  next
    case False
    obtain i2 where i2: "chunk_line b i1 = Some i2"
      using 1(2) step ret i False by (auto simp: i1_def Let_def split: option.splits if_splits)
    have fit: "\<not> cl > 2147483647 - int i2" using 1(2) step ret i False i2 by (auto simp: i1_def Let_def)
    have room: "i2 + nat cl + 2 < length b"
      using 1(2) step ret i False i2 fit by (simp add: i1_def Let_def not_le split: if_splits)
    obtain i4 where i4: "skip_crlf b (i2 + nat cl) = Some i4"
      using 1(2) step ret i False i2 fit room by (auto simp: i1_def Let_def split: option.splits)
    have "cs_read_chunks b i = cs_read_chunks b i4"
      using step ret i False i2 fit room i4 by (simp add: i1_def Let_def)
    moreover have "cs_read_chunks (b @ c) i = cs_read_chunks (b @ c) i4"
      using step' ret i False chunk_line_more [OF i2, of c] fit room skip_crlf_more [OF i4, of c] by (simp add: i1_def Let_def)
    moreover have "cs_read_chunks b i4 > 0 \<longrightarrow> cs_read_chunks (b @ c) i4 = cs_read_chunks b i4"
      by (rule impI, rule 1(1) [of ret cl i1 i2 "i2 + nat cl" i4])
        (use i at ret False i2 fit room i4 in \<open>simp_all add: i1_def not_le\<close>)
    ultimately show ?thesis using 1(2) by simp
  qed
qed

lemma cs_read_chunks_range:
  "cs_read_chunks b i \<le> 0 \<or> int i + 1 < cs_read_chunks b i \<and> cs_read_chunks b i \<le> int (length b)"
proof (induction b i rule: cs_read_chunks.induct)
  case (1 b i)
  obtain ret cl where at: "yaz_atoi 16 (drop i b) 0 = (ret, cl)" by fastforce
  note step = cs_read_chunks.simps [of b i, unfolded at]
  show ?case
  proof (cases "cs_read_chunks b i \<le> 0 \<or> cl = 0")
    case True
    then show ?thesis using step chunk_trailer_range [of b "i + nat ret"] by (auto simp: Let_def split: if_splits)
  next
    case False
    then have i: "i < length b" "0 < ret" using step by (auto split: if_splits)
    with False step obtain i2 where i2: "chunk_line b (i + nat ret) = Some i2" "\<not> cl > 2147483647 - int i2"
      by (auto simp: Let_def split: option.splits if_splits)
    with False step i obtain i4 where i4: "i2 + nat cl + 2 < length b" "skip_crlf b (i2 + nat cl) = Some i4"
      by (auto simp: Let_def not_le split: option.splits if_splits)
    have "cs_read_chunks b i = cs_read_chunks b i4" using step i False i2 i4 by (simp add: Let_def)
    moreover have "cs_read_chunks b i4 \<le> 0 \<or> int i4 + 1 < cs_read_chunks b i4 \<and> cs_read_chunks b i4 \<le> int (length b)"
      by (rule 1(1) [of ret cl "i + nat ret" i2 "i2 + nat cl" i4]) (use i at False i2 i4 in simp_all)
    ultimately show ?thesis using chunk_line_grows [OF i2(1)] skip_crlf_grows [OF i4(2)] i by auto
  qed
qed

section \<open>Headers\<close>

lemma strncasecmp_more: "n \<le> length a \<Longrightarrow> yaz_strncasecmp (a @ c) s n = yaz_strncasecmp a s n"
  by (induction a s n rule: yaz_strncasecmp.induct) auto

lemma nocase_at_more: "i + length s \<le> length b \<Longrightarrow> nocase_at (b @ c) i s = nocase_at b i s"
  by (simp add: nocase_at_def strncasecmp_more)

text \<open>The comparison reads only bytes that have been received.\<close>

lemma nocase_at_in_range: "i + length s \<le> length b \<Longrightarrow> safe (yaz_strncasecmp (drop i b) s (length s))"
proof -
  have "length s \<le> length a \<Longrightarrow> safe (yaz_strncasecmp a s (length s))" for a
    by (induction s arbitrary: a) (auto simp: Suc_le_length_iff)
  moreover assume "i + length s \<le> length b"
  ultimately show ?thesis by simp
qed

definition eol :: "byte \<Rightarrow> bool" where
  "eol c \<longleftrightarrow> c = 10 \<or> c = 13"

lemma lower_eol: "lower c = lower d \<Longrightarrow> eol c = eol d"
  by (auto simp: lower_def ctype_defs eol_def add_eq_0_iff split: if_splits)

lemma strncasecmp_eol:
  "yaz_strncasecmp a s n = Some 0 \<Longrightarrow> k < n \<Longrightarrow> k < length a \<and> k < length s \<and> eol (a ! k) = eol (s ! k)"
proof (induction a s n arbitrary: k rule: yaz_strncasecmp.induct)
  case (2 c1 s1 c2 s2 n)
  then show ?case using lower_eol [of c1 c2] by (cases k) (auto dest: word_uint_eqI split: if_splits)
qed auto

lemma nocase_at_eol:
  assumes "nocase_at b i s" and "k < length s" and "\<not> eol (s ! k)" and "i \<le> length b"
  shows "\<not> eol (b ! (i + k))"
  using strncasecmp_eol [of "drop i b" s "length s" k] assms by (simp add: nocase_at_def)

lemma skip_blanks_more: "skip_blanks b i < length b \<Longrightarrow> skip_blanks (b @ c) i = skip_blanks b i"
proof (induction b i rule: skip_blanks.induct)
  case (1 b i)
  show ?case
  proof (cases "i < length b \<and> b ! i = 32")
    case True
    then show ?thesis using 1 skip_blanks.simps [of b i] skip_blanks.simps [of "b @ c" i] by (simp add: nth_append)
  next
    case False
    then show ?thesis using 1 skip_blanks.simps [of b i] skip_blanks.simps [of "b @ c" i] by (auto simp: nth_append)
  qed
qed

lemma skip_blanks_le: "i \<le> length b \<Longrightarrow> skip_blanks b i \<le> length b"
proof (induction b i rule: skip_blanks.induct)
  case (1 b i)
  then show ?case using skip_blanks.simps [of b i] by (cases "i < length b \<and> b ! i = 32") auto
qed

lemma encoding_value_more:
  "encoding_value b ts i ck = Some r \<Longrightarrow> encoding_value (b @ c) ts i ck = Some r"
proof (induction b ts i ck rule: encoding_value.induct)
  case (1 b ts i ck)
  have i: "i + 2 < length b" using 1(2) by (subst (asm) encoding_value.simps) (auto split: if_splits)
  define ck' where "ck' = (if i = ts + 7 \<and> nocase_at b ts (str ''chunked'') then True else ck)"
  have ck: "ck' = (if i = ts + 7 \<and> nocase_at (b @ c) ts (str ''chunked'') then True else ck)"
    using i nocase_at_more [of ts "str ''chunked''" b c] by (cases "i = ts + 7") (simp_all add: ck'_def)
  note steps = encoding_value.simps [of b ts i ck, folded ck'_def]
    encoding_value.simps [of "b @ c" ts i ck, folded ck]
  show ?case
  proof (cases "skip_crlf b i")
    case None
    then show ?thesis
      using 1(1) [OF _ ck'_def None] 1(2) i steps skip_crlf_none_more [OF None, of c] by (simp add: Let_def)
  next
    case (Some j)
    then show ?thesis using 1(2) i steps skip_crlf_more [OF Some, of c] by (simp add: Let_def)
  qed
qed

lemma http_headers_end: "length b < i + 2 \<Longrightarrow> http_headers b h ck l i = 0"
  by (simp add: http_headers.simps)

lemma http_headers_no_eol:
  "(\<And>p. i \<le> p \<Longrightarrow> p + 2 \<le> length b \<Longrightarrow> \<not> eol (b ! p)) \<Longrightarrow> http_headers b h ck l i \<le> 0"
proof (induction "length b - i" arbitrary: i rule: less_induct)
  case less
  show ?case
  proof (cases "i + 2 \<le> length b")
    case True
    then have "skip_crlf b i = None" using less.prems [of i] by (auto simp: skip_crlf_def eol_def)
    moreover have "http_headers b h ck l (i + 1) \<le> 0"
      by (rule less.hyps) (use True less.prems in auto)
    ultimately show ?thesis by (subst http_headers.simps) simp
  qed (simp add: http_headers_end)
qed

text \<open>A header name that is not yet followed by enough data does not end the headers.\<close>

lemma header_name_pending:
  assumes "nocase_at (b @ c) i s" and "\<forall>k < length s. \<not> eol (s ! k)" and "length b \<le> i + length s + 1" and "i < length b"
  shows "http_headers b h ck l (i + 1) \<le> 0"
proof (rule http_headers_no_eol)
  fix p assume p: "i + 1 \<le> p" "p + 2 \<le> length b"
  have "\<not> eol ((b @ c) ! (i + (p - i)))"
    by (rule nocase_at_eol [OF assms(1)]) (use p assms in auto)
  then show "\<not> eol (b ! p)" using p by (simp add: nth_append)
qed

lemma name_no_eol:
  "\<forall>k < length (str ''Transfer-Encoding:''). \<not> eol (str ''Transfer-Encoding:'' ! k)"
  "\<forall>k < length (str ''Content-Length:''). \<not> eol (str ''Content-Length:'' ! k)"
  by (auto simp: eol_def less_Suc_eq nth_Cons')

lemma one_name: "nocase_at b i (str ''Transfer-Encoding:'') \<Longrightarrow> \<not> nocase_at b i (str ''Content-Length:'')"
  by (cases "drop i b") (auto simp: nocase_at_def lower_def ctype_defs split: if_splits)

definition later_same :: "byte list \<Rightarrow> byte list \<Rightarrow> bool \<Rightarrow> nat \<Rightarrow> bool" where
  "later_same b c h i \<longleftrightarrow> (\<forall>j ck l. length b - j < length b - i \<longrightarrow> 0 < http_headers b h ck l j \<longrightarrow>
     http_headers (b @ c) h ck l j = http_headers b h ck l j)"

lemma later_sameD:
  "later_same b c h i \<Longrightarrow> http_headers b h ck l i = http_headers b h ck' l' j \<Longrightarrow>
   http_headers (b @ c) h ck l i = http_headers (b @ c) h ck' l' j \<Longrightarrow> length b - j < length b - i \<Longrightarrow>
   0 < http_headers b h ck l i \<Longrightarrow> http_headers (b @ c) h ck l i = http_headers b h ck l i"
  by (simp add: later_same_def)

text \<open>A line ends at \<open>i\<close>, the next one begins at \<open>i1\<close> and is not empty.\<close>

definition header_at :: "byte list \<Rightarrow> nat \<Rightarrow> nat \<Rightarrow> bool" where
  "header_at b i i1 \<longleftrightarrow> i + 2 \<le> length b \<and> i \<le> 8192 \<and> i < i1 \<and> i1 + 1 < length b \<and>
     skip_crlf b i = Some i1 \<and> skip_crlf b i1 = None"

lemma header_at_more: "header_at b i i1 \<Longrightarrow> header_at (b @ c) i i1"
  by (auto simp: header_at_def skip_crlf_more skip_crlf_none_more)

lemma header_step:
  "header_at b i i1 \<Longrightarrow> http_headers b h ck l i =
     (if i1 + 19 < length b \<and> nocase_at b i1 (str ''Transfer-Encoding:'') then
        let i2 = skip_blanks b (i1 + 18) in
        (case encoding_value b i2 i2 ck of None \<Rightarrow> 0 | Some (i3, ck') \<Rightarrow> http_headers b h ck' l i3)
      else if i1 + 16 < length b \<and> nocase_at b i1 (str ''Content-Length:'') then
        let i2 = skip_blanks b (i1 + 15) in
        if i2 = length b then 0
        else (case yaz_atoi 10 (drop i2 b) l of (nr, l') \<Rightarrow> if nr \<le> 0 then -1 else http_headers b h ck l' (i2 + nat nr))
      else http_headers b h ck l (i1 + 1))"
  by (simp add: header_at_def http_headers.simps [of b h ck l i])

lemma encoding_header_more:
  assumes "header_at b i i1" and "0 < http_headers b h ck l i" and "later_same b c h i"
    and te: "i1 + 19 < length b" "nocase_at b i1 (str ''Transfer-Encoding:'')"
  shows "http_headers (b @ c) h ck l i = http_headers b h ck l i"
proof -
  define i2 where "i2 = skip_blanks b (i1 + 18)"
  note st = header_step [OF assms(1), of h ck l] header_step [OF header_at_more [OF assms(1)], of c h ck l]
  obtain i3 ck' where enc: "encoding_value b i2 i2 ck = Some (i3, ck')"
    and eq: "http_headers b h ck l i = http_headers b h ck' l i3"
    using assms(2) te st(1) by (auto simp: i2_def Let_def split: option.splits)
  have "i2 < length b" using enc by (subst (asm) encoding_value.simps) (auto split: if_splits)
  then have "skip_blanks (b @ c) (i1 + 18) = i2" unfolding i2_def by (rule skip_blanks_more)
  then have "http_headers (b @ c) h ck l i = http_headers (b @ c) h ck' l i3"
    using te st(2) encoding_value_more [OF enc, of c] nocase_at_more [of i1 "str ''Transfer-Encoding:''" b c] by simp
  moreover have "i < i3" "i < length b"
    using encoding_value_ge [OF enc] skip_blanks_ge [of "i1 + 18" b] assms(1) by (auto simp: i2_def header_at_def)
  ultimately show ?thesis using later_sameD [OF assms(3) eq] assms(2) by auto
qed

lemma length_header_more:
  assumes "header_at b i i1" and "0 < http_headers b h ck l i" and "later_same b c h i"
    and cl: "i1 + 16 < length b" "nocase_at b i1 (str ''Content-Length:'')"
  shows "http_headers (b @ c) h ck l i = http_headers b h ck l i"
proof -
  define i2 where "i2 = skip_blanks b (i1 + 15)"
  obtain nr l' where at: "yaz_atoi 10 (drop i2 b) l = (nr, l')" by fastforce
  note st = header_step [OF assms(1), of h ck l] header_step [OF header_at_more [OF assms(1)], of c h ck l]
  have cl': "nocase_at (b @ c) i1 (str ''Content-Length:'')"
    using cl nocase_at_more [of i1 "str ''Content-Length:''" b c] by simp
  have te: "\<not> nocase_at b i1 (str ''Transfer-Encoding:'')" "\<not> nocase_at (b @ c) i1 (str ''Transfer-Encoding:'')"
    using cl cl' one_name by blast+
  have ge: "i1 + 15 \<le> i2" using skip_blanks_ge [of "i1 + 15" b] by (simp add: i2_def)
  have "i2 \<noteq> length b \<and> 0 < nr"
    using assms(2) te cl st(1) at by (auto split: if_splits simp flip: i2_def)
  then have i2: "i2 < length b" "0 < nr" using skip_blanks_le [of "i1 + 15" b] cl by (auto simp: i2_def)
  then have eq: "http_headers b h ck l i = http_headers b h ck l' (i2 + nat nr)"
    using te cl st(1) at by (simp flip: i2_def)
  then have "nr < int (length (drop i2 b))"
    using assms(2) i2 http_headers_end [of b "i2 + nat nr" h ck l'] by (cases "length b < i2 + nat nr + 2") auto
  then have "yaz_atoi 10 (drop i2 (b @ c)) l = (nr, l')" using yaz_atoi_more [OF at, of c] i2 by simp
  moreover have "skip_blanks (b @ c) (i1 + 15) = i2" using i2 skip_blanks_more [of b "i1 + 15" c] by (simp add: i2_def)
  ultimately have "http_headers (b @ c) h ck l i = http_headers (b @ c) h ck l' (i2 + nat nr)"
    using te cl cl' st(2) i2 by simp
  moreover have "i < i2 + nat nr" "i < length b" using ge assms(1) by (auto simp: header_at_def)
  ultimately show ?thesis using later_sameD [OF assms(3) eq] assms(2) by auto
qed

lemma other_header_more:
  assumes "header_at b i i1" and "0 < http_headers b h ck l i" and "later_same b c h i"
    and te: "\<not> (i1 + 19 < length b \<and> nocase_at b i1 (str ''Transfer-Encoding:''))"
    and cl: "\<not> (i1 + 16 < length b \<and> nocase_at b i1 (str ''Content-Length:''))"
  shows "http_headers (b @ c) h ck l i = http_headers b h ck l i"
proof -
  note st = header_step [OF assms(1), of h ck l] header_step [OF header_at_more [OF assms(1)], of c h ck l]
  have eq: "http_headers b h ck l i = http_headers b h ck l (i1 + 1)" using te cl st(1) by auto
  have pending: "length b > i1 + length s + 1" if "nocase_at (b @ c) i1 s" "\<forall>k < length s. \<not> eol (s ! k)" for s
    using header_name_pending [OF that, of h ck l] assms(1,2) eq by (fastforce simp: header_at_def)
  have "\<not> nocase_at (b @ c) i1 (str ''Transfer-Encoding:'')"
    using te pending [OF _ name_no_eol(1)] nocase_at_more [of i1 "str ''Transfer-Encoding:''" b c]
    by (cases "i1 + 19 < length b") auto
  moreover have "\<not> nocase_at (b @ c) i1 (str ''Content-Length:'')"
    using cl pending [OF _ name_no_eol(2)] nocase_at_more [of i1 "str ''Content-Length:''" b c]
    by (cases "i1 + 16 < length b") auto
  ultimately have "http_headers (b @ c) h ck l i = http_headers (b @ c) h ck l (i1 + 1)" using st(2) by auto
  moreover have "i < i1" "i < length b" using assms(1) by (auto simp: header_at_def)
  ultimately show ?thesis using later_sameD [OF assms(3) eq] assms(2) by auto
qed

lemma http_headers_more:
  "http_headers b h ck l i > 0 \<Longrightarrow> http_headers (b @ c) h ck l i = http_headers b h ck l i"
proof (induction "length b - i" arbitrary: i ck l rule: less_induct)
  case less
  have later: "later_same b c h i" using less.hyps by (auto simp: later_same_def)
  have i: "i + 2 \<le> length b" "i \<le> 8192" using less.prems by (auto simp: http_headers.simps [of b h ck l i] split: if_splits)
  note step = http_headers.simps [of b h ck l i] http_headers.simps [of "b @ c" h ck l i]
  consider (line) "skip_crlf b i = None" | (empty) i1 i2 where "skip_crlf b i = Some i1" "skip_crlf b i1 = Some i2"
    | (header) i1 where "skip_crlf b i = Some i1" "skip_crlf b i1 = None"
    by fastforce
  then show ?case
  proof cases
    case line
    then show ?thesis using less.hyps [of "i + 1" ck l] less.prems i skip_crlf_none_more [OF line, of c] step by simp
  next
    case empty
    then show ?thesis
      using less.prems i step cs_read_chunks_more [of b i2 c] skip_crlf_more [OF empty(1), of c] skip_crlf_more [OF empty(2), of c]
      by (auto split: if_splits)
  next
    case header
    have "i1 + 1 < length b"
      by (rule ccontr) (use less.prems i step(1) header http_headers_end [of b "i1 + 1"] in auto)
    then have "header_at b i i1" using i header skip_crlf_grows [OF header(1)] by (simp add: header_at_def)
    note h = this less.prems later
    show ?thesis using encoding_header_more [OF h] length_header_more [OF h] other_header_more [OF h] by blast
  qed
qed

lemma header_next:
  assumes "header_at b i i1" and "-1 \<le> l" and "0 < http_headers b h ck l i"
  obtains ck' l' j where "http_headers b h ck l i = http_headers b h ck' l' j" "i < j" "-1 \<le> l'"
proof -
  note st = header_step [OF assms(1), of h ck l]
  have i1: "i < i1" using assms(1) by (simp add: header_at_def)
  consider (te) "i1 + 19 < length b" "nocase_at b i1 (str ''Transfer-Encoding:'')"
    | (cl) "\<not> (i1 + 19 < length b \<and> nocase_at b i1 (str ''Transfer-Encoding:''))"
      "i1 + 16 < length b" "nocase_at b i1 (str ''Content-Length:'')"
    | (other) "\<not> (i1 + 19 < length b \<and> nocase_at b i1 (str ''Transfer-Encoding:''))"
      "\<not> (i1 + 16 < length b \<and> nocase_at b i1 (str ''Content-Length:''))"
    by blast
  then show ?thesis
  proof cases
    case te
    then obtain i3 ck' where enc: "encoding_value b (skip_blanks b (i1 + 18)) (skip_blanks b (i1 + 18)) ck = Some (i3, ck')"
      and eq: "http_headers b h ck l i = http_headers b h ck' l i3"
      using st assms(3) by (auto simp: Let_def split: option.splits)
    show ?thesis using that [OF eq] encoding_value_ge [OF enc] skip_blanks_ge [of "i1 + 18" b] i1 assms(2) by simp
  next
    case cl
    obtain nr l' where at: "yaz_atoi 10 (drop (skip_blanks b (i1 + 15)) b) l = (nr, l')" by fastforce
    have eq: "http_headers b h ck l i = http_headers b h ck l' (skip_blanks b (i1 + 15) + nat nr)" "0 < nr"
      using st cl assms(3) at by (auto simp: Let_def split: if_splits)
    show ?thesis
      using that [OF eq(1)] skip_blanks_ge [of "i1 + 15" b] i1 yaz_atoi_range [OF at] eq(2) by simp
  next
    case other
    then have "http_headers b h ck l i = http_headers b h ck l (i1 + 1)" using st by auto
    then show ?thesis using that i1 assms(2) by simp
  qed
qed

lemma http_headers_range:
  "-1 \<le> l \<Longrightarrow> http_headers b h ck l i \<le> 0 \<or> int i + 1 < http_headers b h ck l i \<and> http_headers b h ck l i \<le> int (length b)"
proof (induction "length b - i" arbitrary: i ck l rule: less_induct)
  case less
  show ?case
  proof (cases "http_headers b h ck l i > 0")
    case pos: True
    have i: "i + 2 \<le> length b" "i \<le> 8192" using pos by (auto simp: http_headers.simps [of b h ck l i] split: if_splits)
    note step = http_headers.simps [of b h ck l i]
    show ?thesis
    proof (cases "\<exists>i1 i2. skip_crlf b i = Some i1 \<and> skip_crlf b i1 = Some i2")
      case True
      then obtain i1 i2 where sk: "skip_crlf b i = Some i1" "skip_crlf b i1 = Some i2" by auto
      then show ?thesis
        using i step less.prems cs_read_chunks_range [of b i2] skip_crlf_grows [OF sk(1)] skip_crlf_grows [OF sk(2)]
        by (auto split: if_splits)
    next
      case False
      have "\<exists>ck' l' j. http_headers b h ck l i = http_headers b h ck' l' j \<and> i < j \<and> -1 \<le> l'"
      proof (cases "skip_crlf b i")
        case None
        then have "http_headers b h ck l i = http_headers b h ck l (i + 1)" using i step by simp
        then show ?thesis using less.prems by (metis less_add_one)
      next
        case (Some i1)
        have "i1 + 1 < length b"
          by (rule ccontr) (use pos False i step Some http_headers_end [of b "i1 + 1"] in auto)
        then have "header_at b i i1" using i Some False skip_crlf_grows [OF Some] by (auto simp: header_at_def)
        then show ?thesis using header_next [OF _ less.prems pos] by metis
      qed
      then obtain ck' l' j where nx: "http_headers b h ck l i = http_headers b h ck' l' j" "i < j" "-1 \<le> l'" by blast
      moreover from nx i have "length b - j < length b - i" by arith
      ultimately show ?thesis using less.hyps [of j l' ck'] by auto
    qed
  qed simp
qed

section \<open>HTTP packages\<close>

lemma first_eol_more: "first_eol b k = Some i \<Longrightarrow> first_eol (b @ c) k = Some i"
  by (induction b k rule: first_eol.induct) (auto split: if_splits)

lemma first_eol_at: "first_eol b k = Some i \<Longrightarrow> k \<le> i \<and> i < k + length b \<and> eol (b ! (i - k))"
proof (induction b k rule: first_eol.induct)
  case (2 c s k)
  then show ?case
  proof (cases "c = 10 \<or> c = 13")
    case False
    then have "Suc k \<le> i \<and> i < Suc k + length s \<and> eol (s ! (i - Suc k))" using 2 by simp
    moreover from this have "i - k = Suc (i - Suc k)" by arith
    ultimately show ?thesis by simp
  qed (auto simp: eol_def)
qed simp

lemma find_blank_more: "i \<le> length b \<Longrightarrow> find_blank (b @ c) j i = find_blank b j i"
proof (induction b j i rule: find_blank.induct)
  case (1 b j i)
  then show ?case using find_blank.simps [of b j i] find_blank.simps [of "b @ c" j i] by (auto simp: nth_append)
qed

lemma find_blank_lt: "find_blank b j i = Some k \<Longrightarrow> k < i"
proof (induction b j i rule: find_blank.induct)
  case (1 b j i)
  then show ?case using find_blank.simps [of b j i] by (auto split: if_splits)
qed

lemma http_status_more:
  assumes "http_status b i h = Some x" and "first_eol b 0 = Some i"
  shows "http_status (b @ c) i h = Some x"
proof -
  have i: "i < length b" using first_eol_at [OF assms(2)] by auto
  have blank: "find_blank (b @ c) 5 i = find_blank b 5 i" using i by (simp add: find_blank_more)
  have "(b @ c) ! (Suc j) = b ! (Suc j)" if "find_blank b 5 i = Some j" for j
    using find_blank_lt [OF that] i by (simp add: nth_append)
  then show ?thesis
    using assms(1) by (auto simp: http_status_def blank split: if_splits option.splits)
qed

lemma http_status_range: "http_status b i h = Some (ho, l) \<Longrightarrow> -1 \<le> l"
  by (auto simp: http_status_def split: if_splits option.splits)

lemma cs_complete_http_more:
  "cs_complete_http b h = Some r \<Longrightarrow> 0 < r \<Longrightarrow> cs_complete_http (b @ c) h = Some r"
  by (auto simp: cs_complete_http_def first_eol_more bind_Some_iff http_status_more http_headers_more split: option.splits)

lemma cs_complete_http_range:
  assumes "cs_complete_http b h = Some r"
  shows "r \<le> int (length b) \<and> (r \<le> 0 \<or> 1 < r)"
proof (cases "first_eol b 0")
  case (Some i)
  then obtain ho l where st: "http_status b i h = Some (ho, l)" "r = http_headers b ho False l 2"
    using assms by (auto simp: cs_complete_http_def bind_Some_iff)
  then show ?thesis using http_headers_range [OF http_status_range [OF st(1)], of b ho False 2] by auto
qed (use assms in \<open>simp add: cs_complete_http_def\<close>)

text \<open>
  The only input on which the test reads behind the data is a response whose status line has fewer than
  two bytes behind its first blank.
\<close>

definition short_status :: "byte list \<Rightarrow> bool" where
  "short_status b \<longleftrightarrow> take 5 b = str ''HTTP/'' \<and>
     (case first_eol b 0 of None \<Rightarrow> False
      | Some i \<Rightarrow> (case find_blank b 5 i of None \<Rightarrow> False | Some j \<Rightarrow> i < j + 3))"

lemma short_status_prefix:
  assumes "\<not> short_status (b @ c)"
  shows "\<not> short_status b"
proof
  assume s: "short_status b"
  then obtain i j where ij: "first_eol b 0 = Some i" "find_blank b 5 i = Some j" "i < j + 3" "take 5 b = str ''HTTP/''"
    by (auto simp: short_status_def simp del: list.map split: option.splits)
  have "length (take 5 b) = 5" unfolding ij(4) by simp
  then have "take 5 (b @ c) = take 5 b" by simp
  moreover have "find_blank (b @ c) 5 i = Some j"
    using ij(2) find_blank_more [of i b c 5] first_eol_at [OF ij(1)] by simp
  ultimately have "short_status (b @ c)"
    using ij first_eol_more [OF ij(1), of c] by (simp add: short_status_def del: list.map)
  with assms show False by simp
qed

lemma cs_complete_http_defined:
  assumes "5 \<le> length b" and "\<not> short_status b \<or> h"
  shows "cs_complete_http b h \<noteq> None"
proof (cases "first_eol b 0")
  case (Some i)
  then have "http_status b i h \<noteq> None"
    using assms first_eol_at [OF Some]
    by (auto simp: http_status_def short_status_def simp del: list.map split: option.splits)
  then show ?thesis using Some by (auto simp: cs_complete_http_def)
qed (simp add: cs_complete_http_def)

section \<open>HTTP or BER\<close>

lemma printable_range: "printable c \<Longrightarrow> 32 \<le> unat c \<and> unat c < 127"
  using sint_low [of c] sint_high [of c] by (cases "unat c < 128") (auto simp: printable_def simp del: of_nat_unat)

lemma text_high_bit: "printable c \<Longrightarrow> c AND 0x80 = 0"
  using printable_range [of c] nat_and_disjoint [of "unat c" 7 1] by (simp add: unat_and flip: unat_eq_0)

lemma text_length:
  assumes "printable c" and "length cs < 32" and "0 \<le> ll0"
  shows "\<exists>ll. ber_declen (c # cs) ll0 (int (length (c # cs))) = Some (1, ll) \<and> int (length cs) < ll"
proof -
  have c: "32 \<le> unat c" "unat c < 127" using printable_range [OF assms(1)] by auto
  then have "c AND 0x80 = 0" "c \<noteq> 0x80" using text_high_bit [OF assms(1)] by auto
  moreover have "uint c = int (unat c)" by simp
  ultimately show ?thesis using c assms(2) by (simp add: ber_declen_def del: of_nat_unat)
qed

lemma ber_too_short: "length b < 2 \<Longrightarrow> completeBER_n b 0 = Some 0"
  by (simp add: completeBER_n.simps Let_def)

text \<open>A few bytes of text are never taken for a complete BER element.\<close>

lemma short_text_not_ber:
  assumes "length b \<le> 5" and "\<And>i. i < length b \<Longrightarrow> i < 4 \<Longrightarrow> printable (b ! i)"
  shows "completeBER_n b 0 = Some 0"
proof (cases "length b < 2")
  case True
  then show ?thesis by (rule ber_too_short)
next
  case False
  then obtain c0 c1 cs where b: "b = c0 # c1 # cs" by (cases b rule: list.exhaust [of _ thesis]; cases "tl b") auto
  have p: "printable c0" "printable c1" using assms(2) [of 0] assms(2) [of 1] by (simp_all add: b)
  have c0: "c0 \<noteq> 0" using printable_range [OF p(1)] by auto
  have cs: "length cs \<le> 3" using assms(1) by (simp add: b)
  show ?thesis
  proof (cases "uint (c0 AND 0x1F) \<le> 30")
    case True
    obtain ll where "ber_declen (c1 # cs) 0 (int (length (c1 # cs))) = Some (1, ll)" "int (length cs) < ll"
      using text_length [OF p(2), of cs 0] cs by auto
    then show ?thesis using True c0 by (simp add: b completeBER_n.simps [of "c0 # c1 # cs"] ber_dectag_def Let_def)
  next
    case False
    then have tag: "ber_dectag b (0, 0, False) (int (length b)) = Some (2, uint (drop_bit 6 c0),
        uint (c1 AND 0x7F), drop_bit 5 c0 AND 1 \<noteq> 0)"
      using text_high_bit [OF p(2)] by (simp add: b ber_dectag_def Let_def dectag_loop.simps wrap32_def)
    show ?thesis
    proof (cases cs)
      case Nil
      then show ?thesis using c0 tag by (simp add: b completeBER_n.simps [of "[c0, c1]"] ber_declen_def)
    next
      case (Cons c2 ds)
      then obtain ll where "ber_declen cs 0 (int (length cs)) = Some (1, ll)" "int (length ds) < ll"
        using text_length [of c2 ds 0] cs assms(2) [of 2] by (auto simp: b)
      then show ?thesis using c0 tag Cons by (simp add: b completeBER_n.simps [of "c0 # c1 # c2 # ds"])
    qed
  qed
qed

lemma four: "(\<forall>i < 4 :: nat. P i) \<longleftrightarrow> P 0 \<and> P 1 \<and> P 2 \<and> P 3"
  by (auto simp: less_Suc_eq numeral_eq_Suc)

lemma auto_x_text:
  "cs_complete_auto_x b h =
     (if length b > 5 \<and> (\<forall>i < 4. printable (b ! i)) then cs_complete_http b h else completeBER_n b 0)"
  by (simp add: cs_complete_auto_x_def four)

lemma auto_x_more:
  assumes "cs_complete_auto_x b h = Some r" and "0 < r"
  shows "cs_complete_auto_x (b @ c) h = Some r"
proof (cases "length b > 5")
  case True
  then have "(\<forall>i < 4. printable ((b @ c) ! i)) = (\<forall>i < 4. printable (b ! i))" by (auto simp: nth_append)
  moreover have "completeBER_n b 0 = Some r \<Longrightarrow> completeBER_n (b @ c) 0 = Some r"
    using completeBER_n_total [of b 0] assms(2) complete_prefix [of b 0 r "b @ c"] by auto
  ultimately show ?thesis using assms True cs_complete_http_more [of b h r c] by (auto simp: auto_x_text split: if_splits)
next
  case False
  then have ber: "completeBER_n b 0 = Some r" using assms by (simp add: auto_x_text)
  have "\<not> (\<forall>i < 4. printable ((b @ c) ! i))"
  proof
    assume t: "\<forall>i < 4. printable ((b @ c) ! i)"
    have "printable (b ! i)" if "i < length b" "i < 4" for i using t that by (metis nth_append)
    then show False using short_text_not_ber [of b] ber assms(2) False by simp
  qed
  moreover have "completeBER_n (b @ c) 0 = Some r"
    using completeBER_n_total [of b 0] ber assms(2) complete_prefix [of b 0 r "b @ c"] by auto
  ultimately show ?thesis by (auto simp: auto_x_text)
qed

lemma auto_x_range:
  assumes "cs_complete_auto_x b h = Some r"
  shows "r \<le> int (length b) \<and> (r \<le> 0 \<or> 1 < r)"
proof (cases "length b > 5 \<and> (\<forall>i < 4. printable (b ! i))")
  case True
  then show ?thesis using cs_complete_http_range [of b h r] assms by (simp add: auto_x_text)
next
  case False
  then have r: "completeBER_n b 0 = Some r" using assms by (simp only: auto_x_text if_False)
  have "r \<noteq> 1"
  proof
    assume "r = 1"
    then have "completeBER_n (take 1 b) 0 = Some 1" using complete_prefix [of b 0 1 "take 1 b"] r by simp
    then show False by (simp add: ber_too_short)
  qed
  then show ?thesis using r completeBER_n_total [of b 0] by auto
qed

lemma auto_x_defined: "\<not> short_status b \<or> h \<Longrightarrow> cs_complete_auto_x b h \<noteq> None"
  using cs_complete_http_defined [of b h] completeBER_n_total [of b 0]
  by (auto simp: cs_complete_auto_x_def)

text \<open>A status line without a code, as it may arrive: the test reads behind the data.\<close>

lemma short_status_overread: "cs_complete_auto (str ''HTTP/1.1 '' @ [13]) = None"
  by code_simp

end
