(* ===== verification/Yaz_Receive.thy ===== *)
theory Yaz_Receive
  imports Yaz_Comstack_Laws
begin

text \<open>
  Receiving packages. The contract \<open>framer\<close> says what the receiving code relies on: the completeness
  test never claims more than has arrived, and does not change its mind when more data arrives. Under
  it, and where the test has a defined result on the data that arrives, receiving stays inside its
  buffers and delivers the packages of the stream one by one and in order, however the network cuts
  the stream into blocks.
\<close>

section \<open>Buffers\<close>

definition mem_ok :: "byte list option \<Rightarrow> int \<Rightarrow> bool" where
  "mem_ok p sz \<longleftrightarrow> (case p of None \<Rightarrow> sz = 0 | Some m \<Rightarrow> sz = int (length m) \<and> bufchunk \<le> length m)"

definition stack_ok :: "comstack \<Rightarrow> bool" where
  "stack_ok h \<longleftrightarrow> mem_ok (altbuf h) (altsize h) \<and> altlen h \<le> length (mem (altbuf h))"

definition pending :: "comstack \<Rightarrow> byte list" where
  "pending h = take (altlen h) (mem (altbuf h))"

lemma mem_ok_length: "mem_ok p sz \<Longrightarrow> sz = int (length (mem p))"
  by (simp add: mem_ok_def mem_def split: option.splits)

lemma mem_Some: "mem (Some m) = m"
  by (simp add: mem_def)

lemma length_xmalloc [simp]: "length (xmalloc fresh n) = n"
  by (simp add: xmalloc_def)

lemma length_xrealloc [simp]: "length (xrealloc fresh m n) = n"
  by (simp add: xrealloc_def)

lemma take_xrealloc: "k \<le> n \<Longrightarrow> k \<le> length m \<Longrightarrow> take k (xrealloc fresh m n) = take k m"
  by (simp add: xrealloc_def min_def)

lemma get_room_ok:
  assumes "get_room fresh mx p sz k = Inr (p', sz')" and "mem_ok p sz" and "k \<le> length (mem p)"
  shows "mem_ok p' sz'" "k + bufchunk \<le> length (mem p')" "take k (mem p') = take k (mem p)" "p' \<noteq> None"
proof -
  have k: "p = None \<Longrightarrow> k = 0" using assms(3) by (simp add: mem_def)
  show "mem_ok p' sz'" "k + bufchunk \<le> length (mem p')" "take k (mem p') = take k (mem p)" "p' \<noteq> None"
    using assms k by (auto simp: get_room_def mem_ok_def mem_def Let_def take_xrealloc split: if_splits option.splits)
qed

text \<open>There is room for a chunk as long as the data is a chunk shorter than the limit.\<close>

lemma get_room_fits:
  assumes "mem_ok p sz" and "k \<le> length (mem p)" and "int k + int bufchunk \<le> mx"
  shows "\<exists>r. get_room fresh mx p sz k = Inr r"
  using assms by (auto simp: get_room_def mem_ok_def mem_def Let_def split: option.splits)

text \<open>The data still to come, up to a failure or the end of the connection.\<close>

fun stream :: "received list \<Rightarrow> byte list" where
  "stream [] = []"
| "stream (Received d # net) = (if d = [] then [] else d @ stream net)"
| "stream (Recv_error # net) = []"
| "stream (e # net) = stream net"

fun quiet :: "received list \<Rightarrow> bool" where
  "quiet [] \<longleftrightarrow> True"
| "quiet (Received d # net) \<longleftrightarrow> d \<noteq> [] \<and> quiet net"
| "quiet (Recv_error # net) \<longleftrightarrow> False"
| "quiet (e # net) \<longleftrightarrow> quiet net"

lemma recv_data:
  assumes "recv n net = (Received d, net')" and "d \<noteq> []"
  shows "stream net = d @ stream net'" "length d \<le> n" "quiet net \<Longrightarrow> quiet net'"
  using assms by (cases "(n, net)" rule: recv.cases; force split: if_splits)+

lemma recv_weight_le: "recv n net = (e, net') \<Longrightarrow> weight net' \<le> weight net"
  by (cases "(n, net)" rule: recv.cases) (auto split: if_splits)

lemma recv_none:
  assumes "recv n net = (e, net')" and "e = Would_block \<or> e = No_errno"
  shows "stream net = stream net'" "quiet net \<Longrightarrow> quiet net'" "net \<noteq> [] \<Longrightarrow> weight net' < weight net"
  using assms by (cases "(n, net)" rule: recv.cases; auto split: if_splits)+

lemma recv_quiet: "quiet net \<Longrightarrow> recv (Suc n) net \<noteq> (Recv_error, net') \<and> recv (Suc n) net \<noteq> (Received [], net')"
  by (cases "(Suc n, net)" rule: recv.cases) auto

lemma whole_chunks_ge: "0 < n \<Longrightarrow> n \<le> whole_chunks n \<and> bufchunk \<le> whole_chunks n"
  by (cases "n < bufchunk") (auto simp: whole_chunks_def Let_def)

lemma keep_surplus_ok:
  assumes "mem_ok (altbuf h) (altsize h)" and "altlen h = 0" and "b \<le> k" and "k \<le> length m"
  obtains a sz n where "keep_surplus fresh h m b k = Some (h\<lparr>altbuf := a, altsize := sz, altlen := n\<rparr>)"
    "mem_ok a sz" "n \<le> length (mem a)" "take n (mem a) = drop b (take k m)"
proof (cases "b < k")
  case False
  then have "keep_surplus fresh h m b k = Some (h\<lparr>altbuf := altbuf h, altsize := altsize h, altlen := 0\<rparr>)"
    using assms(2) by (simp add: keep_surplus_def)
  then show ?thesis using that [where a = "altbuf h" and sz = "altsize h" and n = 0] assms False by simp
next
  case True
  define n where "n = k - b"
  obtain a sz where a: "alt_room fresh h (whole_chunks n) = (a, sz)" by fastforce
  then have sz: "sz = int (length a)" "n \<le> length a" "bufchunk \<le> length a"
    using assms(1) whole_chunks_ge [of n] True by (auto simp: n_def alt_room_def mem_ok_def split: option.splits if_splits)
  define d where "d = take n (drop b m)"
  have d: "length d = n" "d = drop b (take k m)" using assms(3,4) by (simp_all add: d_def n_def take_drop)
  then have "poke a 0 d = Some (d @ drop n a)" using sz by (simp add: poke_def)
  then have "keep_surplus fresh h m b k = Some (h\<lparr>altbuf := Some (d @ drop n a), altsize := sz, altlen := n\<rparr>)"
    using True assms(4) a by (simp add: keep_surplus_def flip: n_def d_def)
  then show ?thesis using that sz d by (simp add: mem_ok_def mem_def)
qed

section \<open>The receiving loop\<close>

lemma poke_data:
  assumes "mem_ok p sz" and "k + length d \<le> length (mem p)" and "p \<noteq> None"
  obtains m where "poke (mem p) k d = Some m" "mem_ok (Some m) sz" "take (k + length d) m = take k (mem p) @ d"
    "length m = length (mem p)"
proof
  show "poke (mem p) k d = Some (take k (mem p) @ d @ drop (k + length d) (mem p))" using assms by (simp add: poke_def)
qed (use assms in \<open>auto simp: mem_ok_def mem_def split: option.splits\<close>)

text \<open>The completeness test has a defined result on all beginnings of the data.\<close>

definition tested :: "(byte list \<Rightarrow> int cres) \<Rightarrow> byte list \<Rightarrow> bool" where
  "tested compl S \<longleftrightarrow> (\<forall>j \<le> length S. compl (take j S) \<noteq> None)"

text \<open>
  The packages of a stream respect the limit \<open>mx\<close>: the data received before a package is complete leaves
  room for a chunk, and the completeness test has a result that is not an error, wherever the data is cut.
\<close>

definition fits :: "(byte list \<Rightarrow> int cres) \<Rightarrow> int \<Rightarrow> byte list \<Rightarrow> bool" where
  "fits compl mx S \<longleftrightarrow>
     (\<forall>j \<le> length S. \<exists>r. compl (take j S) = Some r \<and> 0 \<le> r \<and> (r = 0 \<longrightarrow> int j + int bufchunk \<le> mx))"

lemma fits_tested: "fits compl mx S \<Longrightarrow> tested compl S"
  by (fastforce simp: fits_def tested_def)

lemma tested_at: "tested compl (a @ b) \<Longrightarrow> \<exists>r. compl a = Some r"
  using tested_def [THEN iffD1, rule_format, of compl "a @ b" "length a"] by auto

text \<open>A stream as a sequence of packages and an incomplete rest.\<close>

inductive packages :: "(byte list \<Rightarrow> int cres) \<Rightarrow> int \<Rightarrow> byte list \<Rightarrow> byte list list \<Rightarrow> byte list \<Rightarrow> bool" for compl mx where
  rest: "fits compl mx S \<Longrightarrow> compl S = Some 0 \<Longrightarrow> packages compl mx S [] S"
| package: "fits compl mx S \<Longrightarrow> k \<le> length S \<Longrightarrow> compl (take k S) = Some r \<Longrightarrow> 0 < r \<Longrightarrow>
    packages compl mx (drop (nat r) S) ms tail \<Longrightarrow> packages compl mx S (take (nat r) S # ms) tail"

inductive_cases packagesE: "packages compl mx S ms tail"

text \<open>A client that calls \<^verbatim>\<open>cs_get\<close> \<open>n\<close> times and collects the packages; it stops when the connection fails or is closed.\<close>

fun gets :: "(comstack \<Rightarrow> byte list option \<Rightarrow> int \<Rightarrow> received list \<Rightarrow>
      (int \<times> comstack \<times> byte list option \<times> int \<times> received list) cres) \<Rightarrow>
    nat \<Rightarrow> comstack \<Rightarrow> byte list option \<Rightarrow> int \<Rightarrow> received list \<Rightarrow> (byte list list \<times> comstack) cres" where
  "gets get 0 h p sz net = Some ([], h)"
| "gets get (Suc n) h p sz net = do {
     (ret, h', p', sz', net') \<leftarrow> get h p sz net;
     if ret \<le> 0 then Some ([], h')
     else do {
       (ms, h'') \<leftarrow> gets get n h' p' sz' net';
       Some (if ret = 1 then ms else take (nat ret) (mem p') # ms, h'')}}"

lemma weight_0 [simp]: "weight net = 0 \<longleftrightarrow> net = []"
  by (cases net rule: weight.cases) auto

locale framer =
  fixes compl :: "byte list \<Rightarrow> int cres"
  assumes range: "compl b = Some r \<Longrightarrow> r \<le> int (length b) \<and> (r \<le> 0 \<or> 1 < r)"
    and more: "compl b = Some r \<Longrightarrow> 0 < r \<Longrightarrow> compl (b @ c) = Some r"
    and empty: "compl [] = Some 0"
begin

lemma fitsD: "fits compl mx (a @ b) \<Longrightarrow> compl a = Some r \<Longrightarrow> 0 \<le> r \<and> (r = 0 \<longrightarrow> int (length a) + int bufchunk \<le> mx)"
  using fits_def [THEN iffD1, rule_format, of compl mx "a @ b" "length a"] by auto

text \<open>
  What the loop leaves behind unless it fails: data in the buffer, \<open>net'\<close> still to come, and nothing
  of the stream \<open>S\<close> lost. It does not fail on a quiet network with packages within the limit. When it
  fails the buffer has its recorded size, unless the error is \<^verbatim>\<open>CSBUFSIZE\<close>.
\<close>

definition loop_ok :: "byte list \<Rightarrow> comstack \<Rightarrow> received list \<Rightarrow>
    (int + int) \<times> comstack \<times> byte list option \<times> int \<times> nat \<times> received list \<Rightarrow> bool" where
  "loop_ok S h net = (\<lambda>(res, h', p, sz, k, net').
     (quiet net \<and> fits compl (max_recv_bytes h) S \<longrightarrow> (\<exists>r. res = Inr r) \<and> quiet net') \<and>
     (\<exists>e w. h' = h\<lparr>cerrno := e, want_read := w\<rparr>) \<and>
     (res = Inl (-1) \<and> (cerrno h' = CSBUFSIZE \<or> mem_ok p sz) \<or>
      mem_ok p sz \<and> k \<le> length (mem p) \<and> p \<noteq> None \<and> weight net' \<le> weight net \<and>
      (case res of
         Inl ret \<Rightarrow> ret = int k
       | Inr r \<Rightarrow> take k (mem p) @ stream net' = S \<and> compl (take k (mem p)) = Some r \<and>
           (r = 0 \<longrightarrow> net \<noteq> [] \<longrightarrow> weight net' < weight net))))"

lemma loop_ok_later:
  "loop_ok S h net1 x \<Longrightarrow> weight net1 < weight net \<Longrightarrow> (quiet net \<Longrightarrow> quiet net1) \<Longrightarrow> loop_ok S h net x"
  by (auto simp: loop_ok_def split: sum.splits)

lemma loop_okD:
  assumes "loop_ok S h net (Inr r, h', p, sz, k, net')"
  shows "\<exists>m e w. p = Some m \<and> mem_ok (Some m) sz \<and> k \<le> length m \<and> h' = h\<lparr>cerrno := e, want_read := w\<rparr> \<and>
    compl (take k m) = Some r \<and> take k m @ stream net' = S"
    "weight net' \<le> weight net" "r = 0 \<Longrightarrow> net \<noteq> [] \<Longrightarrow> weight net' < weight net"
    "quiet net \<Longrightarrow> fits compl (max_recv_bytes h) S \<Longrightarrow> quiet net'"
  using assms by (cases p; auto simp: loop_ok_def mem_def)+

lemma same_stack: "\<exists>e w. h = h\<lparr>cerrno := e, want_read := w\<rparr>"
  by (intro exI [of _ "cerrno h"] exI [of _ "want_read h"]) simp

lemma failed_stack: "\<exists>e w. h\<lparr>cerrno := c\<rparr> = h\<lparr>cerrno := e, want_read := w\<rparr>"
  by (intro exI [of _ c] exI [of _ "want_read h"]) simp

text \<open>One block of data arrives; the rest of the loop is assumed to be right.\<close>

lemma received_ok:
  assumes h: "complete h = compl" and p: "mem_ok p sz" "k \<le> length (mem p)" and c: "compl (take k (mem p)) = Some 0"
    and room: "get_room fresh (max_recv_bytes h) p sz k = Inr (p', sz')" and rc: "recv bufchunk net = (Received d, net')"
    and test: "tested compl (take k (mem p) @ stream net)"
    and IH: "\<And>p sz k. weight net' < weight net \<Longrightarrow> mem_ok p sz \<Longrightarrow> k \<le> length (mem p) \<Longrightarrow>
      tested compl (take k (mem p) @ stream net') \<Longrightarrow>
      \<exists>x. get_loop tcp fresh h p sz k net' = Some x \<and> loop_ok (take k (mem p) @ stream net') h net' x"
  shows "\<exists>x. get_loop tcp fresh h p sz k net = Some x \<and> loop_ok (take k (mem p) @ stream net) h net x"
proof (cases "d = []")
  case True
  moreover have "\<not> quiet net" using recv_quiet [of net 4095 net'] rc True by auto
  ultimately show ?thesis
    using h p c room rc get_room_ok [OF room p] recv_weight_le [OF rc] same_stack
    by (simp add: loop_ok_def get_loop.simps [of tcp fresh h p])
next
  case False
  note ok = get_room_ok [OF room p]
  have data: "stream net = d @ stream net'" "length d \<le> bufchunk" "weight net' < weight net" "quiet net \<Longrightarrow> quiet net'"
    using recv_data [OF rc False] recv_weight [OF rc False] by auto
  obtain m where m: "poke (mem p') k d = Some m" "mem_ok (Some m) sz'" "take (k + length d) m = take k (mem p') @ d"
      "length m = length (mem p')"
    using poke_data [OF ok(1) _ ok(4), of k d] ok(2) data(2) by auto
  have loop: "get_loop tcp fresh h p sz k net =
      (if int (k + length d) > max_recv_bytes h
       then Some (Inl (-1), h\<lparr>cerrno := CSBUFSIZE\<rparr>, Some m, sz', k + length d, net')
       else get_loop tcp fresh h (Some m) sz' (k + length d) net')"
    using False m(1) h p c room rc by (simp add: get_loop.simps [of tcp fresh h p])
  have rest: "\<exists>x. get_loop tcp fresh h (Some m) sz' (k + length d) net' = Some x \<and>
      loop_ok (take k (mem p) @ stream net) h net x"
    using IH [OF data(3) m(2), of "k + length d"] m(3,4) ok(2,3) data(1,2) test loop_ok_later [OF _ data(3,4)]
    by (auto simp: mem_def)
  have "fits compl (max_recv_bytes h) (take k (mem p) @ stream net) \<Longrightarrow> int (k + length d) \<le> max_recv_bytes h"
    using fitsD [OF _ c] data(2) p(2) by fastforce
  moreover note failed_stack [of CSBUFSIZE h]
  ultimately show ?thesis using rest unfolding loop by (cases "int (k + length d) > max_recv_bytes h") (auto simp: loop_ok_def)
qed

lemma would_block_ok:
  assumes h: "complete h = compl" and p: "mem_ok p sz" "k \<le> length (mem p)" and c: "compl (take k (mem p)) = Some 0"
    and room: "get_room fresh (max_recv_bytes h) p sz k = Inr (p', sz')" and rc: "recv bufchunk net = (Would_block, net')"
  shows "\<exists>x. get_loop tcp fresh h p sz k net = Some x \<and> loop_ok (take k (mem p) @ stream net) h net x"
proof -
  have "\<exists>e w. h\<lparr>want_read := True\<rparr> = h\<lparr>cerrno := e, want_read := w\<rparr>"
    by (intro exI [of _ "cerrno h"] exI [of _ True]) simp
  then show ?thesis
    using h p c room rc get_room_ok [OF room p] recv_none [OF rc] recv_weight_le [OF rc]
    by (simp add: loop_ok_def get_loop.simps [of tcp fresh h p])
qed

lemma get_loop_ok:
  assumes h: "complete h = compl"
  shows "mem_ok p sz \<Longrightarrow> k \<le> length (mem p) \<Longrightarrow> tested compl (take k (mem p) @ stream net) \<Longrightarrow>
    \<exists>x. get_loop tcp fresh h p sz k net = Some x \<and> loop_ok (take k (mem p) @ stream net) h net x"
proof (induction "weight net" arbitrary: p sz k net rule: less_induct)
  case less
  obtain r where r: "compl (take k (mem p)) = Some r" using tested_at [OF less.prems(3)] by blast
  show ?case
  proof (cases "r = 0")
    case False
    then have "p \<noteq> None" using r empty by (cases p) (auto simp: mem_def)
    then show ?thesis using False r less.prems h same_stack by (simp add: get_loop.simps [of tcp fresh h p] loop_ok_def)
  next
    case True
    with r have c: "compl (take k (mem p)) = Some 0" by simp
    show ?thesis
    proof (cases "get_room fresh (max_recv_bytes h) p sz k")
      case (Inl sz')
      then have "\<not> fits compl (max_recv_bytes h) (take k (mem p) @ stream net)"
        using fitsD [OF _ c] get_room_fits [OF less.prems(1,2), of "max_recv_bytes h" fresh] less.prems(2) by fastforce
      moreover note failed_stack [of CSBUFSIZE h]
      ultimately show ?thesis using Inl c less.prems h by (simp add: get_loop.simps [of tcp fresh h p] loop_ok_def)
    next
      case (Inr q)
      obtain p' sz' where room: "get_room fresh (max_recv_bytes h) p sz k = Inr (p', sz')" using Inr by (cases q) auto
      obtain e net' where rc: "recv bufchunk net = (e, net')" by fastforce
      show ?thesis
      proof (cases e)
        case (Received d)
        show ?thesis by (rule received_ok [OF h less.prems(1,2) c room rc [unfolded Received] less.prems(3)]) (rule less.hyps)
      next
        case Would_block
        then show ?thesis using would_block_ok [OF h less.prems(1,2) c room] rc by simp
      next
        case No_errno
        then have "weight net' < weight net" "quiet net \<Longrightarrow> quiet net'" "stream net' = stream net"
          using rc recv_none [OF rc] recv_weight_No_errno by auto
        moreover note get_room_ok [OF room less.prems(1,2)]
        moreover have "get_loop tcp fresh h p sz k net = get_loop tcp fresh h p' sz' k net'"
          using No_errno h c room rc less.prems by (simp add: get_loop.simps [of tcp fresh h p])
        ultimately show ?thesis using less.hyps [of net' p' sz' k] loop_ok_later less.prems(3) by fastforce
      next
        case Recv_error
        then have "\<not> quiet net" using recv_quiet [of net 4095 net'] rc by auto
        moreover note failed_stack [of CSYSERR h]
        ultimately show ?thesis
          using Recv_error h c room rc less.prems get_room_ok(1) [OF room less.prems(1,2)] same_stack [of h]
          by (simp add: get_loop.simps [of tcp fresh h p] loop_ok_def)
      qed
    qed
  qed
qed

text \<open>
  One call: it stays within its buffers. On a quiet network with packages within the limit it returns
  the next package of \<open>S\<close>, or 1 when the package has not arrived, and keeps the rest.
\<close>

definition get_ok :: "byte list \<Rightarrow> comstack \<Rightarrow> received list \<Rightarrow>
    int \<times> comstack \<times> byte list option \<times> int \<times> received list \<Rightarrow> bool" where
  "get_ok S h net = (\<lambda>(ret, h', p, sz, net').
     stack_ok h' \<and> complete h' = complete h \<and> max_recv_bytes h' = max_recv_bytes h \<and>
     (ret = -1 \<and> cerrno h' = CSBUFSIZE \<or> mem_ok p sz \<and> ret \<le> sz) \<and>
     (quiet net \<and> fits compl (max_recv_bytes h) S \<longrightarrow> ret \<noteq> -1 \<and> quiet net' \<and> weight net' \<le> weight net \<and>
      (ret = 1 \<and> pending h' @ stream net' = S \<and> compl (pending h') = Some 0 \<and> (net \<noteq> [] \<longrightarrow> weight net' < weight net) \<or>
       1 < ret \<and> (\<exists>k. k \<le> length S \<and> compl (take k S) = Some ret) \<and> take (nat ret) (mem p) = take (nat ret) S \<and>
       pending h' @ stream net' = drop (nat ret) S)))"

lemma terminator_ok:
  assumes "mem_ok p sz" and "p \<noteq> None" and "b \<le> length (mem p)"
  obtains m where "(if int b < int bufchunk - 1 then poke (mem p) b [0] else Some (mem p)) = Some m"
    "mem_ok (Some m) sz" "take b m = take b (mem p)"
proof (cases "int b < int bufchunk - 1")
  case True
  then have "b + length [0 :: byte] \<le> length (mem p)" using assms by (auto simp: mem_ok_def mem_def split: option.splits)
  then obtain m where m: "poke (mem p) b [0] = Some m" "mem_ok (Some m) sz" "take (b + length [0 :: byte]) m = take b (mem p) @ [0]"
    using poke_data [OF assms(1) _ assms(2), of b "[0]"] by metis
  have "take b m = take b (take (b + length [0 :: byte]) m)" by (simp add: min_def)
  also have "\<dots> = take b (mem p)" using assms(3) by (simp only: m(3)) simp
  finally show ?thesis using that [of m] True m(1,2) by simp
qed (use that [of "mem p"] assms in \<open>auto simp: mem_def\<close>)

text \<open>The steps after the loop, when it ends with \<^verbatim>\<open>berlen\<close> = \<open>r\<close>.\<close>

lemma get_end_ok:
  assumes "compl (take k m) = Some r" and "0 \<le> r" and "k \<le> length m" and "mem_ok (Some m) sz"
    and "mem_ok (altbuf h) (altsize h)" and "altlen h = 0"
  obtains h' m' where "get_end fresh h (Some m) sz k net r = Some (if r \<noteq> 0 then r else 1, h', Some m', sz, net)"
    "stack_ok h'" "complete h' = complete h" "max_recv_bytes h' = max_recv_bytes h"
    "pending h' = drop (nat r) (take k m)" "mem_ok (Some m') sz" "take (nat r) m' = take (nat r) m" "r \<le> sz"
proof -
  have r: "nat r \<le> k" using range [OF assms(1)] assms(2,3) by auto
  have r': "nat r \<le> length (mem (Some m))" using r assms(3) by (simp add: mem_Some)
  obtain a asz n where surplus: "keep_surplus fresh h m (nat r) k = Some (h\<lparr>altbuf := a, altsize := asz, altlen := n\<rparr>)"
      "mem_ok a asz" "n \<le> length (mem a)" "take n (mem a) = drop (nat r) (take k m)"
    using keep_surplus_ok [OF assms(5,6) r assms(3)] by blast
  obtain m' where tz: "(if r < int bufchunk - 1 then poke m (nat r) [0] else Some m) = Some m'"
      "mem_ok (Some m') sz" "take (nat r) m' = take (nat r) m"
    using terminator_ok [OF assms(4) _ r', unfolded mem_Some nat_0_le [OF assms(2)]] by blast
  show ?thesis
  proof
    show "get_end fresh h (Some m) sz k net r =
        Some (if r \<noteq> 0 then r else 1, h\<lparr>altbuf := a, altsize := asz, altlen := n\<rparr>, Some m', sz, net)"
      using assms(2) surplus(1) tz(1) by (cases "r = 0") (simp_all add: get_end_def mem_def split: if_splits)
    show "r \<le> sz" using assms(2-4) r by (simp add: mem_ok_def)
  qed (use surplus tz in \<open>simp_all add: stack_ok_def pending_def\<close>)
qed

lemma switch_ok:
  assumes "switch_buffers h p sz = (h1, p1, sz1, k)" and "stack_ok h" and "mem_ok p sz"
  shows "complete h1 = complete h" "max_recv_bytes h1 = max_recv_bytes h" "mem_ok p1 sz1" "k \<le> length (mem p1)"
    "take k (mem p1) = pending h" "mem_ok (altbuf h1) (altsize h1)" "altlen h1 = 0"
  using assms by (auto simp: switch_buffers_def stack_ok_def pending_def split: if_splits)

lemma stack_get_ok:
  assumes "complete h = compl" and "stack_ok h" and "mem_ok p sz" and test: "tested compl (pending h @ stream net)"
  shows "\<exists>x. stack_get tcp fresh h p sz net = Some x \<and> get_ok (pending h @ stream net) h net x"
proof -
  obtain h1 p1 sz1 k where swap: "switch_buffers h p sz = (h1, p1, sz1, k)" by (metis prod_cases4)
  note s1 = switch_ok [OF swap assms(2,3)]
  define h2 where "h2 = h1\<lparr>want_read := False\<rparr>"
  have s2: "complete h2 = compl" by (simp add: h2_def s1 assms)
  obtain res h3 p3 sz3 k3 net3 where loop: "get_loop tcp fresh h2 p1 sz1 k net = Some (res, h3, p3, sz3, k3, net3)"
    and ok: "loop_ok (pending h @ stream net) h2 net (res, h3, p3, sz3, k3, net3)"
    using get_loop_ok [OF s2 s1(3,4), of net tcp fresh] s1(5) test by (metis prod_cases6)
  have get: "stack_get tcp fresh h p sz net = (case res of
      Inl ret \<Rightarrow> Some (ret, h3, p3, sz3, net3) | Inr r \<Rightarrow> get_end fresh h3 p3 sz3 k3 net3 r)"
    using loop by (simp add: stack_get_def swap h2_def)
  show ?thesis
  proof (cases res)
    case (Inl ret)
    then show ?thesis
      using get ok s1 mem_ok_length [of p3 sz3] by (auto simp: loop_ok_def get_ok_def h2_def stack_ok_def)
  next
    case (Inr r)
    then obtain m e w where m: "p3 = Some m" "mem_ok (Some m) sz3" "k3 \<le> length m" "h3 = h2\<lparr>cerrno := e, want_read := w\<rparr>"
      and c: "compl (take k3 m) = Some r" and S: "take k3 m @ stream net3 = pending h @ stream net"
      using loop_okD(1) [OF ok [unfolded Inr]] by metis
    show ?thesis
    proof (cases "r < 0")
      case True
      then have "\<not> fits compl (max_recv_bytes h) (pending h @ stream net)"
        using fitsD [of _ "take k3 m" "stream net3", OF _ c] S by auto
      then show ?thesis using get Inr True m(1,2,4) s1 mem_ok_length [OF m(2)]
        by (simp add: get_ok_def get_end_def stack_ok_def h2_def)
    next
      case False
      have h3: "mem_ok (altbuf h3) (altsize h3)" "altlen h3 = 0" "complete h3 = complete h" "max_recv_bytes h3 = max_recv_bytes h"
        using m(4) s1 by (simp_all add: h2_def)
      obtain h' m' where fin: "get_end fresh h3 (Some m) sz3 k3 net3 r = Some (if r \<noteq> 0 then r else 1, h', Some m', sz3, net3)"
          "stack_ok h'" "complete h' = complete h3" "max_recv_bytes h' = max_recv_bytes h3"
          "pending h' = drop (nat r) (take k3 m)" "mem_ok (Some m') sz3" "take (nat r) m' = take (nat r) m" "r \<le> sz3"
        using get_end_ok [OF c _ m(3,2) h3(1,2)] False by (metis not_less)
      define S where "S = pending h @ stream net"
      have S': "take k3 m @ stream net3 = S" by (simp add: S S_def)
      have r: "nat r \<le> k3" "r \<le> 0 \<or> 1 < r" using m(3) range [OF c] by auto
      have k3: "compl (take k3 S) = Some r" "k3 \<le> length S" "take (nat r) m' = take (nat r) S"
          "pending h' @ stream net3 = drop (nat r) S"
        using m(3) c r fin(5,7) by (auto simp flip: S')
      have sz: "1 \<le> sz3" using m(2) by (simp add: mem_ok_def)
      note rest = loop_okD(2-) [OF ok [unfolded Inr], folded S_def] and mx = s1(2)
      have "get_ok S h net (if r \<noteq> 0 then r else 1, h', Some m', sz3, net3)"
      proof (cases "r = 0")
        case True
        then show ?thesis
          using fin h3 sz rest c k3(4) by (simp add: get_ok_def mem_Some h2_def mx)
      next
        case False
        then show ?thesis
          using fin h3 sz rest r k3 \<open>\<not> r < 0\<close> by (auto simp: get_ok_def mem_Some h2_def mx)
      qed
      then show ?thesis using get Inr m(1) fin(1) by (simp add: S_def)
    qed
  qed
qed

section \<open>A sequence of calls\<close>

lemma compl_unique: "compl (take k S) = Some r \<Longrightarrow> 0 < r \<Longrightarrow> compl S = Some r"
  using more [of "take k S" r "drop k S"] by simp

lemma fitsI:
  assumes "compl (take k S) = Some r" and "0 < r" and "\<And>j. j < k \<Longrightarrow> compl (take j S) = Some 0" and "int k + int bufchunk \<le> mx"
  shows "fits compl mx S"
  unfolding fits_def
proof (intro allI impI)
  fix j assume "j \<le> length S"
  moreover have "compl (take j S) = Some r" if "k \<le> j"
    using compl_unique [of k "take j S" r] assms(1,2) that by (simp add: min_def)
  ultimately show "\<exists>r'. compl (take j S) = Some r' \<and> 0 \<le> r' \<and> (r' = 0 \<longrightarrow> int j + int bufchunk \<le> mx)"
    using assms by (cases "j < k") auto
qed

lemma packages_fits: "packages compl mx S ms tail \<Longrightarrow> fits compl mx S"
  by (erule packagesE)

lemma packages_idle: "packages compl mx S ms tail \<Longrightarrow> compl S = Some 0 \<Longrightarrow> ms = [] \<and> tail = S"
  by (erule packagesE) (auto dest: compl_unique)

lemma packages_next:
  assumes "packages compl mx S ms tail" and "compl (take k S) = Some r" and "0 < r"
  obtains ms' where "ms = take (nat r) S # ms'" "packages compl mx (drop (nat r) S) ms' tail"
  using assms(1)
proof (rule packagesE)
  assume "compl S = Some 0"
  then show ?thesis using compl_unique [OF assms(2,3)] assms(3) by simp
next
  fix k' r' ms'
  assume "compl (take k' S) = Some r'" "0 < r'" "ms = take (nat r') S # ms'" "packages compl mx (drop (nat r') S) ms' tail"
  moreover have "r' = r" using compl_unique [OF calculation(1,2)] compl_unique [OF assms(2,3)] by simp
  ultimately show ?thesis using that by simp
qed

lemma gets_idle:
  assumes "complete h = compl" and "stack_ok h" and "mem_ok p sz"
    and "compl (pending h) = Some 0" and "fits compl (max_recv_bytes h) (pending h)"
  shows "\<exists>h'. gets (stack_get tcp fresh) n h p sz [] = Some ([], h') \<and> pending h' = pending h"
  using assms
proof (induction n arbitrary: h p sz)
  case (Suc n)
  obtain ret h' p' sz' net' where get: "stack_get tcp fresh h p sz [] = Some (ret, h', p', sz', net')"
    and ok: "get_ok (pending h) h [] (ret, h', p', sz', net')"
    using stack_get_ok [OF Suc.prems(1-3), of "[]" tcp fresh] fits_tested [OF Suc.prems(5)] by auto
  have "ret \<le> 1" using ok Suc.prems(4,5) compl_unique [of _ "pending h" ret] by (auto simp: get_ok_def)
  then have "ret = 1" "net' = []" "pending h' = pending h" "stack_ok h'" "mem_ok p' sz'" "complete h' = compl"
      "max_recv_bytes h' = max_recv_bytes h"
    using ok Suc.prems by (auto simp: get_ok_def)
  then show ?case using Suc.IH [of h' p' sz'] Suc.prems(4,5) get by auto
qed auto

lemma gets_packages:
  assumes "packages compl mx (pending h @ stream net) ms tail" and "quiet net"
    and "complete h = compl" and "stack_ok h" and "mem_ok p sz" and "max_recv_bytes h = mx"
    and "length (pending h @ stream net) + weight net \<le> n"
  shows "\<exists>h'. gets (stack_get tcp fresh) n h p sz net = Some (ms, h') \<and> pending h' = tail"
  using assms
proof (induction n arbitrary: h p sz net ms)
  case 0
  then show ?case using packages_idle [OF 0(1)] empty by auto
next
  case (Suc n)
  define S where "S = pending h @ stream net"
  obtain ret h' p' sz' net' where get: "stack_get tcp fresh h p sz net = Some (ret, h', p', sz', net')"
    and ok: "get_ok S h net (ret, h', p', sz', net')"
    using stack_get_ok [OF Suc.prems(3-5), of net tcp fresh] fits_tested [OF packages_fits [OF Suc.prems(1)]]
    by (auto simp: S_def)
  note S = Suc.prems(1,7) [folded S_def]
  have frame: "ret \<noteq> -1" "quiet net'" "weight net' \<le> weight net" "stack_ok h'" "mem_ok p' sz'" "complete h' = compl"
      "max_recv_bytes h' = mx"
    and cases: "ret = 1 \<and> pending h' @ stream net' = S \<and> compl (pending h') = Some 0 \<and> (net \<noteq> [] \<longrightarrow> weight net' < weight net) \<or>
      1 < ret \<and> (\<exists>k. k \<le> length S \<and> compl (take k S) = Some ret) \<and> take (nat ret) (mem p') = take (nat ret) S \<and>
      pending h' @ stream net' = drop (nat ret) S"
    using ok Suc.prems packages_fits [OF S(1)] by (auto simp: get_ok_def)
  show ?case
  proof (cases "ret = 1")
    case True
    then have next': "pending h' @ stream net' = S" "compl (pending h') = Some 0" "net \<noteq> [] \<longrightarrow> weight net' < weight net"
      using cases by auto
    show ?thesis
    proof (cases "net = []")
      case True
      then show ?thesis
        using next' frame get \<open>ret = 1\<close> packages_idle [OF S(1)] packages_fits [OF S(1)] gets_idle [of h' p' sz' tcp fresh n] by auto
    next
      case False
      then show ?thesis using Suc.IH [of h' net' ms p' sz'] next' S frame get \<open>ret = 1\<close> by auto
    qed
  next
    case False
    with cases obtain k where msg: "1 < ret" "compl (take k S) = Some ret" "take (nat ret) (mem p') = take (nat ret) S"
      "pending h' @ stream net' = drop (nat ret) S" by auto
    obtain ms' where ms': "ms = take (nat ret) S # ms'" "packages compl mx (drop (nat ret) S) ms' tail"
      using packages_next [OF S(1) msg(2)] msg(1) by auto
    have "S \<noteq> []" using msg(1,2) empty by auto
    then have "length (drop (nat ret) S) + weight net' \<le> n" using S(2) frame(3) msg(1) by (cases S) auto
    then show ?thesis using Suc.IH [of h' net' ms' p' sz'] ms' msg frame get by auto
  qed
qed

end

section \<open>HTTP and BER packages\<close>

lemma complete_framer: "framer (\<lambda>b. cs_complete_auto_x b h)"
proof
  show "cs_complete_auto_x [] h = Some 0" by (simp add: cs_complete_auto_x_def ber_too_short)
qed (use auto_x_range auto_x_more in blast)+

lemma tested_auto: "\<not> short_status S \<or> h \<Longrightarrow> tested (\<lambda>b. cs_complete_auto_x b h) S"
  unfolding tested_def using auto_x_defined short_status_prefix by (metis append_take_drop_id)

interpretation auto_package: framer cs_complete_auto
  using complete_framer [of False] by (simp add: cs_complete_auto_def [abs_def])

interpretation head_package: framer cs_complete_auto_head
  using complete_framer [of True] by (simp add: cs_complete_auto_head_def [abs_def])

section \<open>Properties\<close>

text \<open>
  C2: a package that is recognised stays the same. When the completeness test for HTTP and BER reports
  a package of \<open>r\<close> bytes, these bytes have arrived, and it reports the same package whatever data
  follows.
\<close>

theorem complete_stable:
  assumes "cs_complete_auto b = Some r" and "0 < r"
  shows "r \<le> int (length b) \<and> cs_complete_auto (b @ later) = Some r"
  using auto_package.range [OF assms(1)] auto_package.more [OF assms] by auto

theorem complete_stable_witness:
  "3 \<le> int (length [2, 1, 5 :: byte]) \<and> cs_complete_auto ([2, 1, 5] @ [9]) = Some 3"
  by (rule complete_stable)
    (simp_all add: cs_complete_auto_def cs_complete_auto_x_def printable_def
      completeBER_n.simps [of "[2, 1, 5]" 0] ber_dectag_def ber_declen_def)

text \<open>
  C3: receiving stays inside its buffers. From buffers as the code allocates them, a call of
  \<open>tcpip_get\<close> or \<open>unix_get\<close> has a defined result whatever the network does: neither the completeness
  test nor the receiving loop touches memory outside the buffers. It leaves such buffers, also when it
  fails, and returns no more bytes than the caller's buffer has. Two cases are excluded, and the code is
  wrong in both: a response whose status line has fewer than two bytes behind its first blank, on which
  the test for headers and content reads behind the data, and the failure \<^verbatim>\<open>CSBUFSIZE\<close>, which may leave a
  larger size in \<^verbatim>\<open>*bufsize\<close> than the caller's buffer has.
\<close>

theorem get_memory_safe:
  assumes "stack_ok h" and "mem_ok p bufsize" and "complete h = cs_complete_auto \<and> \<not> short_status (pending h @ stream net) \<or> complete h = cs_complete_auto_head"
    and "get = tcpip_get \<or> get = unix_get"
  shows "\<exists>ret h' p' bufsize' net'. get fresh h p bufsize net = Some (ret, h', p', bufsize', net') \<and>
    stack_ok h' \<and> (ret = -1 \<and> cerrno h' = CSBUFSIZE \<or> mem_ok p' bufsize' \<and> ret \<le> int (length (mem p')))"
proof -
  obtain tcp where get: "get = stack_get tcp" using assms(4) by (auto simp: tcpip_get_def unix_get_def)
  have "\<exists>x. stack_get tcp fresh h p bufsize net = Some x \<and>
      (\<lambda>(ret, h', p', bufsize', net'). stack_ok h' \<and> (ret = -1 \<and> cerrno h' = CSBUFSIZE \<or> mem_ok p' bufsize' \<and> ret \<le> bufsize')) x"
    using assms(3)
  proof
    assume a: "complete h = cs_complete_auto \<and> \<not> short_status (pending h @ stream net)"
    then have "tested cs_complete_auto (pending h @ stream net)"
      using tested_auto [of _ False] by (simp add: cs_complete_auto_def [abs_def])
    from auto_package.stack_get_ok [OF _ assms(1,2) this, of tcp fresh] a show ?thesis
      by (fastforce simp: auto_package.get_ok_def)
  next
    assume a: "complete h = cs_complete_auto_head"
    have "tested cs_complete_auto_head (pending h @ stream net)"
      using tested_auto [of _ True] by (simp add: cs_complete_auto_head_def [abs_def])
    from head_package.stack_get_ok [OF a assms(1,2) this, of tcp fresh] show ?thesis
      by (fastforce simp: head_package.get_ok_def)
  qed
  then show ?thesis using get mem_ok_length by fastforce
qed

text \<open>
  C1: the packages of a stream are delivered. Let the data that arrives be packages \<open>ms\<close> that respect
  the limit, followed by an incomplete rest. Then a client that calls \<open>tcpip_get\<close> or \<open>unix_get\<close> on a
  new connection often enough gets exactly the packages \<open>ms\<close>, in order, and the rest is kept: however
  the network cuts the stream into blocks and however often it has nothing to deliver.
\<close>

theorem get_delivers:
  assumes "packages cs_complete_auto (max_recv_bytes h) (stream net) ms tail" and "quiet net"
    and "complete h = cs_complete_auto" and "altbuf h = None" and "altsize h = 0" and "altlen h = 0"
    and "get = tcpip_get \<or> get = unix_get" and "length (stream net) + weight net \<le> n"
  shows "\<exists>h'. gets (get fresh) n h None 0 net = Some (ms, h') \<and> pending h' = tail"
proof -
  obtain tcp where get: "get = stack_get tcp" using assms(7) by (auto simp: tcpip_get_def unix_get_def)
  have "pending h = []" by (simp add: pending_def assms)
  then show ?thesis
    unfolding get using assms by (intro auto_package.gets_packages) (auto simp: stack_ok_def mem_ok_def)
qed

definition new_stack :: comstack where
  "new_stack = \<lparr>cerrno = CSNONE, max_recv_bytes = 16777216, want_read = False, altbuf = None, altsize = 0, altlen = 0,
     complete = cs_complete_auto\<rparr>"

theorem get_memory_safe_witness:
  "\<exists>ret h' p' bufsize' net'. tcpip_get (\<lambda>_. 0) new_stack None 0 [Received [1], Recv_error] = Some (ret, h', p', bufsize', net') \<and>
    stack_ok h' \<and> (ret = -1 \<and> cerrno h' = CSBUFSIZE \<or> mem_ok p' bufsize' \<and> ret \<le> int (length (mem p')))"
  by (rule get_memory_safe [where get = tcpip_get])
    (simp_all add: new_stack_def stack_ok_def mem_ok_def pending_def mem_def short_status_def)

lemma small_integer: "cs_complete_auto [2, 1, c] = Some 3" "cs_complete_auto [2, 1] = Some 0" "cs_complete_auto [c] = Some 0"
  by (simp_all add: cs_complete_auto_def cs_complete_auto_x_def ber_too_short
      completeBER_n.simps [of "[2, 1, c]" 0] completeBER_n.simps [of "[2, 1]" 0] ber_dectag_def ber_declen_def)

lemma small_integer_fits: "4100 \<le> mx \<Longrightarrow> fits cs_complete_auto mx (2 # 1 # c # rest)"
proof (rule auto_package.fitsI [of 3])
  show "cs_complete_auto (take 3 (2 # 1 # c # rest)) = Some 3" by (simp add: small_integer)
  fix j :: nat assume "j < 3"
  then consider "j = 0" | "j = 1" | "j = 2" by linarith
  then show "cs_complete_auto (take j (2 # 1 # c # rest)) = Some 0"
    by cases (simp_all add: small_integer auto_package.empty numeral_2_eq_2)
qed simp_all

theorem get_delivers_witness:
  "\<exists>h'. gets (tcpip_get (\<lambda>_. 0)) 20 new_stack None 0 [Received [2, 1], Would_block, Received [5, 2, 1, 7, 4]] =
    Some ([[2, 1, 5], [2, 1, 7]], h') \<and> pending h' = [4]"
proof (rule get_delivers [where get = tcpip_get])
  define mx where "mx = max_recv_bytes new_stack"
  have mx: "4100 \<le> mx" by (simp add: mx_def new_stack_def)
  have "fits cs_complete_auto mx [4]"
    using mx by (auto simp: fits_def le_Suc_eq small_integer auto_package.empty)
  then have "packages cs_complete_auto mx [4] [] [4]" by (rule packages.rest) (rule small_integer)
  then have "packages cs_complete_auto mx [2, 1, 7, 4] (take (nat 3) [2, 1, 7, 4] # []) [4]"
    by (intro packages.package [where k = 3] small_integer_fits [OF mx]) (simp_all add: small_integer)
  then have "packages cs_complete_auto mx [2, 1, 5, 2, 1, 7, 4] (take (nat 3) [2, 1, 5, 2, 1, 7, 4] # take (nat 3) [2, 1, 7, 4] # []) [4]"
    by (intro packages.package [where k = 3] small_integer_fits [OF mx]) (simp_all add: small_integer)
  then show "packages cs_complete_auto (max_recv_bytes new_stack) (stream [Received [2, 1], Would_block, Received [5, 2, 1, 7, 4]])
      [[2, 1, 5], [2, 1, 7]] [4]" by (simp add: mx_def)
qed (simp_all add: new_stack_def)

end
