(* ===== verification/Yaz_OidDb.thy ===== *)
theory Yaz_OidDb
  imports Yaz_Oid Yaz_Match
begin

text \<open>
  The database of object identifiers (\<^verbatim>\<open>oid_db.c\<close>). The table of standard identifiers is generated when
  the program is built; it is the parameter \<open>std\<close> of the operations. A database is the list of the
  nodes of its chain. A node that is not the standard one points to its own table, or nowhere.
\<close>

datatype oid_class = CLASS_NOP | CLASS_APPCTX | CLASS_ABSYN | CLASS_ATTSET | CLASS_TRANSYN | CLASS_DIAGSET
  | CLASS_RECSYN | CLASS_RESFORM | CLASS_ACCFORM | CLASS_EXTSERV | CLASS_USERINFO | CLASS_ELEMSPEC
  | CLASS_VARSET | CLASS_SCHEMA | CLASS_TAGSET | CLASS_GENERAL | CLASS_NEGOT

record yaz_oid_entry =
  oclass :: oid_class
  entry_oid :: "int list"
  entry_name :: "byte list"

datatype yaz_oid_db = Standard | Xmalloced "yaz_oid_entry list option"

definition yaz_oid_std :: "yaz_oid_db list" where
  "yaz_oid_std = [Standard]"

text \<open>The standard database may grow; the operations that use it have its chain as the parameter \<open>db\<close>.\<close>

definition get_entries :: "yaz_oid_entry list \<Rightarrow> yaz_oid_db \<Rightarrow> yaz_oid_entry list cres" where
  "get_entries std db = (case db of Standard \<Rightarrow> Some std | Xmalloced es \<Rightarrow> es)"

definition find_name :: "oid_class \<Rightarrow> byte list \<Rightarrow> yaz_oid_entry list \<Rightarrow> int list option" where
  "find_name oc name es =
     (case (if oc \<noteq> CLASS_GENERAL then find (\<lambda>e. yaz_matchstr (entry_name e) name \<and> oc = oclass e) es else None) of
        Some e \<Rightarrow> Some (entry_oid e)
      | None \<Rightarrow> map_option entry_oid (find (\<lambda>e. yaz_matchstr (entry_name e) name) es))"

fun yaz_string_to_oid :: "yaz_oid_entry list \<Rightarrow> yaz_oid_db list \<Rightarrow> oid_class \<Rightarrow> byte list \<Rightarrow> int list option cres" where
  "yaz_string_to_oid std [] oc name = Some None"
| "yaz_string_to_oid std (nd # db) oc name = do {
     es \<leftarrow> get_entries std nd;
     (case find_name oc name es of
        Some oid \<Rightarrow> Some (Some oid)
      | None \<Rightarrow> yaz_string_to_oid std db oc name)}"

text \<open>Copies of an identifier; \<open>fresh\<close> is the content of new memory.\<close>

definition odr_oiddup :: "(nat \<Rightarrow> int) \<Rightarrow> int list \<Rightarrow> int list cres" where
  "odr_oiddup fresh oid = do {n \<leftarrow> oid_oidlen oid; oid_oidcpy (map fresh [0..<n + 1]) oid}"

definition odr_getoidbystr :: "(nat \<Rightarrow> int) \<Rightarrow> byte list \<Rightarrow> int list option cres" where
  "odr_getoidbystr fresh s = do {
     (ok, oid) \<leftarrow> oid_dotstring_to_oid s (map fresh [0..<OID_SIZE]);
     if ok then map_option Some (odr_oiddup fresh oid) else Some None}"

definition yaz_string_to_oid_odr ::
    "yaz_oid_entry list \<Rightarrow> (nat \<Rightarrow> int) \<Rightarrow> yaz_oid_db list \<Rightarrow> oid_class \<Rightarrow> byte list \<Rightarrow> int list option cres" where
  "yaz_string_to_oid_odr std fresh db oc name = do {
     r \<leftarrow> yaz_string_to_oid std db oc name;
     (case r of Some oid \<Rightarrow> map_option Some (odr_oiddup fresh oid) | None \<Rightarrow> odr_getoidbystr fresh name)}"

fun find_oid :: "int list \<Rightarrow> yaz_oid_entry list \<Rightarrow> yaz_oid_entry option cres" where
  "find_oid oid [] = Some None"
| "find_oid oid (e # es) = do {
     c \<leftarrow> oid_oidcmp (entry_oid e) oid;
     if c = 0 then Some (Some e) else find_oid oid es}"

text \<open>The result is the entry found, of which the code returns the name and stores the class.\<close>

fun yaz_oid_to_string :: "yaz_oid_entry list \<Rightarrow> yaz_oid_db list \<Rightarrow> int list \<Rightarrow> yaz_oid_entry option cres" where
  "yaz_oid_to_string std [] oid = Some None"
| "yaz_oid_to_string std (nd # db) oid = do {
     es \<leftarrow> get_entries std nd;
     r \<leftarrow> find_oid oid es;
     (case r of Some e \<Rightarrow> Some (Some e) | None \<Rightarrow> yaz_oid_to_string std db oid)}"

definition yaz_oid_to_string_buf :: "yaz_oid_entry list \<Rightarrow> yaz_oid_db list \<Rightarrow> int list \<Rightarrow> (byte list \<times> oid_class) cres" where
  "yaz_oid_to_string_buf std db oid = do {
     r \<leftarrow> yaz_oid_to_string std db oid;
     (case r of
        Some e \<Rightarrow> Some (entry_name e, oclass e)
      | None \<Rightarrow> map_option (\<lambda>s. (str s, CLASS_GENERAL)) (oid_oid_to_dotstring oid))}"

definition oid_name_to_dotstring :: "yaz_oid_entry list \<Rightarrow> yaz_oid_db list \<Rightarrow> oid_class \<Rightarrow> byte list \<Rightarrow> string option cres" where
  "oid_name_to_dotstring std db oc name = do {
     r \<leftarrow> yaz_string_to_oid std db oc name;
     (case r of Some oid \<Rightarrow> map_option Some (oid_oid_to_dotstring oid) | None \<Rightarrow> Some None)}"

definition yaz_oid_is_iso2709 :: "int list \<Rightarrow> bool cres" where
  "yaz_oid_is_iso2709 oid = do {
     n \<leftarrow> oid_oidlen oid;
     Some (n = 6 \<and> oid ! 0 = 1 \<and> oid ! 1 = 2 \<and> oid ! 2 = 840 \<and> oid ! 3 = 10003 \<and> oid ! 4 = 5 \<and>
       oid ! 5 \<le> 29 \<and> oid ! 5 \<noteq> 16)}"

text \<open>\<open>yaz_oid_add\<close> returns whether the name was new, and the database.\<close>

definition yaz_oid_add :: "yaz_oid_entry list \<Rightarrow> (nat \<Rightarrow> int) \<Rightarrow> yaz_oid_db list \<Rightarrow> oid_class \<Rightarrow> byte list \<Rightarrow> int list \<Rightarrow>
    (bool \<times> yaz_oid_db list) cres" where
  "yaz_oid_add std fresh db oc name new_oid = do {
     r \<leftarrow> yaz_string_to_oid std db oc name;
     (case r of
        None \<Rightarrow> do {
          oid \<leftarrow> odr_oiddup fresh new_oid;
          Some (True, db @ [Xmalloced (Some [\<lparr>oclass = oc, entry_oid = oid, entry_name = name\<rparr>])])}
      | Some _ \<Rightarrow> Some (False, db))}"

definition yaz_oid_db_new :: "yaz_oid_db list" where
  "yaz_oid_db_new = [Xmalloced None]"

text \<open>The entries in the order in which \<open>yaz_oid_trav\<close> passes them to the callback.\<close>

fun yaz_oid_trav :: "yaz_oid_entry list \<Rightarrow> yaz_oid_db list \<Rightarrow> yaz_oid_entry list cres" where
  "yaz_oid_trav std [] = Some []"
| "yaz_oid_trav std (nd # db) = do {
     es \<leftarrow> get_entries std nd;
     map_option ((@) es) (yaz_oid_trav std db)}"

section \<open>Adding and finding names\<close>

lemma oiddup_copy: "\<forall>x \<in> set xs. 0 \<le> x \<Longrightarrow> odr_oiddup fresh (xs @ [-1]) = Some (xs @ [-1])"
  using oidlen_arcs [of xs "[]"] oidcpy_arcs [of xs "map fresh [0..<length xs + 1]" "[]"] by (simp add: odr_oiddup_def)

lemma matchstr_refl: "yaz_matchstr s s"
proof (induction s rule: length_induct)
  case (1 s)
  define s' where "s' = (if deref s = ch CHR ''-'' then tl s else s)"
  have "deref s' \<noteq> 0 \<Longrightarrow> length (tl s') < length s" by (auto simp: s'_def deref_def split: list.splits if_splits)
  then have "deref s' \<noteq> 0 \<Longrightarrow> yaz_matchstr (tl s') (tl s')" using 1 by blast
  then show ?case by (subst yaz_matchstr.simps) (auto simp: s'_def Let_def)
qed

lemma string_to_oid_append:
  "yaz_string_to_oid std db oc name = Some None \<Longrightarrow>
   yaz_string_to_oid std (db @ db') oc name = yaz_string_to_oid std db' oc name"
  by (induction db) (auto simp: bind_eq_Some_conv split: option.splits)

lemma string_to_oid_kept:
  "yaz_string_to_oid std db oc name = Some (Some oid) \<Longrightarrow>
   yaz_string_to_oid std (db @ db') oc name = Some (Some oid)"
  by (induction db) (auto simp: bind_eq_Some_conv split: option.splits)

text \<open>A name that is added is found, in its class and in every class; names found before stay as they were.\<close>

lemma oid_add_lookup:
  assumes "yaz_oid_add std fresh db oc name (xs @ [-1]) = Some (True, db')" and "\<forall>x \<in> set xs. 0 \<le> x"
  shows "yaz_string_to_oid std db' oc name = Some (Some (xs @ [-1]))"
  using assms string_to_oid_append [of std db oc name] matchstr_refl [of name]
  by (auto simp: yaz_oid_add_def bind_eq_Some_conv oiddup_copy find_name_def get_entries_def split: option.splits)

lemma oid_add_keeps:
  assumes "yaz_oid_add std fresh db oc name new_oid = Some (r, db')" and "yaz_string_to_oid std db oc' name' = Some (Some oid)"
  shows "yaz_string_to_oid std db' oc' name' = Some (Some oid)"
  using assms string_to_oid_kept by (auto simp: yaz_oid_add_def bind_eq_Some_conv split: option.splits)

text \<open>
  An array of 20 cells is enough for the dotted notation in a name of at most 30 characters: every cell
  takes two characters of the name.
\<close>

lemma dot_loop_short:
  "length a = OID_SIZE \<Longrightarrow> i + length name div 2 < OID_SIZE - 1 \<Longrightarrow>
   \<exists>a' i' v'. dot_loop name a i v = Some (a', i', v') \<and> length a' = OID_SIZE \<and> i' \<le> i + length name div 2"
proof (induction "length name" arbitrary: name a i v rule: less_induct)
  case less
  show ?case
  proof (cases "\<exists>c d r. name = c # d # r \<and> yaz_isdigit c")
    case False
    then show ?thesis using less.prems by (cases name; cases "tl name") (auto simp: Let_def)
  next
    case True
    then obtain c d r where n: "name = c # d # r" "yaz_isdigit c" by blast
    define w where "w = wrap32 (v * 10 + (uint c - 48))"
    show ?thesis
    proof (cases "d = ch CHR ''.''")
      case True
      have i: "i < OID_SIZE - 1" "i < OID_SIZE" "Suc i + length r div 2 \<le> i + length name div 2" using less.prems(2) n(1) by simp_all
      then have "dot_loop name a i v = dot_loop r (a[i := wrap16 w]) (Suc i) 0"
        using n True less.prems(1) by (simp add: Let_def set_cell_def w_def)
      then show ?thesis
        using less.hyps [of r "a[i := wrap16 w]" "Suc i" 0] less.prems i n(1) by fastforce
    next
      case False
      then have "dot_loop name a i v = dot_loop (d # r) a i w" using n by (simp add: Let_def w_def)
      moreover have "length (d # r) div 2 \<le> length name div 2" using n(1) by simp
      ultimately show ?thesis
        using less.hyps [of "d # r" a i w] less.prems n(1) by fastforce
    qed
  qed
qed

lemma oidlen_terminated: "i < length a \<Longrightarrow> a ! i = -1 \<Longrightarrow> \<exists>n. oid_oidlen a = Some n"
proof (induction a arbitrary: i)
  case (Cons x a)
  then show ?case by (cases i) auto
qed simp

lemma oidcpy_fits: "oid_oidlen a = Some n \<Longrightarrow> n < length t \<Longrightarrow> \<exists>b. oid_oidcpy t a = Some b"
proof (induction a arbitrary: n t)
  case (Cons x a)
  then show ?case by (cases t) (auto split: if_splits)
qed simp

lemma short_name_safe:
  assumes "length (cstr name) \<le> 30"
  shows "safe (odr_getoidbystr fresh name)"
proof -
  have l: "length (map fresh [0..<OID_SIZE]) = OID_SIZE" by simp
  have "length (cstr name) div 2 \<le> 15" using assms by linarith
  then have b: "0 + length (cstr name) div 2 < OID_SIZE - 1" by (simp add: OID_SIZE_def)
  obtain a i v where d: "dot_loop (cstr name) (map fresh [0..<OID_SIZE]) 0 0 = Some (a, i, v)" "length a = OID_SIZE"
      "i \<le> 0 + length (cstr name) div 2"
    using dot_loop_short [OF l b] by blast
  show ?thesis
  proof (cases "i = 0")
    case True
    then show ?thesis using d by (simp add: odr_getoidbystr_def oid_dotstring_to_oid_def)
  next
    case False
    define a' where "a' = a[i := wrap16 v, Suc i := -1]"
    have i: "Suc i < length a" using d b by simp
    obtain n where n: "oid_oidlen a' = Some n" using oidlen_terminated [of "Suc i" a'] i by (auto simp: a'_def)
    then obtain c where "odr_oiddup fresh a' = Some c" using oidcpy_fits [OF n, of "map fresh [0..<n + 1]"] by (auto simp: odr_oiddup_def)
    then show ?thesis using d i False by (simp add: odr_getoidbystr_def oid_dotstring_to_oid_def set_cell_def a'_def wrap16_def)
  qed
qed

text \<open>A database made by \<open>yaz_oid_db_new\<close> cannot be used: the lookup reads the table it does not have.\<close>

lemma oid_db_new_undefined:
  "\<not> safe (yaz_string_to_oid std yaz_oid_db_new oc name)" "\<not> safe (yaz_oid_add std fresh yaz_oid_db_new oc name oid)"
  by (simp_all add: yaz_oid_db_new_def get_entries_def yaz_oid_add_def)

end
