(* ===== verification/Yaz_Split.thy ===== *)
theory Yaz_Split
  imports Yaz_Prelude
begin

text \<open>
  Splitting of strings at delimiters (\<^verbatim>\<open>nmemsdup.c\<close>). A pointer into the string is the rest of the
  string from there; \<open>None\<close> is a read behind the end of the string or a loop that never ends. The copies
  made in the memory pool are values here.
\<close>

section \<open>Operations\<close>

abbreviation (input) is_delim :: "byte list \<Rightarrow> byte \<Rightarrow> bool" where
  "is_delim delim c \<equiv> c \<in> set delim"

text \<open>
  The characters of one item and what follows; an escape character at the end makes the code read behind the
  string. The escape character is an \<open>int\<close> and is compared with signed characters: a value above 127 is never
  met, the byte 200 is met as -56.
\<close>

fun split_item :: "byte list \<Rightarrow> int \<Rightarrow> byte list \<Rightarrow> (byte list \<times> byte list) cres" where
  "split_item delim esc [] = Some ([], [])"
| "split_item delim esc [c] =
     (if is_delim delim c then Some ([], [c]) else if schar c = esc then None else Some ([c], []))"
| "split_item delim esc (c # x # cp) =
     (if is_delim delim c then Some ([], c # x # cp)
      else if schar c = esc then map_option (\<lambda>(it, r). (c # x # it, r)) (split_item delim esc cp)
      else map_option (\<lambda>(it, r). (c # it, r)) (split_item delim esc (x # cp)))"

fun subst_escapes :: "int \<Rightarrow> byte list \<Rightarrow> byte list" where
  "subst_escapes esc [] = []"
| "subst_escapes esc [c] = [c]"
| "subst_escapes esc (c # x # src) = (if schar c = esc then x # subst_escapes esc src else c # subst_escapes esc (x # src))"

definition split_skip :: "byte list \<Rightarrow> int \<Rightarrow> byte list \<Rightarrow> byte list" where
  "split_skip delim esc = dropWhile (\<lambda>c. is_delim delim c \<and> schar c \<noteq> esc)"

lemma split_item_parts: "split_item delim esc cp = Some (it, r) \<Longrightarrow> cp = it @ r \<and> (r \<noteq> [] \<longrightarrow> is_delim delim (hd r))"
  by (induction delim esc cp arbitrary: it r rule: split_item.induct) (auto split: if_splits)

text \<open>
  The loop of one pass. With \<open>collapse\<close> the item is empty only if the escape character is a delimiter
  too; the code then finds empty items at the same place for ever.
\<close>

function split_loop :: "byte list \<Rightarrow> bool \<Rightarrow> int \<Rightarrow> byte list \<Rightarrow> byte list list cres" where
  "split_loop delim collapse esc cp =
     (let cp0 = (if collapse then split_skip delim esc cp else cp) in
      if collapse \<and> cp0 = [] then Some []
      else case split_item delim esc cp0 of
        None \<Rightarrow> None
      | Some (it, r) \<Rightarrow>
          if collapse then if it = [] then None else map_option ((#) it) (split_loop delim collapse esc r)
          else if r = [] then Some [it]
          else map_option ((#) it) (split_loop delim collapse esc (tl r)))"
  by pat_completeness auto
termination
proof (relation "measure (\<lambda>(delim, collapse, esc, cp). length cp)", goal_cases)
  case (2 delim collapse esc cp cp0 p it r)
  then have "length cp0 \<le> length cp" by (simp add: split_skip_def length_dropWhile_le split: if_splits)
  then show ?case using 2 split_item_parts [of delim esc cp0 it r] by (cases it) auto
next
  case (3 delim collapse esc cp cp0 p it r)
  then have "length r \<le> length cp" "r \<noteq> []" using split_item_parts [of delim esc cp0 it r] by auto
  then show ?case by (cases r) auto
qed simp

declare split_loop.simps [simp del]

text \<open>The first pass counts the items, the second one makes the array; an array of no items is null.\<close>

definition nmem_strsplit_escape2 ::
    "byte list \<Rightarrow> byte list \<Rightarrow> bool \<Rightarrow> int \<Rightarrow> bool \<Rightarrow> byte list list cres" where
  "nmem_strsplit_escape2 delim dstr collapse esc subst_escape =
     map_option (map (if subst_escape then subst_escapes esc else id)) (split_loop delim collapse esc (cstr dstr))"

definition nmem_strsplit_escape :: "byte list \<Rightarrow> byte list \<Rightarrow> bool \<Rightarrow> int \<Rightarrow> byte list list cres" where
  "nmem_strsplit_escape delim dstr collapse esc = nmem_strsplit_escape2 delim dstr collapse esc True"

definition nmem_strsplitx :: "byte list \<Rightarrow> byte list \<Rightarrow> bool \<Rightarrow> byte list list cres" where
  "nmem_strsplitx delim dstr collapse = nmem_strsplit_escape delim dstr collapse 0"

definition nmem_strsplit :: "byte list \<Rightarrow> byte list \<Rightarrow> byte list list cres" where
  "nmem_strsplit delim dstr = nmem_strsplitx delim dstr True"

definition nmem_strsplit_blank :: "byte list \<Rightarrow> byte list list cres" where
  "nmem_strsplit_blank dstr = nmem_strsplit (str '' '') dstr"

section \<open>Without an escape character\<close>

lemma split_item_plain:
  "0 \<notin> set cp \<Longrightarrow> split_item delim 0 cp = Some (takeWhile (\<lambda>c. \<not> is_delim delim c) cp, dropWhile (\<lambda>c. \<not> is_delim delim c) cp)"
  by (induction delim "0 :: int" cp rule: split_item.induct) (auto dest: sint_nonzero)

lemma subst_none: "0 \<notin> set cp \<Longrightarrow> subst_escapes 0 cp = cp"
  by (induction "0 :: int" cp rule: subst_escapes.induct) (auto dest: sint_nonzero)

text \<open>The reference: the list of the fields between the delimiters, empty ones too.\<close>

fun fields :: "byte list \<Rightarrow> byte list \<Rightarrow> byte list list" where
  "fields delim [] = [[]]"
| "fields delim (c # s) =
     (if is_delim delim c then [] # fields delim s
      else case fields delim s of f # fs \<Rightarrow> (c # f) # fs)"

lemma fields_nonempty: "fields delim s \<noteq> []"
  by (induction s) (auto split: list.splits)

lemma fields_unfold:
  "fields delim s = takeWhile (\<lambda>c. \<not> is_delim delim c) s #
     (case dropWhile (\<lambda>c. \<not> is_delim delim c) s of [] \<Rightarrow> [] | d # r \<Rightarrow> fields delim r)"
  using fields_nonempty by (induction s) (auto split: list.splits)

lemma no_nul_drop: "0 \<notin> set s \<Longrightarrow> 0 \<notin> set (dropWhile P s)"
  by (meson set_dropWhileD)

lemma no_nul_tl: "0 \<notin> set (d # s) \<Longrightarrow> 0 \<notin> set s"
  by simp

lemma split_fields: "0 \<notin> set cp \<Longrightarrow> split_loop delim False 0 cp = Some (fields delim cp)"
proof (induction "length cp" arbitrary: cp rule: less_induct)
  case less
  define r where "r = dropWhile (\<lambda>c. \<not> is_delim delim c) cp"
  have r: "0 \<notin> set r" "length r \<le> length cp" using no_nul_drop less.prems by (auto simp: r_def length_dropWhile_le)
  show ?case
  proof (cases r)
    case Nil
    then show ?thesis
      using split_item_plain [OF less.prems] fields_unfold [of delim cp] by (simp add: split_loop.simps [of delim False] flip: r_def)
  next
    case (Cons d r')
    then have "split_loop delim False 0 r' = Some (fields delim r')" using less.hyps [of r'] r by simp
    then show ?thesis
      using split_item_plain [OF less.prems] fields_unfold [of delim cp] Cons
      by (simp add: split_loop.simps [of delim False _ cp] flip: r_def)
  qed
qed

lemma fields_skip: "filter (\<lambda>f. f \<noteq> []) (fields delim (dropWhile (is_delim delim) cp)) = filter (\<lambda>f. f \<noteq> []) (fields delim cp)"
  by (induction cp) auto

lemma split_collapsed: "0 \<notin> set cp \<Longrightarrow> split_loop delim True 0 cp = Some (filter (\<lambda>f. f \<noteq> []) (fields delim cp))"
proof (induction "length cp" arbitrary: cp rule: less_induct)
  case less
  define q where "q = dropWhile (is_delim delim) cp"
  have q: "0 \<notin> set q" "length q \<le> length cp" using no_nul_drop less.prems by (auto simp: q_def length_dropWhile_le)
  have skip: "split_skip delim 0 cp = q"
    using less.prems unfolding split_skip_def q_def by (induction cp) (auto dest: sint_nonzero)
  show ?case
  proof (cases q)
    case Nil
    then show ?thesis using skip fields_skip [of delim cp] by (simp add: split_loop.simps [of delim True _ cp] flip: q_def)
  next
    case (Cons c q')
    define r where "r = dropWhile (\<lambda>c. \<not> is_delim delim c) q"
    have c: "\<not> is_delim delim c" using Cons by (simp add: q_def dropWhile_eq_Cons_conv)
    have takeWhile_q: "takeWhile (\<lambda>c. \<not> is_delim delim c) q \<noteq> []" using Cons c by simp
    have "0 \<notin> set r" unfolding r_def by (rule no_nul_drop [OF q(1)])
    moreover have "length r < length cp"
      using q(2) Cons c length_dropWhile_le [of "\<lambda>c. \<not> is_delim delim c" q'] by (simp add: r_def)
    ultimately have IH: "split_loop delim True 0 r = Some (filter (\<lambda>f. f \<noteq> []) (fields delim r))" using less.hyps by blast
    have "filter (\<lambda>f. f \<noteq> []) (fields delim r) = filter (\<lambda>f. f \<noteq> []) (case r of [] \<Rightarrow> [] | d # r' \<Rightarrow> fields delim r')"
      using hd_dropWhile [of "\<lambda>c. \<not> is_delim delim c" q] by (cases r) (auto simp flip: r_def)
    then have "filter (\<lambda>f. f \<noteq> []) (fields delim cp) = takeWhile (\<lambda>c. \<not> is_delim delim c) q # filter (\<lambda>f. f \<noteq> []) (fields delim r)"
      using fields_skip [of delim cp] fields_unfold [of delim q] takeWhile_q by (simp flip: q_def r_def)
    moreover have "split_item delim 0 q = Some (takeWhile (\<lambda>c. \<not> is_delim delim c) q, r)"
      using split_item_plain [OF q(1)] by (simp add: r_def)
    moreover have "q \<noteq> []" using Cons by simp
    ultimately show ?thesis
      using skip IH takeWhile_q by (simp add: split_loop.simps [of delim True _ cp])
  qed
qed

lemma fields_no_nul: "0 \<notin> set s \<Longrightarrow> f \<in> set (fields delim s) \<Longrightarrow> 0 \<notin> set f"
proof (induction s arbitrary: f)
  case (Cons c s)
  then show ?case using fields_nonempty [of delim s] by (cases "fields delim s") (auto split: if_splits)
qed auto

lemma cstr_nul_free: "0 \<notin> set (cstr s)"
  by (induction s) auto

text \<open>
  Without an escape character, splitting returns on every string: the fields between delimiters in the
  order they have, empty ones only when empty fields are not collapsed.
\<close>

lemma strsplit_fields:
  "nmem_strsplitx delim s collapse =
     Some (if collapse then filter (\<lambda>f. f \<noteq> []) (fields delim (cstr s)) else fields delim (cstr s))"
proof -
  have m: "map (subst_escapes 0) fs = fs" if "set fs \<subseteq> set (fields delim (cstr s))" for fs
    using that fields_no_nul [OF cstr_nul_free] by (intro map_idI subst_none) blast
  have "map (subst_escapes 0) (filter (\<lambda>f. f \<noteq> []) (fields delim (cstr s))) = filter (\<lambda>f. f \<noteq> []) (fields delim (cstr s))"
    by (rule m) auto
  then show ?thesis
    using split_fields [OF cstr_nul_free] split_collapsed [OF cstr_nul_free] m [OF order_refl]
    by (simp add: nmem_strsplitx_def nmem_strsplit_escape_def nmem_strsplit_escape2_def)
qed

section \<open>With an escape character\<close>

text \<open>An item with an escape character before each delimiter and escape character, and items joined by a delimiter.\<close>

definition escape_item :: "byte list \<Rightarrow> byte \<Rightarrow> byte list \<Rightarrow> byte list" where
  "escape_item delim esc it = concat (map (\<lambda>c. if c = esc \<or> is_delim delim c then [esc, c] else [c]) it)"

fun joined :: "byte \<Rightarrow> byte list list \<Rightarrow> byte list" where
  "joined d [] = []"
| "joined d [it] = it"
| "joined d (it # it' # its) = it @ d # joined d (it' # its)"

lemma escape_item_Cons:
  "escape_item delim esc (c # it) = (if c = esc \<or> is_delim delim c then [esc, c] else [c]) @ escape_item delim esc it"
  by (simp add: escape_item_def)

lemma schar_eq_iff: "schar c = schar d \<longleftrightarrow> c = d"
  by (auto intro: signed_word_eqI)

lemma split_item_step:
  "\<not> is_delim delim c \<Longrightarrow> c \<noteq> esc \<Longrightarrow>
   split_item delim (schar esc) (c # cp) = map_option (\<lambda>(it, r). (c # it, r)) (split_item delim (schar esc) cp)"
  by (cases cp) (auto simp: schar_eq_iff)

lemma subst_step: "c \<noteq> esc \<Longrightarrow> subst_escapes (schar esc) (c # s) = c # subst_escapes (schar esc) s"
  by (cases s) (auto simp: schar_eq_iff)

lemma split_escaped:
  "esc \<notin> set delim \<Longrightarrow> r = [] \<or> is_delim delim (hd r) \<Longrightarrow>
   split_item delim (schar esc) (escape_item delim esc it @ r) = Some (escape_item delim esc it, r)"
proof (induction it)
  case Nil
  then show ?case by (cases r; cases "tl r") (auto simp: escape_item_def)
next
  case (Cons c it)
  then have IH: "split_item delim (schar esc) (escape_item delim esc it @ r) = Some (escape_item delim esc it, r)" by simp
  show ?case
  proof (cases "c = esc \<or> is_delim delim c")
    case True
    then show ?thesis using IH Cons.prems(1) by (simp add: escape_item_Cons)
  next
    case False
    then show ?thesis
      using split_item_step [of c delim esc "escape_item delim esc it @ r"] IH by (simp add: escape_item_Cons)
  qed
qed

lemma subst_escaped: "subst_escapes (schar esc) (escape_item delim esc it) = it"
proof (induction it)
  case (Cons c it)
  then show ?case by (simp add: escape_item_Cons subst_step)
qed (simp add: escape_item_def)

lemma split_joined:
  assumes "esc \<notin> set delim" and "d \<in> set delim"
  shows "split_loop delim False (schar esc) (joined d (map (escape_item delim esc) (it # its))) = Some (map (escape_item delim esc) (it # its))"
proof (induction its arbitrary: it)
  case Nil
  then show ?case using split_escaped [OF assms(1), of "[]" it] by (simp add: split_loop.simps [of delim False])
next
  case (Cons it' its)
  then show ?case
    using split_escaped [OF assms(1), of "d # joined d (map (escape_item delim esc) (it' # its))" it] assms(2)
    by (simp add: split_loop.simps [of delim False _ "_ @ _"])
qed

lemma joined_no_nul: "d \<noteq> 0 \<Longrightarrow> esc \<noteq> 0 \<Longrightarrow> \<forall>it \<in> set its. 0 \<notin> set it \<Longrightarrow> 0 \<notin> set (joined d (map (escape_item delim esc) its))"
  by (induction d its rule: joined.induct) (auto simp: escape_item_def)

section \<open>Properties\<close>

text \<open>
  C40: Items that are escaped and joined with a delimiter are split into the items that were joined, whatever
  characters they have. The escape character is passed as the value of a signed character.
\<close>

theorem strsplit_joined:
  assumes "its \<noteq> []" and "\<forall>it \<in> set its. 0 \<notin> set it" and "d \<in> set delim" and "esc \<notin> set delim" and "d \<noteq> 0" and "esc \<noteq> 0"
  shows "nmem_strsplit_escape delim (joined d (map (escape_item delim esc) its)) False (schar esc) = Some its"
proof -
  obtain it its' where its: "its = it # its'" using assms(1) by (cases its) auto
  have "cstr (joined d (map (escape_item delim esc) its)) = joined d (map (escape_item delim esc) its)"
    using joined_no_nul [OF assms(5,6,2)] by auto
  moreover have "map (subst_escapes (schar esc) \<circ> escape_item delim esc) its = its" using subst_escaped by (intro map_idI) simp
  ultimately show ?thesis
    using split_joined [OF assms(4,3), of it its'] its
    by (simp add: nmem_strsplit_escape_def nmem_strsplit_escape2_def del: joined.simps list.map(2))
qed

theorem strsplit_joined_witness:
  "nmem_strsplit_escape (str '',;'') (joined 44 (map (escape_item (str '',;'') 92) [str ''a,b'', [], str ''c'' @ [92], str '';'']))
     False 92 = Some [str ''a,b'', [], str ''c'' @ [92], str '';'']"
  using strsplit_joined [of "[str ''a,b'', [], str ''c'' @ [92], str '';'']" 44 "str '',;''" 92] by simp

end
