(* ===== verification/Yaz_Pqf.thy ===== *)
theory Yaz_Pqf
  imports Yaz_OidDb Yaz_Scan Yaz_Wrbuf Yaz_Split
begin

text \<open>
  Prefix queries: the parser of \<^verbatim>\<open>pquery.c\<close> and the printer of \<^verbatim>\<open>querytowrbuf.c\<close>. The queries are the type
  \<^verbatim>\<open>RPNQuery\<close> of \<^verbatim>\<open>z3950v3.asn\<close>. The parameter \<open>env\<close> has what the code takes from the database of
  identifiers: the generated table and the generated identifier of Bib-1, the chain of the standard
  database, and the content of new memory. A pointer into the query is
  the rest of the query from there, so that a token may be read past its end as the code does.
\<close>

record oid_env =
  env_std :: "yaz_oid_entry list"
  env_bib_1 :: "int list"
  env_db :: "yaz_oid_db list"
  env_fresh :: "nat \<Rightarrow> int"

section \<open>Queries\<close>

datatype z_StringOrNumeric = Z_string "byte list" | Z_numeric int

datatype z_AttributeValue = Z_AttributeValue_numeric int | Z_AttributeValue_complex "z_StringOrNumeric list"

record z_AttributeElement =
  attributeSet :: "int list option"
  attributeType :: int
  attributeValue :: z_AttributeValue

datatype z_Term =
    Z_Term_general "byte list" | Z_Term_numeric int | Z_Term_characterString "byte list"
  | Z_Term_oid "int list" | Z_Term_dateTime "byte list" | Z_Term_external | Z_Term_integerAndUnit | Z_Term_null

text \<open>The tags of the choice, as the parser keeps them in \<^verbatim>\<open>term_type\<close>.\<close>

datatype term_tag = T_general | T_numeric | T_characterString | T_oid | T_dateTime | T_external | T_integerAndUnit | T_null

datatype z_Operand = Z_Operand_APT "z_AttributeElement list" z_Term | Z_Operand_resultSetId "byte list"
  | Z_Operand_resultAttr "byte list" "z_AttributeElement list"

record z_ProximityOperator =
  exclusion :: "int option"
  distance :: int
  ordered :: int
  relationType :: int
  prox_private :: bool
  proximityUnit :: int

datatype z_Operator = Z_Operator_and | Z_Operator_or | Z_Operator_and_not | Z_Operator_prox z_ProximityOperator

text \<open>A structure whose tag has not been set is \<open>Z_RPNStructure_unset\<close>.\<close>

datatype z_RPNStructure =
    Z_RPNStructure_simple z_Operand
  | Z_RPNStructure_complex z_Operator z_RPNStructure z_RPNStructure
  | Z_RPNStructure_unset

record z_RPNQuery =
  attributeSetId :: "int list"
  rpnStructure :: z_RPNStructure

section \<open>Tokens\<close>

datatype token = Tok_end | Tok_and | Tok_or | Tok_not | Tok_attr | Tok_set | Tok_attrset | Tok_prox | Tok_term | Tok_word

datatype pqf_error = PQF_NONE | PQF_EXTRA | PQF_MISSING | PQF_ATTSET | PQF_TOOMANY | PQF_BADATTR | PQF_INTERNAL
  | PQF_PROXIMITY | PQF_BAD_INTEGER

record yaz_pqf_parser =
  query_buf :: "byte list"
  query_ptr :: "byte list"
  lex_buf :: "byte list"
  lex_len :: nat
  query_look :: token
  left_sep :: "byte list"
  right_sep :: "byte list"
  escape_char :: byte
  term_type :: term_tag
  pqf_error :: pqf_error

text \<open>The comparison looks at \<^verbatim>\<open>len-off\<close> characters only.\<close>

definition compare_term :: "yaz_pqf_parser \<Rightarrow> byte list \<Rightarrow> nat \<Rightarrow> bool" where
  "compare_term li src off \<longleftrightarrow> lex_len li = length src + off \<and>
     take (length src - off) (drop off (lex_buf li)) = take (length src - off) src"

text \<open>The number of characters up to the separator, and the rest of the query.\<close>

function token_end :: "byte list \<Rightarrow> byte \<Rightarrow> nat \<Rightarrow> nat \<times> byte list" where
  "token_end q sep n =
     (if deref q \<noteq> 0 \<and> deref q \<noteq> sep then
        if deref q = 92 \<and> deref (tl q) \<noteq> 0 then token_end (tl (tl q)) sep (n + 2)
        else token_end (tl q) sep (n + 1)
      else (n, q))"
  by pat_completeness auto
termination
  by (relation "measure (\<lambda>(q, sep, n). length q)") (auto simp: deref_def split: list.splits)

declare token_end.simps [simp del]

definition keyword :: "yaz_pqf_parser \<Rightarrow> token" where
  "keyword li =
     (if compare_term li (str ''and'') 1 then Tok_and
      else if compare_term li (str ''or'') 1 then Tok_or
      else if compare_term li (str ''not'') 1 then Tok_not
      else if compare_term li (str ''attr'') 1 then Tok_attr
      else if compare_term li (str ''set'') 1 then Tok_set
      else if compare_term li (str ''attrset'') 1 then Tok_attrset
      else if compare_term li (str ''prox'') 1 then Tok_prox
      else if compare_term li (str ''term'') 1 then Tok_term
      else Tok_word)"

text \<open>The position of a character in a string, for \<^verbatim>\<open>strchr\<close>.\<close>

fun char_pos :: "byte list \<Rightarrow> byte \<Rightarrow> nat option" where
  "char_pos [] c = None"
| "char_pos (x # s) c = (if x = c then Some 0 else map_option Suc (char_pos s c))"

definition query_token :: "yaz_pqf_parser \<Rightarrow> token \<times> yaz_pqf_parser" where
  "query_token li =
     (let q = dropWhile (\<lambda>c. c = 32) (query_ptr li); li1 = li\<lparr>query_ptr := q\<rparr> in
      if deref q = 0 then (Tok_end, li1)
      else let (sep_char, q1) = (case char_pos (left_sep li) (deref q) of
                 Some i \<Rightarrow> (right_sep li ! i, tl q)
               | None \<Rightarrow> (32, q))
        in if deref q1 = escape_char li \<and> yaz_isdigit (deref (tl q1))
           then (Tok_attr, li1\<lparr>lex_buf := q1, lex_len := 1, query_ptr := tl q1\<rparr>)
           else let (n, q2) = token_end q1 sep_char 0;
                    li2 = li1\<lparr>lex_buf := q1, lex_len := n, query_ptr := (if deref q2 \<noteq> 0 then tl q2 else q2)\<rparr>
             in (if sep_char = 32 \<and> n \<ge> 1 \<and> deref q1 = escape_char li then keyword li2 else Tok_word, li2))"

definition lex :: "yaz_pqf_parser \<Rightarrow> yaz_pqf_parser" where
  "lex li = (case query_token li of (t, li1) \<Rightarrow> li1\<lparr>query_look := t\<rparr>)"

definition lex_text :: "yaz_pqf_parser \<Rightarrow> byte list" where
  "lex_text li = take (lex_len li) (lex_buf li)"

section \<open>Values\<close>

fun escape_string :: "byte list \<Rightarrow> byte list" where
  "escape_string [] = []"
| "escape_string [c] = [c]"
| "escape_string (c # d # r) =
     (if c = 92 then
        if d = ch CHR ''t'' then 9 # escape_string r
        else if d = ch CHR ''n'' then 10 # escape_string r
        else if d = ch CHR ''r'' then 13 # escape_string r
        else if d = ch CHR ''f'' then 12 # escape_string r
        else if d = ch CHR ''x'' then
          (if length r > 1 then ucast (fst (sscanf_4x (take 2 r))) # escape_string (drop 2 r) else escape_string r)
        else if 48 \<le> unat d \<and> unat d \<le> 51 then
          (if length r > 1 then byte_of (octal_number (d # take 2 r)) # escape_string (drop 2 r) else escape_string r)
        else d # escape_string r
      else c # escape_string (d # r))"

definition z_Term_create :: "term_tag \<Rightarrow> byte list \<Rightarrow> z_Term" where
  "z_Term_create tt b =
     (case tt of
        T_general \<Rightarrow> Z_Term_general b
      | T_characterString \<Rightarrow> Z_Term_characterString (cstr b)
      | T_numeric \<Rightarrow> Z_Term_numeric (odr_atoi b)
      | T_null \<Rightarrow> Z_Term_null
      | T_external \<Rightarrow> Z_Term_external
      | _ \<Rightarrow> Z_Term_null)"

section \<open>Attributes\<close>

text \<open>
  One index of the arrays \<^verbatim>\<open>attr_list\<close>, \<^verbatim>\<open>attr_clist\<close> and \<^verbatim>\<open>attr_set\<close>. The parser passes the arrays
  and the number of entries in use; the list has the entries in use, \<open>max_attr\<close> is the size of the arrays.
\<close>

record pqf_attr =
  attr_type :: int
  attr_num :: int
  attr_clist :: "byte list option"
  attr_set :: "int list option"

abbreviation max_attr :: nat where
  "max_attr \<equiv> 512"

text \<open>A name of at most 30 characters cannot overrun the array of an identifier (lemma \<open>short_name_safe\<close>).\<close>

definition query_oid_getvalbyname ::
    "oid_env \<Rightarrow> yaz_pqf_parser \<Rightarrow> int list option" where
  "query_oid_getvalbyname env li =
     (if lex_len li \<ge> 31 then None
      else case yaz_string_to_oid_odr (env_std env) (env_fresh env) (env_db env) CLASS_ATTSET (cstr (lex_text li)) of
        Some r \<Rightarrow> r
      | None \<Rightarrow> None)"

text \<open>The entry for a token \<^verbatim>\<open>type=value\<close>; \<open>cp\<close> is the position of the equals sign.\<close>

definition attr_entry :: "yaz_pqf_parser \<Rightarrow> nat \<Rightarrow> int list option \<Rightarrow> pqf_attr" where
  "attr_entry li cp oid =
     (let v = drop (Suc cp) (lex_buf li); s = take (lex_len li - Suc cp) v in
      if \<exists>c \<in> set s. \<not> yaz_isdigit c
      then \<lparr>attr_type = odr_atoi (lex_buf li), attr_num = 0, attr_clist = Some (cstr (escape_string s)), attr_set = oid\<rparr>
      else \<lparr>attr_type = odr_atoi (lex_buf li), attr_num = odr_atoi v, attr_clist = None, attr_set = oid\<rparr>)"

definition p_query_parse_attr :: "oid_env \<Rightarrow> yaz_pqf_parser \<Rightarrow>
    pqf_attr list \<Rightarrow> pqf_attr option \<times> yaz_pqf_parser" where
  "p_query_parse_attr env li attrs =
     (let finish = (\<lambda>li cp oid.
            if \<not> yaz_isdigit (deref (lex_buf li)) then (None, li\<lparr>pqf_error := PQF_BAD_INTEGER\<rparr>)
            else (Some (attr_entry li cp oid), li));
          inherited = (if attrs = [] then None else attr_set (last attrs));
          named = (case query_oid_getvalbyname env li of
              None \<Rightarrow> (None, li\<lparr>pqf_error := PQF_ATTSET\<rparr>)
            | Some oid \<Rightarrow>
                let li1 = lex li in
                if query_look li1 = Tok_end then (None, li1\<lparr>pqf_error := PQF_MISSING\<rparr>)
                else (case char_pos (lex_buf li1) 61 of
                   None \<Rightarrow> (None, li1\<lparr>pqf_error := PQF_BADATTR\<rparr>)
                 | Some cp \<Rightarrow> finish li1 cp (Some oid)))
      in case char_pos (lex_buf li) 61 of
           Some cp \<Rightarrow> if cp > lex_len li then named else finish li cp inherited
         | None \<Rightarrow> named)"

definition attr_element :: "pqf_attr \<Rightarrow> z_AttributeElement" where
  "attr_element a = \<lparr>attributeSet = attr_set a, attributeType = attr_type a,
     attributeValue = (case attr_clist a of
         Some s \<Rightarrow> Z_AttributeValue_complex [Z_string s]
       | None \<Rightarrow> Z_AttributeValue_numeric (attr_num a))\<rparr>"

text \<open>From the last entry to the first; an entry is left out if a later one has the same type.\<close>

fun attr_elements :: "pqf_attr list \<Rightarrow> int list \<Rightarrow> z_AttributeElement list" where
  "attr_elements [] later = []"
| "attr_elements (a # as) later =
     (if attr_type a \<in> set later then attr_elements as (attr_type a # later)
      else attr_element a # attr_elements as (attr_type a # later))"

definition get_attributeList :: "pqf_attr list \<Rightarrow> z_AttributeElement list" where
  "get_attributeList attrs = attr_elements (rev attrs) []"

definition zget_AttributeList_use_string :: "byte list \<Rightarrow> z_AttributeElement list" where
  "zget_AttributeList_use_string name =
     get_attributeList [\<lparr>attr_type = 1, attr_num = 0, attr_clist = Some (cstr name), attr_set = None\<rparr>]"

section \<open>Structures\<close>

definition rpn_term_attributes :: "yaz_pqf_parser \<Rightarrow> 'a \<Rightarrow> 'a \<times> z_Term" where
  "rpn_term_attributes li attributes = (attributes, z_Term_create (term_type li) (escape_string (lex_text li)))"

definition rpn_simple :: "yaz_pqf_parser \<Rightarrow> pqf_attr list \<Rightarrow> z_Operand option \<times> yaz_pqf_parser" where
  "rpn_simple li attrs =
     (if query_look li = Tok_word then
        (case rpn_term_attributes li (get_attributeList attrs) of (al, tm) \<Rightarrow> (Some (Z_Operand_APT al tm), lex li))
      else if query_look li = Tok_set then
        let li1 = lex li in
        if query_look li1 = Tok_end then (None, li1\<lparr>pqf_error := PQF_MISSING\<rparr>)
        else (Some (Z_Operand_resultSetId (cstr (lex_text li1))), lex li1)
      else (None, li\<lparr>pqf_error := PQF_INTERNAL\<rparr>))"

text \<open>One item of a proximity specification: the next token, read by \<open>f\<close> from its first character on.\<close>

definition prox_item :: "(byte list \<Rightarrow> 'a option) \<Rightarrow> pqf_error \<Rightarrow> yaz_pqf_parser \<Rightarrow> 'a option \<times> yaz_pqf_parser" where
  "prox_item f e li =
     (let li1 = lex li in
      if query_look li1 = Tok_end then (None, li1\<lparr>pqf_error := PQF_MISSING\<rparr>)
      else case f (lex_buf li1) of
        Some x \<Rightarrow> (Some x, li1)
      | None \<Rightarrow> (None, li1\<lparr>pqf_error := e\<rparr>))"

definition prox_number :: "byte list \<Rightarrow> int option" where
  "prox_number s = (if yaz_isdigit (deref s) then Some (odr_atoi s) else None)"

definition prox_exclusion :: "byte list \<Rightarrow> int option option" where
  "prox_exclusion s =
     (if deref s = ch CHR ''1'' then Some (Some 1)
      else if deref s = ch CHR ''0'' then Some (Some 0)
      else if deref s = ch CHR ''v'' \<or> deref s = ch CHR ''n'' then Some None
      else None)"

definition prox_ordered :: "byte list \<Rightarrow> int option" where
  "prox_ordered s =
     (if deref s = ch CHR ''1'' then Some 1 else if deref s = ch CHR ''0'' then Some 0 else None)"

definition prox_which :: "byte list \<Rightarrow> bool option" where
  "prox_which s =
     (if deref s = ch CHR ''k'' then Some False
      else if deref s = ch CHR ''p'' then Some True
      else if wrap32 (odr_strtol s) = 1 then Some False
      else if wrap32 (odr_strtol s) = 2 then Some True
      else None)"

definition andthen :: "'a option \<times> 's \<Rightarrow> ('a \<Rightarrow> 's \<Rightarrow> 'b option \<times> 's) \<Rightarrow> 'b option \<times> 's" where
  "andthen r f = (case r of (None, s) \<Rightarrow> (None, s) | (Some x, s) \<Rightarrow> f x s)"

definition rpn_proximity :: "yaz_pqf_parser \<Rightarrow> z_ProximityOperator option \<times> yaz_pqf_parser" where
  "rpn_proximity li =
     andthen (prox_item prox_exclusion PQF_PROXIMITY li) (\<lambda>ex li.
     andthen (prox_item prox_number PQF_BAD_INTEGER li) (\<lambda>di li.
     andthen (prox_item prox_ordered PQF_PROXIMITY li) (\<lambda>od li.
     andthen (prox_item prox_number PQF_BAD_INTEGER li) (\<lambda>re li.
     andthen (prox_item prox_which PQF_PROXIMITY li) (\<lambda>wh li.
     andthen (prox_item prox_number PQF_BAD_INTEGER li) (\<lambda>kn li.
       (Some \<lparr>exclusion = ex, distance = di, ordered = od, relationType = re, prox_private = wh, proximityUnit = kn\<rparr>, li)))))))"

definition rpn_operator :: "yaz_pqf_parser \<Rightarrow> z_Operator option \<times> yaz_pqf_parser" where
  "rpn_operator li =
     (case query_look li of
        Tok_and \<Rightarrow> (Some Z_Operator_and, li)
      | Tok_or \<Rightarrow> (Some Z_Operator_or, li)
      | Tok_not \<Rightarrow> (Some Z_Operator_and_not, li)
      | Tok_prox \<Rightarrow> andthen (rpn_proximity li) (\<lambda>p li. (Some (Z_Operator_prox p), li))
      | _ \<Rightarrow> (None, li\<lparr>pqf_error := PQF_INTERNAL\<rparr>))"

definition rpn_term_type :: "yaz_pqf_parser \<Rightarrow> yaz_pqf_parser" where
  "rpn_term_type li =
     (if query_look li = Tok_end then li
      else lex (if compare_term li (str ''general'') 0 then li\<lparr>term_type := T_general\<rparr>
        else if compare_term li (str ''numeric'') 0 then li\<lparr>term_type := T_numeric\<rparr>
        else if compare_term li (str ''string'') 0 then li\<lparr>term_type := T_characterString\<rparr>
        else if compare_term li (str ''oid'') 0 then li\<lparr>term_type := T_oid\<rparr>
        else if compare_term li (str ''datetime'') 0 then li\<lparr>term_type := T_dateTime\<rparr>
        else if compare_term li (str ''null'') 0 then li\<lparr>term_type := T_null\<rparr>
        else li))"

text \<open>A measure of what is left to read; every call of \<open>lex\<close> before the end makes it smaller.\<close>

definition todo :: "yaz_pqf_parser \<Rightarrow> nat" where
  "todo li = 2 * length (query_ptr li) + (if query_look li = Tok_end then 0 else 1)"

lemma token_end_shorter: "length (snd (token_end q sep n)) \<le> length q"
proof (induction q sep n rule: token_end.induct)
  case (1 q sep n)
  show ?case
  proof (cases "deref q \<noteq> 0 \<and> deref q \<noteq> sep")
    case True
    then show ?thesis using 1 token_end.simps [of q sep n] by (cases "deref q = 92 \<and> deref (tl q) \<noteq> 0") auto
  next
    case False
    then show ?thesis using token_end.simps [of q sep n] by auto
  qed
qed

lemma deref_nonempty: "deref q \<noteq> 0 \<Longrightarrow> q \<noteq> []"
  by (auto simp: deref_def)

lemma token_end_strict:
  assumes "deref q \<noteq> 0" and "deref q \<noteq> sep"
  shows "length (snd (token_end q sep n)) < length q"
proof -
  have "length (tl (tl q)) < length q" "length (tl q) < length q" using deref_nonempty [OF assms(1)] by (cases q; simp)+
  then show ?thesis
    using assms token_end.simps [of q sep n] token_end_shorter [of "tl (tl q)" sep "n + 2"] token_end_shorter [of "tl q" sep "n + 1"]
    by (cases "deref q = 92 \<and> deref (tl q) \<noteq> 0") auto
qed

lemma keyword_not_end: "keyword li \<noteq> Tok_end"
  by (simp add: keyword_def)

lemma query_token_shorter:
  assumes "query_token li = (t, li1)"
  shows "length (query_ptr li1) \<le> length (query_ptr li)" "t \<noteq> Tok_end \<Longrightarrow> length (query_ptr li1) < length (query_ptr li)"
proof -
  define q where "q = dropWhile (\<lambda>c. c = 32) (query_ptr li)"
  have q: "length q \<le> length (query_ptr li)" by (simp add: q_def length_dropWhile_le)
  have blank: "deref q \<noteq> 0 \<Longrightarrow> deref q \<noteq> 32"
    by (auto simp: q_def deref_def dropWhile_eq_Cons_conv split: list.splits)
  obtain sp q1 where sep: "(case char_pos (left_sep li) (deref q) of
      Some i \<Rightarrow> (right_sep li ! i, tl q) | None \<Rightarrow> (32, q)) = (sp, q1)" by fastforce
  obtain n q2 where te: "token_end q1 sp 0 = (n, q2)" by fastforce
  have "length q2 < length q" if "deref q \<noteq> 0"
    using sep te deref_nonempty [OF that] token_end_shorter [of q1 sp 0] token_end_strict [of q 32 0] that blank [OF that]
    by (cases q) (auto split: option.splits)
  moreover have "length (tl q1) < length q" if "deref q \<noteq> 0"
    using sep deref_nonempty [OF that] by (cases q) (auto split: option.splits)
  ultimately show "length (query_ptr li1) \<le> length (query_ptr li)"
    "t \<noteq> Tok_end \<Longrightarrow> length (query_ptr li1) < length (query_ptr li)"
    using assms q sep te
    by (auto simp: query_token_def Let_def q_def [symmetric] split: if_splits)
qed

lemma lex_todo: "query_look li \<noteq> Tok_end \<Longrightarrow> todo (lex li) < todo li"
  using query_token_shorter [of li] by (fastforce simp: lex_def todo_def split: prod.splits)

lemma todo_fields [simp]: "todo (li\<lparr>pqf_error := e\<rparr>) = todo li" "todo (li\<lparr>term_type := tt\<rparr>) = todo li"
  by (simp_all add: todo_def)

lemma prox_item_todo:
  "prox_item f e li = (Some x, li1) \<Longrightarrow> query_look li \<noteq> Tok_end \<Longrightarrow> todo li1 < todo li \<and> query_look li1 \<noteq> Tok_end"
  using lex_todo [of li] by (auto simp: prox_item_def Let_def split: if_splits option.splits)

lemma proximity_todo:
  "rpn_proximity li = (Some x, li1) \<Longrightarrow> query_look li \<noteq> Tok_end \<Longrightarrow> todo li1 < todo li \<and> query_look li1 \<noteq> Tok_end"
  unfolding rpn_proximity_def andthen_def
  by (auto split: prod.splits option.splits) (metis prox_item_todo order.strict_trans)+

lemma operator_todo:
  "rpn_operator li = (Some x, li1) \<Longrightarrow> todo li1 \<le> todo li \<and> query_look li1 \<noteq> Tok_end"
  using proximity_todo [of li] by (auto simp: rpn_operator_def andthen_def split: token.splits prod.splits option.splits dest: order.strict_implies_order)

lemma parse_attr_todo:
  "p_query_parse_attr env li attrs = (Some a, li1) \<Longrightarrow> query_look li \<noteq> Tok_end \<Longrightarrow> todo li1 \<le> todo li \<and> query_look li1 \<noteq> Tok_end"
  using lex_todo [of li] by (auto simp: p_query_parse_attr_def Let_def split: if_splits option.splits)

lemma term_type_todo: "todo (rpn_term_type li) \<le> todo li"
  using lex_todo [of "li\<lparr>term_type := tt\<rparr>" for tt] lex_todo [of li] by (auto simp: rpn_term_type_def less_imp_le)

lemma operand_todo: "rpn_operator li = (Some op, li1) \<Longrightarrow> todo (lex li1) < todo li"
  using operator_todo [of li op li1] lex_todo [of li1] by simp

lemma attr_todo:
  assumes "query_look li = Tok_attr" and "query_look (lex li) \<noteq> Tok_end" and "p_query_parse_attr env (lex li) attrs = (Some a, li1)"
  shows "todo (lex li1) < todo li"
  using parse_attr_todo [OF assms(3,2)] lex_todo [of li] lex_todo [of li1] assms(1) by simp

lemma term_todo: "query_look li = Tok_term \<Longrightarrow> todo (rpn_term_type (lex li)) < todo li"
  using lex_todo [of li] term_type_todo [of "lex li"] by simp

text \<open>The optional attribute set at the beginning of a query.\<close>

definition attribute_set :: "oid_env \<Rightarrow> yaz_pqf_parser \<Rightarrow> int list option \<times> yaz_pqf_parser" where
  "attribute_set env li0 =
     (let li = lex li0 in
      if query_look li = Tok_attrset then
        let li1 = lex li in
        (case query_oid_getvalbyname env li1 of
           None \<Rightarrow> (None, li1\<lparr>pqf_error := PQF_ATTSET\<rparr>)
         | Some oid \<Rightarrow> (Some oid, lex li1))
      else (Some (env_bib_1 env), li))"

text \<open>
  The parser of structures. The comparison before the second operand is for the termination proof: it
  never fails (lemma \<open>complex_step\<close>).
\<close>

function rpn_structure :: "oid_env \<Rightarrow> yaz_pqf_parser \<Rightarrow> pqf_attr list \<Rightarrow> z_RPNStructure option \<times> yaz_pqf_parser" where
  "rpn_structure env li attrs =
     (if query_look li \<in> {Tok_and, Tok_or, Tok_not, Tok_prox} then
        (case rpn_operator li of
           (None, li1) \<Rightarrow> (None, li1)
         | (Some op, li1) \<Rightarrow>
             (case rpn_structure env (lex li1) attrs of
                (None, li2) \<Rightarrow> (None, li2)
              | (Some s1, li2) \<Rightarrow>
                  if todo li2 > todo (lex li1) then (None, li2)
                  else (case rpn_structure env li2 attrs of
                     (None, li3) \<Rightarrow> (None, li3)
                   | (Some s2, li3) \<Rightarrow> (Some (Z_RPNStructure_complex op s1 s2), li3))))
      else if query_look li \<in> {Tok_word, Tok_set} then
        (case rpn_simple li attrs of
           (None, li1) \<Rightarrow> (None, li1)
         | (Some zo, li1) \<Rightarrow> (Some (Z_RPNStructure_simple zo), li1))
      else if query_look li = Tok_attr then
        (let li1 = lex li in
         if query_look li1 = Tok_end then (None, li1\<lparr>pqf_error := PQF_MISSING\<rparr>)
         else if length attrs \<ge> max_attr then (None, li1\<lparr>pqf_error := PQF_TOOMANY\<rparr>)
         else (case p_query_parse_attr env li1 attrs of
            (None, li2) \<Rightarrow> (None, li2)
          | (Some a, li2) \<Rightarrow> rpn_structure env (lex li2) (attrs @ [a])))
      else if query_look li = Tok_term then rpn_structure env (rpn_term_type (lex li)) attrs
      else if query_look li = Tok_end then (None, li\<lparr>pqf_error := PQF_MISSING\<rparr>)
      else (Some Z_RPNStructure_unset, li))"
  by pat_completeness auto
termination
  by (relation "measure (\<lambda>(env, li, attrs). todo li)")
    (auto dest: operand_todo [OF sym] attr_todo [OF _ _ sym] intro: term_todo order.strict_trans1)

declare rpn_structure.simps [simp del]

definition p_query_rpn_mk :: "oid_env \<Rightarrow> yaz_pqf_parser \<Rightarrow> z_RPNQuery option \<times> yaz_pqf_parser" where
  "p_query_rpn_mk env li0 =
     (case attribute_set env li0 of
        (None, li) \<Rightarrow> (None, li)
      | (Some top_set, li) \<Rightarrow>
          (case rpn_structure env li [] of
             (None, li1) \<Rightarrow> (None, li1)
           | (Some s, li1) \<Rightarrow>
               if query_look li1 \<noteq> Tok_end then (None, li1\<lparr>pqf_error := PQF_EXTRA\<rparr>)
               else (Some \<lparr>attributeSetId = top_set, rpnStructure = s\<rparr>, li1)))"

definition pqf_parser_begin :: "yaz_pqf_parser \<Rightarrow> byte list \<Rightarrow> yaz_pqf_parser" where
  "pqf_parser_begin li b = li\<lparr>query_buf := cstr b, query_ptr := cstr b, lex_buf := []\<rparr>"

text \<open>The fields that the creation of a parser does not set are as the memory \<open>m\<close> has them.\<close>

definition yaz_pqf_create :: "yaz_pqf_parser \<Rightarrow> yaz_pqf_parser" where
  "yaz_pqf_create m = m\<lparr>pqf_error := PQF_NONE, left_sep := str ''{\"'', right_sep := str ''}\"'',
     escape_char := ch CHR ''@'', term_type := T_general\<rparr>"

definition p_query_rpn :: "oid_env \<Rightarrow> yaz_pqf_parser \<Rightarrow> byte list \<Rightarrow> z_RPNQuery option" where
  "p_query_rpn env m qbuf = fst (p_query_rpn_mk env (pqf_parser_begin (yaz_pqf_create m) qbuf))"

definition yaz_pqf_parse :: "oid_env \<Rightarrow> yaz_pqf_parser \<Rightarrow> byte list \<Rightarrow> z_RPNQuery option \<times> yaz_pqf_parser" where
  "yaz_pqf_parse env p qbuf = p_query_rpn_mk env (pqf_parser_begin p qbuf)"

text \<open>The loop over the attributes of a scan.\<close>

function scan_attributes :: "oid_env \<Rightarrow> yaz_pqf_parser \<Rightarrow> pqf_attr list \<Rightarrow> z_AttributeElement list option \<times> yaz_pqf_parser" where
  "scan_attributes env li attrs =
     (if query_look li = Tok_attr then
        (let li1 = lex li in
         if query_look li1 = Tok_end then (None, li1\<lparr>pqf_error := PQF_MISSING\<rparr>)
         else if length attrs \<ge> max_attr then (None, li1\<lparr>pqf_error := PQF_TOOMANY\<rparr>)
         else (case p_query_parse_attr env li1 attrs of
            (None, li2) \<Rightarrow> (None, li2)
          | (Some a, li2) \<Rightarrow> scan_attributes env (lex li2) (attrs @ [a])))
      else if query_look li = Tok_term then scan_attributes env (rpn_term_type (lex li)) attrs
      else (Some (get_attributeList attrs), li))"
  by pat_completeness auto
termination
  by (relation "measure (\<lambda>(env, li, attrs). todo li)")
    (auto dest: attr_todo [OF _ _ sym] intro: term_todo)

declare scan_attributes.simps [simp del]

text \<open>The result has the attribute set that the code stores for its caller.\<close>

definition p_query_scan_attributes_mk ::
    "oid_env \<Rightarrow> yaz_pqf_parser \<Rightarrow> int list option \<times> z_AttributeElement list option \<times> yaz_pqf_parser" where
  "p_query_scan_attributes_mk env li0 =
     (case attribute_set env li0 of
        (None, li) \<Rightarrow> (None, None, li)
      | (Some top_set, li) \<Rightarrow> (Some top_set, scan_attributes env li []))"

text \<open>The attribute list of the term is a null pointer when the attributes could not be parsed.\<close>

definition p_query_scan_mk :: "oid_env \<Rightarrow> yaz_pqf_parser \<Rightarrow>
    int list option \<times> (z_AttributeElement list option \<times> z_Term) option \<times> yaz_pqf_parser" where
  "p_query_scan_mk env li0 =
     (case p_query_scan_attributes_mk env li0 of (aset, al, li) \<Rightarrow>
        if query_look li = Tok_end then (aset, None, li\<lparr>pqf_error := PQF_MISSING\<rparr>)
        else let apt = rpn_term_attributes li al; li1 = lex li in
          if query_look li1 \<noteq> Tok_end then (aset, None, li1\<lparr>pqf_error := PQF_EXTRA\<rparr>)
          else (aset, Some apt, li1))"

definition yaz_pqf_scan :: "oid_env \<Rightarrow> yaz_pqf_parser \<Rightarrow> byte list \<Rightarrow>
    int list option \<times> (z_AttributeElement list option \<times> z_Term) option \<times> yaz_pqf_parser" where
  "yaz_pqf_scan env p qbuf = p_query_scan_mk env (pqf_parser_begin p qbuf)"

definition yaz_pqf_scan_attribute_list ::
    "oid_env \<Rightarrow> yaz_pqf_parser \<Rightarrow> byte list \<Rightarrow> int list option \<times> z_AttributeElement list option \<times> yaz_pqf_parser" where
  "yaz_pqf_scan_attribute_list env p qbuf = p_query_scan_attributes_mk env (pqf_parser_begin p qbuf)"

record z_FacetTerm =
  facet_term :: z_Term
  facet_count :: int

record z_FacetField =
  facet_attributes :: "z_AttributeElement list"
  facet_terms :: "z_FacetTerm list"

text \<open>The loop over the terms of a facet; terms behind the tenth are read and dropped.\<close>

function facet_loop :: "yaz_pqf_parser \<Rightarrow> z_FacetTerm list \<Rightarrow> z_FacetTerm list" where
  "facet_loop li tms =
     (if query_look li = Tok_word then
        facet_loop (lex li)
          (if length tms < 10
           then tms @ [\<lparr>facet_term = z_Term_create (term_type li) (escape_string (lex_text li)), facet_count = 0\<rparr>]
           else tms)
      else tms)"
  by pat_completeness auto
termination
  by (relation "measure (\<lambda>(li, tms). todo li)") (auto intro!: lex_todo)

declare facet_loop.simps [simp del]

definition parse_facet :: "oid_env \<Rightarrow> yaz_pqf_parser \<Rightarrow> byte list \<Rightarrow> z_FacetField option" where
  "parse_facet env m facet =
     (case p_query_scan_attributes_mk env (pqf_parser_begin (yaz_pqf_create m) facet) of
        (_, None, li) \<Rightarrow> None
      | (_, Some al, li) \<Rightarrow> Some \<lparr>facet_attributes = al, facet_terms = facet_loop li []\<rparr>)"

text \<open>The first facet that cannot be parsed ends the list, with no result.\<close>

fun parse_facets :: "oid_env \<Rightarrow> yaz_pqf_parser \<Rightarrow> byte list list \<Rightarrow> z_FacetField list option" where
  "parse_facets env m [] = Some []"
| "parse_facets env m (d # ds) =
     (case parse_facet env m d of None \<Rightarrow> None | Some f \<Rightarrow> map_option ((#) f) (parse_facets env m ds))"

definition yaz_pqf_parse_facet_list :: "oid_env \<Rightarrow> yaz_pqf_parser \<Rightarrow> byte list \<Rightarrow> z_FacetField list option cres" where
  "yaz_pqf_parse_facet_list env m qbuf = do {
     ds \<leftarrow> nmem_strsplit (str '','') qbuf;
     Some (if length ds > 0 then parse_facets env m ds else None)}"

definition pqf_error_text :: "pqf_error \<Rightarrow> string" where
  "pqf_error_text e =
     (case e of PQF_NONE \<Rightarrow> ''no error'' | PQF_EXTRA \<Rightarrow> ''extra token'' | PQF_MISSING \<Rightarrow> ''missing token''
      | PQF_ATTSET \<Rightarrow> ''unknown attribute set'' | PQF_TOOMANY \<Rightarrow> ''too many attributes''
      | PQF_BADATTR \<Rightarrow> ''bad attribute specification'' | PQF_INTERNAL \<Rightarrow> ''internal error''
      | PQF_PROXIMITY \<Rightarrow> ''proximity error'' | PQF_BAD_INTEGER \<Rightarrow> ''bad integer'')"

definition yaz_pqf_error :: "yaz_pqf_parser \<Rightarrow> pqf_error \<times> string \<times> nat" where
  "yaz_pqf_error p = (pqf_error p, pqf_error_text (pqf_error p), length (query_buf p) - length (query_ptr p))"

section \<open>Printing (querytowrbuf.c)\<close>

definition encode_plain :: "wrbuf \<Rightarrow> byte \<Rightarrow> wrbuf cres" where
  "encode_plain b c = do {b1 \<leftarrow> (if c = 92 then wrbuf_putc b 92 else Some b); wrbuf_putc b1 c}"

definition encode_quoted :: "wrbuf \<Rightarrow> byte \<Rightarrow> wrbuf cres" where
  "encode_quoted b c = do {b1 \<leftarrow> (if c = 34 \<or> c = 92 then wrbuf_putc b 92 else Some b); wrbuf_putc b1 c}"

definition yaz_encode_pqf_term :: "wrbuf \<Rightarrow> byte list \<Rightarrow> wrbuf cres" where
  "yaz_encode_pqf_term b tm = do {
     b2 \<leftarrow> (if tm \<noteq> [] \<and> (\<forall>c \<in> set tm. \<not> strchr_ok (str '' \"{'') c) then do {
              b1 \<leftarrow> (if deref tm = ch CHR ''@'' then wrbuf_putc b 92 else Some b);
              for_each encode_plain b1 tm}
            else do {
              b1 \<leftarrow> wrbuf_putc b 34;
              b2 \<leftarrow> for_each encode_quoted b1 tm;
              wrbuf_putc b2 34});
     wrbuf_putc b2 32}"

definition put_string_or_numeric :: "wrbuf \<Rightarrow> z_StringOrNumeric \<Rightarrow> wrbuf cres" where
  "put_string_or_numeric b v =
     (case v of Z_string s \<Rightarrow> wrbuf_puts b s | Z_numeric n \<Rightarrow> wrbuf_printf b (str (dec_int n)))"

fun put_complex :: "wrbuf \<Rightarrow> z_StringOrNumeric list \<Rightarrow> wrbuf cres" where
  "put_complex b [] = Some b"
| "put_complex b [v] = put_string_or_numeric b v"
| "put_complex b (v # w # vs) = do {
     b1 \<leftarrow> put_string_or_numeric b v;
     b2 \<leftarrow> wrbuf_puts b1 (str '','');
     put_complex b2 (w # vs)}"

definition yaz_attribute_element_to_wrbuf :: "oid_env \<Rightarrow> wrbuf \<Rightarrow> z_AttributeElement \<Rightarrow> wrbuf cres" where
  "yaz_attribute_element_to_wrbuf env b e = do {
     b1 \<leftarrow> wrbuf_puts b (str ''@attr '');
     b2 \<leftarrow> (case attributeSet e of
         None \<Rightarrow> Some b1
       | Some oid \<Rightarrow> do {
           (setname, _) \<leftarrow> yaz_oid_to_string_buf (env_std env) (env_db env) oid;
           b' \<leftarrow> wrbuf_puts b1 setname;
           wrbuf_puts b' (str '' '')});
     b3 \<leftarrow> wrbuf_printf b2 (str (dec_int (attributeType e) @ ''=''));
     b4 \<leftarrow> (case attributeValue e of
         Z_AttributeValue_numeric n \<Rightarrow> wrbuf_printf b3 (str (dec_int n))
       | Z_AttributeValue_complex vs \<Rightarrow> put_complex b3 vs);
     wrbuf_puts b4 (str '' '')}"

definition complex_op_name :: "z_Operator \<Rightarrow> string" where
  "complex_op_name op =
     (case op of Z_Operator_and \<Rightarrow> ''and'' | Z_Operator_or \<Rightarrow> ''or'' | Z_Operator_and_not \<Rightarrow> ''not''
      | Z_Operator_prox _ \<Rightarrow> ''prox'')"

fun yaz_attributes_to_wrbuf :: "oid_env \<Rightarrow> wrbuf \<Rightarrow> z_AttributeElement list \<Rightarrow> wrbuf cres" where
  "yaz_attributes_to_wrbuf env b [] = Some b"
| "yaz_attributes_to_wrbuf env b (e # al) = do {
     b1 \<leftarrow> yaz_attribute_element_to_wrbuf env b e;
     yaz_attributes_to_wrbuf env b1 al}"

text \<open>The number of a tag that the printer does not know.\<close>

definition term_which :: "z_Term \<Rightarrow> int" where
  "term_which tm =
     (case tm of Z_Term_general _ \<Rightarrow> 1 | Z_Term_numeric _ \<Rightarrow> 2 | Z_Term_characterString _ \<Rightarrow> 3 | Z_Term_oid _ \<Rightarrow> 4
      | Z_Term_dateTime _ \<Rightarrow> 5 | Z_Term_external \<Rightarrow> 6 | Z_Term_integerAndUnit \<Rightarrow> 7 | Z_Term_null \<Rightarrow> 8)"

definition term_to_wrbuf :: "wrbuf \<Rightarrow> z_Term \<Rightarrow> wrbuf cres" where
  "term_to_wrbuf b tm =
     (case tm of
        Z_Term_general s \<Rightarrow> yaz_encode_pqf_term b s
      | Z_Term_characterString s \<Rightarrow> do {b1 \<leftarrow> wrbuf_puts b (str ''@term string ''); yaz_encode_pqf_term b1 (cstr s)}
      | Z_Term_numeric n \<Rightarrow> wrbuf_printf b (str (''@term numeric '' @ dec_int n @ '' ''))
      | Z_Term_null \<Rightarrow> wrbuf_puts b (str ''@term null x'')
      | _ \<Rightarrow> wrbuf_printf b (str (''@term null unknown'' @ dec_int (term_which tm) @ '' '')))"

definition yaz_apt_to_wrbuf :: "oid_env \<Rightarrow> wrbuf \<Rightarrow> z_AttributeElement list \<Rightarrow> z_Term \<Rightarrow> wrbuf cres" where
  "yaz_apt_to_wrbuf env b al tm = do {b1 \<leftarrow> yaz_attributes_to_wrbuf env b al; term_to_wrbuf b1 tm}"

definition prox_to_wrbuf :: "wrbuf \<Rightarrow> z_ProximityOperator \<Rightarrow> wrbuf cres" where
  "prox_to_wrbuf b p = do {
     b1 \<leftarrow> wrbuf_putc b (case exclusion p of None \<Rightarrow> ch CHR ''n'' | Some x \<Rightarrow> if x \<noteq> 0 then ch CHR ''1'' else ch CHR ''0'');
     b2 \<leftarrow> wrbuf_printf b1 (str ('' '' @ dec_int (distance p) @ '' '' @ dec_int (ordered p) @ '' '' @
       dec_int (relationType p) @ '' ''));
     b3 \<leftarrow> wrbuf_putc b2 (if prox_private p then ch CHR ''p'' else ch CHR ''k'');
     wrbuf_printf b3 (str ('' '' @ dec_int (proximityUnit p) @ '' ''))}"

fun yaz_rpnstructure_to_wrbuf :: "oid_env \<Rightarrow> wrbuf \<Rightarrow> z_RPNStructure \<Rightarrow> wrbuf cres" where
  "yaz_rpnstructure_to_wrbuf env b (Z_RPNStructure_complex op s1 s2) = do {
     b1 \<leftarrow> wrbuf_printf b (str (''@'' @ complex_op_name op @ '' ''));
     b2 \<leftarrow> (case op of Z_Operator_prox p \<Rightarrow> prox_to_wrbuf b1 p | _ \<Rightarrow> Some b1);
     b3 \<leftarrow> yaz_rpnstructure_to_wrbuf env b2 s1;
     yaz_rpnstructure_to_wrbuf env b3 s2}"
| "yaz_rpnstructure_to_wrbuf env b (Z_RPNStructure_simple (Z_Operand_APT al tm)) = yaz_apt_to_wrbuf env b al tm"
| "yaz_rpnstructure_to_wrbuf env b (Z_RPNStructure_simple (Z_Operand_resultSetId s)) = do {
     b1 \<leftarrow> wrbuf_printf b (str ''@set ''); yaz_encode_pqf_term b1 (cstr s)}"
| "yaz_rpnstructure_to_wrbuf env b (Z_RPNStructure_simple (Z_Operand_resultAttr s al)) =
     wrbuf_puts b (str ''(unknown simple structure)'')"
| "yaz_rpnstructure_to_wrbuf env b Z_RPNStructure_unset = wrbuf_puts b (str ''(unknown structure)'')"

definition yaz_rpnquery_to_wrbuf :: "oid_env \<Rightarrow> wrbuf \<Rightarrow> z_RPNQuery \<Rightarrow> wrbuf cres" where
  "yaz_rpnquery_to_wrbuf env b rpn = do {
     (oid_name, _) \<leftarrow> yaz_oid_to_string_buf (env_std env) (env_db env) (attributeSetId rpn);
     b1 \<leftarrow> wrbuf_printf b (str ''@attrset '' @ cstr oid_name @ [32]);
     b2 \<leftarrow> yaz_rpnstructure_to_wrbuf env b1 (rpnStructure rpn);
     wrbuf_chop_right b2}"

datatype z_Query = Z_Query_type_1 z_RPNQuery | Z_Query_type_2 "byte list" | Z_Query_type_100 "byte list"
  | Z_Query_type_101 z_RPNQuery | Z_Query_cql "byte list" | Z_Query_external int | Z_Query_other

definition yaz_query_to_wrbuf :: "oid_env \<Rightarrow> wrbuf \<Rightarrow> z_Query \<Rightarrow> wrbuf cres" where
  "yaz_query_to_wrbuf env b q =
     (case q of
        Z_Query_type_1 rpn \<Rightarrow> do {b1 \<leftarrow> wrbuf_puts b (str ''RPN ''); yaz_rpnquery_to_wrbuf env b1 rpn}
      | Z_Query_type_101 rpn \<Rightarrow> do {b1 \<leftarrow> wrbuf_puts b (str ''RPN ''); yaz_rpnquery_to_wrbuf env b1 rpn}
      | Z_Query_type_2 s \<Rightarrow> do {b1 \<leftarrow> wrbuf_puts b (str ''CCL ''); wrbuf_write b1 s}
      | Z_Query_type_100 s \<Rightarrow> do {b1 \<leftarrow> wrbuf_puts b (str ''Z39.58 ''); wrbuf_write b1 s}
      | Z_Query_cql s \<Rightarrow> do {b1 \<leftarrow> wrbuf_puts b (str ''CQL ''); wrbuf_puts b1 s}
      | Z_Query_external n \<Rightarrow> wrbuf_printf b (str (''UNKNOWN type 104 query '' @ dec_int n))
      | Z_Query_other \<Rightarrow> Some b)"

definition yaz_scan_to_wrbuf :: "oid_env \<Rightarrow> wrbuf \<Rightarrow> z_AttributeElement list \<Rightarrow> z_Term \<Rightarrow> wrbuf cres" where
  "yaz_scan_to_wrbuf env b al tm = do {b1 \<leftarrow> wrbuf_puts b (str ''RPN ''); yaz_apt_to_wrbuf env b1 al tm}"

text \<open>A diagnostic in the default format has a condition and additional information, both optional here.\<close>

datatype z_DiagRec = Z_DiagRec_defaultFormat "int option" "byte list option" | Z_DiagRec_externallyDefined

definition wrbuf_diags :: "wrbuf \<Rightarrow> z_DiagRec list \<Rightarrow> wrbuf cres" where
  "wrbuf_diags b diags = do {
     b1 \<leftarrow> wrbuf_puts b (str '' ERROR '');
     (case diags of
        [] \<Rightarrow> None
      | Z_DiagRec_externallyDefined # _ \<Rightarrow> wrbuf_puts b1 (str ''(diag not in default format?)'')
      | Z_DiagRec_defaultFormat condition addinfo # _ \<Rightarrow> do {
          b2 \<leftarrow> (case condition of Some c \<Rightarrow> wrbuf_printf b1 (str (dec_int c @ '' '')) | None \<Rightarrow> wrbuf_puts b1 (str ''?? ''));
          b3 \<leftarrow> (case addinfo of Some s \<Rightarrow> wrbuf_puts b2 s | None \<Rightarrow> Some b2);
          wrbuf_puts b3 (str '' '')})}"

fun yaz_facet_list_to_wrbuf :: "oid_env \<Rightarrow> wrbuf \<Rightarrow> z_FacetField list \<Rightarrow> wrbuf cres" where
  "yaz_facet_list_to_wrbuf env b [] = Some b"
| "yaz_facet_list_to_wrbuf env b [ff] = yaz_attributes_to_wrbuf env b (facet_attributes ff)"
| "yaz_facet_list_to_wrbuf env b (ff # ff' # fl) = do {
     b1 \<leftarrow> yaz_attributes_to_wrbuf env b (facet_attributes ff);
     b2 \<leftarrow> wrbuf_puts b1 (str '', '');
     yaz_facet_list_to_wrbuf env b2 (ff' # fl)}"

end
