(* ===== verification/Yaz_Pqf_Laws.thy ===== *)
theory Yaz_Pqf_Laws
  imports Yaz_Pqf
begin

text \<open>
  What the parser of prefix queries returns: every step either succeeds, and then keeps the error state
  and reads on, or it sets the error state; the structures returned have no missing part.
\<close>

section \<open>Steps of the parser\<close>

lemma query_token_frame:
  assumes "query_token li = (t, li1)"
  shows "pqf_error li1 = pqf_error li" "term_type li1 = term_type li" "left_sep li1 = left_sep li"
    "right_sep li1 = right_sep li" "escape_char li1 = escape_char li"
  using assms by (auto simp: query_token_def Let_def split: if_splits prod.splits)

lemma lex_frame [simp]:
  "pqf_error (lex li) = pqf_error li" "term_type (lex li) = term_type li" "left_sep (lex li) = left_sep li"
  "right_sep (lex li) = right_sep li" "escape_char (lex li) = escape_char li"
  using query_token_frame [of li] by (auto simp: lex_def split: prod.splits)

text \<open>A step that succeeds keeps the error state and has a token at hand; one that fails sets the error.\<close>

definition step_ok :: "yaz_pqf_parser \<Rightarrow> 'a option \<times> yaz_pqf_parser \<Rightarrow> bool" where
  "step_ok li r \<longleftrightarrow> todo (snd r) \<le> todo li \<and>
     (if fst r = None then pqf_error (snd r) \<noteq> PQF_NONE
      else pqf_error (snd r) = pqf_error li \<and> query_look (snd r) \<noteq> Tok_end)"

lemma step_ok_andthen:
  assumes "step_ok li r" and "\<And>x l. r = (Some x, l) \<Longrightarrow> query_look l \<noteq> Tok_end \<Longrightarrow> step_ok l (f x l)"
  shows "step_ok li (andthen r f)"
  using assms by (cases r; cases "fst r") (auto simp: step_ok_def andthen_def)

lemma step_ok_return: "query_look li \<noteq> Tok_end \<Longrightarrow> step_ok li (Some x, li)"
  by (simp add: step_ok_def)

lemma prox_item_ok: "query_look li \<noteq> Tok_end \<Longrightarrow> e \<noteq> PQF_NONE \<Longrightarrow> step_ok li (prox_item f e li)"
  using lex_todo [of li] by (auto simp: prox_item_def step_ok_def Let_def split: option.splits)

lemma proximity_ok: "query_look li \<noteq> Tok_end \<Longrightarrow> step_ok li (rpn_proximity li)"
  unfolding rpn_proximity_def by (intro step_ok_andthen prox_item_ok step_ok_return) simp_all

lemma operator_ok: "query_look li \<noteq> Tok_end \<Longrightarrow> step_ok li (rpn_operator li)"
  using proximity_ok [of li]
  by (auto simp: rpn_operator_def step_ok_return intro!: step_ok_andthen split: token.splits) (simp_all add: step_ok_def)

lemma parse_attr_ok: "query_look li \<noteq> Tok_end \<Longrightarrow> step_ok li (p_query_parse_attr env li attrs)"
  using lex_todo [of li] by (auto simp: p_query_parse_attr_def step_ok_def Let_def split: option.splits)

section \<open>What the parser returns\<close>

definition attributes_ok :: "z_AttributeElement list \<Rightarrow> bool" where
  "attributes_ok al \<longleftrightarrow> length al \<le> max_attr \<and> distinct (map attributeType al)"

fun structure_ok :: "z_RPNStructure \<Rightarrow> bool" where
  "structure_ok (Z_RPNStructure_complex op s1 s2) \<longleftrightarrow> structure_ok s1 \<and> structure_ok s2"
| "structure_ok (Z_RPNStructure_simple (Z_Operand_APT al tm)) \<longleftrightarrow> attributes_ok al"
| "structure_ok (Z_RPNStructure_simple (Z_Operand_resultSetId s)) \<longleftrightarrow> True"
| "structure_ok (Z_RPNStructure_simple (Z_Operand_resultAttr s al)) \<longleftrightarrow> False"
| "structure_ok Z_RPNStructure_unset \<longleftrightarrow> False"

lemma attr_elements_ok:
  "length (attr_elements as later) \<le> length as \<and> distinct (map attributeType (attr_elements as later)) \<and>
   attributeType ` set (attr_elements as later) \<inter> set later = {}"
  by (induction as later rule: attr_elements.induct) (auto simp: attr_element_def)

lemma get_attributeList_ok: "length attrs \<le> max_attr \<Longrightarrow> attributes_ok (get_attributeList attrs)"
  using attr_elements_ok [of "rev attrs" "[]"] by (simp add: attributes_ok_def get_attributeList_def)

text \<open>A structure with an unset tag is only returned at the token \<^verbatim>\<open>@attrset\<close>, which stays unread.\<close>

definition parsed :: "yaz_pqf_parser \<Rightarrow> z_RPNStructure option \<times> yaz_pqf_parser \<Rightarrow> bool" where
  "parsed li r \<longleftrightarrow> todo (snd r) \<le> todo li \<and>
     (case fst r of
        None \<Rightarrow> pqf_error (snd r) \<noteq> PQF_NONE
      | Some s \<Rightarrow> pqf_error (snd r) = pqf_error li \<and> (structure_ok s \<or> query_look (snd r) = Tok_attrset))"

lemma attrset_unset: "query_look li = Tok_attrset \<Longrightarrow> rpn_structure env li attrs = (Some Z_RPNStructure_unset, li)"
  by (simp add: rpn_structure.simps)

lemma parsed_later: "parsed li1 r \<Longrightarrow> todo li1 \<le> todo li \<Longrightarrow> pqf_error li1 = pqf_error li \<Longrightarrow> parsed li r"
  by (auto simp: parsed_def split: option.splits)

lemma simple_parsed:
  assumes "query_look li \<in> {Tok_word, Tok_set}" and "length attrs \<le> max_attr"
  shows "parsed li (rpn_structure env li attrs)"
  using assms lex_todo [of li] lex_todo [of "lex li"] get_attributeList_ok [OF assms(2)]
  by (auto simp: rpn_structure.simps [of env li] rpn_simple_def rpn_term_attributes_def parsed_def Let_def)

lemma complex_parsed:
  assumes "query_look li \<in> {Tok_and, Tok_or, Tok_not, Tok_prox}"
    and IH: "\<And>l. todo l < todo li \<Longrightarrow> parsed l (rpn_structure env l attrs)"
  shows "parsed li (rpn_structure env li attrs)"
proof -
  obtain op li1 where op: "rpn_operator li = (op, li1)" by fastforce
  have ok: "step_ok li (op, li1)" using operator_ok [of li] assms(1) op by auto
  show ?thesis
  proof (cases op)
    case None
    then show ?thesis using assms(1) op ok by (auto simp: rpn_structure.simps [of env li] step_ok_def parsed_def)
  next
    case (Some x)
    obtain s1 li2 where s1: "rpn_structure env (lex li1) attrs = (s1, li2)" by fastforce
    have less: "todo (lex li1) < todo li" using operand_todo op Some by simp
    then have p1: "parsed (lex li1) (s1, li2)" using IH s1 by force
    show ?thesis
    proof (cases s1)
      case None
      then show ?thesis using assms(1) op Some s1 p1 less by (auto simp: rpn_structure.simps [of env li] parsed_def)
    next
      case S1: (Some y)
      obtain s2 li3 where s2: "rpn_structure env li2 attrs = (s2, li3)" by fastforce
      have "todo li2 < todo li" using p1 less by (auto simp: parsed_def)
      then have "parsed li2 (s2, li3)" using IH s2 by force
      then show ?thesis
        using assms(1) op Some s1 S1 s2 p1 less ok attrset_unset [of li2 env attrs]
        by (auto simp: rpn_structure.simps [of env li] parsed_def step_ok_def split: option.splits)
    qed
  qed
qed

lemma structure_parsed: "length attrs \<le> max_attr \<Longrightarrow> parsed li (rpn_structure env li attrs)"
proof (induction "todo li" arbitrary: li attrs rule: less_induct)
  case less
  consider (op) "query_look li \<in> {Tok_and, Tok_or, Tok_not, Tok_prox}" | (simple) "query_look li \<in> {Tok_word, Tok_set}"
    | (attr) "query_look li = Tok_attr" | (tt) "query_look li = Tok_term" | (end_of) "query_look li = Tok_end"
    | (attrset) "query_look li = Tok_attrset"
    by (cases "query_look li") auto
  then show ?case
  proof cases
    case op
    then show ?thesis using complex_parsed [OF op] less by blast
  next
    case simple
    then show ?thesis using simple_parsed less.prems by blast
  next
    case attr
    show ?thesis
    proof (cases "query_look (lex li) \<noteq> Tok_end \<and> length attrs < max_attr")
      case False
      then show ?thesis using attr lex_todo [of li] by (auto simp: rpn_structure.simps [of env li] parsed_def Let_def)
    next
      case True
      obtain a li1 where a: "p_query_parse_attr env (lex li) attrs = (a, li1)" by fastforce
      then have ok: "step_ok (lex li) (a, li1)" using parse_attr_ok [of "lex li" env attrs] True by simp
      show ?thesis
      proof (cases a)
        case None
        then show ?thesis using attr True a ok lex_todo [of li] by (auto simp: rpn_structure.simps [of env li] parsed_def step_ok_def Let_def)
      next
        case (Some x)
        have "todo (lex li1) < todo li" using attr_todo attr True a Some by blast
        moreover have "pqf_error (lex li1) = pqf_error li" using ok Some by (simp add: step_ok_def)
        moreover have "rpn_structure env li attrs = rpn_structure env (lex li1) (attrs @ [x])"
          using attr True a Some by (simp add: rpn_structure.simps [of env li])
        ultimately show ?thesis using less.hyps [of "lex li1" "attrs @ [x]"] True parsed_later [of "lex li1" _ li] by simp
      qed
    qed
  next
    case tt
    have "pqf_error (rpn_term_type (lex li)) = pqf_error li" by (simp add: rpn_term_type_def)
    moreover have "rpn_structure env li attrs = rpn_structure env (rpn_term_type (lex li)) attrs"
      using tt by (simp add: rpn_structure.simps [of env li])
    ultimately show ?thesis
      using less.hyps [OF term_todo [OF tt] less.prems] term_todo [OF tt] parsed_later [of "rpn_term_type (lex li)" _ li] by simp
  next
    case end_of
    then show ?thesis by (simp add: rpn_structure.simps [of env li] parsed_def)
  next
    case attrset
    then show ?thesis by (simp add: attrset_unset parsed_def)
  qed
qed

lemma attribute_set_error:
  "attribute_set env li = (r, li1) \<Longrightarrow> if r = None then pqf_error li1 \<noteq> PQF_NONE else pqf_error li1 = pqf_error li"
  by (auto simp: attribute_set_def Let_def split: if_splits option.splits)

text \<open>The comparison in the parser of structures never fails.\<close>

lemma complex_step:
  assumes "query_look li \<in> {Tok_and, Tok_or, Tok_not, Tok_prox}" and "rpn_operator li = (Some op, li1)"
    and "rpn_structure env (lex li1) attrs = (Some s1, li2)" and "rpn_structure env li2 attrs = (Some s2, li3)"
    and "length attrs \<le> max_attr"
  shows "rpn_structure env li attrs = (Some (Z_RPNStructure_complex op s1 s2), li3)"
  using assms structure_parsed [OF assms(5), of "lex li1" env] by (simp add: rpn_structure.simps [of env li] parsed_def)

section \<open>Properties\<close>

text \<open>
  C9: Parsing returns either no query and an error state that says so, or a query, with the error state as it was
  before, the input read to its end, every node of the structure set, and attribute lists of at most 512
  elements with distinct types.
\<close>

theorem pqf_parse_result:
  "case yaz_pqf_parse env p qbuf of
     (None, p') \<Rightarrow> pqf_error p' \<noteq> PQF_NONE
   | (Some q, p') \<Rightarrow> pqf_error p' = pqf_error p \<and> structure_ok (rpnStructure q) \<and> query_look p' = Tok_end"
proof -
  define li where "li = pqf_parser_begin p qbuf"
  have li: "pqf_error li = pqf_error p" by (simp add: li_def pqf_parser_begin_def)
  obtain r li1 where as: "attribute_set env li = (r, li1)" by fastforce
  obtain s li2 where rs: "rpn_structure env li1 [] = (s, li2)" by fastforce
  have "parsed li1 (s, li2)" using structure_parsed [of "[]" li1 env] rs by simp
  then show ?thesis
    using attribute_set_error [OF as] as rs li
    by (auto simp: yaz_pqf_parse_def p_query_rpn_mk_def parsed_def simp flip: li_def split: option.splits)
qed

end
