(* ===== verification/Yaz_Pqf_Tokens.thy ===== *)
theory Yaz_Pqf_Tokens
  imports Yaz_Pqf_Laws
begin

text \<open>
  The tokens of printed prefix queries: what one call of the lexer does in front of a number, a term, a
  keyword or an attribute as the printer writes them.
\<close>

section \<open>Numbers\<close>

text \<open>A decimal number in front of something that is not a digit.\<close>

abbreviation num :: "int \<Rightarrow> byte list" where
  "num n \<equiv> str (dec_int n)"

definition number_ok :: "int \<Rightarrow> bool" where
  "number_ok n \<longleftrightarrow> 0 \<le> n \<and> n < 2 ^ 63"

lemma num_digits: "number_ok n \<Longrightarrow> c \<in> set (num n) \<Longrightarrow> yaz_isdigit c"
  using dec_isdigit [of c "nat n"] by (simp add: number_ok_def dec_int_def)

lemma num_head: "number_ok n \<Longrightarrow> \<exists>c s. num n = c # s \<and> yaz_isdigit c"
  using dec_not_empty [of "nat n"] dec_isdigit [of _ "nat n"]
  by (cases "num n") (auto simp: number_ok_def dec_int_def simp del: list.map)

lemma digit_class: "yaz_isdigit c \<Longrightarrow> c \<noteq> 0 \<and> c \<noteq> 32 \<and> c \<noteq> 34 \<and> c \<noteq> 61 \<and> c \<noteq> 64 \<and> c \<noteq> 92 \<and> c \<noteq> 123 \<and> \<not> c_isspace c \<and>
    c \<noteq> ch CHR ''-'' \<and> c \<noteq> ch CHR ''+''"
  by (auto simp: yaz_isdigit_def c_isspace_def)

lemma cstr_append: "no_nul a \<Longrightarrow> cstr (a @ b) = a @ cstr b"
  by (induction a) auto

lemma odr_atoi_num:
  assumes "number_ok n" and "\<not> yaz_isdigit (deref rest)"
  shows "odr_atoi (num n @ rest) = n"
proof -
  have d: "\<forall>c \<in> set (num n). yaz_isdigit c" using num_digits [OF assms(1)] by blast
  obtain c s where cs: "num n = c # s" "yaz_isdigit c" using num_head [OF assms(1)] by metis
  have "0 \<notin> set (num n)" using d digit_class by blast
  then have t: "cstr (num n @ rest) = num n @ cstr rest" by (intro cstr_append) auto
  have "takeWhile yaz_isdigit (cstr rest) = []"
    using assms(2) by (cases rest) (auto simp: deref_def)
  then have "takeWhile yaz_isdigit (num n @ cstr rest) = num n" using d by (simp add: takeWhile_append)
  then have "digits_value (num n @ cstr rest) = n"
    using dec_value [of "nat n"] assms(1) by (simp add: digits_value_def number_ok_def dec_int_def)
  moreover have "dropWhile c_isspace (num n @ cstr rest) = num n @ cstr rest" "deref (num n @ cstr rest) = c"
    using cs digit_class [OF cs(2)] by (simp_all add: deref_def del: list.map)
  ultimately show ?thesis
    using assms(1) digit_class [OF cs(2)] t by (simp add: odr_atoi_def odr_strtol_def Let_def number_ok_def del: list.map)
qed

section \<open>Tokens\<close>

text \<open>A text made of characters and of pairs of a backslash and a character.\<close>

definition unit_ok :: "byte \<Rightarrow> byte list \<Rightarrow> bool" where
  "unit_ok sep u \<longleftrightarrow> (\<exists>c. u = [c] \<and> c \<noteq> 0 \<and> c \<noteq> sep \<and> c \<noteq> 92) \<or> (\<exists>c. u = [92, c] \<and> c \<noteq> 0)"

lemma unit_char: "c \<noteq> 0 \<Longrightarrow> c \<noteq> sep \<Longrightarrow> c \<noteq> 92 \<Longrightarrow> unit_ok sep [c]"
  by (simp add: unit_ok_def)

lemma unit_pair: "c \<noteq> 0 \<Longrightarrow> unit_ok sep [92, c]"
  by (simp add: unit_ok_def)

lemma token_end_units:
  assumes "\<forall>u \<in> set us. unit_ok sep u" and "deref rest = 0 \<or> deref rest = sep" and "sep \<noteq> 92"
  shows "token_end (concat us @ rest) sep n = (n + length (concat us), rest)"
  using assms(1)
proof (induction us arbitrary: n)
  case Nil
  then show ?case using assms(2) by (auto simp: token_end.simps [of rest])
next
  case (Cons u us)
  then consider c where "u = [c]" "c \<noteq> 0" "c \<noteq> sep" "c \<noteq> 92" | c where "u = [92, c]" "c \<noteq> 0"
    by (auto simp: unit_ok_def)
  then show ?case
    using Cons assms(3) by cases (simp_all add: token_end.simps [of "_ # _"] deref_def)
qed

definition std_parser :: "yaz_pqf_parser \<Rightarrow> bool" where
  "std_parser li \<longleftrightarrow> left_sep li = str ''{\"'' \<and> right_sep li = str ''}\"'' \<and> escape_char li = ch CHR ''@''"

text \<open>\<open>s\<close> is what the parser reads next, up to blanks.\<close>

definition ahead :: "yaz_pqf_parser \<Rightarrow> byte list \<Rightarrow> bool" where
  "ahead li s \<longleftrightarrow> dropWhile (\<lambda>c. c = 32) (query_ptr li) = dropWhile (\<lambda>c. c = 32) s"

lemma std_parser_lex [simp]: "std_parser (lex li) = std_parser li"
  by (simp add: std_parser_def)

definition at_blank :: "byte list \<Rightarrow> bool" where
  "at_blank rest \<longleftrightarrow> deref rest = 0 \<or> deref rest = 32"

definition word_start :: "byte \<Rightarrow> bool" where
  "word_start c \<longleftrightarrow> c \<noteq> 0 \<and> c \<noteq> 32 \<and> c \<noteq> 34 \<and> c \<noteq> 123"

lemma query_token_word:
  assumes "dropWhile (\<lambda>c. c = 32) (query_ptr li) = q" and "deref q \<noteq> 0"
    and "(case char_pos (left_sep li) (deref q) of Some i \<Rightarrow> (right_sep li ! i, tl q) | None \<Rightarrow> (32, q)) = (sp, q1)"
    and "\<not> (deref q1 = escape_char li \<and> yaz_isdigit (deref (tl q1)))" and "token_end q1 sp 0 = (n, q2)"
  defines "li' \<equiv> li\<lparr>query_ptr := q, lex_buf := q1, lex_len := n, query_ptr := (if deref q2 \<noteq> 0 then tl q2 else q2)\<rparr>"
  shows "lex li = li'\<lparr>query_look := (if sp = 32 \<and> n \<ge> 1 \<and> deref q1 = escape_char li then keyword li' else Tok_word)\<rparr>"
  unfolding lex_def query_token_def assms(1) Let_def if_not_P [OF assms(2)] assms(3) prod.case if_not_P [OF assms(4)] assms(5) li'_def ..

lemma lex_plain:
  assumes "std_parser li" and "ahead li (w @ rest)" and "w = concat us" and "\<forall>u \<in> set us. unit_ok 32 u" and "at_blank rest"
    and "w = c # cs" and "word_start c" and "c = 64 \<Longrightarrow> \<not> yaz_isdigit (deref cs)" and "c = 64 \<Longrightarrow> cs \<noteq> []"
  defines "li' \<equiv> li\<lparr>lex_buf := w @ rest, lex_len := length w, query_ptr := (if deref rest \<noteq> 0 then tl rest else rest)\<rparr>"
  shows "lex li = li'\<lparr>query_look := (if c = 64 then keyword li' else Tok_word)\<rparr>"
proof -
  have q: "dropWhile (\<lambda>c. c = 32) (query_ptr li) = w @ rest"
    using assms(2,6,7) by (simp add: ahead_def word_start_def)
  have te: "token_end (w @ rest) 32 0 = (length w, rest)"
    using token_end_units [OF assms(4), of rest 0] assms(3,5) by (simp add: at_blank_def)
  have sep: "char_pos (left_sep li) c = None" using assms(1,7) by (simp add: std_parser_def word_start_def)
  have c: "deref (w @ rest) = c" "deref (tl (w @ rest)) = deref (cs @ rest)" using assms(6) by (simp_all add: deref_def)
  have c64: "c = 64 \<Longrightarrow> deref (cs @ rest) = deref cs" using assms(9) by (cases cs) (auto simp: deref_def)
  have "lex li = li'\<lparr>query_look := (if (32 :: byte) = 32 \<and> length w \<ge> 1 \<and> deref (w @ rest) = escape_char li
      then keyword li' else Tok_word)\<rparr>"
    using query_token_word [OF q _ _ _ te] assms(1,7,8) c c64 sep by (simp add: li'_def std_parser_def word_start_def)
  then show ?thesis using assms(1,6) c by (simp add: std_parser_def)
qed

lemma lex_quoted:
  assumes "std_parser li" and "ahead li (34 # w @ 34 # rest)" and "w = concat us" and "\<forall>u \<in> set us. unit_ok 34 u"
    and "\<not> (deref w = 64 \<and> yaz_isdigit (deref (tl w)))"
  shows "lex li = li\<lparr>lex_buf := w @ 34 # rest, lex_len := length w, query_ptr := rest, query_look := Tok_word\<rparr>"
proof -
  have q: "dropWhile (\<lambda>c. c = 32) (query_ptr li) = 34 # w @ 34 # rest"
    using assms(2) by (simp add: ahead_def)
  have te: "token_end (w @ 34 # rest) 34 0 = (length w, 34 # rest)"
    using token_end_units [OF assms(4), of "34 # rest" 0] assms(3) by (simp add: deref_def)
  have "\<not> (deref (w @ 34 # rest) = 64 \<and> yaz_isdigit (deref (tl (w @ 34 # rest))))"
    using assms(5) by (cases w; cases "tl w") (auto simp: deref_def yaz_isdigit_def)
  then show ?thesis
    using query_token_word [OF q _ _ _ te] assms(1) by (simp add: std_parser_def deref_Cons)
qed

section \<open>Terms\<close>

definition plain :: "byte \<Rightarrow> byte list" where
  "plain c = (if c = 92 then [92, 92] else [c])"

definition quoted :: "byte \<Rightarrow> byte list" where
  "quoted c = (if c = 34 \<or> c = 92 then [92, c] else [c])"

definition needs_quotes :: "byte list \<Rightarrow> bool" where
  "needs_quotes t \<longleftrightarrow> t = [] \<or> (\<exists>c \<in> set t. c = 0 \<or> c = 32 \<or> c = 34 \<or> c = 123)"

definition plain_units :: "byte list \<Rightarrow> byte list list" where
  "plain_units t = (if deref t = 64 then [92, 64] # map plain (tl t) else map plain t)"

definition term_text :: "byte list \<Rightarrow> byte list" where
  "term_text t = (if needs_quotes t then 34 # concat (map quoted t) @ [34] else concat (plain_units t))"

text \<open>The printer does not escape an at sign inside quotes; the parser takes it with a digit for an attribute.\<close>

definition term_ok :: "byte list \<Rightarrow> bool" where
  "term_ok t \<longleftrightarrow> no_nul t \<and> \<not> (needs_quotes t \<and> deref t = 64 \<and> yaz_isdigit (deref (tl t)))"

lemma escape_char: "c \<noteq> 92 \<Longrightarrow> escape_string (c # s) = c # escape_string s"
  by (cases s) auto

lemma escape_pair: "c = 92 \<or> c = 34 \<or> c = 64 \<Longrightarrow> escape_string (92 # c # s) = c # escape_string s"
  by auto

lemma escape_plain: "escape_string (concat (map plain t)) = t"
  by (induction t) (auto simp: plain_def escape_char escape_pair simp del: escape_string.simps(3))

lemma escape_quoted: "escape_string (concat (map quoted t)) = t"
  by (induction t) (auto simp: quoted_def escape_char escape_pair simp del: escape_string.simps(3))

lemma escape_units: "escape_string (concat (plain_units t)) = t"
proof (cases "deref t = 64")
  case True
  then obtain s where "t = 64 # s" by (cases t) auto
  then show ?thesis using escape_pair [of 64 "concat (map plain s)"] by (simp add: plain_units_def escape_plain)
qed (simp add: plain_units_def escape_plain)

lemma plain_units_ok: "\<not> needs_quotes t \<Longrightarrow> \<forall>u \<in> set (plain_units t). unit_ok 32 u"
  by (cases t) (auto simp: needs_quotes_def plain_units_def plain_def intro: unit_char unit_pair)

lemma quoted_ok: "no_nul t \<Longrightarrow> \<forall>u \<in> set (map quoted t). unit_ok 34 u"
  by (auto simp: quoted_def intro!: unit_char unit_pair)

lemma plain_units_start:
  assumes "\<not> needs_quotes t"
  obtains c cs where "concat (plain_units t) = c # cs" "word_start c" "c \<noteq> 64"
proof (cases t)
  case (Cons c s)
  then have "concat (plain_units t) = (if c = 64 then 92 # 64 # concat (map plain s) else if c = 92 then 92 # 92 # concat (map plain s)
      else c # concat (map plain s))" "word_start c"
    using assms by (simp_all add: plain_units_def plain_def needs_quotes_def word_start_def)
  then show ?thesis
    using that [of 92 "64 # concat (map plain s)"] that [of 92 "92 # concat (map plain s)"] that [of c "concat (map plain s)"]
    by (auto simp: word_start_def split: if_splits)
qed (use assms in \<open>simp add: needs_quotes_def\<close>)

lemma quoted_at: "\<not> (deref t = 64 \<and> yaz_isdigit (deref (tl t))) \<Longrightarrow>
  \<not> (deref (concat (map quoted t)) = 64 \<and> yaz_isdigit (deref (tl (concat (map quoted t)))))"
proof (cases t)
  case (Cons c s)
  assume "\<not> (deref t = 64 \<and> yaz_isdigit (deref (tl t)))"
  then show ?thesis using Cons by (cases s) (auto simp: quoted_def yaz_isdigit_def)
qed simp

lemma ahead_skip: "at_blank rest \<Longrightarrow> query_ptr li = (if deref rest \<noteq> 0 then tl rest else rest) \<Longrightarrow> ahead li rest"
  by (cases rest) (auto simp: ahead_def at_blank_def)

lemma lex_term:
  assumes "std_parser li" and "ahead li (term_text t @ rest)" and "at_blank rest" and "term_ok t"
  shows "query_look (lex li) = Tok_word \<and> escape_string (lex_text (lex li)) = t \<and> ahead (lex li) rest"
proof (cases "needs_quotes t")
  case True
  have "lex li = li\<lparr>lex_buf := concat (map quoted t) @ 34 # rest, lex_len := length (concat (map quoted t)), query_ptr := rest,
      query_look := Tok_word\<rparr>"
    by (rule lex_quoted [OF assms(1) _ refl quoted_ok quoted_at]) (use assms True in \<open>auto simp: term_text_def term_ok_def\<close>)
  then show ?thesis using escape_quoted by (simp add: lex_text_def ahead_def)
next
  case False
  obtain c cs where w: "concat (plain_units t) = c # cs" "word_start c" "c \<noteq> 64" using plain_units_start [OF False] by blast
  note l = lex_plain [OF assms(1) _ refl plain_units_ok [OF False] assms(3) w(1,2)]
  have "lex li = li\<lparr>lex_buf := concat (plain_units t) @ rest, lex_len := length (concat (plain_units t)),
      query_ptr := (if deref rest \<noteq> 0 then tl rest else rest), query_look := Tok_word\<rparr>"
    using l assms(2) False w(3) by (simp add: term_text_def)
  then show ?thesis using escape_units ahead_skip [OF assms(3), of "lex li"] by (simp add: lex_text_def)
qed

text \<open>The name of a result set is not unescaped by the parser: it comes back with its escapes.\<close>

definition escaped :: "byte list \<Rightarrow> byte list" where
  "escaped s = (if needs_quotes s then concat (map quoted s) else concat (plain_units s))"

lemma escaped_same:
  assumes "92 \<notin> set s" "34 \<notin> set s" "deref s \<noteq> 64"
  shows "escaped s = s"
proof -
  have m: "map quoted s = map (\<lambda>c. [c]) s" "map plain s = map (\<lambda>c. [c]) s"
    using assms by (auto simp: quoted_def plain_def)
  have "concat (map (\<lambda>c. [c]) s) = s" by (induction s) auto
  then show ?thesis using assms(3) unfolding escaped_def plain_units_def m by simp
qed

lemma escaped_no_nul: "no_nul s \<Longrightarrow> no_nul (escaped s)"
  by (cases s) (auto simp: escaped_def plain_units_def plain_def quoted_def)

lemma lex_id:
  assumes "std_parser li" and "ahead li (term_text s @ rest)" and "at_blank rest" and "term_ok s"
  shows "query_look (lex li) = Tok_word \<and> lex_text (lex li) = escaped s \<and> ahead (lex li) rest"
proof (cases "needs_quotes s")
  case True
  have "lex li = li\<lparr>lex_buf := concat (map quoted s) @ 34 # rest, lex_len := length (concat (map quoted s)), query_ptr := rest,
      query_look := Tok_word\<rparr>"
    by (rule lex_quoted [OF assms(1) _ refl quoted_ok quoted_at]) (use assms True in \<open>auto simp: term_text_def term_ok_def\<close>)
  then show ?thesis using True by (simp add: lex_text_def ahead_def escaped_def)
next
  case False
  obtain c cs where cs: "concat (plain_units s) = c # cs" "word_start c" "c \<noteq> 64" using plain_units_start [OF False] by blast
  note l = lex_plain [OF assms(1) _ refl plain_units_ok [OF False] assms(3) cs(1,2)]
  have "lex li = li\<lparr>lex_buf := concat (plain_units s) @ rest, lex_len := length (concat (plain_units s)),
      query_ptr := (if deref rest \<noteq> 0 then tl rest else rest), query_look := Tok_word\<rparr>"
    using l assms(2) False cs(3) by (simp add: term_text_def)
  then show ?thesis using False ahead_skip [OF assms(3), of "lex li"] by (simp add: lex_text_def escaped_def)
qed

section \<open>Keywords and words\<close>

lemma single_units: "concat (map (\<lambda>c. [c]) w) = w"
  by (induction w) auto

definition word_chars :: "byte list \<Rightarrow> bool" where
  "word_chars w \<longleftrightarrow> (\<forall>c \<in> set w. c \<noteq> 0 \<and> c \<noteq> 32 \<and> c \<noteq> 92)"

lemma word_units: "word_chars w \<Longrightarrow> \<forall>u \<in> set (map (\<lambda>c. [c]) w). unit_ok 32 u"
  by (auto simp: word_chars_def intro!: unit_char)

lemma lex_word:
  assumes "std_parser li" and "ahead li (w @ rest)" and "at_blank rest" and "word_chars w" and "w \<noteq> []"
    and "word_start (hd w)" and "hd w \<noteq> 64"
  shows "lex li = li\<lparr>lex_buf := w @ rest, lex_len := length w, query_ptr := (if deref rest \<noteq> 0 then tl rest else rest),
    query_look := Tok_word\<rparr>"
proof -
  obtain c cs where "w = c # cs" using assms(5) by (cases w) auto
  then show ?thesis using lex_plain [OF assms(1,2) single_units [symmetric] word_units [OF assms(4)] assms(3)] assms(6,7) by simp
qed

definition commands :: "(byte list \<times> token) list" where
  "commands = [(str ''@and'', Tok_and), (str ''@or'', Tok_or), (str ''@not'', Tok_not), (str ''@prox'', Tok_prox),
     (str ''@attr'', Tok_attr), (str ''@set'', Tok_set), (str ''@attrset'', Tok_attrset), (str ''@term'', Tok_term)]"

lemma commands_shape:
  "\<forall>(w, t) \<in> set commands. word_chars w \<and> w \<noteq> [] \<and> hd w = 64 \<and> tl w \<noteq> [] \<and> \<not> yaz_isdigit (deref (tl w))"
  by (simp add: commands_def word_chars_def yaz_isdigit_def deref_def)

lemma commands_keyword:
  assumes "(w, t) \<in> set commands" and "lex_buf li = w @ rest" and "lex_len li = length w"
  shows "keyword li = t"
proof -
  have "(w, t) = (str ''@and'', Tok_and) \<or> (w, t) = (str ''@or'', Tok_or) \<or> (w, t) = (str ''@not'', Tok_not) \<or>
      (w, t) = (str ''@prox'', Tok_prox) \<or> (w, t) = (str ''@attr'', Tok_attr) \<or> (w, t) = (str ''@set'', Tok_set) \<or>
      (w, t) = (str ''@attrset'', Tok_attrset) \<or> (w, t) = (str ''@term'', Tok_term)"
    using assms(1) unfolding commands_def by (simp only: set_simps insert_iff empty_iff) blast
  then show ?thesis using assms(2,3) by (elim disjE) (simp_all add: keyword_def compare_term_def)
qed

lemma lex_command:
  assumes "std_parser li" and "ahead li (w @ rest)" and "at_blank rest" and "(w, t) \<in> set commands"
  shows "query_look (lex li) = t \<and> ahead (lex li) rest"
proof -
  define li' where "li' = li\<lparr>lex_buf := w @ rest, lex_len := length w, query_ptr := (if deref rest \<noteq> 0 then tl rest else rest)\<rparr>"
  have w: "word_chars w" "hd w = 64" "tl w \<noteq> []" "\<not> yaz_isdigit (deref (tl w))" "w \<noteq> []"
    using commands_shape assms(4) by auto
  then obtain cs where cs: "w = 64 # cs" "cs \<noteq> []" "\<not> yaz_isdigit (deref cs)" by (cases w) auto
  have "lex li = li'\<lparr>query_look := keyword li'\<rparr>"
    using lex_plain [OF assms(1,2) single_units [symmetric] word_units [OF w(1)] assms(3) cs(1)] cs(2,3)
    by (simp add: li'_def word_start_def)
  moreover have "keyword li' = t"
    using commands_keyword [OF assms(4)] by (simp add: li'_def)
  ultimately show ?thesis using ahead_skip [OF assms(3), of "lex li"] by (simp add: li'_def)
qed

lemma ahead_blank [simp]: "ahead li (32 # s) = ahead li s"
  by (simp add: ahead_def)

lemma at_blank_Cons [simp]: "at_blank (32 # s)"
  by (simp add: at_blank_def)

section \<open>Attributes\<close>

definition name_ok :: "oid_env \<Rightarrow> byte list \<Rightarrow> int list \<Rightarrow> bool" where
  "name_ok env nm oid \<longleftrightarrow> nm \<noteq> [] \<and> length nm \<le> 30 \<and> word_chars nm \<and> 61 \<notin> set nm \<and> word_start (hd nm) \<and> hd nm \<noteq> 64 \<and>
     (\<exists>oc. yaz_oid_to_string_buf (env_std env) (env_db env) oid = Some (nm, oc)) \<and>
     yaz_string_to_oid_odr (env_std env) (env_fresh env) (env_db env) CLASS_ATTSET nm = Some (Some oid)"

definition oid_text :: "oid_env \<Rightarrow> int list \<Rightarrow> byte list" where
  "oid_text env oid = fst (the (yaz_oid_to_string_buf (env_std env) (env_db env) oid))"

definition set_text :: "oid_env \<Rightarrow> int list option \<Rightarrow> byte list" where
  "set_text env s = (case s of None \<Rightarrow> [] | Some oid \<Rightarrow> oid_text env oid @ [32])"

definition value_text :: "z_AttributeValue \<Rightarrow> byte list" where
  "value_text v = (case v of
      Z_AttributeValue_numeric n \<Rightarrow> num n
    | Z_AttributeValue_complex vs \<Rightarrow> (case vs of [Z_string s] \<Rightarrow> s | _ \<Rightarrow> []))"

definition elem_text :: "oid_env \<Rightarrow> z_AttributeElement \<Rightarrow> byte list" where
  "elem_text env e = str ''@attr '' @ set_text env (attributeSet e) @ num (attributeType e) @ 61 # value_text (attributeValue e) @ [32]"

definition value_ok :: "z_AttributeValue \<Rightarrow> bool" where
  "value_ok v \<longleftrightarrow> (case v of
      Z_AttributeValue_numeric n \<Rightarrow> number_ok n
    | Z_AttributeValue_complex vs \<Rightarrow>
        (\<exists>s. vs = [Z_string s] \<and> word_chars s \<and> (\<exists>c \<in> set s. \<not> yaz_isdigit c)))"

definition elem_ok :: "oid_env \<Rightarrow> z_AttributeElement \<Rightarrow> bool" where
  "elem_ok env e \<longleftrightarrow> number_ok (attributeType e) \<and> value_ok (attributeValue e) \<and>
     (\<forall>oid. attributeSet e = Some oid \<longrightarrow> name_ok env (oid_text env oid) oid)"

definition entry_of :: "z_AttributeElement \<Rightarrow> pqf_attr" where
  "entry_of e = (case attributeValue e of
      Z_AttributeValue_numeric n \<Rightarrow>
        \<lparr>attr_type = attributeType e, attr_num = n, attr_clist = None, attr_set = attributeSet e\<rparr>
    | Z_AttributeValue_complex vs \<Rightarrow>
        \<lparr>attr_type = attributeType e, attr_num = 0, attr_clist = Some (value_text (attributeValue e)), attr_set = attributeSet e\<rparr>)"

lemma attr_element_entry_of: "value_ok (attributeValue e) \<Longrightarrow> attr_element (entry_of e) = e"
  by (auto simp: value_ok_def attr_element_def entry_of_def value_text_def split: z_AttributeValue.splits)

lemma char_pos_found: "c \<notin> set a \<Longrightarrow> char_pos (a @ c # b) c = Some (length a)"
  by (induction a) auto

lemma char_pos_behind: "c \<notin> set a \<Longrightarrow> char_pos (a @ b) c = Some i \<Longrightarrow> length a \<le> i"
  by (induction a arbitrary: i) auto

lemma escape_word: "92 \<notin> set s \<Longrightarrow> escape_string s = s"
  by (induction s) (auto simp: escape_char simp del: escape_string.simps(3))

lemma word_chars_num: "number_ok n \<Longrightarrow> word_chars (num n)"
  using num_digits [of n] digit_class by (auto simp: word_chars_def simp del: set_map)

lemma word_chars_value: "value_ok v \<Longrightarrow> word_chars (value_text v)"
  using word_chars_num by (auto simp: value_ok_def value_text_def split: z_AttributeValue.splits)

lemma at_blank_not_digit: "at_blank rest \<Longrightarrow> \<not> yaz_isdigit (deref rest)"
  by (auto simp: at_blank_def yaz_isdigit_def)

lemma attr_entry_of:
  assumes "elem_ok env e" and "at_blank rest" and "lex_buf li = num (attributeType e) @ 61 # value_text (attributeValue e) @ rest"
    and "lex_len li = length (num (attributeType e)) + 1 + length (value_text (attributeValue e))"
  shows "attr_entry li (length (num (attributeType e))) (attributeSet e) = entry_of e"
proof -
  define n v where "n = attributeType e" and "v = value_text (attributeValue e)"
  have ty: "odr_atoi (lex_buf li) = n"
    using odr_atoi_num [of n "61 # v @ rest"] assms(1,3) by (simp add: n_def v_def elem_ok_def yaz_isdigit_def)
  have v: "drop (Suc (length (num n))) (lex_buf li) = v @ rest" "take (lex_len li - Suc (length (num n))) (v @ rest) = v"
    using assms(3,4) by (simp_all add: n_def v_def)
  show ?thesis
  proof (cases "attributeValue e")
    case (Z_AttributeValue_numeric k)
    then have k: "number_ok k" "v = num k" using assms(1) by (simp_all add: elem_ok_def value_ok_def v_def value_text_def)
    have "\<not> (\<exists>c \<in> set v. \<not> yaz_isdigit c)" using num_digits [OF k(1)] k(2) by blast
    moreover have "odr_atoi (v @ rest) = k" using odr_atoi_num [OF k(1) at_blank_not_digit [OF assms(2)]] k(2) by simp
    ultimately show ?thesis
      using ty v Z_AttributeValue_numeric by (simp add: attr_entry_def Let_def entry_of_def flip: n_def)
  next
    case (Z_AttributeValue_complex vs)
    then have c: "\<exists>c \<in> set v. \<not> yaz_isdigit c" "word_chars v"
      using assms(1) by (auto simp: elem_ok_def value_ok_def v_def value_text_def)
    then have "cstr (escape_string v) = v" by (subst escape_word) (auto simp: word_chars_def)
    then show ?thesis
      using ty v c(1) Z_AttributeValue_complex by (simp add: attr_entry_def Let_def entry_of_def v_def flip: n_def)
  qed
qed

end
