(* ===== verification/Yaz_Pqf_Print.thy ===== *)
theory Yaz_Pqf_Print
  imports Yaz_Pqf_Tokens
begin

text \<open>
  The parser of prefix queries reads back what the printer writes: attributes, operands and operators
  in turn, then the structures by induction; what the printer appends to its buffer is that text.
\<close>

section \<open>Steps through the text\<close>

text \<open>The parser stands before \<open>s\<close>, with the separators of a new parser and \<open>tt\<close> as the type of terms.\<close>

definition before :: "yaz_pqf_parser \<Rightarrow> term_tag \<Rightarrow> byte list \<Rightarrow> bool" where
  "before li tt s \<longleftrightarrow> std_parser li \<and> term_type li = tt \<and> ahead li s"

lemma before_blank [simp]: "before li tt (32 # s) = before li tt s"
  by (simp add: before_def)

lemma before_command:
  assumes "before li tt (w @ rest)" and "at_blank rest" and "(w, t) \<in> set commands"
  shows "query_look (lex li) = t \<and> before (lex li) tt rest"
  using lex_command [of li w rest t] assms by (simp add: before_def)

lemma before_word:
  assumes "before li tt (w @ rest)" and "at_blank rest" and "word_chars w" and "w \<noteq> []" and "word_start (hd w)" and "hd w \<noteq> 64"
  shows "query_look (lex li) = Tok_word \<and> lex_buf (lex li) = w @ rest \<and> lex_len (lex li) = length w \<and> before (lex li) tt rest"
proof -
  note l = lex_word [of li w rest] 
  have "lex li = li\<lparr>lex_buf := w @ rest, lex_len := length w, query_ptr := (if deref rest \<noteq> 0 then tl rest else rest),
      query_look := Tok_word\<rparr>"
    using l assms by (simp add: before_def)
  then show ?thesis using assms(1) ahead_skip [OF assms(2), of "lex li"] by (simp add: before_def std_parser_def)
qed

lemma name_found:
  assumes "name_ok env nm oid" and "lex_buf li = nm @ rest" and "lex_len li = length nm"
  shows "query_oid_getvalbyname env li = Some oid"
proof -
  have "cstr nm = nm" using assms(1) by (auto simp: name_ok_def word_chars_def)
  then show ?thesis using assms by (simp add: query_oid_getvalbyname_def lex_text_def name_ok_def)
qed

lemma value_token:
  assumes "before li tt (num (attributeType e) @ 61 # value_text (attributeValue e) @ 32 # rest)" and "elem_ok env e"
  defines "w \<equiv> num (attributeType e) @ 61 # value_text (attributeValue e)"
  shows "query_look (lex li) = Tok_word \<and> lex_buf (lex li) = w @ 32 # rest \<and> lex_len (lex li) = length w \<and> before (lex li) tt rest"
proof -
  have n: "number_ok (attributeType e)" and v: "value_ok (attributeValue e)" using assms(2) by (simp_all add: elem_ok_def)
  obtain c s where c: "num (attributeType e) = c # s" "yaz_isdigit c" using num_head [OF n] by metis
  have "word_chars w" using word_chars_num [OF n] word_chars_value [OF v] by (auto simp: w_def word_chars_def simp del: set_map)
  then show ?thesis
    using before_word [of li tt w "32 # rest"] assms(1) c digit_class [OF c(2)] by (simp add: w_def word_start_def)
qed

lemma value_finish:
  assumes "elem_ok env e" and "lex_buf li = (num (attributeType e) @ 61 # value_text (attributeValue e)) @ 32 # rest"
    and "lex_len li = length (num (attributeType e) @ 61 # value_text (attributeValue e))"
  shows "char_pos (lex_buf li) 61 = Some (length (num (attributeType e)))" "length (num (attributeType e)) \<le> lex_len li"
    "yaz_isdigit (deref (lex_buf li))" "attr_entry li (length (num (attributeType e))) (attributeSet e) = entry_of e"
proof -
  have n: "number_ok (attributeType e)" using assms(1) by (simp add: elem_ok_def)
  have "61 \<notin> set (num (attributeType e))" using num_digits [OF n] digit_class by blast
  then show "char_pos (lex_buf li) 61 = Some (length (num (attributeType e)))"
    using char_pos_found [of 61 "num (attributeType e)"] assms(2) by simp
  show "length (num (attributeType e)) \<le> lex_len li" using assms(3) by simp
  obtain c s where "num (attributeType e) = c # s" "yaz_isdigit c" using num_head [OF n] by metis
  then show "yaz_isdigit (deref (lex_buf li))" using assms(2) by (simp add: deref_def)
  show "attr_entry li (length (num (attributeType e))) (attributeSet e) = entry_of e"
    using attr_entry_of [OF assms(1) at_blank_Cons, of li rest] assms(2,3) by simp
qed

lemma parse_attr_back:
  assumes "before li tt (set_text env (attributeSet e) @ num (attributeType e) @ 61 # value_text (attributeValue e) @ 32 # rest)"
    and "elem_ok env e" and "attributeSet e = None \<Longrightarrow> attrs = [] \<or> attr_set (last attrs) = None"
  shows "\<exists>l. p_query_parse_attr env (lex li) attrs = (Some (entry_of e), l) \<and> query_look (lex li) = Tok_word \<and> before l tt rest"
proof (cases "attributeSet e")
  case None
  then have b: "before li tt (num (attributeType e) @ 61 # value_text (attributeValue e) @ 32 # rest)" using assms(1) by (simp add: set_text_def)
  note t = value_token [OF b assms(2)]
  note f = value_finish [OF assms(2), of "lex li" rest]
  have "(if attrs = [] then None else attr_set (last attrs)) = attributeSet e" using assms(3) None by auto
  then have "p_query_parse_attr env (lex li) attrs = (Some (entry_of e), lex li)"
    using t f by (simp add: p_query_parse_attr_def Let_def)
  then show ?thesis using t by blast
next
  case (Some oid)
  define nm where "nm = oid_text env oid"
  define r1 where "r1 = num (attributeType e) @ 61 # value_text (attributeValue e) @ 32 # rest"
  have nm: "name_ok env nm oid" using assms(2) Some by (simp add: elem_ok_def nm_def)
  have b: "before li tt (nm @ 32 # r1)" using assms(1) Some by (simp add: set_text_def nm_def r1_def)
  have t1: "query_look (lex li) = Tok_word \<and> lex_buf (lex li) = nm @ 32 # r1 \<and> lex_len (lex li) = length nm \<and>
      before (lex li) tt r1"
    using before_word [OF b at_blank_Cons] nm by (simp add: name_ok_def)
  have t2: "query_look (lex (lex li)) = Tok_word \<and>
      lex_buf (lex (lex li)) = (num (attributeType e) @ 61 # value_text (attributeValue e)) @ 32 # rest \<and>
      lex_len (lex (lex li)) = length (num (attributeType e) @ 61 # value_text (attributeValue e)) \<and> before (lex (lex li)) tt rest"
    using value_token [of "lex li" tt e rest env] t1 assms(2) by (simp add: r1_def)
  note f = value_finish [OF assms(2), of "lex (lex li)" rest]
  have named: "cp > lex_len (lex li)" if "char_pos (lex_buf (lex li)) 61 = Some cp" for cp
    using char_pos_behind [of 61 "nm @ [32]" r1 cp] that t1 nm by (simp add: name_ok_def)
  have "p_query_parse_attr env (lex li) attrs = (Some (entry_of e), lex (lex li))"
    using t1 t2 f name_found [OF nm, of "lex li" "32 # r1"] named Some
    by (cases "char_pos (lex_buf (lex li)) 61") (simp_all add: p_query_parse_attr_def Let_def)
  then show ?thesis using t1 t2 by blast
qed

lemma attr_step:
  assumes "before li tt (elem_text env e @ rest)" and "elem_ok env e" and "length attrs < max_attr"
    and "attributeSet e = None \<Longrightarrow> attrs = [] \<or> attr_set (last attrs) = None"
  shows "\<exists>l. rpn_structure env (lex li) attrs = rpn_structure env (lex l) (attrs @ [entry_of e]) \<and> before l tt rest"
proof -
  define r where "r = set_text env (attributeSet e) @ num (attributeType e) @ 61 # value_text (attributeValue e) @ 32 # rest"
  have "before li tt (str ''@attr'' @ 32 # r)" using assms(1) by (simp add: elem_text_def r_def)
  then have a: "query_look (lex li) = Tok_attr" "before (lex li) tt r"
    using before_command [of li tt "str ''@attr''" "32 # r" Tok_attr] by (simp_all add: commands_def)
  obtain l where "p_query_parse_attr env (lex (lex li)) attrs = (Some (entry_of e), l)" "query_look (lex (lex li)) = Tok_word" "before l tt rest"
    using parse_attr_back [OF a(2) [unfolded r_def] assms(2,4)] by blast
  then show ?thesis using a(1) assms(3) by (auto simp: rpn_structure.simps [of env "lex li"])
qed

text \<open>An attribute without a set takes the set of the one before it, so the ones without a set come first.\<close>

definition attrs_ok :: "oid_env \<Rightarrow> z_AttributeElement list \<Rightarrow> bool" where
  "attrs_ok env al \<longleftrightarrow> length al \<le> max_attr \<and> distinct (map attributeType al) \<and> (\<forall>e \<in> set al. elem_ok env e) \<and>
     successively (\<lambda>a b. attributeSet b = None \<longrightarrow> attributeSet a = None) al"

definition attrs_text :: "oid_env \<Rightarrow> z_AttributeElement list \<Rightarrow> byte list" where
  "attrs_text env al = concat (map (elem_text env) al)"

lemma entry_of_set [simp]: "attr_set (entry_of e) = attributeSet e" "attr_type (entry_of e) = attributeType e"
  by (auto simp: entry_of_def split: z_AttributeValue.splits)

lemma attrs_back:
  assumes "before li tt (attrs_text env al @ rest)" and "attrs_ok env (pre @ al)"
  shows "\<exists>l. rpn_structure env (lex li) (map entry_of pre) = rpn_structure env (lex l) (map entry_of (pre @ al)) \<and> before l tt rest"
  using assms
proof (induction al arbitrary: li pre)
  case Nil
  then show ?case by (auto simp: attrs_text_def)
next
  case (Cons e al)
  have p: "pre = [] \<or> attr_set (last (map entry_of pre)) = None" if "attributeSet e = None"
    using Cons.prems(2) that by (auto simp: attrs_ok_def successively_append_iff last_map)
  have "before li tt (elem_text env e @ attrs_text env al @ rest)" using Cons.prems(1) by (simp add: attrs_text_def)
  then obtain l where l: "rpn_structure env (lex li) (map entry_of pre) = rpn_structure env (lex l) (map entry_of pre @ [entry_of e])"
      "before l tt (attrs_text env al @ rest)"
    using attr_step [of li tt env e "attrs_text env al @ rest" "map entry_of pre"] Cons.prems(2) p by (auto simp: attrs_ok_def)
  show ?case using Cons.IH [OF l(2), of "pre @ [e]"] l(1) Cons.prems(2) by simp
qed

lemma attr_elements_distinct:
  "distinct (map attr_type as) \<Longrightarrow> set (map attr_type as) \<inter> set later = {} \<Longrightarrow> attr_elements as later = map attr_element as"
  by (induction as later rule: attr_elements.induct) auto

lemma attributeList_back: "attrs_ok env al \<Longrightarrow> get_attributeList (map entry_of al) = rev al"
proof -
  assume ok: "attrs_ok env al"
  have "distinct (rev (map attributeType al))" using ok by (simp add: attrs_ok_def)
  then have "distinct (map attr_type (rev (map entry_of al)))" by (simp add: rev_map comp_def)
  then have "get_attributeList (map entry_of al) = rev (map (\<lambda>e. attr_element (entry_of e)) al)"
    using attr_elements_distinct [of "rev (map entry_of al)" "[]"] by (simp add: get_attributeList_def rev_map comp_def)
  also have "map (\<lambda>e. attr_element (entry_of e)) al = al"
    using ok attr_element_entry_of by (intro map_idI) (auto simp: attrs_ok_def elem_ok_def)
  finally show ?thesis .
qed

section \<open>Operands\<close>

definition kind_text :: "z_Term \<Rightarrow> byte list" where
  "kind_text tm = (case tm of
      Z_Term_general t \<Rightarrow> term_text t
    | Z_Term_characterString s \<Rightarrow> str ''@term string '' @ term_text s
    | Z_Term_numeric n \<Rightarrow> str ''@term numeric '' @ num n
    | _ \<Rightarrow> [])"

text \<open>
  The terms that the text preserves. A null term is printed without a blank behind it, and other kinds of
  terms without their value.
\<close>

definition term_printable :: "z_Term \<Rightarrow> bool" where
  "term_printable tm = (case tm of
      Z_Term_general t \<Rightarrow> term_ok t
    | Z_Term_characterString s \<Rightarrow> term_ok s
    | Z_Term_numeric n \<Rightarrow> number_ok n
    | _ \<Rightarrow> False)"

text \<open>
  The type of terms stays as the last \<^verbatim>\<open>@term\<close> has set it, and a general term is printed without
  one: it is read back as a term of the type \<open>tt\<close> that is set. \<open>tag_behind\<close> is the type that is set behind the term.
\<close>

definition tag_behind :: "term_tag \<Rightarrow> z_Term \<Rightarrow> term_tag" where
  "tag_behind tt tm = (case tm of Z_Term_characterString s \<Rightarrow> T_characterString | Z_Term_numeric n \<Rightarrow> T_numeric | _ \<Rightarrow> tt)"

definition term_read :: "term_tag \<Rightarrow> z_Term \<Rightarrow> z_Term" where
  "term_read tt tm = (case tm of
      Z_Term_general t \<Rightarrow>
        (case tt of T_characterString \<Rightarrow> Z_Term_characterString t | T_numeric \<Rightarrow> Z_Term_numeric (odr_atoi t) | _ \<Rightarrow> Z_Term_general t)
    | _ \<Rightarrow> tm)"

definition tag_known :: "term_tag \<Rightarrow> bool" where
  "tag_known tt \<longleftrightarrow> tt = T_general \<or> tt = T_characterString \<or> tt = T_numeric"

lemma tag_behind_ok: "tag_known tt \<Longrightarrow> tag_known (tag_behind tt tm)"
  by (auto simp: tag_known_def tag_behind_def split: z_Term.splits)

lemma simple_word:
  assumes "query_look (lex li) = Tok_word"
  shows "rpn_structure env (lex li) attrs = (Some (Z_RPNStructure_simple (Z_Operand_APT (get_attributeList attrs)
    (z_Term_create (term_type li) (escape_string (lex_text (lex li)))))), lex (lex li))"
  using assms by (simp add: rpn_structure.simps [of env "lex li"] rpn_simple_def rpn_term_attributes_def)

lemma term_type_step:
  assumes "before li tt (str ''@term'' @ 32 # w @ 32 # rest)"
    and "(w, t) \<in> set [(str ''string'', T_characterString), (str ''numeric'', T_numeric)]"
  shows "\<exists>l. rpn_structure env (lex li) attrs = rpn_structure env (lex l) attrs \<and> before l t rest"
proof -
  have c: "query_look (lex li) = Tok_term" "before (lex li) tt (w @ 32 # rest)"
    using before_command [of li tt "str ''@term''" "32 # w @ 32 # rest" Tok_term] assms(1) by (simp_all add: commands_def)
  have w: "(w, t) = (str ''string'', T_characterString) \<or> (w, t) = (str ''numeric'', T_numeric)"
    using assms(2) by (simp only: set_simps insert_iff empty_iff) blast
  have "word_chars w" "w \<noteq> []" "word_start (hd w)" "hd w \<noteq> 64"
    using w by (elim disjE; simp add: word_chars_def word_start_def)+
  then have l: "query_look (lex (lex li)) = Tok_word \<and> lex_buf (lex (lex li)) = w @ 32 # rest \<and>
      lex_len (lex (lex li)) = length w \<and> before (lex (lex li)) tt rest"
    using before_word [OF c(2) at_blank_Cons] by simp
  define l1 where "l1 = (lex (lex li))\<lparr>term_type := t\<rparr>"
  have "rpn_term_type (lex (lex li)) = lex l1"
    using w l by (elim disjE) (simp_all add: rpn_term_type_def compare_term_def l1_def)
  then have "rpn_structure env (lex li) attrs = rpn_structure env (lex l1) attrs"
    using c(1) by (simp add: rpn_structure.simps [of env "lex li"])
  moreover have "before l1 t rest" using l by (simp add: before_def l1_def std_parser_def ahead_def)
  ultimately show ?thesis by blast
qed

lemma before_term:
  "before li tt (term_text t @ rest) \<Longrightarrow> at_blank rest \<Longrightarrow> term_ok t \<Longrightarrow>
   query_look (lex li) = Tok_word \<and> escape_string (lex_text (lex li)) = t \<and> before (lex li) tt rest"
  using lex_term [of li t rest] by (simp add: before_def)

lemma before_num:
  assumes "before li tt (num n @ rest)" and "at_blank rest" and "number_ok n"
  shows "query_look (lex li) = Tok_word \<and> lex_buf (lex li) = num n @ rest \<and> lex_text (lex li) = num n \<and> before (lex li) tt rest"
proof -
  obtain c s where c: "num n = c # s" "yaz_isdigit c" using num_head [OF assms(3)] by metis
  then show ?thesis
    using before_word [OF assms(1,2) word_chars_num [OF assms(3)]] digit_class [OF c(2)] by (simp add: word_start_def lex_text_def)
qed

lemma term_back:
  assumes "before li tt (kind_text tm @ rest)" and "at_blank rest" and "term_printable tm" and "tag_known tt"
  shows "\<exists>l. rpn_structure env (lex li) attrs =
    (Some (Z_RPNStructure_simple (Z_Operand_APT (get_attributeList attrs) (term_read tt tm))), lex l) \<and> before l (tag_behind tt tm) rest"
proof (cases tm)
  case (Z_Term_general t)
  then have t: "term_ok t" using assms(3) by (simp add: term_printable_def)
  then have nul: "cstr t = t" by (simp add: term_ok_def)
  have b: "before li tt (term_text t @ rest)" using assms(1) Z_Term_general by (simp add: kind_text_def)
  have "term_type li = tt" using b by (simp add: before_def)
  moreover have "z_Term_create tt t = term_read tt tm"
    using assms(4) nul Z_Term_general by (auto simp: z_Term_create_def term_read_def tag_known_def)
  ultimately show ?thesis
    using simple_word [of li env attrs] before_term [OF b assms(2) t] Z_Term_general by (auto simp: tag_behind_def)
next
  case (Z_Term_characterString s)
  then have s: "term_ok s" using assms(3) by (simp add: term_printable_def)
  then have nul: "cstr s = s" by (simp add: term_ok_def)
  obtain l where l: "rpn_structure env (lex li) attrs = rpn_structure env (lex l) attrs" "before l T_characterString (term_text s @ rest)"
    using term_type_step [of li tt "str ''string''" "term_text s @ rest" T_characterString env attrs] assms(1) Z_Term_characterString
    by (auto simp: kind_text_def)
  moreover have "term_type l = T_characterString" using l by (simp add: before_def)
  ultimately show ?thesis
    using simple_word [of l env attrs] before_term [OF l(2) assms(2) s] Z_Term_characterString nul
    by (auto simp: z_Term_create_def term_read_def tag_behind_def)
next
  case (Z_Term_numeric n)
  then have n: "number_ok n" using assms(3) by (simp add: term_printable_def)
  obtain l where l: "rpn_structure env (lex li) attrs = rpn_structure env (lex l) attrs" "before l T_numeric (num n @ rest)"
    using term_type_step [of li tt "str ''numeric''" "num n @ rest" T_numeric env attrs] assms(1) Z_Term_numeric
    by (auto simp: kind_text_def)
  have "92 \<notin> set (num n)" using num_digits [OF n] digit_class by blast
  then have "odr_atoi (escape_string (num n)) = n" using odr_atoi_num [OF n, of "[]"] by (simp add: escape_word yaz_isdigit_def)
  moreover have "term_type l = T_numeric" using l by (simp add: before_def)
  ultimately show ?thesis
    using simple_word [of l env attrs] before_num [OF l(2) assms(2) n] Z_Term_numeric l(1)
    by (auto simp: z_Term_create_def term_read_def tag_behind_def)
qed (use assms(3) in \<open>simp_all add: term_printable_def\<close>)

lemma apt_back:
  assumes "before li tt (attrs_text env al @ kind_text tm @ rest)" and "at_blank rest" and "attrs_ok env al"
    and "term_printable tm" and "tag_known tt"
  shows "\<exists>l. rpn_structure env (lex li) [] = (Some (Z_RPNStructure_simple (Z_Operand_APT (rev al) (term_read tt tm))), lex l) \<and>
    before l (tag_behind tt tm) rest"
proof -
  obtain l where l: "rpn_structure env (lex li) [] = rpn_structure env (lex l) (map entry_of al)" "before l tt (kind_text tm @ rest)"
    using attrs_back [of li tt env al "kind_text tm @ rest" "[]"] assms(1,3) by auto
  then show ?thesis using term_back [OF l(2) assms(2,4,5), of env "map entry_of al"] attributeList_back [OF assms(3)] by simp
qed

lemma set_back:
  assumes "before li tt (str ''@set'' @ 32 # term_text s @ rest)" and "at_blank rest" and "term_ok s"
  shows "\<exists>l. rpn_structure env (lex li) attrs = (Some (Z_RPNStructure_simple (Z_Operand_resultSetId (escaped s))), lex l) \<and> before l tt rest"
proof -
  have c: "query_look (lex li) = Tok_set" "before (lex li) tt (term_text s @ rest)"
    using before_command [of li tt "str ''@set''" "32 # term_text s @ rest" Tok_set] assms(1) by (simp_all add: commands_def)
  have "query_look (lex (lex li)) = Tok_word \<and> lex_text (lex (lex li)) = escaped s \<and> before (lex (lex li)) tt rest"
    using lex_id [of "lex li" s rest] c(2) assms(2,3) by (simp add: before_def)
  moreover have "cstr (escaped s) = escaped s" using assms(3) escaped_no_nul [of s] by (simp add: term_ok_def)
  ultimately show ?thesis using c(1) by (auto simp: rpn_structure.simps [of env "lex li"] rpn_simple_def Let_def)
qed

section \<open>Operators\<close>

definition prox_ok :: "z_ProximityOperator \<Rightarrow> bool" where
  "prox_ok p \<longleftrightarrow> exclusion p \<in> {None, Some 0, Some 1} \<and> ordered p \<in> {0, 1} \<and> number_ok (distance p) \<and> number_ok (relationType p) \<and> number_ok (proximityUnit p)"

definition exclusion_text :: "int option \<Rightarrow> byte" where
  "exclusion_text x = (case x of None \<Rightarrow> ch CHR ''n'' | Some x \<Rightarrow> if x \<noteq> 0 then ch CHR ''1'' else ch CHR ''0'')"

definition prox_text :: "z_ProximityOperator \<Rightarrow> byte list" where
  "prox_text p = exclusion_text (exclusion p) # 32 # num (distance p) @ 32 # (if ordered p = 1 then 49 else 48) # 32 #
     num (relationType p) @ 32 # (if prox_private p then ch CHR ''p'' else ch CHR ''k'') # 32 # num (proximityUnit p)"

definition op_text :: "z_Operator \<Rightarrow> byte list" where
  "op_text op = str (''@'' @ complex_op_name op) @ (case op of Z_Operator_prox p \<Rightarrow> 32 # prox_text p | _ \<Rightarrow> [])"

definition op_ok :: "z_Operator \<Rightarrow> bool" where
  "op_ok op \<longleftrightarrow> (case op of Z_Operator_prox p \<Rightarrow> prox_ok p | _ \<Rightarrow> True)"

lemma prox_item_number:
  assumes "before li tt (num n @ rest)" and "at_blank rest" and "number_ok n"
  shows "\<exists>l. prox_item prox_number e li = (Some n, l) \<and> before l tt rest"
proof -
  obtain c s where c: "num n = c # s" "yaz_isdigit c" using num_head [OF assms(3)] by metis
  have "prox_number (num n @ rest) = Some n"
    using c odr_atoi_num [OF assms(3) at_blank_not_digit [OF assms(2)]] by (simp add: prox_number_def deref_def)
  then show ?thesis using before_num [OF assms] by (auto simp: prox_item_def Let_def)
qed

lemma prox_item_char:
  assumes "before li tt (c # 32 # rest)" and "f (c # 32 # rest) = Some x" and "c \<noteq> 92" and "word_start c" and "c \<noteq> 64"
  shows "\<exists>l. prox_item f e li = (Some x, l) \<and> before l tt rest"
  using before_word [of li tt "[c]" "32 # rest"] assms by (auto simp: prox_item_def Let_def word_chars_def word_start_def)

lemma andthen_back:
  assumes "\<exists>l. r = (Some x, l) \<and> P l" and "\<And>l. P l \<Longrightarrow> \<exists>l'. f x l = (Some y, l') \<and> Q l'"
  shows "\<exists>l'. andthen r f = (Some y, l') \<and> Q l'"
  using assms by (auto simp: andthen_def)

lemma proximity_back:
  assumes "before li tt (prox_text p @ rest)" and "at_blank rest" and "prox_ok p"
  shows "\<exists>l. rpn_proximity li = (Some p, l) \<and> before l tt rest"
proof -
  define r1 where "r1 = num (proximityUnit p) @ rest"
  define r2 where "r2 = num (relationType p) @ 32 # (if prox_private p then ch CHR ''p'' else ch CHR ''k'') # 32 # r1"
  define r3 where "r3 = num (distance p) @ 32 # (if ordered p = 1 then 49 else 48) # 32 # r2"
  have b: "before li tt (exclusion_text (exclusion p) # 32 # r3)"
    using assms(1) by (simp add: prox_text_def r1_def r2_def r3_def)
  have ok: "number_ok (distance p)" "number_ok (relationType p)" "number_ok (proximityUnit p)"
    and flags: "exclusion p = None \<or> exclusion p = Some 0 \<or> exclusion p = Some 1" "ordered p = 0 \<or> ordered p = 1"
    using assms(3) by (auto simp: prox_ok_def)
  note chars = exclusion_text_def prox_exclusion_def prox_ordered_def prox_which_def word_start_def deref_def
  show ?thesis
    unfolding rpn_proximity_def
    apply (rule andthen_back [where x = "exclusion p" and P = "\<lambda>l. before l tt r3"])
     apply (rule prox_item_char [OF b]; use flags(1) in \<open>auto simp: chars\<close>)
    apply (rule andthen_back [where x = "distance p" and P = "\<lambda>l. before l tt ((if ordered p = 1 then 49 else 48) # 32 # r2)"])
     apply (use prox_item_number ok(1) in \<open>fastforce simp: r3_def\<close>)
    apply (rule andthen_back [where x = "ordered p" and P = "\<lambda>l. before l tt r2"])
     apply (rule prox_item_char, assumption; use flags(2) in \<open>auto simp: chars\<close>)
    apply (rule andthen_back [where x = "relationType p" and P = "\<lambda>l. before l tt ((if prox_private p then ch CHR ''p'' else ch CHR ''k'') # 32 # r1)"])
     apply (use prox_item_number ok(2) in \<open>fastforce simp: r2_def\<close>)
    apply (rule andthen_back [where x = "prox_private p" and P = "\<lambda>l. before l tt r1"])
     apply (rule prox_item_char, assumption; simp add: chars)
    apply (rule andthen_back [where x = "proximityUnit p" and P = "\<lambda>l. before l tt rest"])
     apply (use prox_item_number ok(3) assms(2) in \<open>fastforce simp: r1_def\<close>)
    apply simp
    done
qed

lemma operator_back:
  assumes "before li tt (op_text op @ 32 # rest)" and "op_ok op"
  shows "\<exists>l. rpn_operator (lex li) = (Some op, l) \<and> query_look (lex li) \<in> {Tok_and, Tok_or, Tok_not, Tok_prox} \<and> before l tt rest"
proof (cases op)
  case (Z_Operator_prox p)
  have "before li tt (str ''@prox'' @ 32 # prox_text p @ 32 # rest)"
    using assms(1) Z_Operator_prox by (simp add: op_text_def complex_op_name_def)
  then have c: "query_look (lex li) = Tok_prox" "before (lex li) tt (prox_text p @ 32 # rest)"
    using before_command [of li tt "str ''@prox''" "32 # prox_text p @ 32 # rest" Tok_prox] by (simp_all add: commands_def)
  obtain l where "rpn_proximity (lex li) = (Some p, l)" "before l tt rest"
    using proximity_back [OF c(2)] assms(2) Z_Operator_prox by (auto simp: op_ok_def)
  then show ?thesis using c(1) Z_Operator_prox by (simp add: rpn_operator_def andthen_def)
next
  case Z_Operator_and
  then show ?thesis using before_command [of li tt "str ''@and''" "32 # rest" Tok_and] assms(1)
    by (simp add: op_text_def complex_op_name_def commands_def rpn_operator_def)
next
  case Z_Operator_or
  then show ?thesis using before_command [of li tt "str ''@or''" "32 # rest" Tok_or] assms(1)
    by (simp add: op_text_def complex_op_name_def commands_def rpn_operator_def)
next
  case Z_Operator_and_not
  then show ?thesis using before_command [of li tt "str ''@not''" "32 # rest" Tok_not] assms(1)
    by (simp add: op_text_def complex_op_name_def commands_def rpn_operator_def)
qed

section \<open>Structures\<close>

fun structure_text :: "oid_env \<Rightarrow> z_RPNStructure \<Rightarrow> byte list" where
  "structure_text env (Z_RPNStructure_complex op s1 s2) =
     op_text op @ 32 # structure_text env s1 @ 32 # structure_text env s2"
| "structure_text env (Z_RPNStructure_simple (Z_Operand_APT al tm)) = attrs_text env al @ kind_text tm"
| "structure_text env (Z_RPNStructure_simple (Z_Operand_resultSetId s)) = str ''@set '' @ term_text s"
| "structure_text env s = []"

text \<open>The structures that have a text the parser accepts.\<close>

fun query_printable :: "oid_env \<Rightarrow> z_RPNStructure \<Rightarrow> bool" where
  "query_printable env (Z_RPNStructure_complex op s1 s2) \<longleftrightarrow> op_ok op \<and> query_printable env s1 \<and> query_printable env s2"
| "query_printable env (Z_RPNStructure_simple (Z_Operand_APT al tm)) \<longleftrightarrow> attrs_ok env al \<and> term_printable tm"
| "query_printable env (Z_RPNStructure_simple (Z_Operand_resultSetId s)) \<longleftrightarrow> term_ok s"
| "query_printable env s \<longleftrightarrow> False"

text \<open>
  What the parser makes of the text, when the type of terms is \<open>tt\<close> before it: attributes are listed from the last
  one to the first one, general terms take the type that is set, and names of result sets keep their escapes.
\<close>

fun type_behind :: "term_tag \<Rightarrow> z_RPNStructure \<Rightarrow> term_tag" where
  "type_behind tt (Z_RPNStructure_complex op s1 s2) = type_behind (type_behind tt s1) s2"
| "type_behind tt (Z_RPNStructure_simple (Z_Operand_APT al tm)) = tag_behind tt tm"
| "type_behind tt s = tt"

fun read_back :: "term_tag \<Rightarrow> z_RPNStructure \<Rightarrow> z_RPNStructure" where
  "read_back tt (Z_RPNStructure_complex op s1 s2) =
     Z_RPNStructure_complex op (read_back tt s1) (read_back (type_behind tt s1) s2)"
| "read_back tt (Z_RPNStructure_simple (Z_Operand_APT al tm)) = Z_RPNStructure_simple (Z_Operand_APT (rev al) (term_read tt tm))"
| "read_back tt (Z_RPNStructure_simple (Z_Operand_resultSetId s)) = Z_RPNStructure_simple (Z_Operand_resultSetId (escaped s))"
| "read_back tt s = s"

text \<open>
  A structure keeps its meaning when all terms are general or none is, and no name of a result set has a quotation
  mark or a backslash or begins with an at sign. Then only the order of the attributes changes.
\<close>

fun attributes_reversed :: "z_RPNStructure \<Rightarrow> z_RPNStructure" where
  "attributes_reversed (Z_RPNStructure_complex op s1 s2) =
     Z_RPNStructure_complex op (attributes_reversed s1) (attributes_reversed s2)"
| "attributes_reversed (Z_RPNStructure_simple (Z_Operand_APT al tm)) = Z_RPNStructure_simple (Z_Operand_APT (rev al) tm)"
| "attributes_reversed s = s"

fun all_terms :: "(z_Term \<Rightarrow> bool) \<Rightarrow> z_RPNStructure \<Rightarrow> bool" where
  "all_terms P (Z_RPNStructure_complex op s1 s2) \<longleftrightarrow> all_terms P s1 \<and> all_terms P s2"
| "all_terms P (Z_RPNStructure_simple (Z_Operand_APT al tm)) \<longleftrightarrow> P tm"
| "all_terms P s \<longleftrightarrow> True"

fun plain_sets :: "z_RPNStructure \<Rightarrow> bool" where
  "plain_sets (Z_RPNStructure_complex op s1 s2) \<longleftrightarrow> plain_sets s1 \<and> plain_sets s2"
| "plain_sets (Z_RPNStructure_simple (Z_Operand_resultSetId s)) \<longleftrightarrow> 92 \<notin> set s \<and> 34 \<notin> set s \<and> deref s \<noteq> 64"
| "plain_sets s \<longleftrightarrow> True"

definition general_term :: "z_Term \<Rightarrow> bool" where
  "general_term tm \<longleftrightarrow> (case tm of Z_Term_general t \<Rightarrow> True | _ \<Rightarrow> False)"

lemma read_back_typed:
  "all_terms (\<lambda>tm. \<not> general_term tm) s \<Longrightarrow> plain_sets s \<Longrightarrow> read_back tt s = attributes_reversed s"
  by (induction tt s rule: read_back.induct) (auto simp: escaped_same general_term_def term_read_def split: z_Term.splits)

lemma read_back_general:
  "all_terms general_term s \<Longrightarrow> plain_sets s \<Longrightarrow> read_back T_general s = attributes_reversed s \<and> type_behind T_general s = T_general"
  by (induction s rule: attributes_reversed.induct)
    (auto simp: escaped_same general_term_def term_read_def tag_behind_def split: z_Term.splits)

lemma type_behind_ok: "tag_known tt \<Longrightarrow> tag_known (type_behind tt s)"
  by (induction tt s rule: type_behind.induct) (auto simp: tag_behind_ok)

lemma structure_back:
  "before li tt (structure_text env s @ rest) \<Longrightarrow> at_blank rest \<Longrightarrow> query_printable env s \<Longrightarrow> tag_known tt \<Longrightarrow>
   \<exists>l. rpn_structure env (lex li) [] = (Some (read_back tt s), lex l) \<and> before l (type_behind tt s) rest"
proof (induction tt s arbitrary: li rest rule: read_back.induct)
  case (1 tt op s1 s2)
  have p: "op_ok op" "query_printable env s1" "query_printable env s2" using "1.prems"(3) by simp_all
  obtain l1 where op: "rpn_operator (lex li) = (Some op, l1)" "query_look (lex li) \<in> {Tok_and, Tok_or, Tok_not, Tok_prox}"
      "before l1 tt (structure_text env s1 @ 32 # structure_text env s2 @ rest)"
    using operator_back [OF _ p(1), of li tt "structure_text env s1 @ 32 # structure_text env s2 @ rest"] "1.prems"(1) by auto
  obtain l2 where s1: "rpn_structure env (lex l1) [] = (Some (read_back tt s1), lex l2)"
      "before l2 (type_behind tt s1) (structure_text env s2 @ rest)"
    using "1.IH"(1) [OF op(3) at_blank_Cons p(2) "1.prems"(4)] by auto
  obtain l3 where s2: "rpn_structure env (lex l2) [] = (Some (read_back (type_behind tt s1) s2), lex l3)"
      "before l3 (type_behind (type_behind tt s1) s2) rest"
    using "1.IH"(2) [OF s1(2) "1.prems"(2) p(3) type_behind_ok [OF "1.prems"(4)]] by auto
  show ?case using complex_step [OF op(2,1) s1(1) s2(1)] s2(2) by auto
next
  case (2 tt al tm)
  then show ?case using apt_back [of li tt env al tm rest] by auto
next
  case (3 tt s)
  then show ?case using set_back [of li tt s rest env "[]"] by auto
qed simp_all

section \<open>Printing\<close>

lemma num_short: "number_ok n \<Longrightarrow> length (num n) \<le> 19"
proof -
  assume ok: "number_ok n"
  then have "nat n < 10 ^ Suc 18" by (simp add: number_ok_def nat_less_iff)
  then show ?thesis using dec_length [of "nat n" 18] ok by (simp add: number_ok_def dec_int_def)
qed

lemma num_no_nul: "number_ok n \<Longrightarrow> 0 \<notin> set (num n)"
  using num_digits [of n] digit_class by blast

lemma word_no_nul: "word_chars w \<Longrightarrow> no_nul w"
  by (auto simp: word_chars_def)

text \<open>Sequences of writes, with the text as one list.\<close>

lemma appends_then:
  "wr_appends f s \<Longrightarrow> wr_appends g t \<Longrightarrow> u = s @ t \<Longrightarrow> wr_appends (\<lambda>b. do {b1 \<leftarrow> f b; g b1}) u"
  using wr.appends_bind [of f s g t] by simp

lemma printf_num: "number_ok n \<Longrightarrow> wr_appends (\<lambda>b. wrbuf_printf b (num n)) (num n)"
  using num_no_nul [of n] num_short [of n] by (intro printf_appends) auto

lemma printf_equals:
  "number_ok n \<Longrightarrow> wr_appends (\<lambda>b. wrbuf_printf b (str (dec_int n @ ''=''))) (num n @ [61])"
  using num_no_nul [of n] num_short [of n] printf_appends [of "num n @ [61]"] by auto

lemma value_appends:
  assumes "value_ok v"
  shows "wr_appends (\<lambda>b. case v of Z_AttributeValue_numeric n \<Rightarrow> wrbuf_printf b (num n)
    | Z_AttributeValue_complex vs \<Rightarrow> put_complex b vs) (value_text v)"
proof (cases v)
  case (Z_AttributeValue_numeric n)
  then show ?thesis using printf_num assms by (simp add: value_ok_def value_text_def)
next
  case (Z_AttributeValue_complex vs)
  then show ?thesis
    using assms puts_appends_text [OF word_no_nul] by (auto simp: value_ok_def value_text_def put_string_or_numeric_def)
qed

lemma set_appends:
  assumes "\<forall>oid. s = Some oid \<longrightarrow> name_ok env (oid_text env oid) oid"
  shows "wr_appends (\<lambda>b. case s of None \<Rightarrow> Some b | Some oid \<Rightarrow> do {
      (setname, _) \<leftarrow> yaz_oid_to_string_buf (env_std env) (env_db env) oid;
      b' \<leftarrow> wrbuf_puts b setname;
      wrbuf_puts b' (str '' '')}) (set_text env s)"
proof (cases s)
  case None
  then show ?thesis using wr.appends_nothing by (simp add: set_text_def)
next
  case (Some oid)
  then have nm: "name_ok env (oid_text env oid) oid" using assms by simp
  then obtain oc where o: "yaz_oid_to_string_buf (env_std env) (env_db env) oid = Some (oid_text env oid, oc)"
    by (auto simp: name_ok_def)
  have "wr_appends (\<lambda>b. do {b' \<leftarrow> wrbuf_puts b (oid_text env oid); wrbuf_puts b' (str '' '')}) (oid_text env oid @ [32])"
    using nm by (intro wr.appends_bind puts_appends_text) (simp_all add: name_ok_def word_no_nul puts_appends_text)
  then show ?thesis using Some o by (simp add: set_text_def)
qed

lemma elem_appends: "elem_ok env e \<Longrightarrow> wr_appends (\<lambda>b. yaz_attribute_element_to_wrbuf env b e) (elem_text env e)"
  unfolding yaz_attribute_element_to_wrbuf_def elem_ok_def
  by (elim conjE, rule appends_then [OF puts_appends_text appends_then [OF set_appends appends_then [OF printf_equals
        appends_then [OF value_appends puts_appends_text]]]]) (simp_all add: elem_text_def)

lemma attrs_appends: "\<forall>e \<in> set al. elem_ok env e \<Longrightarrow> wr_appends (\<lambda>b. yaz_attributes_to_wrbuf env b al) (attrs_text env al)"
proof (induction al)
  case Nil
  then show ?case using wr.appends_nothing by (simp add: attrs_text_def)
next
  case (Cons e al)
  then show ?case using wr.appends_bind [OF elem_appends [of env e] Cons.IH] by (simp add: attrs_text_def)
qed

lemma plain_appends: "wr_appends (\<lambda>b. encode_plain b c) (plain c)"
  using wr.appends_bind [OF putc_appends putc_appends, of 92 92] putc_appends [of c] by (auto simp: encode_plain_def plain_def)

lemma quoted_appends: "wr_appends (\<lambda>b. encode_quoted b c) (quoted c)"
  using wr.appends_bind [OF putc_appends putc_appends, of 92 c] putc_appends [of c] by (auto simp: encode_quoted_def quoted_def)

lemma encode_appends: "no_nul t \<Longrightarrow> wr_appends (\<lambda>b. yaz_encode_pqf_term b t) (term_text t @ [32])"
proof -
  assume nul: "no_nul t"
  have q: "(t \<noteq> [] \<and> (\<forall>c \<in> set t. \<not> strchr_ok (str '' \"{'') c)) = (\<not> needs_quotes t)"
    by (auto simp: strchr_ok_def needs_quotes_def)
  have p: "wr_appends (\<lambda>b. do {b1 \<leftarrow> (if deref t = ch CHR ''@'' then wrbuf_putc b 92 else Some b); for_each encode_plain b1 t})
      (concat (plain_units t))"
  proof (cases "deref t = 64")
    case True
    then obtain s where s: "t = 64 # s" by (cases t) auto
    have "wr_appends (\<lambda>b. do {b1 \<leftarrow> wrbuf_putc b 92; for_each encode_plain b1 t}) ([92] @ concat (map plain t))"
      by (intro wr.appends_bind putc_appends wr.appends_each plain_appends)
    then show ?thesis using True s by (simp add: plain_units_def plain_def)
  next
    case False
    then show ?thesis using wr.appends_each [of t encode_plain plain] plain_appends by (simp add: plain_units_def)
  qed
  have "wr_appends (\<lambda>b. do {b1 \<leftarrow> wrbuf_putc b 34; b2 \<leftarrow> for_each encode_quoted b1 t; wrbuf_putc b2 34})
      ([34] @ concat (map quoted t) @ [34])"
    by (intro wr.appends_bind putc_appends wr.appends_each quoted_appends)
  then have "wr_appends (\<lambda>b. if t \<noteq> [] \<and> (\<forall>c \<in> set t. \<not> strchr_ok (str '' \"{'') c)
      then do {b1 \<leftarrow> (if deref t = ch CHR ''@'' then wrbuf_putc b 92 else Some b); for_each encode_plain b1 t}
      else do {b1 \<leftarrow> wrbuf_putc b 34; b2 \<leftarrow> for_each encode_quoted b1 t; wrbuf_putc b2 34}) (term_text t)"
    unfolding q using p by (simp add: term_text_def)
  from wr.appends_bind [OF this putc_appends [of 32]] show ?thesis unfolding yaz_encode_pqf_term_def .
qed

lemma term_appends:
  assumes "term_printable tm"
  shows "wr_appends (\<lambda>b. term_to_wrbuf b tm) (kind_text tm @ [32])"
proof (cases tm)
  case (Z_Term_general t)
  then show ?thesis using encode_appends [of t] assms by (auto simp: term_to_wrbuf_def kind_text_def term_printable_def term_ok_def split: if_splits)
next
  case (Z_Term_characterString s)
  then have s: "no_nul s" using assms by (auto simp: term_printable_def term_ok_def split: if_splits)
  have "wr_appends (\<lambda>b. do {b1 \<leftarrow> wrbuf_puts b (str ''@term string ''); yaz_encode_pqf_term b1 (cstr s)})
      (str ''@term string '' @ term_text s @ [32])"
    using encode_appends [OF s] s by (intro wr.appends_bind puts_appends_text) simp_all
  then show ?thesis using Z_Term_characterString by (simp add: term_to_wrbuf_def kind_text_def)
next
  case (Z_Term_numeric n)
  then have n: "number_ok n" using assms by (auto simp: term_printable_def split: if_splits)
  have "wr_appends (\<lambda>b. wrbuf_printf b (str ''@term numeric '' @ num n @ [32])) (str ''@term numeric '' @ num n @ [32])"
    using num_no_nul [OF n] num_short [OF n] by (intro printf_appends) auto
  then show ?thesis using Z_Term_numeric by (simp add: term_to_wrbuf_def kind_text_def)
qed (use assms in \<open>simp_all add: term_printable_def\<close>)

lemma num_flag: "num 0 = [48]" "num 1 = [49]"
  by code_simp+

lemma prox_appends:
  assumes "prox_ok p"
  shows "wr_appends (\<lambda>b. prox_to_wrbuf b p) (prox_text p @ [32])"
proof -
  have ok: "number_ok (distance p)" "number_ok (relationType p)" "number_ok (proximityUnit p)"
    and flag: "ordered p = 0 \<or> ordered p = 1" using assms by (auto simp: prox_ok_def)
  define t1 where "t1 = [32] @ num (distance p) @ [32, if ordered p = 1 then 49 else 48, 32] @ num (relationType p) @ [32]"
  define t2 where "t2 = [32] @ num (proximityUnit p) @ [32]"
  have t: "str ('' '' @ dec_int (distance p) @ '' '' @ dec_int (ordered p) @ '' '' @ dec_int (relationType p) @ '' '') = t1"
    "str ('' '' @ dec_int (proximityUnit p) @ '' '') = t2"
    using flag by (auto simp: t1_def t2_def num_flag)
  have "no_nul t1" "length t1 \<le> 4094" "no_nul t2" "length t2 \<le> 4094"
    using num_no_nul [OF ok(1)] num_no_nul [OF ok(2)] num_no_nul [OF ok(3)] num_short [OF ok(1)] num_short [OF ok(2)] num_short [OF ok(3)]
    by (auto simp: t1_def t2_def)
  note w = printf_appends [OF this(1,2)] printf_appends [OF this(3,4)]
  show ?thesis
    unfolding prox_to_wrbuf_def t
    by (rule appends_then [OF putc_appends appends_then [OF w(1) appends_then [OF putc_appends w(2)]]])
      (simp_all add: prox_text_def exclusion_text_def t1_def t2_def)
qed

lemma op_appends:
  assumes "op_ok op"
  shows "wr_appends (\<lambda>b. do {b1 \<leftarrow> wrbuf_printf b (str (''@'' @ complex_op_name op @ '' ''));
    case op of Z_Operator_prox p \<Rightarrow> prox_to_wrbuf b1 p | _ \<Rightarrow> Some b1}) (op_text op @ [32])"
proof -
  define w where "w = str (''@'' @ complex_op_name op @ '' '')"
  have p: "wr_appends (\<lambda>b. wrbuf_printf b w) w"
    by (rule printf_appends) (simp_all add: w_def complex_op_name_def split: z_Operator.split)
  have q: "wr_appends (\<lambda>b. case op of Z_Operator_prox p \<Rightarrow> prox_to_wrbuf b p | _ \<Rightarrow> Some b)
      (case op of Z_Operator_prox p \<Rightarrow> prox_text p @ [32] | _ \<Rightarrow> [])"
    using prox_appends assms wr.appends_nothing by (cases op) (simp_all add: op_ok_def)
  show ?thesis
    unfolding w_def [symmetric] by (rule appends_then [OF p q]) (simp add: w_def op_text_def split: z_Operator.split)
qed

lemma structure_appends:
  "query_printable env s \<Longrightarrow> wr_appends (\<lambda>b. yaz_rpnstructure_to_wrbuf env b s) (structure_text env s @ [32])"
proof (induction env s rule: query_printable.induct)
  case (1 env op s1 s2)
  then have p: "op_ok op" "query_printable env s1" "query_printable env s2" by simp_all
  note IH = "1.IH"(1) [OF p(2)] "1.IH"(2) [OF p(3)]
  show ?case using appends_then [OF op_appends [OF p(1)] wr.appends_bind [OF IH]] by simp
next
  case (2 env al tm)
  then have "attrs_ok env al" "term_printable tm" by simp_all
  then show ?case
    using wr.appends_bind [OF attrs_appends term_appends] by (simp add: yaz_apt_to_wrbuf_def attrs_ok_def)
next
  case (3 env s)
  then have s: "no_nul s" by (simp add: term_ok_def)
  have p: "wr_appends (\<lambda>b. wrbuf_printf b (str ''@set '')) (str ''@set '')" by (rule printf_appends) simp_all
  show ?case using wr.appends_bind [OF p encode_appends [OF s]] s by simp
qed simp_all

text \<open>Only the blank behind the text is chopped.\<close>

lemma last_plain: "t \<noteq> [] \<Longrightarrow> last (concat (map plain t)) = last t \<and> concat (map plain t) \<noteq> []"
  by (induction t) (auto simp: plain_def)

lemma term_text_end: "term_text t \<noteq> [] \<and> last (term_text t) \<noteq> 32"
proof (cases "needs_quotes t")
  case True
  then show ?thesis by (simp add: term_text_def)
next
  case False
  then have t: "t \<noteq> []" "last t \<noteq> 32" by (auto simp: needs_quotes_def)
  have u: "concat (plain_units t) = (if deref t = 64 then [92] else []) @ concat (map plain t)"
    using t(1) by (cases t) (auto simp: plain_units_def plain_def)
  show ?thesis using False t last_plain [OF t(1)] unfolding term_text_def u by simp
qed

lemma num_end: "number_ok n \<Longrightarrow> num n \<noteq> [] \<and> last (num n) \<noteq> 32"
  using num_head [of n] num_digits [of n "last (num n)"] digit_class [of "last (num n)"] by (metis last_in_set list.distinct(1))

lemma structure_text_end: "query_printable env s \<Longrightarrow> structure_text env s \<noteq> [] \<and> last (structure_text env s) \<noteq> 32"
proof (induction env s rule: query_printable.induct)
  case (2 env al tm)
  then have "kind_text tm \<noteq> [] \<and> last (kind_text tm) \<noteq> 32"
    using term_text_end num_end by (auto simp: kind_text_def term_printable_def split: z_Term.splits)
  then show ?case by simp
next
  case (3 env s)
  then show ?case using term_text_end [of s] by simp
qed simp_all

definition query_text :: "oid_env \<Rightarrow> z_RPNQuery \<Rightarrow> byte list" where
  "query_text env q = str ''@attrset '' @ oid_text env (attributeSetId q) @ 32 # structure_text env (rpnStructure q)"

lemma query_printed:
  assumes "name_ok env (oid_text env (attributeSetId q)) (attributeSetId q)" and "query_printable env (rpnStructure q)"
    and "wrbuf_wf b" and "wrbuf_content b = []"
  shows "\<exists>b'. yaz_rpnquery_to_wrbuf env b q = Some b' \<and> wrbuf_wf b' \<and> wrbuf_content b' = query_text env q"
proof -
  define nm where "nm = oid_text env (attributeSetId q)"
  obtain oc where o: "yaz_oid_to_string_buf (env_std env) (env_db env) (attributeSetId q) = Some (nm, oc)"
    using assms(1) by (auto simp: name_ok_def nm_def)
  have nm: "no_nul nm" "length nm \<le> 30" using assms(1) word_no_nul by (auto simp: name_ok_def nm_def)
  have "wr_appends (\<lambda>b. wrbuf_printf b (str ''@attrset '' @ nm @ [32])) (str ''@attrset '' @ nm @ [32])"
    using nm by (intro printf_appends) simp_all
  from wr.appends_bind [OF this structure_appends [OF assms(2)]]
  obtain b1 where b1: "do {b1 \<leftarrow> wrbuf_printf b (str ''@attrset '' @ nm @ [32]); yaz_rpnstructure_to_wrbuf env b1 (rpnStructure q)} = Some b1"
      "wrbuf_wf b1" "wrbuf_content b1 = query_text env q @ [32]"
    using assms(3,4) by (auto simp: appends_to_def query_text_def nm_def)
  have "query_text env q \<noteq> [] \<and> last (query_text env q) \<noteq> 32"
    using structure_text_end [OF assms(2)] by (simp add: query_text_def)
  then have "rev (dropWhile (\<lambda>c. c = 32) (rev (query_text env q @ [32]))) = query_text env q"
    by (cases "query_text env q" rule: rev_cases) auto
  then obtain b2 where b2: "wrbuf_chop_right b1 = Some b2" "wrbuf_wf b2" "wrbuf_content b2 = query_text env q"
    using chop_right_spec [OF b1(2)] b1(3) by auto
  have "yaz_rpnquery_to_wrbuf env b q = Some b2"
    using o b1(1) b2(1) nm by (simp add: yaz_rpnquery_to_wrbuf_def bind_eq_Some_conv) auto
  then show ?thesis using b2 by blast
qed

text \<open>The printed text has no NUL character.\<close>

lemma term_no_nul: "term_ok t \<Longrightarrow> 0 \<notin> set (term_text t)"
  by (cases t) (auto simp: term_ok_def term_text_def plain_units_def plain_def quoted_def)

lemma elem_no_nul: "elem_ok env e \<Longrightarrow> 0 \<notin> set (elem_text env e)"
  using word_chars_value [of "attributeValue e"] num_no_nul [of "attributeType e"]
  by (cases "attributeSet e") (auto simp: elem_ok_def elem_text_def set_text_def name_ok_def word_chars_def)

lemma op_no_nul: "op_ok op \<Longrightarrow> 0 \<notin> set (op_text op)"
  using num_no_nul
  by (auto simp: op_ok_def op_text_def complex_op_name_def prox_ok_def prox_text_def exclusion_text_def split: z_Operator.splits)

lemma kind_no_nul: "term_printable tm \<Longrightarrow> 0 \<notin> set (kind_text tm)"
  using term_no_nul num_no_nul by (auto simp: term_printable_def kind_text_def split: z_Term.splits)

lemma structure_no_nul: "query_printable env s \<Longrightarrow> 0 \<notin> set (structure_text env s)"
proof (induction env s rule: query_printable.induct)
  case (1 env op s1 s2)
  then show ?case using op_no_nul by auto
next
  case (2 env al tm)
  then show ?case using kind_no_nul elem_no_nul by (auto simp: attrs_text_def attrs_ok_def)
next
  case (3 env s)
  then show ?case using term_no_nul by auto
qed simp_all

lemma query_parsed:
  assumes "name_ok env (oid_text env (attributeSetId q)) (attributeSetId q)" and "query_printable env (rpnStructure q)"
  shows "p_query_rpn env m (query_text env q) = Some (q\<lparr>rpnStructure := read_back T_general (rpnStructure q)\<rparr>)"
proof -
  define nm t where "nm = oid_text env (attributeSetId q)" and "t = structure_text env (rpnStructure q)"
  define li where "li = pqf_parser_begin (yaz_pqf_create m) (query_text env q)"
  have "cstr (query_text env q) = query_text env q"
    using structure_no_nul [OF assms(2)] assms(1) by (auto simp: query_text_def name_ok_def word_chars_def)
  then have "before li T_general (str ''@attrset'' @ 32 # nm @ 32 # t)"
    by (simp add: li_def before_def std_parser_def ahead_def pqf_parser_begin_def yaz_pqf_create_def query_text_def nm_def t_def)
  then have a: "query_look (lex li) = Tok_attrset" "before (lex li) T_general (nm @ 32 # t)"
    using before_command [of li T_general "str ''@attrset''" "32 # nm @ 32 # t" Tok_attrset] by (simp_all add: commands_def)
  have n: "lex_buf (lex (lex li)) = nm @ 32 # t" "lex_len (lex (lex li)) = length nm" "before (lex (lex li)) T_general (t @ [])"
    using before_word [OF a(2) at_blank_Cons] assms(1) by (simp_all add: name_ok_def nm_def)
  have as: "attribute_set env li = (Some (attributeSetId q), lex (lex (lex li)))"
    using a(1) name_found [OF assms(1)] n(1,2) by (simp add: attribute_set_def Let_def nm_def)
  obtain l where l: "rpn_structure env (lex (lex (lex li))) [] = (Some (read_back T_general (rpnStructure q)), lex l)"
      "before l (type_behind T_general (rpnStructure q)) []"
    using structure_back [OF n(3) [unfolded t_def] _ assms(2)] by (auto simp: at_blank_def tag_known_def)
  have "dropWhile (\<lambda>c. c = 32) (query_ptr l) = []" using l(2) by (simp add: before_def ahead_def)
  then have "query_look (lex l) = Tok_end" unfolding lex_def query_token_def Let_def by (simp only: deref_Nil if_True) simp
  then show ?thesis using as l(1) by (simp add: p_query_rpn_def p_query_rpn_mk_def flip: li_def)
qed

section \<open>Properties\<close>


definition bib1_env :: oid_env where
  "bib1_env = \<lparr>env_std = [\<lparr>oclass = CLASS_ATTSET, entry_oid = [1, 2, 840, 10003, 3, 1, -1], entry_name = str ''Bib-1''\<rparr>],
     env_bib_1 = [1, 2, 840, 10003, 3, 1, -1], env_db = yaz_oid_std, env_fresh = (\<lambda>_. 0)\<rparr>"

definition sample_query :: z_RPNQuery where
  "sample_query = \<lparr>attributeSetId = [1, 2, 840, 10003, 3, 1, -1],
     rpnStructure = Z_RPNStructure_complex Z_Operator_and
       (Z_RPNStructure_simple (Z_Operand_APT
          [\<lparr>attributeSet = None, attributeType = 1, attributeValue = Z_AttributeValue_numeric 4\<rparr>,
           \<lparr>attributeSet = Some [1, 2, 840, 10003, 3, 1, -1], attributeType = 2,
            attributeValue = Z_AttributeValue_complex [Z_string (str ''ab'')]\<rparr>]
          (Z_Term_general (str ''a b''))))
       (Z_RPNStructure_complex (Z_Operator_prox \<lparr>exclusion = None, distance = 1, ordered = 1, relationType = 2,
            prox_private = False, proximityUnit = 2\<rparr>)
          (Z_RPNStructure_simple (Z_Operand_resultSetId (str ''s1'')))
          (Z_RPNStructure_simple (Z_Operand_APT [] (Z_Term_numeric 12))))\<rparr>"

lemma bib1_name:
  "yaz_oid_to_string_buf (env_std bib1_env) (env_db bib1_env) [1, 2, 840, 10003, 3, 1, -1] = Some (str ''Bib-1'', CLASS_ATTSET)"
  "yaz_string_to_oid_odr (env_std bib1_env) (env_fresh bib1_env) (env_db bib1_env) CLASS_ATTSET (str ''Bib-1'') =
     Some (Some [1, 2, 840, 10003, 3, 1, -1])"
  "oid_text bib1_env [1, 2, 840, 10003, 3, 1, -1] = str ''Bib-1''"
  by code_simp+

lemma bib1_name_ok: "name_ok bib1_env (str ''Bib-1'') [1, 2, 840, 10003, 3, 1, -1]"
  using bib1_name by (simp add: name_ok_def word_chars_def word_start_def)

lemma sample_printable:
  "attributeSetId sample_query = [1, 2, 840, 10003, 3, 1, -1]"
  "query_printable bib1_env (rpnStructure sample_query)"
  "read_back T_general (rpnStructure sample_query) = attributes_reversed (rpnStructure sample_query)"
  using bib1_name(3) bib1_name_ok
  by (simp_all add: sample_query_def attrs_ok_def elem_ok_def value_ok_def number_ok_def word_chars_def term_printable_def term_ok_def
      needs_quotes_def op_ok_def prox_ok_def yaz_isdigit_def term_read_def tag_behind_def escaped_same)


end
