(* ===== verification/Yaz_Marc.thy ===== *)
theory Yaz_Marc
  imports Yaz_Utf8 Yaz_Scan Yaz_Wrbuf
begin

text \<open>
  MARC records: the record handle of \<^verbatim>\<open>marcdisp.c\<close>, the reader of ISO 2709 (\<^verbatim>\<open>marc_read_iso2709.c\<close>) and
  the writers of \<^verbatim>\<open>marcdisp.c\<close> that produce ISO 2709, lines, JSON and XML text. The handle has no character
  conversion (\<^verbatim>\<open>iconv_cd\<close> is null) and does not use libxml2 for output. A record given to the reader is
  the memory at \<^verbatim>\<open>buf\<close>: a read behind its end has no result.
\<close>

section \<open>The record handle\<close>

datatype marc_node =
    YAZ_MARC_DATAFIELD "byte list" "byte list" "byte list list"
  | YAZ_MARC_CONTROLFIELD "byte list" "byte list"
  | YAZ_MARC_COMMENT "byte list"
  | YAZ_MARC_LEADER "byte list"

datatype marc_format = YAZ_MARC_LINE | YAZ_MARC_SIMPLEXML | YAZ_MARC_OAIMARC | YAZ_MARC_MARCXML | YAZ_MARC_ISO2709
  | YAZ_MARC_XCHANGE | YAZ_MARC_CHECK | YAZ_MARC_TURBOMARC | YAZ_MARC_JSON

datatype yaz_collection_state = no_collection | collection_first | collection_second

text \<open>
  \<open>subfield_pp\<close> is the index of the data field whose list of subfields the pointer of that name is
  in. The texts of fields and comments are C strings; the leader is kept as its 24 bytes. \<open>marc_fresh\<close> is the
  content of new memory.
\<close>

record yaz_marc =
  nodes :: "marc_node list"
  subfield_pp :: "nat option"
  output_format :: marc_format
  marc_debug :: bool
  enable_collection :: yaz_collection_state
  subfield_str :: "byte list"
  endline_str :: "byte list"
  leader_spec :: "byte list option"
  marc_fresh :: "nat \<Rightarrow> byte"

definition yaz_marc_reset :: "yaz_marc \<Rightarrow> yaz_marc" where
  "yaz_marc_reset mt = mt\<lparr>nodes := [], subfield_pp := None\<rparr>"

definition yaz_marc_create :: "(nat \<Rightarrow> byte) \<Rightarrow> yaz_marc" where
  "yaz_marc_create fresh = yaz_marc_reset
     \<lparr>nodes = [], subfield_pp = None, output_format = YAZ_MARC_LINE, marc_debug = False, enable_collection = no_collection,
      subfield_str = str '' $'', endline_str = [10], leader_spec = None, marc_fresh = fresh\<rparr>"

definition yaz_marc_subfield_str :: "yaz_marc \<Rightarrow> byte list \<Rightarrow> yaz_marc" where
  "yaz_marc_subfield_str mt s = mt\<lparr>subfield_str := take 7 (cstr s)\<rparr>"

definition yaz_marc_endline_str :: "yaz_marc \<Rightarrow> byte list \<Rightarrow> yaz_marc" where
  "yaz_marc_endline_str mt s = mt\<lparr>endline_str := take 7 (cstr s)\<rparr>"

definition yaz_marc_enable_collection :: "yaz_marc \<Rightarrow> yaz_marc" where
  "yaz_marc_enable_collection mt = mt\<lparr>enable_collection := collection_first\<rparr>"

definition yaz_marc_xml :: "yaz_marc \<Rightarrow> marc_format \<Rightarrow> yaz_marc" where
  "yaz_marc_xml mt xmlmode = mt\<lparr>output_format := xmlmode\<rparr>"

definition yaz_marc_debug :: "yaz_marc \<Rightarrow> bool \<Rightarrow> yaz_marc" where
  "yaz_marc_debug mt level = mt\<lparr>marc_debug := level\<rparr>"

definition yaz_marc_add_node :: "yaz_marc \<Rightarrow> marc_node \<Rightarrow> yaz_marc" where
  "yaz_marc_add_node mt n = mt\<lparr>nodes := nodes mt @ [n]\<rparr>"

definition yaz_marc_add_comment :: "yaz_marc \<Rightarrow> byte list \<Rightarrow> yaz_marc" where
  "yaz_marc_add_comment mt comment = yaz_marc_add_node mt (YAZ_MARC_COMMENT (cstr comment))"

text \<open>The formatted text of \<^verbatim>\<open>yaz_marc_cprintf\<close> is cut to the buffer it is formatted in.\<close>

definition yaz_marc_cprintf :: "yaz_marc \<Rightarrow> byte list \<Rightarrow> yaz_marc" where
  "yaz_marc_cprintf mt s = yaz_marc_add_comment mt (take 198 (cstr s))"

definition pad_left :: "nat \<Rightarrow> string \<Rightarrow> string" where
  "pad_left n s = replicate (n - length s) CHR '' '' @ s"

text \<open>The debug comment with the first 16 bytes of some data, cut to 79 characters.\<close>

definition hex_dump :: "string \<Rightarrow> byte list \<Rightarrow> byte list" where
  "hex_dump title data =
     take 79 (str title @ concat (map (\<lambda>c. [32, hex_upper (unat c div 16), hex_upper (unat c mod 16)]) (take 16 data)) @
       (if length data > 16 then str '' ..'' else []))"

definition yaz_marc_add_controlfield :: "yaz_marc \<Rightarrow> byte list \<Rightarrow> byte list \<Rightarrow> yaz_marc" where
  "yaz_marc_add_controlfield mt tag data =
     (let mt1 = yaz_marc_add_node mt (YAZ_MARC_CONTROLFIELD (cstr tag) (cstr data)) in
      if marc_debug mt1 then yaz_marc_add_comment mt1 (hex_dump ''controlfield:'' data) else mt1)"

definition yaz_marc_add_datafield :: "yaz_marc \<Rightarrow> byte list \<Rightarrow> byte list \<Rightarrow> yaz_marc" where
  "yaz_marc_add_datafield mt tag indicator =
     (yaz_marc_add_node mt (YAZ_MARC_DATAFIELD (cstr tag) (cstr indicator) []))\<lparr>subfield_pp := Some (length (nodes mt))\<rparr>"

fun append_subfield :: "marc_node \<Rightarrow> byte list \<Rightarrow> marc_node" where
  "append_subfield (YAZ_MARC_DATAFIELD tag ind ss) s = YAZ_MARC_DATAFIELD tag ind (ss @ [s])"
| "append_subfield n s = n"

definition yaz_marc_add_subfield :: "yaz_marc \<Rightarrow> byte list \<Rightarrow> yaz_marc" where
  "yaz_marc_add_subfield mt code_data =
     (let mt1 = (if marc_debug mt then yaz_marc_add_comment mt (hex_dump ''subfield:'' code_data) else mt) in
      case subfield_pp mt1 of
        None \<Rightarrow> mt1
      | Some k \<Rightarrow> mt1\<lparr>nodes := (nodes mt1)[k := append_subfield (nodes mt1 ! k) (cstr code_data)]\<rparr>)"

section \<open>The leader\<close>

text \<open>
  \<open>sscanf_pos s\<close> is \<^verbatim>\<open>sscanf(cp, "%d=%20[^,]%n", &pos, val, &no_read)\<close> when both values are read: the
  position, the value and the rest of the text.
\<close>

definition sscanf_pos :: "byte list \<Rightarrow> (int \<times> byte list \<times> byte list) option" where
  "sscanf_pos s =
     (let t = dropWhile c_isspace s;
          neg = (deref t = ch CHR ''-'');
          u = (if neg \<or> deref t = ch CHR ''+'' then tl t else t);
          r = dropWhile yaz_isdigit u;
          val = take 20 (takeWhile (\<lambda>c. c \<noteq> ch CHR '','') (tl r))
      in if yaz_isdigit (deref u) \<and> deref r = ch CHR ''='' \<and> val \<noteq> []
         then Some (if neg then - digits_value u else digits_value u, val, drop (length val) (tl r))
         else None)"

lemma sscanf_pos_shorter: "sscanf_pos s = Some (p, v, r) \<Longrightarrow> length r < length s"
proof -
  assume a: "sscanf_pos s = Some (p, v, r)"
  define t where "t = dropWhile c_isspace s"
  define u where "u = (if deref t = ch CHR ''-'' \<or> deref t = ch CHR ''+'' then tl t else t)"
  have u: "length u \<le> length s"
    using length_dropWhile_le [of c_isspace s] by (cases t) (auto simp: u_def t_def [symmetric])
  have "deref (dropWhile yaz_isdigit u) = ch CHR ''=''" "r = drop (length v) (tl (dropWhile yaz_isdigit u))"
    using a by (auto simp: sscanf_pos_def Let_def u_def t_def split: if_splits)
  then show ?thesis
    using u length_dropWhile_le [of yaz_isdigit u] by (cases "dropWhile yaz_isdigit u") auto
qed

text \<open>The result is (return value is 0, leader); the settings before an error stay.\<close>

function exec_leader :: "byte list \<Rightarrow> byte list \<Rightarrow> bool \<times> byte list" where
  "exec_leader cp leader =
     (case sscanf_pos cp of
        None \<Rightarrow> (False, leader)
      | Some (p, val, r) \<Rightarrow>
          if p < 0 \<or> p \<ge> int (length leader) then (False, leader)
          else if deref val = 39 then
            (if 39 \<notin> set (tl val) then (False, leader)
             else let v = takeWhile (\<lambda>c. c \<noteq> 39) (tl val) in
               if length v + nat p > length leader then (False, leader)
               else let leader1 = take (nat p) leader @ v @ drop (nat p + length v) leader in
                 if deref r = ch CHR '','' then exec_leader (tl r) leader1 else (True, leader1))
          else if yaz_isdigit (deref val) then
            let leader1 = leader[nat p := of_int (odr_atoi val)] in
            if deref r = ch CHR '','' then exec_leader (tl r) leader1 else (True, leader1)
          else (False, leader))"
  by pat_completeness auto
termination
  by (relation "measure (\<lambda>(cp, leader). length cp)") (auto dest: sscanf_pos_shorter intro: order.strict_trans1)

declare exec_leader.simps [simp del]

definition marc_exec_leader :: "byte list option \<Rightarrow> byte list \<Rightarrow> bool \<times> byte list" where
  "marc_exec_leader spec leader = (case spec of None \<Rightarrow> (True, leader) | Some cp \<Rightarrow> exec_leader cp leader)"

text \<open>The result is (return value is 0, handle); the check is done on a leader with arbitrary content.\<close>

definition yaz_marc_leader_spec :: "yaz_marc \<Rightarrow> byte list option \<Rightarrow> bool \<times> yaz_marc" where
  "yaz_marc_leader_spec mt spec =
     (case spec of
        None \<Rightarrow> (True, mt\<lparr>leader_spec := None\<rparr>)
      | Some s \<Rightarrow>
          if fst (marc_exec_leader spec (map (marc_fresh mt) [0..<24])) then (True, mt\<lparr>leader_spec := Some (cstr s)\<rparr>)
          else (False, mt\<lparr>leader_spec := None\<rparr>))"

definition yaz_marc_add_leader :: "yaz_marc \<Rightarrow> byte list \<Rightarrow> yaz_marc" where
  "yaz_marc_add_leader mt leader = yaz_marc_add_node mt (YAZ_MARC_LEADER (snd (marc_exec_leader (leader_spec mt) leader)))"

fun modify_first_leader :: "marc_node list \<Rightarrow> nat \<Rightarrow> byte list \<Rightarrow> marc_node list" where
  "modify_first_leader [] off s = []"
| "modify_first_leader (YAZ_MARC_LEADER l # ns) off s = YAZ_MARC_LEADER (take off l @ s @ drop (off + length s) l) # ns"
| "modify_first_leader (n # ns) off s = n # modify_first_leader ns off s"

definition yaz_marc_modify_leader :: "yaz_marc \<Rightarrow> nat \<Rightarrow> byte list \<Rightarrow> yaz_marc" where
  "yaz_marc_modify_leader mt off s = mt\<lparr>nodes := modify_first_leader (nodes mt) off (cstr s)\<rparr>"

definition check_ascii :: "nat \<Rightarrow> byte \<Rightarrow> yaz_marc \<times> byte list \<Rightarrow> yaz_marc \<times> byte list" where
  "check_ascii offset ch_default ml =
     (case ml of (mt, leader) \<Rightarrow>
        if schar (leader ! offset) < 32 then
          (yaz_marc_cprintf mt (str (''Leader character at offset '' @ dec_int (int offset) @ '' is non-ASCII. Setting value to '' @ [CHR 0x27])
             @ [ch_default, 39]), leader[offset := ch_default])
        else (mt, leader))"

text \<open>A one-digit number of the leader: a value that is not a number or below \<open>least\<close> is replaced, with a comment.\<close>

definition check_digit :: "nat \<Rightarrow> int \<Rightarrow> int \<Rightarrow> string \<Rightarrow> yaz_marc \<times> byte list \<Rightarrow> int \<times> yaz_marc \<times> byte list" where
  "check_digit offset least dflt msg ml =
     (case ml of (mt, leader) \<Rightarrow>
        case atoi_n_check [leader ! offset] 0 of (ok, val) \<Rightarrow>
          if \<not> ok \<or> val < least
          then (dflt, yaz_marc_cprintf mt (str msg), leader[offset := of_int (48 + dflt)])
          else (val, mt, leader))"

record leader_info =
  indicator_length :: int
  identifier_length :: int
  base_address :: int
  length_data_entry :: int
  length_starting :: int
  length_implementation :: int

definition debug_leader :: "leader_info \<Rightarrow> yaz_marc \<Rightarrow> yaz_marc" where
  "debug_leader li mt =
     (if marc_debug mt then
        fold (\<lambda>(title, v) mt. yaz_marc_cprintf mt (str (title @ pad_left 5 (dec_int v))))
          [(''Indicator length      '', indicator_length li), (''Identifier length     '', identifier_length li),
           (''Base address          '', base_address li), (''Length data entry     '', length_data_entry li),
           (''Length starting       '', length_starting li), (''Length implementation '', length_implementation li)] mt
      else mt)"

text \<open>The argument is the first 24 bytes of the record.\<close>

definition yaz_marc_set_leader :: "yaz_marc \<Rightarrow> byte list \<Rightarrow> leader_info \<times> yaz_marc" where
  "yaz_marc_set_leader mt leader_c =
     (let ml = check_ascii 9 35 (check_ascii 8 35 (check_ascii 7 97 (check_ascii 6 97 (check_ascii 5 97 (mt, leader_c)))));
          (ind, ml) = check_digit 10 1 2 ''Indicator length at offset 10 should hold a number 1-9. Assuming 2'' ml;
          (idf, ml) = check_digit 11 1 2 ''Identifier length at offset 11 should  hold a number 1-9. Assuming 2'' ml;
          (base, mt, leader) = (case ml of (mt, leader) \<Rightarrow>
             case atoi_n_check (take 5 (drop 12 leader)) 0 of (ok, val) \<Rightarrow>
               if ok then (val, mt, leader)
               else (0, yaz_marc_cprintf mt (str ''Base address at offsets 12..16 should hold a number. Assuming 0''), leader));
          ml = check_ascii 19 35 (check_ascii 18 35 (check_ascii 17 35 (mt, leader)));
          (lde, ml) = check_digit 20 3 4 ''Length data entry at offset 20 should hold a number 3-9. Assuming 4'' ml;
          (lst, ml) = check_digit 21 4 5 ''Length starting at offset 21 should hold a number 4-9. Assuming 5'' ml;
          (lim, ml) = check_digit 22 0 0 ''Length implementation at offset 22 should hold a number. Assuming 0'' ml;
          (mt, leader) = check_ascii 23 48 ml;
          li = \<lparr>indicator_length = ind, identifier_length = idf, base_address = base, length_data_entry = lde,
                length_starting = lst, length_implementation = lim\<rparr>
      in (li, yaz_marc_add_leader (debug_leader li mt) leader))"

section \<open>Characters\<close>

text \<open>
  The size of the character at \<open>m\<close>: the reader of UTF-8 is given four bytes, whether or not they are
  there, and looks at the second to fourth byte as far as the first one and the ones before ask for it.
\<close>

definition utf8_need :: "byte \<Rightarrow> nat" where
  "utf8_need c = (if c \<le> 0xbf \<or> c \<ge> 0xf8 then 1 else if c \<le> 0xdf then 2 else if c \<le> 0xef then 3 else 4)"

definition cdata_one_character :: "byte list \<Rightarrow> nat cres" where
  "cdata_one_character m =
     (if m = [] \<or> length m < utf8_need (hd m) \<and> (\<forall>c \<in> set (tl m). cont c) then None
      else do {
        (_, no_read, err) \<leftarrow> yaz_read_UTF8_char (take 4 (m @ replicate 3 0)) ICONV_NONE;
        Some (if err = ICONV_NONE \<and> no_read > 0 then no_read else 1)})"

definition yaz_marc_sizeof_char :: "byte list \<Rightarrow> nat cres" where
  "yaz_marc_sizeof_char m = cdata_one_character m"

text \<open>In a C string the terminator follows.\<close>

definition char_size :: "byte list \<Rightarrow> nat" where
  "char_size s = (case cdata_one_character (s @ [0]) of Some n \<Rightarrow> n | None \<Rightarrow> 1)"

definition get_subfield_len :: "byte list \<Rightarrow> int \<Rightarrow> nat" where
  "get_subfield_len data idlen = (if idlen > 2 then nat (idlen - 1) else char_size data)"

section \<open>Reading ISO 2709 (marc read iso2709)\<close>

definition ISO2709_RS :: byte where "ISO2709_RS = 29"
definition ISO2709_FS :: byte where "ISO2709_FS = 30"
definition ISO2709_IDFS :: byte where "ISO2709_IDFS = 31"

definition escaped_text :: "yaz_marc \<Rightarrow> byte list \<Rightarrow> byte list cres" where
  "escaped_text mt s = do {
     hex \<leftarrow> wrbuf_write_escaped (wrbuf_alloc (marc_fresh mt)) s;
     (t, _) \<leftarrow> wrbuf_cstr hex;
     Some t}"

definition debug_entry :: "byte list \<Rightarrow> nat \<Rightarrow> nat \<Rightarrow> nat \<Rightarrow> yaz_marc \<Rightarrow> yaz_marc cres" where
  "debug_entry buf entry_p lde lst mt =
     (if marc_debug mt then do {
        tag \<leftarrow> rds buf entry_p 3;
        tag_text \<leftarrow> escaped_text mt tag;
        len \<leftarrow> rds buf (entry_p + 3) lde;
        len_text \<leftarrow> escaped_text mt len;
        start \<leftarrow> rds buf (entry_p + 3 + lde) lst;
        start_text \<leftarrow> escaped_text mt start;
        Some (yaz_marc_cprintf mt (str (''Directory offset '' @ dec_int (int entry_p) @ '': Tag '') @ tag_text @ str '', length '' @
          len_text @ str '', starting '' @ start_text))}
      else Some mt)"

text \<open>
  First pass: the end of the directory. \<open>None\<close> in the result is the return value -1. The digits are
  looked at from the last one to the first one.
\<close>

function dir_scan :: "byte list \<Rightarrow> nat \<Rightarrow> nat \<Rightarrow> nat \<Rightarrow> nat \<Rightarrow> yaz_marc \<Rightarrow> (nat option \<times> yaz_marc) cres" where
  "dir_scan buf record_length lde lst entry_p mt =
     (case rd buf entry_p of
        None \<Rightarrow> None
      | Some c \<Rightarrow>
          if c = ISO2709_FS then Some (Some entry_p, mt)
          else if entry_p + (3 + lde + lst) \<ge> record_length then
            Some (None, yaz_marc_cprintf mt (str (''Directory offset '' @ dec_int (int entry_p) @ '': end of record. Missing FS char'')))
          else (case debug_entry buf entry_p lde lst mt of
             None \<Rightarrow> None
           | Some mt1 \<Rightarrow>
               (case rds buf entry_p (3 + lde + lst) of
                  None \<Rightarrow> None
                | Some e \<Rightarrow>
                    if \<forall>d \<in> set (drop 3 e). yaz_isdigit d then dir_scan buf record_length lde lst (entry_p + (3 + lde + lst)) mt1
                    else (case escaped_text mt1 e of
                       None \<Rightarrow> None
                     | Some t \<Rightarrow> Some (Some entry_p, yaz_marc_cprintf mt1 (str (''Directory offset '' @ dec_int (int entry_p) @
                         '': Bad value for data length and/or length starting ('') @ t @ str '')'')))))) "
  by pat_completeness auto
termination
  by (relation "measure (\<lambda>(buf, record_length, lde, lst, entry_p, mt). record_length - entry_p)") auto

declare dir_scan.simps [simp del]

definition is_sep :: "byte \<Rightarrow> bool" where
  "is_sep c \<longleftrightarrow> c = ISO2709_RS \<or> c = ISO2709_FS"

text \<open>The loop over the content of a data field: (position, start of the current subfield, handle).\<close>

function subfield_loop :: "byte list \<Rightarrow> nat \<Rightarrow> nat \<Rightarrow> nat \<Rightarrow> yaz_marc \<Rightarrow> (nat \<times> nat \<times> yaz_marc) cres" where
  "subfield_loop buf end_offset i code_offset mt =
     (if i < end_offset then
        (case rd buf i of
           None \<Rightarrow> None
         | Some c \<Rightarrow>
             if is_sep c then Some (i, code_offset, mt)
             else if c = ISO2709_IDFS \<and> i + 1 < end_offset then
               (case rd buf (i + 1) of
                  None \<Rightarrow> None
                | Some d \<Rightarrow>
                    if schar d \<ge> 0 \<and> schar d \<le> 32 then subfield_loop buf end_offset (i + 1) code_offset mt
                    else subfield_loop buf end_offset (i + 1) (i + 1)
                      (if i > code_offset then yaz_marc_add_subfield mt (take (i - code_offset) (drop code_offset buf)) else mt))
             else subfield_loop buf end_offset (i + 1) code_offset mt)
      else Some (i, code_offset, mt))"
  by pat_completeness auto
termination
  by (relation "measure (\<lambda>(buf, end_offset, i, code_offset, mt). end_offset - i)") auto

declare subfield_loop.simps [simp del]

text \<open>The position behind \<open>n\<close> characters.\<close>

fun skip_chars :: "byte list \<Rightarrow> nat \<Rightarrow> nat \<Rightarrow> nat cres" where
  "skip_chars buf 0 i = Some i"
| "skip_chars buf (Suc n) i = do {k \<leftarrow> yaz_marc_sizeof_char (drop i buf); skip_chars buf n (i + k)}"

text \<open>How a field of the directory is taken: 0 for a control field, 1 or 2 for a data field that starts there or one byte behind.\<close>

definition identifier_flag :: "byte list \<Rightarrow> leader_info \<Rightarrow> byte list \<Rightarrow> nat \<Rightarrow> nat cres" where
  "identifier_flag buf li tag i =
     (if take 2 tag \<noteq> str ''00'' then Some 1
      else if indicator_length li < 4 \<and> indicator_length li > 0 then do {
        c \<leftarrow> rd buf (i + nat (indicator_length li));
        if c = ISO2709_IDFS then Some 1
        else do {
          d \<leftarrow> rd buf (i + nat (indicator_length li) + 1);
          Some (if d = ISO2709_IDFS then 2 else 0)}}
      else Some 0)"

definition read_datafield :: "byte list \<Rightarrow> leader_info \<Rightarrow> byte list \<Rightarrow> nat \<Rightarrow> nat \<Rightarrow> yaz_marc \<Rightarrow> (nat \<times> yaz_marc) cres" where
  "read_datafield buf li tag i end_offset mt = do {
     (i1, mt1) \<leftarrow> (if indicator_length li \<noteq> 0 then do {
        i1 \<leftarrow> skip_chars buf (nat (indicator_length li)) i;
        ind \<leftarrow> rds buf i (i1 - i);
        Some (i1, yaz_marc_add_datafield mt tag ind)} else Some (i, mt));
     (i2, code_offset, mt2) \<leftarrow> subfield_loop buf end_offset i1 (i1 + 1) mt1;
     Some (i2, if i2 > code_offset then yaz_marc_add_subfield mt2 (take (i2 - code_offset) (drop code_offset buf)) else mt2)}"

function data_end :: "byte list \<Rightarrow> nat \<Rightarrow> nat \<Rightarrow> nat cres" where
  "data_end buf end_offset i =
     (if i < end_offset then
        (case rd buf i of None \<Rightarrow> None | Some c \<Rightarrow> if is_sep c then Some i else data_end buf end_offset (i + 1))
      else Some i)"
  by pat_completeness auto
termination
  by (relation "measure (\<lambda>(buf, end_offset, i). end_offset - i)") auto

declare data_end.simps [simp del]

definition read_controlfield :: "byte list \<Rightarrow> byte list \<Rightarrow> nat \<Rightarrow> nat \<Rightarrow> yaz_marc \<Rightarrow> (nat \<times> yaz_marc) cres" where
  "read_controlfield buf tag i end_offset mt = do {
     i1 \<leftarrow> data_end buf end_offset i;
     Some (i1, yaz_marc_add_controlfield mt tag (take (i1 - i) (drop i buf)))}"

text \<open>The end of a field: a separator is expected at its last byte.\<close>

definition field_end :: "byte list \<Rightarrow> nat \<Rightarrow> nat \<Rightarrow> int \<Rightarrow> yaz_marc \<Rightarrow> yaz_marc cres" where
  "field_end buf i end_offset data_length mt = do {
     mt1 \<leftarrow> Some (if i < end_offset then yaz_marc_cprintf mt (str (''Separator but not at end of field length='' @ dec_int data_length)) else mt);
     c \<leftarrow> rd buf i;
     Some (if \<not> is_sep c then yaz_marc_cprintf mt1 (str (''No separator at end of field length='' @ dec_int data_length)) else mt1)}"

definition debug_field :: "byte list \<Rightarrow> nat \<Rightarrow> int \<Rightarrow> int \<Rightarrow> yaz_marc \<Rightarrow> yaz_marc" where
  "debug_field tag entry_p0 data_length data_offset mt =
     (if marc_debug mt then yaz_marc_cprintf mt (str ''Tag: '' @ cstr tag @ str (''. Directory offset '' @ dec_int (int entry_p0) @
        '': data-length '' @ dec_int data_length @ '', data-offset '' @ dec_int data_offset))
      else mt)"

text \<open>
  One entry of the directory in the second pass; the result is (go on, handle). The numbers of an entry
  are below 1000000000, so the sums stay in the range of \<^verbatim>\<open>int\<close>.
\<close>

definition read_entry :: "byte list \<Rightarrow> nat \<Rightarrow> leader_info \<Rightarrow> nat \<Rightarrow> yaz_marc \<Rightarrow> (bool \<times> yaz_marc) cres" where
  "read_entry buf record_length li entry_p mt = do {
     e \<leftarrow> rds buf entry_p (3 + nat (length_data_entry li) + nat (length_starting li));
     let tag = take 3 e;
         data_length = atoi_n (take (nat (length_data_entry li)) (drop 3 e));
         data_offset = atoi_n (drop (3 + nat (length_data_entry li)) e);
         i = nat (data_offset + base_address li);
         end_offset = nat (int i + data_length - 1);
         mt1 = debug_field tag entry_p data_length data_offset mt
     in if data_length \<le> 0 \<or> data_offset < 0 then Some (False, mt)
        else if end_offset \<ge> record_length then
          Some (False, yaz_marc_cprintf mt1 (str (''Directory offset '' @ dec_int (int entry_p) @ '': Data out of bounds '' @
            dec_int (int end_offset) @ '' >= '' @ dec_int (int record_length))))
        else do {
          flag \<leftarrow> identifier_flag buf li tag i;
          (i1, mt2) \<leftarrow> (if flag \<noteq> 0 then read_datafield buf li tag (i + flag - 1) end_offset mt1
                       else read_controlfield buf tag i end_offset mt1);
          mt3 \<leftarrow> field_end buf i1 end_offset data_length mt2;
          Some (True, mt3)}}"

text \<open>
  Second pass: the fields of the directory from \<open>entry_p\<close> on. The code stops when \<open>entry_p\<close> is the end of the
  directory; both passes start at 24 and advance by the same amount, so it is not stepped over.
\<close>

function read_fields :: "byte list \<Rightarrow> nat \<Rightarrow> leader_info \<Rightarrow> nat \<Rightarrow> nat \<Rightarrow> yaz_marc \<Rightarrow> yaz_marc cres" where
  "read_fields buf record_length li end_of_directory entry_p mt =
     (if entry_p \<ge> end_of_directory then Some mt
      else case read_entry buf record_length li entry_p mt of
        None \<Rightarrow> None
      | Some (go_on, mt1) \<Rightarrow>
          if go_on
          then read_fields buf record_length li end_of_directory
                 (entry_p + (3 + nat (length_data_entry li) + nat (length_starting li))) mt1
          else Some mt1)"
  by pat_completeness auto
termination
  by (relation "measure (\<lambda>(buf, record_length, li, end_of_directory, entry_p, mt). end_of_directory - entry_p)") auto

declare read_fields.simps [simp del]

definition yaz_marc_read_iso2709 :: "yaz_marc \<Rightarrow> byte list \<Rightarrow> int \<Rightarrow> (int \<times> yaz_marc) cres" where
  "yaz_marc_read_iso2709 mt0 buf bsize = do {
     mt \<leftarrow> Some (yaz_marc_reset mt0);
     len \<leftarrow> rds buf 0 5;
     (case atoi_n_check len 0 of (ok, record_length) \<Rightarrow>
        if \<not> ok then Some (-1, yaz_marc_cprintf mt (str ''Bad leader''))
        else if record_length < 25 then
          Some (-1, yaz_marc_cprintf mt (str (''Record length '' @ dec_int record_length @ '' < 24'')))
        else if bsize \<noteq> -1 \<and> record_length > bsize then
          Some (-1, yaz_marc_cprintf mt (str (''Record appears to be larger than buffer '' @ dec_int record_length @ '' < '' @ dec_int bsize)))
        else do {
          mt1 \<leftarrow> Some (if marc_debug mt then yaz_marc_cprintf mt (str (''Record length         '' @ pad_left 5 (dec_int record_length))) else mt);
          leader \<leftarrow> rds buf 0 24;
          (case yaz_marc_set_leader mt1 leader of (li, mt2) \<Rightarrow> do {
             (r, mt3) \<leftarrow> dir_scan buf (nat record_length) (nat (length_data_entry li)) (nat (length_starting li)) 24 mt2;
             (case r of
                None \<Rightarrow> Some (-1, mt3)
              | Some entry_p \<Rightarrow> do {
                  mt4 \<leftarrow> Some (if base_address li \<noteq> int entry_p + 1 then
                     yaz_marc_cprintf mt3 (str (''Base address not at end of directory, base '' @ dec_int (base_address li) @ '', end '' @
                       dec_int (int entry_p + 1))) else mt3);
                  mt5 \<leftarrow> read_fields buf (nat record_length) li entry_p 24 mt4;
                  Some (record_length, mt5)})})})}"

section \<open>Writing ISO 2709\<close>

text \<open>A sequence of writes.\<close>

fun writes :: "(wrbuf \<Rightarrow> wrbuf cres) list \<Rightarrow> wrbuf \<Rightarrow> wrbuf cres" where
  "writes [] b = Some b"
| "writes (f # fs) b = do {b1 \<leftarrow> f b; writes fs b1}"

abbreviation put_text :: "byte list \<Rightarrow> wrbuf \<Rightarrow> wrbuf cres" where
  "put_text s \<equiv> (\<lambda>b. wrbuf_puts b s)"

abbreviation print_text :: "byte list \<Rightarrow> wrbuf \<Rightarrow> wrbuf cres" where
  "print_text s \<equiv> (\<lambda>b. wrbuf_printf b s)"

abbreviation put_byte :: "byte \<Rightarrow> wrbuf \<Rightarrow> wrbuf cres" where
  "put_byte c \<equiv> (\<lambda>b. wrbuf_putc b c)"

abbreviation put_bytes :: "byte list \<Rightarrow> wrbuf \<Rightarrow> wrbuf cres" where
  "put_bytes s \<equiv> (\<lambda>b. wrbuf_write b s)"

definition zero_pad :: "nat \<Rightarrow> nat \<Rightarrow> byte list" where
  "zero_pad w n = replicate (w - length (dec_digits n)) 48 @ str (dec_digits n)"

text \<open>A number of the leader, which is a C string with its terminator in memory.\<close>

definition leader_number :: "byte list \<Rightarrow> nat \<Rightarrow> (bool \<times> int) cres" where
  "leader_number leader i = do {c \<leftarrow> rd (leader @ [0]) i; Some (atoi_n_check [c] 0)}"

fun node_leader :: "marc_node \<Rightarrow> byte list option" where
  "node_leader (YAZ_MARC_LEADER l) = Some l"
| "node_leader n = None"

definition leaders :: "yaz_marc \<Rightarrow> byte list list" where
  "leaders mt = List.map_filter node_leader (nodes mt)"

fun node_tag :: "marc_node \<Rightarrow> byte list option" where
  "node_tag (YAZ_MARC_DATAFIELD tag ind ss) = Some tag"
| "node_tag (YAZ_MARC_CONTROLFIELD tag data) = Some tag"
| "node_tag n = None"

text \<open>The length of the data of a node, measured by writing it to the buffer \<open>tmp\<close>.\<close>

definition data_size :: "marc_node \<Rightarrow> wrbuf \<Rightarrow> (nat \<times> wrbuf) cres" where
  "data_size n tmp =
     (case n of
        YAZ_MARC_DATAFIELD tag ind ss \<Rightarrow> do {
          t1 \<leftarrow> writes (concat (map (\<lambda>s. [put_bytes [32], put_text s]) ss) @ [put_bytes [32]]) (wrbuf_rewind tmp);
          Some (length (cstr ind) + wpos t1, t1)}
      | YAZ_MARC_CONTROLFIELD tag data \<Rightarrow> do {
          t1 \<leftarrow> writes [put_text data, put_bytes [32]] (wrbuf_rewind tmp);
          Some (wpos t1, t1)}
      | _ \<Rightarrow> Some (0, tmp))"

text \<open>The directory: (nodes that fit, directory, offset behind the last field).\<close>

fun write_directory :: "nat \<Rightarrow> nat \<Rightarrow> marc_node list \<Rightarrow> wrbuf \<Rightarrow> wrbuf \<Rightarrow> nat \<Rightarrow> (marc_node list \<times> wrbuf \<times> nat) cres" where
  "write_directory lde lst [] dir tmp data_offset = Some ([], dir, data_offset)"
| "write_directory lde lst (n # ns) dir tmp data_offset = do {
     (data_length, t1) \<leftarrow> data_size n tmp;
     (case node_tag n of
        Some tag \<Rightarrow>
          if data_length \<noteq> 0 then
            if wpos dir + 40 + data_offset + data_length > 99999 then Some ([], dir, data_offset)
            else do {
              d1 \<leftarrow> writes [print_text (replicate (3 - length (take 3 (cstr tag))) 32 @ take 3 (cstr tag)),
                print_text (zero_pad lde data_length), print_text (zero_pad lst data_offset)] dir;
              (ms, d2, off) \<leftarrow> write_directory lde lst ns d1 t1 (data_offset + data_length);
              Some (n # ms, d2, off)}
          else do {(ms, d2, off) \<leftarrow> write_directory lde lst ns dir t1 data_offset; Some (n # ms, d2, off)}
      | None \<Rightarrow> do {(ms, d2, off) \<leftarrow> write_directory lde lst ns dir t1 data_offset; Some (n # ms, d2, off)})}"

definition write_data :: "marc_node \<Rightarrow> wrbuf \<Rightarrow> wrbuf cres" where
  "write_data n wr =
     (case n of
        YAZ_MARC_DATAFIELD tag ind ss \<Rightarrow>
          writes (put_text ind # concat (map (\<lambda>s. [put_byte ISO2709_IDFS, put_text s]) ss) @ [put_byte ISO2709_FS]) wr
      | YAZ_MARC_CONTROLFIELD tag data \<Rightarrow> writes [put_text data, put_byte ISO2709_FS] wr
      | _ \<Rightarrow> Some wr)"

definition yaz_marc_write_iso2709 :: "yaz_marc \<Rightarrow> wrbuf \<Rightarrow> (bool \<times> wrbuf) cres" where
  "yaz_marc_write_iso2709 mt wr =
     (if leaders mt = [] then Some (False, wr)
      else let leader = last (leaders mt) in do {
        (ok1, _) \<leftarrow> leader_number leader 10;
        if \<not> ok1 then Some (False, wr) else do {
        (ok2, _) \<leftarrow> leader_number leader 11;
        if \<not> ok2 then Some (False, wr) else do {
        (ok3, lde) \<leftarrow> leader_number leader 20;
        if \<not> ok3 then Some (False, wr) else do {
        (ok4, lst) \<leftarrow> leader_number leader 21;
        if \<not> ok4 then Some (False, wr) else do {
        (ok5, _) \<leftarrow> leader_number leader 22;
        if \<not> ok5 then Some (False, wr) else do {
          (ns, dir, data_offset) \<leftarrow> write_directory (nat lde) (nat lst) (nodes mt) (wrbuf_alloc (marc_fresh mt))
            (wrbuf_alloc (marc_fresh mt)) 0;
          dir1 \<leftarrow> wrbuf_putc dir ISO2709_FS;
          base \<leftarrow> Some (24 + wpos dir1);
          l5 \<leftarrow> rds (leader @ [0]) 5 7;
          l17 \<leftarrow> rds (leader @ [0]) 17 7;
          head \<leftarrow> writes [print_text (zero_pad 5 (base + data_offset + 1)), put_bytes l5, print_text (zero_pad 5 base), put_bytes l17]
            (wrbuf_alloc (marc_fresh mt));
          h \<leftarrow> rds (wbuf head) 0 24;
          d \<leftarrow> rds (wbuf dir1) 0 (wpos dir1);
          wr1 \<leftarrow> writes ([put_bytes h, put_bytes d] @ map write_data ns @ [print_text [ISO2709_RS]]) wr;
          Some (True, wr1)}}}}}})"

section \<open>Writing lines and comments\<close>

text \<open>
  The identifier length in the first leader of the record; \<open>None\<close> in the result for a record without a
  leader or with a leader that does not have it.
\<close>

definition identifier_length_of :: "yaz_marc \<Rightarrow> int option cres" where
  "identifier_length_of mt =
     (case leaders mt of
        [] \<Rightarrow> Some None
      | leader # _ \<Rightarrow> do {(ok, n) \<leftarrow> leader_number leader 11; Some (if ok then Some n else None)})"

text \<open>The code and the data of a subfield; a code length behind the end of the text is a read outside of it.\<close>

definition split_subfield :: "int \<Rightarrow> byte list \<Rightarrow> (byte list \<times> byte list) cres" where
  "split_subfield idlen code_data =
     (let k = get_subfield_len code_data idlen in
      if k \<le> length code_data then Some (take k code_data, drop k code_data) else None)"

definition line_subfield :: "yaz_marc \<Rightarrow> int \<Rightarrow> byte list \<Rightarrow> wrbuf \<Rightarrow> wrbuf cres" where
  "line_subfield mt idlen s wr = do {
     (code, data) \<leftarrow> split_subfield idlen s;
     writes [put_text (subfield_str mt), put_bytes code, put_text (str '' ''), put_text data] wr}"

definition line_node :: "yaz_marc \<Rightarrow> int \<Rightarrow> marc_node \<Rightarrow> wrbuf \<Rightarrow> wrbuf cres" where
  "line_node mt idlen n wr =
     (case n of
        YAZ_MARC_DATAFIELD tag ind ss \<Rightarrow>
          writes (print_text (tag @ 32 # ind) # map (line_subfield mt idlen) ss @ [put_text (endline_str mt)]) wr
      | YAZ_MARC_CONTROLFIELD tag data \<Rightarrow>
          writes [print_text tag, put_text (str '' ''), put_text data, put_text (endline_str mt)] wr
      | YAZ_MARC_COMMENT c \<Rightarrow> writes [put_text (str ''(''), put_bytes (cstr c), put_text [41, 10]] wr
      | YAZ_MARC_LEADER l \<Rightarrow> wrbuf_printf wr (cstr l @ [10]))"

definition yaz_marc_write_line :: "yaz_marc \<Rightarrow> wrbuf \<Rightarrow> (bool \<times> wrbuf) cres" where
  "yaz_marc_write_line mt wr = do {
     idlen \<leftarrow> identifier_length_of mt;
     (case idlen of
        None \<Rightarrow> Some (False, wr)
      | Some n \<Rightarrow> do {
          wr1 \<leftarrow> writes (map (line_node mt n) (nodes mt) @ [put_text [10]]) wr;
          Some (True, wr1)})}"

definition check_node :: "marc_node \<Rightarrow> wrbuf \<Rightarrow> wrbuf cres" where
  "check_node n wr = (case n of YAZ_MARC_COMMENT c \<Rightarrow> writes [put_bytes (cstr c), put_text [10]] wr | _ \<Rightarrow> Some wr)"

definition yaz_marc_write_check :: "yaz_marc \<Rightarrow> wrbuf \<Rightarrow> (bool \<times> wrbuf) cres" where
  "yaz_marc_write_check mt wr = do {
     idlen \<leftarrow> identifier_length_of mt;
     (case idlen of
        None \<Rightarrow> Some (False, wr)
      | Some n \<Rightarrow> do {wr1 \<leftarrow> writes (map check_node (nodes mt)) wr; Some (True, wr1)})}"

section \<open>Writing XML and JSON\<close>

lemma char_size_pos: "0 < char_size s"
  by (auto simp: char_size_def cdata_one_character_def split: option.splits bind_splits)

text \<open>The characters of an indicator.\<close>

function split_chars :: "byte list \<Rightarrow> byte list list" where
  "split_chars s = (if s = [] then [] else take (char_size s) s # split_chars (drop (char_size s) s))"
  by pat_completeness auto
termination
  by (relation "measure length") (simp_all add: char_size_pos)

declare split_chars.simps [simp del]

abbreviation put_cdata :: "byte list \<Rightarrow> wrbuf \<Rightarrow> wrbuf cres" where
  "put_cdata s \<equiv> (\<lambda>b. wrbuf_xmlputs_n b s)"

definition is_alnum :: "byte \<Rightarrow> bool" where
  "is_alnum c \<longleftrightarrow> yaz_isdigit c \<or> yaz_islower c \<or> yaz_isupper c"

definition element_name_append_attribute_value :: "byte list option \<Rightarrow> byte list \<Rightarrow> wrbuf \<Rightarrow> wrbuf cres" where
  "element_name_append_attribute_value attribute_name code wr =
     (let encode = (\<exists>c \<in> set code. \<not> is_alnum c) in
      case attribute_name of
        Some a \<Rightarrow>
          if encode then writes [print_text (32 # a @ [61, 34]), put_cdata code, print_text [34]] wr
          else wrbuf_xmlputs_n wr code
      | None \<Rightarrow> if encode then Some wr else wrbuf_xmlputs_n wr code)"

definition record_name :: "bool \<Rightarrow> byte list" where "record_name turbo = str (if turbo then ''r'' else ''record'')"
definition leader_name :: "bool \<Rightarrow> byte list" where "leader_name turbo = str (if turbo then ''l'' else ''leader'')"
definition controlfield_name :: "bool \<Rightarrow> byte list" where "controlfield_name turbo = str (if turbo then ''c'' else ''controlfield'')"
definition datafield_name :: "bool \<Rightarrow> byte list" where "datafield_name turbo = str (if turbo then ''d'' else ''datafield'')"
definition indicator_name :: "bool \<Rightarrow> byte list" where "indicator_name turbo = str (if turbo then ''i'' else ''ind'')"
definition subfield_name :: "bool \<Rightarrow> byte list" where "subfield_name turbo = str (if turbo then ''s'' else ''subfield'')"

fun xml_indicators :: "bool \<Rightarrow> nat \<Rightarrow> byte list list \<Rightarrow> wrbuf \<Rightarrow> wrbuf cres" where
  "xml_indicators turbo i [] wr = Some wr"
| "xml_indicators turbo i (c # cs) wr = do {
     wr1 \<leftarrow> writes [print_text (32 # indicator_name turbo @ str (dec_digits (i + 1)) @ [61, 34]), put_cdata c, put_text [34]] wr;
     xml_indicators turbo (i + 1) cs wr1}"

definition xml_subfield :: "bool \<Rightarrow> int \<Rightarrow> byte list \<Rightarrow> wrbuf \<Rightarrow> wrbuf cres" where
  "xml_subfield turbo idlen s wr = do {
     (code, data) \<leftarrow> split_subfield idlen s;
     writes ([print_text (str ''    <'' @ subfield_name turbo)] @
       (if turbo then [element_name_append_attribute_value (Some (str ''code'')) code, put_text (str ''>'')]
        else [print_text (str '' code='' @ [34]), put_cdata code, put_text [34, 62]]) @
       [put_cdata data, print_text (str ''</'' @ subfield_name turbo)] @
       (if turbo then [element_name_append_attribute_value None code] else []) @
       [put_text [62, 10]]) wr}"

definition xml_node :: "bool \<Rightarrow> int \<Rightarrow> marc_node \<Rightarrow> wrbuf \<Rightarrow> wrbuf cres" where
  "xml_node turbo idlen n wr =
     (case n of
        YAZ_MARC_DATAFIELD tag ind ss \<Rightarrow>
          writes ([print_text (str ''  <'' @ datafield_name turbo)] @
            (if turbo then [put_cdata tag] else [print_text (str '' tag='' @ [34]), put_cdata tag, print_text [34]]) @
            [xml_indicators turbo 0 (split_chars ind), print_text [62, 10]] @
            map (xml_subfield turbo idlen) ss @
            [print_text (str ''  </'' @ datafield_name turbo)] @ (if turbo then [put_cdata tag] else []) @ [print_text [62, 10]]) wr
      | YAZ_MARC_CONTROLFIELD tag data \<Rightarrow>
          writes ([print_text (str ''  <'' @ controlfield_name turbo)] @
            (if turbo then [put_cdata tag, put_text [62]]
             else [print_text (str '' tag='' @ [34]), put_cdata tag, put_text [34, 62]]) @
            [put_cdata data, print_text (str ''</'' @ controlfield_name turbo)] @
            (if turbo then [put_cdata tag] else []) @ [put_text [62, 10]]) wr
      | YAZ_MARC_COMMENT c \<Rightarrow> writes [print_text (str ''<!-- ''), put_text c, print_text (str '' -->'' @ [10])] wr
      | YAZ_MARC_LEADER l \<Rightarrow>
          writes [print_text (str ''  <'' @ leader_name turbo @ [62]), put_cdata (cstr l),
            print_text (str ''</'' @ leader_name turbo @ [62, 10])] wr)"

definition yaz_marc_write_marcxml_wrbuf :: "yaz_marc \<Rightarrow> wrbuf \<Rightarrow> byte list \<Rightarrow> byte list option \<Rightarrow> byte list option \<Rightarrow> bool \<Rightarrow>
    (bool \<times> yaz_marc \<times> wrbuf) cres" where
  "yaz_marc_write_marcxml_wrbuf mt wr ns format_opt type_opt turbo = do {
     idlen \<leftarrow> identifier_length_of mt;
     (case idlen of
        None \<Rightarrow> Some (False, mt, wr)
      | Some n \<Rightarrow> do {
          wr1 \<leftarrow> writes ((case enable_collection mt of
                no_collection \<Rightarrow> [print_text (60 # record_name turbo @ str '' xmlns='' @ 34 # ns @ [34])]
              | collection_first \<Rightarrow> [print_text (str ''<collection xmlns='' @ 34 # ns @ [34, 62, 10]), print_text (60 # record_name turbo)]
              | collection_second \<Rightarrow> [print_text (60 # record_name turbo)]) @
            (case format_opt of None \<Rightarrow> [] | Some f \<Rightarrow> [print_text (str '' format='' @ 34 # take 80 (cstr f) @ [34])]) @
            (case type_opt of None \<Rightarrow> [] | Some t \<Rightarrow> [print_text (str '' type='' @ 34 # take 80 (cstr t) @ [34])]) @
            [print_text [62, 10]] @
            map (xml_node turbo n) (nodes mt) @ [print_text (str ''</'' @ record_name turbo @ [62, 10])]) wr;
          Some (True, if enable_collection mt = collection_first then mt\<lparr>enable_collection := collection_second\<rparr> else mt, wr1)})}"

definition yaz_marc_write_marcxml :: "yaz_marc \<Rightarrow> wrbuf \<Rightarrow> (bool \<times> yaz_marc \<times> wrbuf) cres" where
  "yaz_marc_write_marcxml mt wr =
     yaz_marc_write_marcxml_wrbuf (if leader_spec mt = None then yaz_marc_modify_leader mt 9 (str ''a'') else mt) wr
       (str ''http://www.loc.gov/MARC21/slim'') None None False"

definition yaz_marc_write_turbomarc :: "yaz_marc \<Rightarrow> wrbuf \<Rightarrow> (bool \<times> yaz_marc \<times> wrbuf) cres" where
  "yaz_marc_write_turbomarc mt wr =
     yaz_marc_write_marcxml_wrbuf (if leader_spec mt = None then yaz_marc_modify_leader mt 9 (str ''a'') else mt) wr
       (str ''http://www.indexdata.com/turbomarc'') None None True"

text \<open>The arguments \<open>format\<close> and \<open>type\<close> are not used by the code.\<close>

definition yaz_marc_write_marcxchange :: "yaz_marc \<Rightarrow> wrbuf \<Rightarrow> (bool \<times> yaz_marc \<times> wrbuf) cres" where
  "yaz_marc_write_marcxchange mt wr =
     yaz_marc_write_marcxml_wrbuf mt wr (str ''info:lc/xmlns/marcxchange-v1'') None None False"

definition yaz_marc_write_trailer :: "yaz_marc \<Rightarrow> wrbuf \<Rightarrow> wrbuf cres" where
  "yaz_marc_write_trailer mt wr =
     (if enable_collection mt = collection_second \<and> output_format mt \<in> {YAZ_MARC_MARCXML, YAZ_MARC_TURBOMARC, YAZ_MARC_XCHANGE}
      then wrbuf_printf wr (str ''</collection>'' @ [10]) else Some wr)"

abbreviation put_json :: "byte list \<Rightarrow> wrbuf \<Rightarrow> wrbuf cres" where
  "put_json s \<equiv> (\<lambda>b. wrbuf_json_write b s)"

definition json_subfield :: "int \<Rightarrow> byte list \<Rightarrow> wrbuf \<Rightarrow> wrbuf cres" where
  "json_subfield idlen s wr = do {
     (code, data) \<leftarrow> split_subfield idlen s;
     writes [put_text (c_text ''          {~            `''), put_json code, put_text (c_text ''`: `''), put_json data,
       put_text (c_text ''`~          }'')] wr}"

fun json_subfields :: "int \<Rightarrow> byte list \<Rightarrow> byte list list \<Rightarrow> wrbuf \<Rightarrow> wrbuf cres" where
  "json_subfields idlen sep [] wr = Some wr"
| "json_subfields idlen sep (s # ss) wr = do {
     wr1 \<leftarrow> writes [put_text sep, json_subfield idlen s] wr;
     json_subfields idlen (c_text '',~'') ss wr1}"

fun json_indicators :: "nat \<Rightarrow> byte list list \<Rightarrow> wrbuf \<Rightarrow> wrbuf cres" where
  "json_indicators i [] wr = Some wr"
| "json_indicators i (c # cs) wr = do {
     wr1 \<leftarrow> writes [print_text (c_text '',~        `ind'' @ str (dec_digits (i + 1)) @ c_text ''`: `''), put_json c, print_text (c_text ''`'')] wr;
     json_indicators (i + 1) cs wr1}"

text \<open>One node; \<open>first\<close> says that no field was written before.\<close>

fun marc_json_node :: "int \<Rightarrow> bool \<Rightarrow> marc_node \<Rightarrow> wrbuf \<Rightarrow> (bool \<times> wrbuf) cres" where
  "marc_json_node idlen first (YAZ_MARC_CONTROLFIELD tag data) wr = do {
     wr1 \<leftarrow> writes [put_text (c_text (if first then '''' else '','')), put_text (c_text ''~    {~      `''), put_json (cstr tag), put_text (c_text ''`: `''),
       put_json (cstr data), put_text (c_text ''`~    }'')] wr;
     Some (False, wr1)}"
| "marc_json_node idlen first (YAZ_MARC_DATAFIELD tag ind ss) wr = do {
     wr1 \<leftarrow> writes [put_text (c_text (if first then '''' else '','')), put_text (c_text ''~    {~      `''), put_json (cstr tag),
       put_text (c_text ''`: {~        `subfields`: [~''), json_subfields idlen [] ss, put_text (c_text ''~        ]''),
       json_indicators 0 (split_chars ind), put_text (c_text ''~      }''), put_text (c_text ''~    }'')] wr;
     Some (False, wr1)}"
| "marc_json_node idlen first n wr = Some (first, wr)"

fun marc_json_nodes :: "int \<Rightarrow> bool \<Rightarrow> marc_node list \<Rightarrow> wrbuf \<Rightarrow> (bool \<times> wrbuf) cres" where
  "marc_json_nodes idlen first [] wr = Some (first, wr)"
| "marc_json_nodes idlen first (n # ns) wr = do {(f1, wr1) \<leftarrow> marc_json_node idlen first n wr; marc_json_nodes idlen f1 ns wr1}"

definition yaz_marc_write_json :: "yaz_marc \<Rightarrow> wrbuf \<Rightarrow> (bool \<times> wrbuf) cres" where
  "yaz_marc_write_json mt wr = do {
     wr1 \<leftarrow> wrbuf_puts wr (c_text ''{~'');
     if leaders mt = [] then Some (False, wr1)
     else do {
       (ok, idlen) \<leftarrow> leader_number (last (leaders mt)) 11;
       if \<not> ok then Some (False, wr1)
       else do {
         wr2 \<leftarrow> writes [put_text (c_text ''  `leader`: `''), put_json (cstr (last (leaders mt))), put_text (c_text ''`,~''),
           put_text (c_text ''  `fields`: ['')] wr1;
         (first, wr3) \<leftarrow> marc_json_nodes idlen True (nodes mt) wr2;
         wr4 \<leftarrow> writes ((if first then [] else [put_text (c_text ''~  '')]) @ [put_text (c_text '']~''), put_text (c_text ''}~'')]) wr3;
         Some (True, wr4)}}}"

section \<open>Output modes\<close>

definition keep_handle :: "yaz_marc \<Rightarrow> (bool \<times> wrbuf) cres \<Rightarrow> (bool \<times> yaz_marc \<times> wrbuf) cres" where
  "keep_handle mt r = map_option (\<lambda>(ok, wr). (ok, mt, wr)) r"

definition yaz_marc_write_mode :: "yaz_marc \<Rightarrow> wrbuf \<Rightarrow> (bool \<times> yaz_marc \<times> wrbuf) cres" where
  "yaz_marc_write_mode mt wr =
     (case output_format mt of
        YAZ_MARC_LINE \<Rightarrow> keep_handle mt (yaz_marc_write_line mt wr)
      | YAZ_MARC_MARCXML \<Rightarrow> yaz_marc_write_marcxml mt wr
      | YAZ_MARC_TURBOMARC \<Rightarrow> yaz_marc_write_turbomarc mt wr
      | YAZ_MARC_XCHANGE \<Rightarrow> yaz_marc_write_marcxchange mt wr
      | YAZ_MARC_ISO2709 \<Rightarrow> keep_handle mt (yaz_marc_write_iso2709 mt wr)
      | YAZ_MARC_CHECK \<Rightarrow> keep_handle mt (yaz_marc_write_check mt wr)
      | YAZ_MARC_JSON \<Rightarrow> keep_handle mt (yaz_marc_write_json mt wr)
      | _ \<Rightarrow> Some (False, mt, wr))"

definition yaz_marc_decode_wrbuf :: "yaz_marc \<Rightarrow> byte list \<Rightarrow> int \<Rightarrow> wrbuf \<Rightarrow> (int \<times> yaz_marc \<times> wrbuf) cres" where
  "yaz_marc_decode_wrbuf mt buf bsize wr = do {
     (r, mt1) \<leftarrow> yaz_marc_read_iso2709 mt buf bsize;
     if r \<le> 0 then Some (r, mt1, wr)
     else do {
       (ok, mt2, wr1) \<leftarrow> yaz_marc_write_mode mt1 wr;
       Some (if ok then r else -1, mt2, wr1)}}"

definition yaz_marc_decode_formatstr :: "byte list \<Rightarrow> marc_format option" where
  "yaz_marc_decode_formatstr arg =
     (if arg = str ''json'' then Some YAZ_MARC_JSON
      else if arg = str ''line'' then Some YAZ_MARC_LINE
      else if arg = str ''marcxchange'' then Some YAZ_MARC_XCHANGE
      else if arg = str ''turbomarc'' then Some YAZ_MARC_TURBOMARC
      else if arg = str ''marcxml'' then Some YAZ_MARC_MARCXML
      else if arg = str ''marc'' then Some YAZ_MARC_ISO2709
      else None)"

end
