(* ===== verification/Yaz_Marc_Laws.thy ===== *)
theory Yaz_Marc_Laws
  imports Yaz_Marc
begin

text \<open>
  The reader of ISO 2709 reads back the records that the writer makes: numbers of fixed width, the
  fields one by one, the directory, the leader, and the writer's text.
\<close>

section \<open>Numbers of fixed width\<close>

lemma zero_pad_length: "n < 10 ^ w \<Longrightarrow> 0 < w \<Longrightarrow> length (zero_pad w n) = w"
  using dec_length [of n "w - 1"] by (simp add: zero_pad_def)

lemma zero_pad_digits: "c \<in> set (zero_pad w n) \<Longrightarrow> yaz_isdigit c"
  using dec_isdigit [of c n] by (auto simp: zero_pad_def yaz_isdigit_def)

lemma foldl_zeros: "foldl (\<lambda>a c. a * 10 + (int (unat (c :: byte)) - 48)) 0 (replicate k 48 @ s) = foldl (\<lambda>a c. a * 10 + (int (unat c) - 48)) 0 s"
  by (induction k) auto

lemma atoi_check_pad:
  assumes "n < 10 ^ w" and "0 < w" and "w \<le> 9"
  shows "atoi_n_check (zero_pad w n) v0 = (True, int n)"
proof -
  have l: "length (zero_pad w n) = w" using zero_pad_length assms by simp
  have "(10 :: int) ^ w \<le> 10 ^ 9" using assms(3) by (intro power_increasing) simp_all
  then have "(0 + 1) * (10 :: int) ^ length (zero_pad w n) \<le> 10 ^ 10" using l by simp
  then have a: "atoul_loop 10 (zero_pad w n) 0 0 = (int w, int n)"
    using atoul_digits [of "zero_pad w n" 0 "[]" 0] zero_pad_digits l foldl_zeros dec_value by (simp add: zero_pad_def)
  have "n < 10 ^ 9" using assms(1,3) power_increasing [of w 9 "10 :: nat"] by linarith
  then have "int n \<le> 2147483647" by simp
  then show ?thesis using a l by (simp add: atoi_n_check_def yaz_atoi_def yaz_atoul_def)
qed

lemma atoi_pad: "n < 10 ^ w \<Longrightarrow> 0 < w \<Longrightarrow> w \<le> 9 \<Longrightarrow> atoi_n (zero_pad w n) = int n"
  using atoi_check_pad [of n w 0] by (simp add: atoi_n_def)

section \<open>Fields\<close>

text \<open>Characters of field data.\<close>

definition data_char :: "byte \<Rightarrow> bool" where
  "data_char c \<longleftrightarrow> c \<noteq> 0 \<and> c \<noteq> ISO2709_RS \<and> c \<noteq> ISO2709_FS \<and> c \<noteq> ISO2709_IDFS"

definition subfield_ok :: "byte list \<Rightarrow> bool" where
  "subfield_ok s \<longleftrightarrow> s \<noteq> [] \<and> (\<forall>c \<in> set s. data_char c) \<and> \<not> (0 \<le> schar (hd s) \<and> schar (hd s) \<le> 32)"

definition tag_ok :: "byte list \<Rightarrow> bool" where
  "tag_ok tag \<longleftrightarrow> length tag = 3 \<and> no_nul tag \<and> hd tag \<noteq> ISO2709_FS"

text \<open>
  The fields that are kept: tags of three characters, \<open>il\<close> ASCII indicators; a control field has a tag that
  begins with 00, and data that is long enough not to be taken for a data field.
\<close>

definition field_ok :: "nat \<Rightarrow> marc_node \<Rightarrow> bool" where
  "field_ok il n = (case n of
      YAZ_MARC_DATAFIELD tag ind ss \<Rightarrow> tag_ok tag \<and> take 2 tag \<noteq> str ''00'' \<and> length ind = il \<and>
        (\<forall>c \<in> set ind. c \<noteq> 0 \<and> c \<le> 0x7f) \<and> (\<forall>s \<in> set ss. subfield_ok s)
    | YAZ_MARC_CONTROLFIELD tag data \<Rightarrow> tag_ok tag \<and> take 2 tag = str ''00'' \<and> (\<forall>c \<in> set data. data_char c) \<and>
        (il < 4 \<longrightarrow> il < length data)
    | _ \<Rightarrow> False)"

definition field_data :: "marc_node \<Rightarrow> byte list" where
  "field_data n = (case n of
      YAZ_MARC_DATAFIELD tag ind ss \<Rightarrow> ind @ concat (map (\<lambda>s. ISO2709_IDFS # s) ss) @ [ISO2709_FS]
    | YAZ_MARC_CONTROLFIELD tag data \<Rightarrow> data @ [ISO2709_FS]
    | _ \<Rightarrow> [])"

lemma sep_chars: "data_char c \<Longrightarrow> \<not> is_sep c" "\<not> is_sep ISO2709_IDFS" "is_sep ISO2709_FS" "ISO2709_FS \<noteq> ISO2709_IDFS"
  by (simp_all add: data_char_def is_sep_def ISO2709_RS_def ISO2709_FS_def ISO2709_IDFS_def)

text \<open>A handle that was only given further nodes.\<close>

definition plus_nodes :: "yaz_marc \<Rightarrow> marc_node list \<Rightarrow> yaz_marc \<Rightarrow> bool" where
  "plus_nodes mt ns mt' \<longleftrightarrow> (\<exists>pp. mt' = mt\<lparr>nodes := nodes mt @ ns, subfield_pp := pp\<rparr>)"

lemma plus_nodes_trans: "plus_nodes mt ns mt' \<Longrightarrow> plus_nodes mt' ms mt'' \<Longrightarrow> plus_nodes mt (ns @ ms) mt''"
  by (auto simp: plus_nodes_def)

lemma plus_nodes_debug: "plus_nodes mt ns mt' \<Longrightarrow> marc_debug mt' = marc_debug mt"
  by (auto simp: plus_nodes_def)

lemma add_subfields:
  assumes "\<not> marc_debug mt" and "subfield_pp mt = Some (length ns)" and "nodes mt = ns @ [YAZ_MARC_DATAFIELD tag ind ss]"
    and "\<forall>s \<in> set ts. no_nul s"
  shows "fold (\<lambda>s mt. yaz_marc_add_subfield mt s) ts mt = mt\<lparr>nodes := ns @ [YAZ_MARC_DATAFIELD tag ind (ss @ ts)]\<rparr>"
  using assms
proof (induction ts arbitrary: mt ss)
  case (Cons t ts)
  define mt1 where "mt1 = yaz_marc_add_subfield mt t"
  have mt1: "mt1 = mt\<lparr>nodes := ns @ [YAZ_MARC_DATAFIELD tag ind (ss @ [t])]\<rparr>"
    using Cons.prems by (simp add: mt1_def yaz_marc_add_subfield_def)
  show ?case using Cons.IH [of mt1 "ss @ [t]"] Cons.prems mt1 by (simp flip: mt1_def)
qed simp

lemma scan_chars:
  assumes "at_mem b i s" and "\<forall>c \<in> set s. data_char c" and "i + length s \<le> e"
  shows "subfield_loop b e i code mt = subfield_loop b e (i + length s) code mt"
  using assms
proof (induction s arbitrary: i)
  case (Cons c s)
  have "subfield_loop b e i code mt = subfield_loop b e (i + 1) code mt"
    using Cons.prems at_mem_rd [OF Cons.prems(1)] sep_chars(1) [of c] by (simp add: subfield_loop.simps [of b e i] data_char_def)
  then show ?case using Cons.IH [of "Suc i"] at_mem_tl [OF Cons.prems(1)] Cons.prems by simp
qed simp

definition pending :: "byte list \<Rightarrow> nat \<Rightarrow> nat \<Rightarrow> byte list list" where
  "pending b i code = (if i > code then [take (i - code) (drop code b)] else [])"

lemma subfields_read:
  assumes "at_mem b i (concat (map (\<lambda>s. ISO2709_IDFS # s) ss) @ [ISO2709_FS])" and "\<forall>s \<in> set ss. subfield_ok s"
    and "e = i + length (concat (map (\<lambda>s. ISO2709_IDFS # s) ss))"
  shows "\<exists>code' mt'. subfield_loop b e i code mt = Some (e, code', mt') \<and>
    fold (\<lambda>s mt. yaz_marc_add_subfield mt s) (pending b e code') mt' =
    fold (\<lambda>s mt. yaz_marc_add_subfield mt s) (pending b i code @ ss) mt"
  using assms
proof (induction ss arbitrary: i code mt)
  case Nil
  then have "subfield_loop b e i code mt = Some (e, code, mt)" "e = i" by (simp_all add: subfield_loop.simps [of b i i])
  then show ?case by auto
next
  case (Cons s ss)
  define mt1 where "mt1 = fold (\<lambda>s mt. yaz_marc_add_subfield mt s) (pending b i code) mt"
  have s: "s \<noteq> []" "\<forall>c \<in> set s. data_char c" "\<not> (0 \<le> schar (hd s) \<and> schar (hd s) \<le> 32)"
    using Cons.prems(2) by (simp_all add: subfield_ok_def)
  have m: "at_mem b i [ISO2709_IDFS]" "at_mem b (i + 1) s" "at_mem b (i + 1 + length s) (concat (map (\<lambda>s. ISO2709_IDFS # s) ss) @ [ISO2709_FS])"
    using at_mem_split [of b i "[ISO2709_IDFS]" "s @ concat (map (\<lambda>s. ISO2709_IDFS # s) ss) @ [ISO2709_FS]"]
      at_mem_split [of b "i + 1" s "concat (map (\<lambda>s. ISO2709_IDFS # s) ss) @ [ISO2709_FS]"] Cons.prems(1) by simp_all
  obtain c cs where c: "s = c # cs" using s(1) by (cases s) auto
  have r: "rd b i = Some ISO2709_IDFS" "rd b (i + 1) = Some c" using at_mem_rd [OF m(1)] at_mem_rd [of b "i + 1" c cs] m(2) c by simp_all
  have e: "i + 1 < e" "i + 1 + length s \<le> e" using Cons.prems(3) c by simp_all
  have "subfield_loop b e i code mt = subfield_loop b e (i + 1) (i + 1) mt1"
    using r e s(3) sep_chars(2) c by (auto simp: subfield_loop.simps [of b e i] mt1_def pending_def)
  also have "\<dots> = subfield_loop b e (i + 1 + length s) (i + 1) mt1" using scan_chars [OF m(2) s(2) e(2)] .
  finally have step: "subfield_loop b e i code mt = subfield_loop b e (i + 1 + length s) (i + 1) mt1" .
  have "pending b (i + 1 + length s) (i + 1) = [s]" using at_mem_take [OF m(2)] c by (simp add: pending_def)
  then show ?case
    using Cons.IH [OF m(3), of "i + 1" mt1] Cons.prems(2,3) step by (simp add: mt1_def)
qed

lemma sizeof_ascii: "c \<noteq> 0 \<Longrightarrow> c \<le> 0x7f \<Longrightarrow> yaz_marc_sizeof_char (c # m) = Some 1"
  by (auto simp: yaz_marc_sizeof_char_def cdata_one_character_def utf8_need_def yaz_read_UTF8_char_def word_le_nat_alt)

lemma skip_ascii:
  assumes "at_mem b i s" and "\<forall>c \<in> set s. c \<noteq> 0 \<and> c \<le> 0x7f"
  shows "skip_chars b (length s) i = Some (i + length s)"
  using assms
proof (induction s arbitrary: i)
  case (Cons c s)
  obtain m where "drop i b = c # m" using Cons.prems(1) by (auto simp: at_mem_def)
  then have "yaz_marc_sizeof_char (drop i b) = Some 1" using sizeof_ascii [of c m] Cons.prems(2) by simp
  then show ?case using Cons.IH [OF at_mem_tl [OF Cons.prems(1)]] Cons.prems(2) by simp
qed simp

lemma datafield_read:
  assumes "field_ok (length ind) (YAZ_MARC_DATAFIELD tag ind ss)" and "at_mem b i (field_data (YAZ_MARC_DATAFIELD tag ind ss))"
    and "indicator_length li = int (length ind)" and "length ind \<noteq> 0" and "\<not> marc_debug mt"
    and "e = i + length (field_data (YAZ_MARC_DATAFIELD tag ind ss)) - 1"
  shows "\<exists>mt'. read_datafield b li tag i e mt = Some (e, mt') \<and> plus_nodes mt [YAZ_MARC_DATAFIELD tag ind ss] mt'"
proof -
  define rest where "rest = concat (map (\<lambda>s. ISO2709_IDFS # s) ss) @ [ISO2709_FS]"
  define i1 where "i1 = i + length ind"
  define mt1 where "mt1 = yaz_marc_add_datafield mt tag ind"
  have ok: "no_nul tag" "no_nul ind" "\<forall>c \<in> set ind. c \<noteq> 0 \<and> c \<le> 0x7f" "\<forall>s \<in> set ss. subfield_ok s" "\<forall>s \<in> set ss. no_nul s"
    using assms(1) by (auto simp: field_ok_def tag_ok_def subfield_ok_def data_char_def)
  have m: "at_mem b i ind" "at_mem b i1 rest" using at_mem_split [of b i ind rest] assms(2) by (simp_all add: field_data_def rest_def i1_def)
  have e: "e = i1 + length (concat (map (\<lambda>s. ISO2709_IDFS # s) ss))" using assms(6) by (simp add: field_data_def i1_def)
  have mt1: "\<not> marc_debug mt1" "subfield_pp mt1 = Some (length (nodes mt))" "nodes mt1 = nodes mt @ [YAZ_MARC_DATAFIELD tag ind []]"
    using assms(5) ok(1,2) by (simp_all add: mt1_def yaz_marc_add_datafield_def yaz_marc_add_node_def)
  obtain code' mt2 where l: "subfield_loop b e i1 (i1 + 1) mt1 = Some (e, code', mt2)"
      "fold (\<lambda>s mt. yaz_marc_add_subfield mt s) (pending b e code') mt2 = fold (\<lambda>s mt. yaz_marc_add_subfield mt s) (pending b i1 (i1 + 1) @ ss) mt1"
    using subfields_read [OF m(2) [unfolded rest_def] ok(4) e] by blast
  define mt3 where "mt3 = fold (\<lambda>s mt. yaz_marc_add_subfield mt s) (pending b e code') mt2"
  have "mt3 = mt1\<lparr>nodes := nodes mt @ [YAZ_MARC_DATAFIELD tag ind ss]\<rparr>"
    using l(2) add_subfields [OF mt1 ok(5)] by (simp add: mt3_def pending_def)
  then have "plus_nodes mt [YAZ_MARC_DATAFIELD tag ind ss] mt3"
    by (auto simp: plus_nodes_def mt1_def yaz_marc_add_datafield_def yaz_marc_add_node_def intro!: exI [of _ "Some (length (nodes mt))"])
  moreover have ind: "rds b i (i1 - i) = Some ind" using at_mem_rds [OF m(1)] by (simp add: i1_def)
  have "read_datafield b li tag i e mt = Some (e, mt3)"
    using skip_ascii [OF m(1) ok(3)] ind l(1) assms(3,4)
    by (simp add: read_datafield_def mt3_def pending_def flip: i1_def mt1_def)
  ultimately show ?thesis by blast
qed

lemma data_end_read:
  assumes "at_mem b i s" and "\<forall>c \<in> set s. data_char c" and "e = i + length s"
  shows "data_end b e i = Some e"
  using assms
proof (induction s arbitrary: i)
  case Nil
  then show ?case by (simp add: data_end.simps [of b i i])
next
  case (Cons c s)
  then show ?case
    using Cons.IH [OF at_mem_tl [OF Cons.prems(1)]] at_mem_rd [OF Cons.prems(1)] sep_chars(1) [of c]
    by (subst data_end.simps) simp
qed

lemma controlfield_read:
  assumes "field_ok il (YAZ_MARC_CONTROLFIELD tag data)" and "at_mem b i (field_data (YAZ_MARC_CONTROLFIELD tag data))"
    and "\<not> marc_debug mt" and "e = i + length data"
  shows "\<exists>mt'. read_controlfield b tag i e mt = Some (e, mt') \<and> plus_nodes mt [YAZ_MARC_CONTROLFIELD tag data] mt'"
proof -
  have ok: "no_nul tag" "no_nul data" "\<forall>c \<in> set data. data_char c" using assms(1) by (auto simp: field_ok_def tag_ok_def data_char_def)
  have m: "at_mem b i data" using at_mem_split [of b i data "[ISO2709_FS]"] assms(2) by (simp add: field_data_def)
  have "read_controlfield b tag i e mt = Some (e, yaz_marc_add_controlfield mt tag data)"
    using data_end_read [OF m ok(3) assms(4)] at_mem_take [OF m] assms(4) by (simp add: read_controlfield_def)
  moreover have "yaz_marc_add_controlfield mt tag data = mt\<lparr>nodes := nodes mt @ [YAZ_MARC_CONTROLFIELD tag data], subfield_pp := subfield_pp mt\<rparr>"
    using assms(3) ok(1,2) by (simp add: yaz_marc_add_controlfield_def yaz_marc_add_node_def)
  ultimately show ?thesis unfolding plus_nodes_def by blast
qed

lemma control_flag:
  assumes "field_ok il (YAZ_MARC_CONTROLFIELD tag data)" and "at_mem b i (data @ [ISO2709_FS])" and "indicator_length li = int il" and "0 < il"
  shows "identifier_flag b li tag i = Some 0"
proof (cases "il < 4")
  case True
  have l: "il < length data" "\<forall>c \<in> set data. data_char c" "take 2 tag = str ''00''" using assms(1) True by (auto simp: field_ok_def)
  define d where "d = data @ [ISO2709_FS]"
  have not_idfs: "c \<noteq> ISO2709_IDFS" if "c \<in> set d" for c
    using that l(2) sep_chars(4) by (auto simp: d_def data_char_def)
  have at: "rd b (i + k) = Some (d ! k)" if "k < length d" for k
  proof -
    have "at_mem b i (take k d @ drop k d)" using assms(2) unfolding d_def [symmetric] append_take_drop_id .
    then have "at_mem b (i + k) (drop k d)" using at_mem_split [of b i "take k d" "drop k d"] that by simp
    then show ?thesis using at_mem_rd [of b "i + k" "d ! k" "drop (Suc k) d"] Cons_nth_drop_Suc [OF that] by simp
  qed
  have "il < length d" "il + 1 < length d" using l(1) by (simp_all add: d_def)
  then show ?thesis
    using at [of il] at [of "il + 1"] not_idfs [of "d ! il"] not_idfs [of "d ! (il + 1)"] l(3) True assms(3,4)
    by (simp add: identifier_flag_def)
next
  case False
  then show ?thesis using assms(1,3) by (simp add: identifier_flag_def field_ok_def)
qed

section \<open>The directory\<close>

text \<open>The sizes of the leader: number of indicators, width of lengths, width of offsets.\<close>

definition sizes_ok :: "nat \<Rightarrow> nat \<Rightarrow> nat \<Rightarrow> bool" where
  "sizes_ok il lde lst \<longleftrightarrow> 1 \<le> il \<and> il \<le> 9 \<and> 3 \<le> lde \<and> lde \<le> 9 \<and> 4 \<le> lst \<and> lst \<le> 9"

definition dir_entry :: "nat \<Rightarrow> nat \<Rightarrow> nat \<Rightarrow> marc_node \<Rightarrow> byte list" where
  "dir_entry lde lst off n = the (node_tag n) @ zero_pad lde (length (field_data n)) @ zero_pad lst off"

fun directory :: "nat \<Rightarrow> nat \<Rightarrow> nat \<Rightarrow> marc_node list \<Rightarrow> byte list" where
  "directory lde lst off [] = []"
| "directory lde lst off (n # ns) = dir_entry lde lst off n @ directory lde lst (off + length (field_data n)) ns"

definition data_of :: "marc_node list \<Rightarrow> byte list" where
  "data_of ns = concat (map field_data ns)"

definition fits :: "nat \<Rightarrow> nat \<Rightarrow> marc_node list \<Rightarrow> bool" where
  "fits lde lst ns \<longleftrightarrow> (\<forall>n \<in> set ns. length (field_data n) < 10 ^ lde) \<and> length (data_of ns) < 10 ^ lst"

lemma field_tag: "field_ok il n \<Longrightarrow> \<exists>tag. node_tag n = Some tag \<and> tag_ok tag"
  by (cases n) (auto simp: field_ok_def)

lemma field_data_pos: "field_ok il n \<Longrightarrow> 0 < length (field_data n)"
  by (cases n) (auto simp: field_ok_def field_data_def)

lemma dir_entry_length:
  assumes "field_ok il n" and "sizes_ok il lde lst" and "length (field_data n) < 10 ^ lde" and "off < 10 ^ lst"
  shows "length (dir_entry lde lst off n) = 3 + lde + lst"
  using field_tag [OF assms(1)] zero_pad_length [OF assms(3)] zero_pad_length [OF assms(4)] assms(2)
  by (auto simp: dir_entry_def tag_ok_def sizes_ok_def)

lemma entry_read:
  assumes "field_ok il n" and "sizes_ok il lde lst" and "length (field_data n) < 10 ^ lde" and "off < 10 ^ lst"
    and "at_mem b p (dir_entry lde lst off n)" and "at_mem b (base + off) (field_data n)"
    and "base + off + length (field_data n) \<le> rl" and "\<not> marc_debug mt"
    and "indicator_length li = int il" "base_address li = int base" "length_data_entry li = int lde" "length_starting li = int lst"
  shows "\<exists>mt'. read_entry b rl li p mt = Some (True, mt') \<and> plus_nodes mt [n] mt'"
proof -
  define len where "len = length (field_data n)"
  define i where "i = base + off"
  define e where "e = i + len - 1"
  obtain tag where tag: "node_tag n = Some tag" "tag_ok tag" using field_tag [OF assms(1)] by blast
  have len: "0 < len" using field_data_pos [OF assms(1)] by (simp add: len_def)
  have il: "1 \<le> il" "0 < lde" "0 < lst" "lde \<le> 9" "lst \<le> 9" using assms(2) by (auto simp: sizes_ok_def)
  define x where "x = tag @ zero_pad lde len @ zero_pad lst off"
  have r: "rds b p (3 + lde + lst) = Some x"
    using at_mem_rds [OF assms(5)] dir_entry_length [OF assms(1-4)] tag by (simp add: dir_entry_def len_def x_def)
  have nums: "take 3 x = tag" "atoi_n (take lde (drop 3 x)) = int len" "atoi_n (drop (3 + lde) x) = int off"
    using tag(2) zero_pad_length [OF assms(3) il(2)] atoi_pad [OF assms(3) il(2,4)] atoi_pad [OF assms(4) il(3,5)]
    by (simp_all add: tag_ok_def len_def x_def)
  have last: "rd b e = Some ISO2709_FS"
  proof -
    obtain d where d: "field_data n = d @ [ISO2709_FS]" using assms(1) by (cases n) (auto simp: field_ok_def field_data_def)
    then show ?thesis using at_mem_split [of b i d "[ISO2709_FS]"] at_mem_rd [of b "i + length d" ISO2709_FS "[]"] assms(6)
      by (simp add: i_def e_def len_def)
  qed
  have inner: "\<exists>mt'. do {flag \<leftarrow> identifier_flag b li tag i;
      (i1, mt2) \<leftarrow> (if flag \<noteq> 0 then read_datafield b li tag (i + flag - 1) e mt else read_controlfield b tag i e mt);
      mt3 \<leftarrow> field_end b i1 e (int len) mt2;
      Some (True, mt3)} = Some (True, mt') \<and> plus_nodes mt [n] mt'"
  proof (cases n)
    case (YAZ_MARC_DATAFIELD t ind ss)
    have t: "t = tag" "take 2 tag \<noteq> str ''00''" "length ind = il" using YAZ_MARC_DATAFIELD tag assms(1) by (auto simp: field_ok_def)
    obtain mt' where "read_datafield b li tag i e mt = Some (e, mt')" "plus_nodes mt [n] mt'"
      using datafield_read [of ind t ss b i li mt e] assms(1,6,8,9) YAZ_MARC_DATAFIELD t il(1) by (auto simp: i_def e_def len_def)
    then show ?thesis using t last by (simp add: identifier_flag_def field_end_def is_sep_def)
  next
    case (YAZ_MARC_CONTROLFIELD t data)
    have t: "t = tag" "identifier_flag b li tag i = Some 0"
      using control_flag [of il t data b i li] assms(1,6,9) YAZ_MARC_CONTROLFIELD tag(1) il(1) by (simp_all add: i_def field_data_def)
    obtain mt' where "read_controlfield b tag i e mt = Some (e, mt')" "plus_nodes mt [n] mt'"
      using controlfield_read [of il t data b i mt e] assms(1,6,8) YAZ_MARC_CONTROLFIELD t by (auto simp: i_def e_def len_def field_data_def)
    then show ?thesis using t last by (simp add: field_end_def is_sep_def)
  qed (use assms(1) in \<open>simp_all add: field_ok_def\<close>)
  have bounds: "nat (int off + int base) = i" "nat (int i + int len - 1) = e" "e < rl"
    using len assms(7) unfolding i_def e_def len_def by linarith+
  have debug: "debug_field tag p (int len) (int off) mt = mt" using assms(8) by (simp add: debug_field_def)
  show ?thesis
    using inner len bounds(3)
    unfolding read_entry_def assms(9-12) nat_int r Option.bind.simps Let_def nums bounds(1,2) debug by simp
qed

lemma data_of_Cons: "data_of (n # ns) = field_data n @ data_of ns"
  by (simp add: data_of_def)

lemma directory_length:
  "\<forall>n \<in> set ns. field_ok il n \<and> length (field_data n) < 10 ^ lde \<Longrightarrow> sizes_ok il lde lst \<Longrightarrow> off + length (data_of ns) < 10 ^ lst \<Longrightarrow>
   length (directory lde lst off ns) = (3 + lde + lst) * length ns"
proof (induction ns arbitrary: off)
  case (Cons n ns)
  then show ?case
    using Cons.IH [of "off + length (field_data n)"] dir_entry_length [of il n lde lst off] by (simp add: data_of_Cons)
qed simp

lemma fields_read:
  assumes "\<forall>n \<in> set ns. field_ok il n \<and> length (field_data n) < 10 ^ lde" and "sizes_ok il lde lst"
    and "off + length (data_of ns) < 10 ^ lst" and "at_mem b p (directory lde lst off ns)" and "at_mem b (base + off) (data_of ns)"
    and "base + off + length (data_of ns) \<le> rl" and "\<not> marc_debug mt"
    and "indicator_length li = int il" "base_address li = int base" "length_data_entry li = int lde" "length_starting li = int lst"
  shows "\<exists>mt'. read_fields b rl li (p + length (directory lde lst off ns)) p mt = Some mt' \<and> plus_nodes mt ns mt'"
  using assms(1,3-7)
proof (induction ns arbitrary: off p mt)
  case Nil
  have "plus_nodes mt [] mt" unfolding plus_nodes_def by (intro exI [of _ "subfield_pp mt"]) simp
  then show ?case by (simp add: read_fields.simps [of b rl li p p])
next
  case (Cons n ns)
  define e where "e = 3 + lde + lst"
  have off: "off < 10 ^ lst" using Cons.prems(2) by simp
  have d: "length (dir_entry lde lst off n) = e"
    using dir_entry_length [of il n lde lst off] Cons.prems(1) assms(2) off by (simp add: e_def)
  have m: "at_mem b p (dir_entry lde lst off n)" "at_mem b (p + e) (directory lde lst (off + length (field_data n)) ns)"
    "at_mem b (base + off) (field_data n)" "at_mem b (base + (off + length (field_data n))) (data_of ns)"
    using at_mem_split [of b p "dir_entry lde lst off n"] at_mem_split [of b "base + off" "field_data n"] Cons.prems(3,4) d
    by (simp_all add: data_of_Cons add.assoc)
  obtain mt1 where r: "read_entry b rl li p mt = Some (True, mt1)" "plus_nodes mt [n] mt1"
    using entry_read [of il n lde lst off b p base rl mt li] Cons.prems(1,5,6) assms(2,8-11) off m by (auto simp: data_of_Cons)
  obtain mt2 where IH: "read_fields b rl li (p + e + length (directory lde lst (off + length (field_data n)) ns)) (p + e) mt1 = Some mt2"
      "plus_nodes mt1 ns mt2"
    using Cons.IH [OF _ _ m(2,4), of mt1] Cons.prems(1,2,5,6) plus_nodes_debug [OF r(2)] by (auto simp: data_of_Cons add.assoc)
  have "read_fields b rl li (p + length (directory lde lst off (n # ns))) p mt = Some mt2"
    using r(1) IH(1) d assms(10,11) by (subst read_fields.simps) (simp add: e_def add.assoc)
  then show ?case using plus_nodes_trans [OF r(2) IH(2)] by auto
qed

lemma directory_scanned:
  assumes "\<forall>n \<in> set ns. field_ok il n \<and> length (field_data n) < 10 ^ lde" and "sizes_ok il lde lst"
    and "off + length (data_of ns) < 10 ^ lst" and "at_mem b p (directory lde lst off ns @ [ISO2709_FS])"
    and "p + length (directory lde lst off ns) < rl" and "\<not> marc_debug mt"
  shows "dir_scan b rl lde lst p mt = Some (Some (p + length (directory lde lst off ns)), mt)"
  using assms(1,3-5)
proof (induction ns arbitrary: off p)
  case Nil
  then show ?case using at_mem_rd [of b p ISO2709_FS "[]"] by (simp add: dir_scan.simps [of b rl lde lst p])
next
  case (Cons n ns)
  define e where "e = 3 + lde + lst"
  have off: "off < 10 ^ lst" using Cons.prems(2) by simp
  have d: "length (dir_entry lde lst off n) = e"
    using dir_entry_length [of il n lde lst off] Cons.prems(1) assms(2) off by (simp add: e_def)
  have m: "at_mem b p (dir_entry lde lst off n)" "at_mem b (p + e) (directory lde lst (off + length (field_data n)) ns @ [ISO2709_FS])"
    using at_mem_split [of b p "dir_entry lde lst off n" "directory lde lst (off + length (field_data n)) ns @ [ISO2709_FS]"] Cons.prems(3) d by simp_all
  obtain tag where tag: "node_tag n = Some tag" "tag_ok tag" using field_tag [of il n] Cons.prems(1) by auto
  then obtain c cs where c: "dir_entry lde lst off n = c # cs" "c \<noteq> ISO2709_FS"
    by (cases tag) (auto simp: dir_entry_def tag_ok_def)
  have digits: "\<forall>d \<in> set (drop 3 (dir_entry lde lst off n)). yaz_isdigit d"
    using tag zero_pad_digits by (auto simp: dir_entry_def tag_ok_def)
  have r: "rd b p = Some c" "rds b p (3 + lde + lst) = Some (dir_entry lde lst off n)"
    using at_mem_rd [of b p c cs] m(1) c(1) at_mem_rds [OF m(1), unfolded d e_def] by simp_all
  have "dir_scan b rl lde lst p mt = dir_scan b rl lde lst (p + e) mt"
    using r c(2) d digits Cons.prems(4) assms(6) by (subst dir_scan.simps) (simp add: e_def debug_entry_def)
  then show ?case using Cons.IH [OF _ _ m(2)] Cons.prems(1,2,4) d by (simp add: data_of_Cons add.assoc)
qed

section \<open>The leader\<close>

definition leader_ok :: "nat \<Rightarrow> nat \<Rightarrow> nat \<Rightarrow> byte list \<Rightarrow> bool" where
  "leader_ok il lde lst l \<longleftrightarrow> length l = 24 \<and> (\<forall>k \<in> set [5, 6, 7, 8, 9, 17, 18, 19, 23]. 32 \<le> schar (l ! k)) \<and>
     atoi_n_check [l ! 10] 0 = (True, int il) \<and> (\<exists>d \<ge> 1. atoi_n_check [l ! 11] 0 = (True, d)) \<and>
     atoi_n_check [l ! 20] 0 = (True, int lde) \<and> atoi_n_check [l ! 21] 0 = (True, int lst) \<and>
     (\<exists>d \<ge> 0. atoi_n_check [l ! 22] 0 = (True, d))"

lemma check_ascii_ok: "32 \<le> schar (l ! k) \<Longrightarrow> check_ascii k c (mt, l) = (mt, l)"
  by (simp add: check_ascii_def)

lemma check_digit_ok: "atoi_n_check [l ! k] 0 = (True, d) \<Longrightarrow> least \<le> d \<Longrightarrow> check_digit k least dflt msg (mt, l) = (d, mt, l)"
  by (simp add: check_digit_def)

lemma leader_kept:
  assumes "leader_ok il lde lst l" and "sizes_ok il lde lst" and "atoi_n_check (take 5 (drop 12 l)) 0 = (True, int base)"
    and "leader_spec mt = None" and "\<not> marc_debug mt"
  shows "\<exists>li. yaz_marc_set_leader mt l = (li, mt\<lparr>nodes := nodes mt @ [YAZ_MARC_LEADER l]\<rparr>) \<and> indicator_length li = int il \<and>
    base_address li = int base \<and> length_data_entry li = int lde \<and> length_starting li = int lst"
proof -
  obtain d1 d2 where d: "1 \<le> d1" "atoi_n_check [l ! 11] 0 = (True, d1)" "0 \<le> d2" "atoi_n_check [l ! 22] 0 = (True, d2)"
    using assms(1) by (auto simp: leader_ok_def)
  have s: "1 \<le> int il" "3 \<le> int lde" "4 \<le> int lst" using assms(2) by (auto simp: sizes_ok_def)
  have a: "32 \<le> schar (l ! k)" if "k \<in> set [5, 6, 7, 8, 9, 17, 18, 19, 23]" for k using assms(1) that unfolding leader_ok_def by blast
  have n: "atoi_n_check [l ! 10] 0 = (True, int il)" "atoi_n_check [l ! 20] 0 = (True, int lde)" "atoi_n_check [l ! 21] 0 = (True, int lst)"
    using assms(1) unfolding leader_ok_def by blast+
  note steps = check_ascii_ok [OF a] check_digit_ok [OF n(1) s(1)] check_digit_ok [OF d(2,1)] check_digit_ok [OF n(2) s(2)]
    check_digit_ok [OF n(3) s(3)] check_digit_ok [OF d(4,3)]
  show ?thesis
    using assms(3-5) by (simp add: yaz_marc_set_leader_def Let_def steps debug_leader_def yaz_marc_add_leader_def
        marc_exec_leader_def yaz_marc_add_node_def)
qed

definition new_leader :: "nat \<Rightarrow> nat \<Rightarrow> byte list \<Rightarrow> byte list" where
  "new_leader tot base l = zero_pad 5 tot @ take 7 (drop 5 l) @ zero_pad 5 base @ take 7 (drop 17 l)"

lemma new_leader_parts:
  assumes "length l = 24" and "tot < 10 ^ 5" and "base < 10 ^ 5"
  shows "length (new_leader tot base l) = 24" "take 5 (new_leader tot base l) = zero_pad 5 tot"
    "take 5 (drop 12 (new_leader tot base l)) = zero_pad 5 base"
    "k \<in> set [5, 6, 7, 8, 9, 10, 11, 17, 18, 19, 20, 21, 22, 23] \<Longrightarrow> new_leader tot base l ! k = l ! k"
proof -
  have z: "length (zero_pad 5 tot) = 5" "length (zero_pad 5 base) = 5" using zero_pad_length [of _ 5] assms(2,3) by simp_all
  show "length (new_leader tot base l) = 24" "take 5 (new_leader tot base l) = zero_pad 5 tot"
    "take 5 (drop 12 (new_leader tot base l)) = zero_pad 5 base"
    using assms(1) z by (simp_all add: new_leader_def)
  show "k \<in> set [5, 6, 7, 8, 9, 10, 11, 17, 18, 19, 20, 21, 22, 23] \<Longrightarrow> new_leader tot base l ! k = l ! k"
    using assms(1) z by (auto simp: new_leader_def nth_append)
qed

lemma new_leader_ok:
  assumes "leader_ok il lde lst l" and "tot < 10 ^ 5" and "base < 10 ^ 5"
  shows "leader_ok il lde lst (new_leader tot base l)"
proof -
  have l: "length l = 24" using assms(1) by (simp add: leader_ok_def)
  show ?thesis using assms(1) new_leader_parts(1,4) [OF l assms(2,3)] by (simp add: leader_ok_def)
qed

section \<open>The record\<close>

definition base_of :: "nat \<Rightarrow> nat \<Rightarrow> marc_node list \<Rightarrow> nat" where
  "base_of lde lst ns = 24 + length (directory lde lst 0 ns) + 1"

definition total_of :: "nat \<Rightarrow> nat \<Rightarrow> marc_node list \<Rightarrow> nat" where
  "total_of lde lst ns = base_of lde lst ns + length (data_of ns) + 1"

definition record_text :: "nat \<Rightarrow> nat \<Rightarrow> byte list \<Rightarrow> marc_node list \<Rightarrow> byte list" where
  "record_text lde lst l ns = new_leader (total_of lde lst ns) (base_of lde lst ns) l @ directory lde lst 0 ns @ [ISO2709_FS] @
     data_of ns @ [ISO2709_RS]"

text \<open>A record that the format can hold.\<close>

definition record_ok :: "nat \<Rightarrow> nat \<Rightarrow> nat \<Rightarrow> byte list \<Rightarrow> marc_node list \<Rightarrow> bool" where
  "record_ok il lde lst l ns \<longleftrightarrow> leader_ok il lde lst l \<and> sizes_ok il lde lst \<and>
     (\<forall>n \<in> set ns. field_ok il n \<and> length (field_data n) < 10 ^ lde) \<and> length (data_of ns) < 10 ^ lst \<and>
     total_of lde lst ns \<le> 99990"

lemma record_read:
  assumes "record_ok il lde lst l ns" and "leader_spec mt = None" and "\<not> marc_debug mt"
    and "bsize = -1 \<or> int (total_of lde lst ns) \<le> bsize"
  shows "\<exists>mt'. yaz_marc_read_iso2709 mt (record_text lde lst l ns) bsize = Some (int (total_of lde lst ns), mt') \<and>
    nodes mt' = YAZ_MARC_LEADER (new_leader (total_of lde lst ns) (base_of lde lst ns) l) # ns"
proof -
  define t bs dir b where "t = total_of lde lst ns" and "bs = base_of lde lst ns" and "dir = directory lde lst 0 ns"
    and "b = record_text lde lst l ns"
  define l' where "l' = new_leader t bs l"
  have ok: "leader_ok il lde lst l" "sizes_ok il lde lst" "\<forall>n \<in> set ns. field_ok il n \<and> length (field_data n) < 10 ^ lde"
      "0 + length (data_of ns) < 10 ^ lst" "t \<le> 99990"
    using assms(1) by (auto simp: record_ok_def t_def)
  have small: "t < 10 ^ 5" "bs < 10 ^ 5" "25 \<le> t" using ok(5) by (simp_all add: t_def bs_def total_of_def base_of_def)
  have l: "length l = 24" using ok(1) by (simp add: leader_ok_def)
  have l': "leader_ok il lde lst l'" "length l' = 24" "take 5 l' = zero_pad 5 t" "take 5 (drop 12 l') = zero_pad 5 bs"
    using new_leader_ok [OF ok(1) small(1,2)] new_leader_parts [OF l small(1,2)] by (simp_all add: l'_def)
  have b: "b = l' @ dir @ [ISO2709_FS] @ data_of ns @ [ISO2709_RS]" by (simp add: b_def record_text_def l'_def t_def bs_def dir_def)
  have bs: "bs = 24 + length dir + 1" by (simp add: bs_def base_of_def dir_def)
  have m0: "at_mem b 0 l'" "at_mem b 24 (dir @ [ISO2709_FS])" "at_mem b (bs + 0) (data_of ns)"
    using l'(2) by (simp_all add: at_mem_def b bs)
  then have m: "at_mem b 0 (take 5 l')" "at_mem b 0 l'" "at_mem b 24 (dir @ [ISO2709_FS])" "at_mem b 24 dir" "at_mem b (bs + 0) (data_of ns)"
    using at_mem_split [of b 0 "take 5 l'" "drop 5 l'"] at_mem_split [of b 24 dir "[ISO2709_FS]"] by simp_all
  have r: "rds b 0 5 = Some (zero_pad 5 t)" "rds b 0 24 = Some l'"
    using at_mem_rds [OF m(1)] at_mem_rds [OF m(2)] l' zero_pad_length [OF small(1)] by simp_all
  define mt1 where "mt1 = (yaz_marc_reset mt)\<lparr>nodes := [YAZ_MARC_LEADER l']\<rparr>"
  have mt: "nodes (yaz_marc_reset mt) = []" "leader_spec (yaz_marc_reset mt) = None" "\<not> marc_debug (yaz_marc_reset mt)" "\<not> marc_debug mt1"
    using assms(2,3) by (simp_all add: yaz_marc_reset_def mt1_def)
  have base: "atoi_n_check (take 5 (drop 12 l')) 0 = (True, int bs)" using atoi_check_pad [OF small(2)] l'(4) by simp
  obtain li where li: "yaz_marc_set_leader (yaz_marc_reset mt) l' = (li, mt1)" "indicator_length li = int il" "base_address li = int bs"
      "length_data_entry li = int lde" "length_starting li = int lst"
    using leader_kept [OF l'(1) ok(2) base mt(2,3)] mt(1) by (auto simp: mt1_def)
  have scan: "dir_scan b t lde lst 24 mt1 = Some (Some (24 + length dir), mt1)"
    using directory_scanned [OF ok(3,2,4) m(3) [unfolded dir_def] _ mt(4), of t] by (simp add: t_def total_of_def base_of_def dir_def)
  obtain mt2 where fields: "read_fields b t li (24 + length dir) 24 mt1 = Some mt2" "plus_nodes mt1 ns mt2"
    using fields_read [OF ok(3,2,4) m(4) [unfolded dir_def] m(5) _ mt(4) li(2-5), of t] by (auto simp: t_def total_of_def bs_def dir_def)
  have "yaz_marc_read_iso2709 mt b bsize = Some (int t, mt2)"
    using r atoi_check_pad [OF small(1), of 0] small(3) assms(4) mt(3) li scan fields(1) bs
    by (auto simp: yaz_marc_read_iso2709_def t_def)
  moreover have "nodes mt2 = YAZ_MARC_LEADER l' # ns" using fields(2) by (auto simp: plus_nodes_def mt1_def)
  ultimately show ?thesis by (simp add: t_def bs_def b_def l'_def)
qed

section \<open>The writer\<close>

lemma writes_eqs: "writes [] = Some" "writes (f # fs) = (\<lambda>b. do {b1 \<leftarrow> f b; writes fs b1})"
  by (simp_all add: fun_eq_iff)

declare writes.simps [simp del]

lemma writes_Nil: "wr_appends (writes []) []"
  using wr.appends_nothing by (simp add: writes_eqs)

lemma writes_Cons: "wr_appends f s \<Longrightarrow> wr_appends (writes fs) t \<Longrightarrow> wr_appends (writes (f # fs)) (s @ t)"
  using wr.appends_bind [of f s "writes fs" t] by (simp add: writes_eqs)

lemma writes_join: "writes (fs @ gs) = (\<lambda>b. do {b1 \<leftarrow> writes fs b; writes gs b1})"
  by (induction fs) (simp_all add: writes_eqs)

lemma writes_append: "wr_appends (writes fs) s \<Longrightarrow> wr_appends (writes gs) t \<Longrightarrow> wr_appends (writes (fs @ gs)) (s @ t)"
  using wr.appends_bind [of "writes fs" s "writes gs" t] by (simp add: writes_join)

lemma writes_map: "(\<And>x. x \<in> set xs \<Longrightarrow> wr_appends (writes (f x)) (t x)) \<Longrightarrow> wr_appends (writes (concat (map f xs))) (concat (map t xs))"
proof (induction xs)
  case Nil
  then show ?case using writes_Nil by simp
next
  case (Cons x xs)
  then show ?case using writes_append [of "f x" "t x"] by simp
qed

lemma writes_spec:
  assumes "wr_appends (writes fs) s" and "wrbuf_wf b"
  obtains b' where "writes fs b = Some b'" "wrbuf_wf b'" "wrbuf_content b' = wrbuf_content b @ s"
  using assms by (auto simp: appends_to_def)

lemma writes_one: "wr_appends f s \<Longrightarrow> wr_appends (writes [f]) s"
  using writes_Cons [OF _ writes_Nil, of f s] by simp

lemma writes_two: "wr_appends f s \<Longrightarrow> wr_appends g t \<Longrightarrow> wr_appends (writes [f, g]) (s @ t)"
  using writes_Cons [OF _ writes_one] .

lemma rewind_wf: "wrbuf_wf b \<Longrightarrow> wrbuf_wf (wrbuf_rewind b) \<and> wrbuf_content (wrbuf_rewind b) = []"
  by (simp add: wrbuf_rewind_def wrbuf_wf_def wrbuf_content_def)

lemma field_no_nul:
  "field_ok il (YAZ_MARC_DATAFIELD tag ind ss) \<Longrightarrow> no_nul ind \<and> (\<forall>s \<in> set ss. no_nul s)"
  "field_ok il (YAZ_MARC_CONTROLFIELD tag data) \<Longrightarrow> no_nul data"
  by (auto simp: field_ok_def subfield_ok_def data_char_def)

lemma data_size_ok:
  assumes "field_ok il n" and "wrbuf_wf tmp"
  shows "\<exists>t. data_size n tmp = Some (length (field_data n), t) \<and> wrbuf_wf t"
proof (cases n)
  case (YAZ_MARC_DATAFIELD tag ind ss)
  have nn: "no_nul ind" "\<forall>s \<in> set ss. no_nul s" using field_no_nul(1) assms(1) YAZ_MARC_DATAFIELD by blast+
  have "wr_appends (writes (concat (map (\<lambda>s. [put_bytes [32], put_text s]) ss) @ [put_bytes [32]])) (concat (map (\<lambda>s. [32] @ s) ss) @ [32])"
    using nn(2) by (intro writes_append writes_map writes_two writes_one wr.appends_put puts_appends_text) auto
  from writes_spec [OF this, of "wrbuf_rewind tmp"] rewind_wf [OF assms(2)]
  obtain t where t: "writes (concat (map (\<lambda>s. [put_bytes [32], put_text s]) ss) @ [put_bytes [32]]) (wrbuf_rewind tmp) = Some t" "wrbuf_wf t"
      "wrbuf_content t = concat (map (\<lambda>s. [32] @ s) ss) @ [32]" by auto
  moreover have "length (concat (map (\<lambda>s. [32] @ s) ss)) = length (concat (map (\<lambda>s. ISO2709_IDFS # s) ss))" by (induction ss) auto
  ultimately show ?thesis using YAZ_MARC_DATAFIELD nn(1) length_content [OF t(2)] by (simp add: data_size_def field_data_def)
next
  case (YAZ_MARC_CONTROLFIELD tag data)
  have nn: "no_nul data" using field_no_nul(2) assms(1) YAZ_MARC_CONTROLFIELD by blast
  have "wr_appends (writes [put_text data, put_bytes [32]]) (data @ [32])"
    using nn by (intro writes_two wr.appends_put puts_appends_text)
  from writes_spec [OF this, of "wrbuf_rewind tmp"] rewind_wf [OF assms(2)]
  obtain t where t: "writes [put_text data, put_bytes [32]] (wrbuf_rewind tmp) = Some t" "wrbuf_wf t" "wrbuf_content t = data @ [32]" by auto
  then show ?thesis using YAZ_MARC_CONTROLFIELD length_content [OF t(2)] by (simp add: data_size_def field_data_def)
qed (use assms(1) in \<open>simp_all add: field_ok_def\<close>)

lemma pad_no_nul: "no_nul (zero_pad w n)"
  using zero_pad_digits by (force simp: yaz_isdigit_def)

lemma pad_appends: "n < 10 ^ w \<Longrightarrow> 0 < w \<Longrightarrow> w \<le> 9 \<Longrightarrow> wr_appends (print_text (zero_pad w n)) (zero_pad w n)"
  using zero_pad_length [of n w] pad_no_nul by (intro printf_appends) auto

lemma write_directory_ok:
  assumes "\<forall>n \<in> set ns. field_ok il n \<and> length (field_data n) < 10 ^ lde" and "sizes_ok il lde lst"
    and "off + length (data_of ns) < 10 ^ lst" and "wrbuf_wf dir" and "wrbuf_wf tmp"
    and "length (wrbuf_content dir) + length (directory lde lst off ns) + 30 + off + length (data_of ns) \<le> 99999"
  shows "\<exists>d. write_directory lde lst ns dir tmp off = Some (ns, d, off + length (data_of ns)) \<and> wrbuf_wf d \<and>
    wrbuf_content d = wrbuf_content dir @ directory lde lst off ns"
  using assms(1,3-6)
proof (induction ns arbitrary: off dir tmp)
  case Nil
  then show ?case by (simp add: data_of_def)
next
  case (Cons n ns)
  define len where "len = length (field_data n)"
  have n: "field_ok il n" "len < 10 ^ lde" "off < 10 ^ lst" using Cons.prems(1,2) by (simp_all add: len_def)
  have sz: "0 < lde" "lde \<le> 9" "0 < lst" "lst \<le> 9" "10 \<le> 3 + lde + lst" using assms(2) by (auto simp: sizes_ok_def)
  obtain tag where tag: "node_tag n = Some tag" "length tag = 3" "no_nul tag" using field_tag [OF n(1)] by (auto simp: tag_ok_def)
  obtain t where t: "data_size n tmp = Some (len, t)" "wrbuf_wf t" using data_size_ok [OF n(1) Cons.prems(4)] by (auto simp: len_def)
  have e: "length (dir_entry lde lst off n) = 3 + lde + lst" using dir_entry_length [OF n(1) assms(2) n(2) [unfolded len_def] n(3)] .
  have "wr_appends (writes [print_text tag, print_text (zero_pad lde len), print_text (zero_pad lst off)])
      (tag @ zero_pad lde len @ zero_pad lst off)"
    using tag n sz by (intro writes_Cons writes_two printf_appends pad_appends) simp_all
  from writes_spec [OF this Cons.prems(3)]
  obtain d1 where d1: "writes [print_text tag, print_text (zero_pad lde len), print_text (zero_pad lst off)] dir = Some d1" "wrbuf_wf d1"
      "wrbuf_content d1 = wrbuf_content dir @ dir_entry lde lst off n" using tag(1) by (auto simp: dir_entry_def len_def)
  have room: "wpos dir + 40 + off + len \<le> 99999"
    using Cons.prems(5) e sz(5) length_content [OF Cons.prems(3)] by (simp add: data_of_Cons len_def)
  obtain d where IH: "write_directory lde lst ns d1 t (off + len) = Some (ns, d, off + len + length (data_of ns))" "wrbuf_wf d"
      "wrbuf_content d = wrbuf_content d1 @ directory lde lst (off + len) ns"
    using Cons.IH [of "off + len" d1 t] Cons.prems(1,2,5) d1(2,3) t(2) by (auto simp: data_of_Cons len_def add.assoc)
  have "len \<noteq> 0" using field_data_pos [OF n(1)] by (simp add: len_def)
  then have "write_directory lde lst (n # ns) dir tmp off = Some (n # ns, d, off + length (data_of (n # ns)))"
    using t(1) tag room d1(1) IH(1) by (simp add: data_of_Cons len_def add.assoc)
  then show ?case using IH(2,3) d1(3) by (simp add: len_def)
qed

lemma write_data_eqs:
  "write_data (YAZ_MARC_DATAFIELD tag ind ss) =
     writes (put_text ind # concat (map (\<lambda>s. [put_byte ISO2709_IDFS, put_text s]) ss) @ [put_byte ISO2709_FS])"
  "write_data (YAZ_MARC_CONTROLFIELD tag data) = writes [put_text data, put_byte ISO2709_FS]"
  "write_data (YAZ_MARC_LEADER l) = Some"
  by (simp_all add: fun_eq_iff write_data_def)

lemma write_data_ok: "field_ok il n \<Longrightarrow> wr_appends (write_data n) (field_data n)"
proof (cases n)
  case (YAZ_MARC_DATAFIELD tag ind ss)
  assume "field_ok il n"
  then have nn: "no_nul ind" "\<forall>s \<in> set ss. no_nul s" using field_no_nul(1) YAZ_MARC_DATAFIELD by blast+
  have "wr_appends (writes (put_text ind # concat (map (\<lambda>s. [put_byte ISO2709_IDFS, put_text s]) ss) @ [put_byte ISO2709_FS]))
      (ind @ concat (map (\<lambda>s. [ISO2709_IDFS] @ s) ss) @ [ISO2709_FS])"
    using nn by (intro writes_Cons writes_append writes_map writes_two writes_one putc_appends puts_appends_text) auto
  then show ?thesis using YAZ_MARC_DATAFIELD by (simp add: field_data_def write_data_eqs)
next
  case (YAZ_MARC_CONTROLFIELD tag data)
  assume "field_ok il n"
  then have nn: "no_nul data" using field_no_nul(2) YAZ_MARC_CONTROLFIELD by blast
  have "wr_appends (writes [put_text data, put_byte ISO2709_FS]) (data @ [ISO2709_FS])"
    using nn by (intro writes_two putc_appends puts_appends_text)
  then show ?thesis using YAZ_MARC_CONTROLFIELD by (simp add: field_data_def write_data_eqs)
qed (simp_all add: field_ok_def)

lemma writes_data: "\<forall>n \<in> set ns. field_ok il n \<Longrightarrow> wr_appends (writes (map write_data ns)) (data_of ns)"
proof (induction ns)
  case Nil
  then show ?case using writes_Nil by (simp add: data_of_def)
next
  case (Cons n ns)
  then show ?case using writes_Cons [OF write_data_ok [of il n]] by (simp add: data_of_Cons)
qed

lemma content_rds: "wrbuf_wf b \<Longrightarrow> rds (wbuf b) 0 (wpos b) = Some (wrbuf_content b)"
  by (simp add: rds_def wrbuf_wf_def wrbuf_content_def)

lemma leader_numbers: "leader_ok il lde lst l \<Longrightarrow> leader_number l 10 = Some (True, int il) \<and> (\<exists>d. leader_number l 11 = Some (True, d)) \<and>
    leader_number l 20 = Some (True, int lde) \<and> leader_number l 21 = Some (True, int lst) \<and> (\<exists>d. leader_number l 22 = Some (True, d))"
  by (auto simp: leader_number_def leader_ok_def rd_def nth_append)

lemma no_leaders: "\<forall>n \<in> set ns. field_ok il n \<Longrightarrow> List.map_filter node_leader ns = []"
proof (induction ns)
  case (Cons n ns)
  then show ?case by (cases n) (auto simp: field_ok_def List.map_filter_simps)
qed (simp add: List.map_filter_simps)

lemma record_written:
  assumes "record_ok il lde lst l ns" and "nodes mt = YAZ_MARC_LEADER l # ns" and "wrbuf_wf wr"
  shows "\<exists>w. yaz_marc_write_iso2709 mt wr = Some (True, w) \<and> wrbuf_wf w \<and> wrbuf_content w = wrbuf_content wr @ record_text lde lst l ns"
proof -
  define t bs dir where "t = total_of lde lst ns" and "bs = base_of lde lst ns" and "dir = directory lde lst 0 ns"
  have ok: "leader_ok il lde lst l" "sizes_ok il lde lst" "\<forall>n \<in> set ns. field_ok il n \<and> length (field_data n) < 10 ^ lde"
      "0 + length (data_of ns) < 10 ^ lst" "t \<le> 99990"
    using assms(1) by (auto simp: record_ok_def t_def)
  have bs: "bs = 24 + length dir + 1" "t = bs + length (data_of ns) + 1" by (simp_all add: bs_def t_def base_of_def total_of_def dir_def)
  have small: "t < 10 ^ 5" "bs < 10 ^ 5" using ok(5) bs by simp_all
  have len: "length l = 24" using ok(1) by (simp add: leader_ok_def)
  define tmp where "tmp = wrbuf_alloc (marc_fresh mt)"
  have wf: "wrbuf_wf tmp" "wrbuf_content tmp = []" by (simp_all add: tmp_def wrbuf_alloc_wf)
  obtain d where d: "write_directory lde lst ns tmp tmp 0 = Some (ns, d, length (data_of ns))" "wrbuf_wf d" "wrbuf_content d = dir"
    using write_directory_ok [OF ok(3,2,4) wf(1) wf(1)] wf(2) ok(5) bs by (auto simp: dir_def)
  then have wd: "write_directory lde lst (YAZ_MARC_LEADER l # ns) tmp tmp 0 = Some (YAZ_MARC_LEADER l # ns, d, length (data_of ns))"
    by (simp add: data_size_def)
  obtain d1 where d1: "wrbuf_putc d ISO2709_FS = Some d1" "wrbuf_wf d1" "wrbuf_content d1 = dir @ [ISO2709_FS]"
    using putc_appends [unfolded appends_to_def] d(2,3) by blast
  have pos: "24 + wpos d1 = bs" using length_content [OF d1(2)] d1(3) bs(1) by simp
  have tot: "25 + (wpos d1 + length (data_of ns)) = t" using bs(2) pos by simp
  have parts: "rds (l @ [0]) 5 7 = Some (take 7 (drop 5 l))" "rds (l @ [0]) 17 7 = Some (take 7 (drop 17 l))" using len by (simp_all add: rds_def)
  have "wr_appends (writes [print_text (zero_pad 5 t), put_bytes (take 7 (drop 5 l)), print_text (zero_pad 5 bs), put_bytes (take 7 (drop 17 l))])
      (new_leader t bs l)"
    unfolding new_leader_def using small by (intro writes_Cons writes_two pad_appends wr.appends_put) simp_all
  from writes_spec [OF this wf(1)]
  obtain h where h: "writes [print_text (zero_pad 5 t), put_bytes (take 7 (drop 5 l)), print_text (zero_pad 5 bs), put_bytes (take 7 (drop 17 l))] tmp
      = Some h" "wrbuf_wf h" "wrbuf_content h = new_leader t bs l" using wf(2) by auto
  have h24: "rds (wbuf h) 0 24 = Some (new_leader t bs l)"
    using content_rds [OF h(2)] length_content [OF h(2)] h(3) new_leader_parts(1) [OF len small] by simp
  have "wr_appends (writes ([put_bytes (new_leader t bs l), put_bytes (dir @ [ISO2709_FS])] @ map write_data (YAZ_MARC_LEADER l # ns) @ [print_text [ISO2709_RS]]))
      ((new_leader t bs l @ dir @ [ISO2709_FS]) @ data_of ns @ [ISO2709_RS])"
    using writes_data [of ns il] ok(3) writes_Cons [OF wr.appends_nothing, of "map write_data ns" "data_of ns"]
    by (intro writes_append writes_two writes_one wr.appends_put printf_appends) (auto simp: write_data_eqs ISO2709_RS_def)
  from writes_spec [OF this assms(3)]
  obtain w where w: "writes ([put_bytes (new_leader t bs l), put_bytes (dir @ [ISO2709_FS])] @ map write_data (YAZ_MARC_LEADER l # ns) @ [print_text [ISO2709_RS]]) wr
      = Some w" "wrbuf_wf w" "wrbuf_content w = wrbuf_content wr @ record_text lde lst l ns"
    by (auto simp: record_text_def t_def bs_def dir_def)
  have "leaders mt = [l]" using no_leaders [of ns il] ok(3) assms(2) by (simp add: leaders_def List.map_filter_simps)
  then have "yaz_marc_write_iso2709 mt wr = Some (True, w)"
    using leader_numbers [OF ok(1)] wd d1(1) parts h(1) h24 content_rds [OF d1(2)] d1(3) w(1) assms(2)
    by (auto simp: yaz_marc_write_iso2709_def Let_def pos tot simp flip: tmp_def simp del: write_directory.simps)
  then show ?thesis using w(2,3) by blast
qed

section \<open>Properties\<close>

text \<open>
  C6: A MARC record that is written as ISO 2709 is read back: the reader returns the length of the text and the same fields, behind the
  leader with the record length and the base address filled in. The leader is well formed, the fields fit the widths it
  gives, indicators are ASCII, and the data has no separator characters.
\<close>

theorem marc_iso2709_roundtrip:
  assumes "record_ok il lde lst l ns" and "nodes mt = YAZ_MARC_LEADER l # ns" and "leader_spec mt' = None" and "\<not> marc_debug mt'"
  shows "\<exists>w r. yaz_marc_write_iso2709 mt (wrbuf_alloc fresh) = Some (True, w) \<and>
    yaz_marc_read_iso2709 mt' (wrbuf_content w) (int (length (wrbuf_content w))) = Some (int (length (wrbuf_content w)), r) \<and>
    nodes r = YAZ_MARC_LEADER (new_leader (total_of lde lst ns) (base_of lde lst ns) l) # ns"
proof -
  obtain w where w: "yaz_marc_write_iso2709 mt (wrbuf_alloc fresh) = Some (True, w)" "wrbuf_content w = record_text lde lst l ns"
    using record_written [OF assms(1,2) wrbuf_alloc_wf(1)] wrbuf_alloc_wf(2) by fastforce
  have "length (record_text lde lst l ns) = total_of lde lst ns"
    using new_leader_parts(1) [of l "total_of lde lst ns" "base_of lde lst ns"] assms(1)
    by (simp add: record_text_def record_ok_def leader_ok_def total_of_def base_of_def)
  then show ?thesis using w record_read [OF assms(1,3,4), of "int (total_of lde lst ns)"] by auto
qed

definition sample_fields :: "marc_node list" where
  "sample_fields = [YAZ_MARC_CONTROLFIELD (str ''001'') (str ''12345''),
     YAZ_MARC_DATAFIELD (str ''245'') (str ''10'') [str ''aTitle'', str ''bRest'']]"

definition sample_leader :: "byte list" where
  "sample_leader = str ''00000nam a22000001a 4500''"

lemma sample_record_ok: "record_ok 2 4 5 sample_leader sample_fields"
proof -
  have "leader_ok 2 4 5 sample_leader"
    unfolding leader_ok_def by (intro conjI exI [of _ 2] exI [of _ 0]) code_simp+
  moreover have "\<forall>n \<in> set sample_fields. field_ok 2 n \<and> length (field_data n) < 100" by code_simp
  moreover have "length (data_of sample_fields) = 22" "total_of 4 5 sample_fields = 72" by code_simp+
  ultimately show ?thesis by (auto simp: record_ok_def sizes_ok_def)
qed

theorem marc_iso2709_roundtrip_witness:
  "\<exists>w r. yaz_marc_write_iso2709 ((yaz_marc_create of_nat)\<lparr>nodes := YAZ_MARC_LEADER sample_leader # sample_fields\<rparr>) (wrbuf_alloc of_nat) =
      Some (True, w) \<and>
    yaz_marc_read_iso2709 (yaz_marc_create of_nat) (wrbuf_content w) (int (length (wrbuf_content w))) =
      Some (int (length (wrbuf_content w)), r) \<and>
    nodes r = YAZ_MARC_LEADER (new_leader (total_of 4 5 sample_fields) (base_of 4 5 sample_fields) sample_leader) # sample_fields"
  by (rule marc_iso2709_roundtrip [OF sample_record_ok]) (simp_all add: yaz_marc_create_def yaz_marc_reset_def)

text \<open>
  Reads behind the end of the record: the indicators of a data field may lie outside of a record whose
  length is that of the buffer, and a control field is looked at behind its end.
\<close>

lemma marc_read_overruns:
  "\<not> safe (yaz_marc_read_iso2709 (yaz_marc_create of_nat)
     (str ''00038nam a22000371a 4500'' @ str ''245000100000'' @ [30, 30]) 38)"
  by code_simp

end
