(* ===== verification/Yaz_Marc_Json.thy ===== *)
theory Yaz_Marc_Json
  imports Yaz_Marc_Laws Yaz_Json_Laws
begin

text \<open>
  The reader of MARC records in JSON (\<^verbatim>\<open>marc_read_json.c\<close>), and the way of a record through the writer of
  \<^verbatim>\<open>marcdisp.c\<close>, the JSON parser and this reader. A null pointer to a node is \<^const>\<open>None\<close>; reading a node through
  it has no result.
\<close>

section \<open>Reading a tree (marc read json)\<close>

text \<open>A loop over linked nodes; the body is given the link to the element.\<close>

function list_each :: "('d json_node option \<Rightarrow> 's \<Rightarrow> 's cres) \<Rightarrow> 'd json_node option \<Rightarrow> 's \<Rightarrow> 's cres" where
  "list_each body None s = Some s"
| "list_each body (Some n) s = do {
     (l0, l1) \<leftarrow> json_links n;
     s1 \<leftarrow> body l0 s;
     list_each body l1 s1}"
  by pat_completeness auto
termination
proof (relation "measure (\<lambda>(body, n, s). size_option size n)", goal_cases)
  case (2 body n s x l0 l1 s1)
  then show ?case using json_links_size [of n l0 l1] by simp
qed simp

fun is_list :: "'d json_node \<Rightarrow> bool" where
  "is_list (json_list l0 l1) = True"
| "is_list _ = False"

text \<open>
  What is done for a pair whose name is a string that satisfies a test: the value is looked at only then.
\<close>

definition on_pair :: "(byte list \<Rightarrow> bool) \<Rightarrow> (byte list \<Rightarrow> 'd json_node \<Rightarrow> 's \<Rightarrow> 's cres) \<Rightarrow> 'd json_node option \<Rightarrow> 's \<Rightarrow> 's cres" where
  "on_pair test f l s = do {
     n \<leftarrow> l;
     (case n of
        json_pair k v \<Rightarrow> do {
          kn \<leftarrow> k;
          (case kn of
             json_string ks \<Rightarrow> if test (cstr ks) then do {vn \<leftarrow> v; f (cstr ks) vn s} else Some s
           | _ \<Rightarrow> Some s)}
      | _ \<Rightarrow> Some s)}"

definition add_subfield_pair :: "byte list \<Rightarrow> 'd json_node \<Rightarrow> yaz_marc \<times> wrbuf \<Rightarrow> (yaz_marc \<times> wrbuf) cres" where
  "add_subfield_pair code v s =
     (case (v, s) of
        (json_string data, mt, wtmp) \<Rightarrow> do {
          w1 \<leftarrow> wrbuf_puts (wrbuf_rewind wtmp) code;
          w2 \<leftarrow> wrbuf_puts w1 data;
          code_data \<leftarrow> rds (wbuf w2) 0 (wpos w2);
          Some (yaz_marc_add_subfield mt code_data, w2)}
      | _ \<Rightarrow> Some s)"

definition parse_subfield :: "'d json_node option \<Rightarrow> yaz_marc \<times> wrbuf \<Rightarrow> (yaz_marc \<times> wrbuf) cres" where
  "parse_subfield l s = do {
     n \<leftarrow> l;
     (case n of
        json_object members \<Rightarrow> do {
          m \<leftarrow> members;
          if is_list m then list_each (on_pair (\<lambda>k. True) add_subfield_pair) (Some m) s else Some s}
      | _ \<Rightarrow> Some s)}"

text \<open>A failed assertion ends the program.\<close>

definition parse_subfields :: "'d json_node option \<Rightarrow> yaz_marc \<times> wrbuf \<Rightarrow> (yaz_marc \<times> wrbuf) cres" where
  "parse_subfields sf s = do {
     n \<leftarrow> sf;
     if is_list n then list_each parse_subfield sf s else None}"

definition indicator_value :: "byte list \<Rightarrow> 'd json_node \<Rightarrow> wrbuf \<Rightarrow> wrbuf cres" where
  "indicator_value k v wtmp = (case v of json_string ind \<Rightarrow> wrbuf_puts wtmp ind | _ \<Rightarrow> Some wtmp)"

definition is_indicator :: "nat \<Rightarrow> byte list \<Rightarrow> bool" where
  "is_indicator j k \<longleftrightarrow> take 3 k = str ''ind'' \<and> deref (drop 3 k) = byte_of (48 + j)"

fun read_indicators :: "'d json_node \<Rightarrow> nat list \<Rightarrow> wrbuf \<Rightarrow> wrbuf cres" where
  "read_indicators m [] wtmp = Some wtmp"
| "read_indicators m (j # rest) wtmp = do {
     w1 \<leftarrow> list_each (on_pair (is_indicator j) indicator_value) (Some m) wtmp;
     read_indicators m rest w1}"

definition subfields_value :: "byte list \<Rightarrow> 'd json_node \<Rightarrow> yaz_marc \<times> wrbuf \<Rightarrow> (yaz_marc \<times> wrbuf) cres" where
  "subfields_value k v s = (case v of json_array l \<Rightarrow> parse_subfields l s | _ \<Rightarrow> Some s)"

definition parse_datafield :: "byte list \<Rightarrow> nat \<Rightarrow> 'd json_node \<Rightarrow> yaz_marc \<times> wrbuf \<Rightarrow> (yaz_marc \<times> wrbuf) cres" where
  "parse_datafield tag il m s =
     (case s of (mt, wtmp) \<Rightarrow> do {
        w1 \<leftarrow> read_indicators m [1..<Suc il] (wrbuf_rewind wtmp);
        (ind, w2) \<leftarrow> wrbuf_cstr w1;
        list_each (on_pair (\<lambda>k. k = str ''subfields'') subfields_value) (Some m) (yaz_marc_add_datafield mt tag ind, w2)})"

definition field_value :: "nat \<Rightarrow> byte list \<Rightarrow> 'd json_node \<Rightarrow> yaz_marc \<times> wrbuf \<Rightarrow> (yaz_marc \<times> wrbuf) cres" where
  "field_value il tag v s =
     (case v of
        json_string data \<Rightarrow> Some (yaz_marc_add_controlfield (fst s) tag (cstr data), snd s)
      | json_object l \<Rightarrow> do {m \<leftarrow> l; if is_list m then parse_datafield tag il m s else Some s}
      | _ \<Rightarrow> Some s)"

definition parse_field :: "nat \<Rightarrow> 'd json_node option \<Rightarrow> yaz_marc \<times> wrbuf \<Rightarrow> (yaz_marc \<times> wrbuf) cres" where
  "parse_field il = on_pair (\<lambda>k. True) (field_value il)"

definition leader_value :: "byte list \<Rightarrow> 'd json_node \<Rightarrow> byte list option \<Rightarrow> byte list option cres" where
  "leader_value k v leader = (case v of json_string s \<Rightarrow> Some (if length (cstr s) = 24 then Some (cstr s) else leader) | _ \<Rightarrow> Some leader)"

definition parse_field_object :: "nat \<Rightarrow> 'd json_node option \<Rightarrow> yaz_marc \<times> wrbuf \<Rightarrow> (yaz_marc \<times> wrbuf) cres" where
  "parse_field_object il l s = do {
     n \<leftarrow> l;
     (case n of
        json_object (Some m) \<Rightarrow> if is_list m then list_each (parse_field il) (Some m) s else Some s
      | _ \<Rightarrow> Some s)}"

definition fields_value :: "nat \<Rightarrow> byte list \<Rightarrow> 'd json_node \<Rightarrow> yaz_marc \<times> wrbuf \<Rightarrow> (yaz_marc \<times> wrbuf) cres" where
  "fields_value il k v s =
     (case v of
        json_array (Some m) \<Rightarrow> if is_list m then list_each (parse_field_object il) (Some m) s else Some s
      | _ \<Rightarrow> Some s)"

text \<open>The result is (return value is 0, handle).\<close>

definition yaz_marc_read_json_node :: "yaz_marc \<Rightarrow> 'd json_node option \<Rightarrow> (bool \<times> yaz_marc) cres" where
  "yaz_marc_read_json_node mt n =
     (case n of
        Some (json_object l) \<Rightarrow> do {
          found \<leftarrow> list_each (on_pair (\<lambda>k. k = str ''leader'') leader_value) l None;
          (leader, mt1) \<leftarrow> (case found of
              Some leader \<Rightarrow> Some (leader, mt)
            | None \<Rightarrow> Some (str ''00000nam a22000000a 4500'', yaz_marc_cprintf mt (str ''Missing leader. Inserting fake leader'')));
          (case yaz_marc_set_leader mt1 leader of (li, mt2) \<Rightarrow> do {
             (mt3, wtmp) \<leftarrow> list_each (on_pair (\<lambda>k. k = str ''fields'') (fields_value (nat (indicator_length li)))) l
               (mt2, wrbuf_alloc (marc_fresh mt));
             Some (True, mt3)})}
      | _ \<Rightarrow> Some (False, mt))"

section \<open>The trees of records\<close>

text \<open>The value a record is written as.\<close>

definition sub_jv :: "int \<Rightarrow> byte list \<Rightarrow> 'd jv" where
  "sub_jv idlen s = (let k = get_subfield_len s idlen in JObj [(take k s, JStr (drop k s))])"

fun ind_members :: "nat \<Rightarrow> byte list list \<Rightarrow> (byte list \<times> 'd jv) list" where
  "ind_members i [] = []"
| "ind_members i (c # cs) = (str ''ind'' @ str (dec_digits (i + 1)), JStr c) # ind_members (i + 1) cs"

fun field_jv :: "int \<Rightarrow> marc_node \<Rightarrow> 'd jv" where
  "field_jv idlen (YAZ_MARC_CONTROLFIELD tag data) = JObj [(tag, JStr data)]"
| "field_jv idlen (YAZ_MARC_DATAFIELD tag ind ss) =
     JObj [(tag, JObj ((str ''subfields'', JArr (map (sub_jv idlen) ss)) # ind_members 0 (split_chars ind)))]"
| "field_jv idlen n = JNull"

definition record_jv :: "int \<Rightarrow> byte list \<Rightarrow> marc_node list \<Rightarrow> 'd jv" where
  "record_jv idlen l ns = JObj [(str ''leader'', JStr l), (str ''fields'', JArr (map (field_jv idlen) ns))]"

text \<open>
  The fields that are kept: text without NUL, as many indicators as the leader says, a data field with
  subfields, each at least as long as its code.
\<close>

definition json_field_ok :: "nat \<Rightarrow> int \<Rightarrow> marc_node \<Rightarrow> bool" where
  "json_field_ok il idlen n = (case n of
      YAZ_MARC_DATAFIELD tag ind ss \<Rightarrow> no_nul tag \<and> no_nul ind \<and> length (split_chars ind) = il \<and> ss \<noteq> [] \<and>
        (\<forall>s \<in> set ss. no_nul s \<and> get_subfield_len s idlen \<le> length s)
    | YAZ_MARC_CONTROLFIELD tag data \<Rightarrow> no_nul tag \<and> no_nul data
    | _ \<Rightarrow> False)"

section \<open>Reading the tree of a record\<close>

text \<open>A loop over the elements of a list.\<close>

fun runs :: "('a \<Rightarrow> 's \<Rightarrow> 's cres) \<Rightarrow> 'a list \<Rightarrow> 's \<Rightarrow> 's cres" where
  "runs f [] s = Some s"
| "runs f (x # xs) s = do {s1 \<leftarrow> f x s; runs f xs s1}"

lemma list_each_map: "list_each body (chain (map g xs)) = runs (\<lambda>x. body (Some (g x))) xs"
proof (induction xs)
  case (Cons x xs)
  show ?case by (rule ext) (simp add: Cons.IH)
qed (simp add: fun_eq_iff)

lemma runs_step: "f x s = Some s1 \<Longrightarrow> runs f (x # xs) s = runs f xs s1"
  by simp

declare runs.simps(2) [simp del]

lemma chain_list: "chain ns = Some m \<Longrightarrow> is_list m"
  by (cases ns) auto

lemma on_pair_node:
  "on_pair test f (Some (json_pair (Some (json_string k)) (Some n))) s = (if test (cstr k) then f (cstr k) n s else Some s)"
  by (simp add: on_pair_def)

lemma subfield_parsed:
  assumes "no_nul s" and "get_subfield_len s idlen \<le> length s" and "wrbuf_wf w"
  shows "\<exists>w'. parse_subfield (Some (repr (sub_jv idlen s))) (mt, w) = Some (yaz_marc_add_subfield mt s, w') \<and> wrbuf_wf w'"
proof -
  define k where "k = get_subfield_len s idlen"
  have nn: "no_nul (take k s)" "no_nul (drop k s)"
    using assms(1) by (auto dest: in_set_takeD in_set_dropD)
  obtain w1 where w1: "wrbuf_puts (wrbuf_rewind w) (take k s) = Some w1" "wrbuf_wf w1" "wrbuf_content w1 = take k s"
    using puts_appends_text [OF nn(1)] rewind_wf [OF assms(3)] by (fastforce simp: appends_to_def)
  obtain w2 where w2: "wrbuf_puts w1 (drop k s) = Some w2" "wrbuf_wf w2" "wrbuf_content w2 = s"
    using puts_appends_text [OF nn(2)] w1(2,3) by (fastforce simp: appends_to_def)
  show ?thesis
    using w1(1) w2 nn content_rds [OF w2(2)]
    by (simp add: parse_subfield_def sub_jv_def k_def Let_def repr_JObj on_pair_def add_subfield_pair_def)
qed

lemma subfields_parsed:
  assumes "\<forall>s \<in> set ss. no_nul s \<and> get_subfield_len s idlen \<le> length s" and "wrbuf_wf w"
  shows "\<exists>w'. runs (\<lambda>s. parse_subfield (Some (repr (sub_jv idlen s :: 'd jv)))) ss (mt, w) =
    Some (fold (\<lambda>s mt. yaz_marc_add_subfield mt s) ss mt, w') \<and> wrbuf_wf w'"
  using assms
proof (induction ss arbitrary: mt w)
  case (Cons s ss)
  then obtain w' where "parse_subfield (Some (repr (sub_jv idlen s :: 'd jv))) (mt, w) = Some (yaz_marc_add_subfield mt s, w')" "wrbuf_wf w'"
    using subfield_parsed [of s idlen w mt, where 'a = 'd] by auto
  then show ?case using Cons.IH [of w' "yaz_marc_add_subfield mt s"] Cons.prems(1)
    by (simp add: runs_step [of "\<lambda>s. parse_subfield (Some (repr (sub_jv idlen s)))" s "(mt, w)"])
qed simp

lemma indicator_name:
  assumes "0 < j" and "j \<le> 9" and "n < 9"
  shows "is_indicator j (str ''ind'' @ str (dec_digits (n + 1))) \<longleftrightarrow> j = n + 1"
proof -
  have "str (dec_digits (n + 1)) = [byte_of (48 + (n + 1))]" using str_dec [of "n + 1"] assms(3) by simp
  then have "is_indicator j (str ''ind'' @ str (dec_digits (n + 1))) \<longleftrightarrow> byte_of (48 + (n + 1)) = byte_of (48 + j)"
    by (simp add: is_indicator_def)
  also have "\<dots> \<longleftrightarrow> 48 + (n + 1) = 48 + j"
    using assms byte_eq_byte_of [of "48 + j" "byte_of (48 + (n + 1))"] by simp
  finally show ?thesis by auto
qed

lemma indicator_no_nul: "no_nul (str ''ind'' @ str (dec_digits n))"
  using dec_isdigit [of 0 n] by (auto simp: yaz_isdigit_def image_iff)

lemma indicators_step:
  assumes "0 < j" and "j \<le> 9" and "i + length cs \<le> 9" and "\<forall>c \<in> set cs. no_nul c"
  shows "wr_appends (runs (\<lambda>m :: byte list \<times> 'd jv. on_pair (is_indicator j) indicator_value (Some (pair_node m))) (ind_members i cs))
    (if i < j \<and> j \<le> i + length cs then cs ! (j - i - 1) else [])"
  using assms(3,4)
proof (induction cs arbitrary: i)
  case Nil
  then show ?case by (auto simp: appends_to_def)
next
  case (Cons c cs)
  let ?f = "\<lambda>m :: byte list \<times> 'd jv. on_pair (is_indicator j) indicator_value (Some (pair_node m))"
  have e: "?f (str ''ind'' @ str (dec_digits (i + 1)), JStr c) = (\<lambda>w. if j = i + 1 then wrbuf_puts w c else Some w)"
    using indicator_no_nul [of "i + 1"] indicator_name [OF assms(1,2), of i] Cons.prems(1)
    by (simp add: fun_eq_iff on_pair_node indicator_value_def)
  show ?case
  proof (cases "j = i + 1")
    case True
    have "wr_appends (\<lambda>w. do {w1 \<leftarrow> wrbuf_puts w c; runs ?f (ind_members (i + 1) cs) w1}) (c @ [])"
      using Cons.IH [of "i + 1"] Cons.prems True by (intro wr.appends_bind puts_appends_text) simp_all
    then show ?thesis using e True by (simp add: runs.simps)
  next
    case False
    then have "(if i < j \<and> j \<le> i + length (c # cs) then (c # cs) ! (j - i - 1) else []) =
        (if i + 1 < j \<and> j \<le> i + 1 + length cs then cs ! (j - (i + 1) - 1) else [])"
      by (auto simp: nth_Cons')
    then show ?thesis using Cons.IH [of "i + 1"] Cons.prems e False by (simp add: runs.simps del: diff_diff_left)
  qed
qed

lemma indicators_read:
  assumes "length cs \<le> 9" and "\<forall>c \<in> set cs. no_nul c" and "chain (map pair_node ((str ''subfields'', v :: 'd jv) # ind_members 0 cs)) = Some m"
  shows "k \<le> length cs \<Longrightarrow> wr_appends (read_indicators m [1 + k..<Suc (length cs)]) (concat (drop k cs))"
proof (induction "length cs - k" arbitrary: k)
  case 0
  then show ?case using wr.appends_nothing by (simp add: appends_to_def)
next
  case (Suc n)
  then have k: "k < length cs" by simp
  let ?f = "\<lambda>m :: byte list \<times> 'd jv. on_pair (is_indicator (1 + k)) indicator_value (Some (pair_node m))"
  have "list_each (on_pair (is_indicator (1 + k)) indicator_value) (Some m) = runs ?f ((str ''subfields'', v) # ind_members 0 cs)"
    unfolding assms(3) [symmetric] by (rule list_each_map)
  also have "\<dots> = runs ?f (ind_members 0 cs)"
    by (rule ext) (simp add: runs.simps on_pair_node is_indicator_def)
  finally have e: "list_each (on_pair (is_indicator (1 + k)) indicator_value) (Some m) = runs ?f (ind_members 0 cs)" .
  have "wr_appends (runs ?f (ind_members 0 cs)) (cs ! k)"
    using indicators_step [of "1 + k" 0 cs, where 'd = 'd] assms k by simp
  moreover have "wr_appends (read_indicators m [1 + Suc k..<Suc (length cs)]) (concat (drop (Suc k) cs))"
    using Suc.hyps k by (intro Suc.hyps(1)) simp_all
  moreover have "[1 + k..<Suc (length cs)] = (1 + k) # [1 + Suc k..<Suc (length cs)]" using k by (simp add: upt_conv_Cons)
  moreover have "concat (drop k cs) = cs ! k @ concat (drop (Suc k) cs)" using k by (simp flip: Cons_nth_drop_Suc)
  ultimately show ?case using wr.appends_bind e by (simp add: appends_to_def)
qed

lemma split_chars_concat: "concat (split_chars s) = s"
  by (induction s rule: split_chars.induct) (simp add: split_chars.simps)

lemma split_chars_no_nul: "no_nul s \<Longrightarrow> c \<in> set (split_chars s) \<Longrightarrow> no_nul c"
  using split_chars_concat [of s] by (metis UN_I set_concat)

lemma no_subfields:
  "runs (\<lambda>m :: byte list \<times> 'd jv. on_pair (\<lambda>k. k = str ''subfields'') f (Some (pair_node m))) (ind_members i cs) s = Some s"
proof (induction cs arbitrary: i)
  case (Cons c cs)
  have "str ''ind'' @ t \<noteq> str ''subfields''" for t by simp
  then show ?case using Cons indicator_no_nul [of "i + 1"] by (simp add: runs.simps on_pair_node)
qed simp

lemma field_parsed:
  assumes "json_field_ok il idlen n" and "il \<le> 9" and "\<not> marc_debug mt" and "wrbuf_wf w"
  shows "\<exists>mt' w'. parse_field_object il (Some (repr (field_jv idlen n :: 'd jv))) (mt, w) = Some (mt', w') \<and> plus_nodes mt [n] mt' \<and> wrbuf_wf w'"
proof (cases n)
  case (YAZ_MARC_CONTROLFIELD tag data)
  then have nn: "no_nul tag" "no_nul data" using assms(1) by (simp_all add: json_field_ok_def)
  then have "parse_field_object il (Some (repr (field_jv idlen n :: 'd jv))) (mt, w) = Some (yaz_marc_add_controlfield mt tag data, w)"
    using YAZ_MARC_CONTROLFIELD by (simp add: parse_field_object_def repr_JObj parse_field_def on_pair_node field_value_def)
  moreover have "yaz_marc_add_controlfield mt tag data = mt\<lparr>nodes := nodes mt @ [n], subfield_pp := subfield_pp mt\<rparr>"
    using nn assms(3) YAZ_MARC_CONTROLFIELD by (simp add: yaz_marc_add_controlfield_def yaz_marc_add_node_def)
  ultimately show ?thesis using assms(4) unfolding plus_nodes_def by blast
next
  case (YAZ_MARC_DATAFIELD tag ind ss)
  have ok: "no_nul tag" "no_nul ind" "length (split_chars ind) = il" "ss \<noteq> []"
      "\<forall>s \<in> set ss. no_nul s \<and> get_subfield_len s idlen \<le> length s"
    using assms(1) YAZ_MARC_DATAFIELD by (simp_all add: json_field_ok_def)
  define ms where "ms = (str ''subfields'', JArr (map (sub_jv idlen) ss) :: 'd jv) # ind_members 0 (split_chars ind)"
  obtain m where m: "chain (map pair_node ms) = Some m" "is_list m" by (simp add: ms_def)
  have "wr_appends (read_indicators m [1..<Suc il]) ind"
    using indicators_read [of "split_chars ind" "JArr (map (sub_jv idlen) ss) :: 'd jv" m 0] ok(2,3) assms(2) m(1)
      split_chars_no_nul [OF ok(2)] by (simp add: ms_def split_chars_concat del: upt_Suc)
  then obtain w1 where w1: "read_indicators m [1..<Suc il] (wrbuf_rewind w) = Some w1" "wrbuf_wf w1" "wrbuf_content w1 = ind"
    using rewind_wf [OF assms(4)] unfolding appends_to_def by force
  obtain w2 where w2: "wrbuf_cstr w1 = Some (ind, w2)" "wrbuf_wf w2" using cstr_spec [OF w1(2)] w1(3) ok(2) by auto
  define mt1 where "mt1 = yaz_marc_add_datafield mt tag ind"
  define mt2 where "mt2 = fold (\<lambda>s mt. yaz_marc_add_subfield mt s) ss mt1"
  obtain w3 where w3: "runs (\<lambda>s. parse_subfield (Some (repr (sub_jv idlen s :: 'd jv)))) ss (mt1, w2) = Some (mt2, w3)" "wrbuf_wf w3"
    using subfields_parsed [OF ok(5) w2(2)] by (auto simp: mt2_def)
  have mt1: "\<not> marc_debug mt1" "subfield_pp mt1 = Some (length (nodes mt))" "nodes mt1 = nodes mt @ [YAZ_MARC_DATAFIELD tag ind []]"
    using assms(3) ok(1,2) by (simp_all add: mt1_def yaz_marc_add_datafield_def yaz_marc_add_node_def)
  then have "mt2 = mt1\<lparr>nodes := nodes mt @ [YAZ_MARC_DATAFIELD tag ind ss]\<rparr>"
    using add_subfields [OF mt1, of ss] ok(5) by (simp add: mt2_def)
  then have "mt2 = mt\<lparr>nodes := nodes mt @ [n], subfield_pp := Some (length (nodes mt))\<rparr>"
    using YAZ_MARC_DATAFIELD by (simp add: mt1_def yaz_marc_add_datafield_def yaz_marc_add_node_def)
  then have plus: "plus_nodes mt [n] mt2" unfolding plus_nodes_def by blast
  obtain sl where sl: "chain (map (\<lambda>s. repr (sub_jv idlen s :: 'd jv)) ss) = Some sl" using ok(4) by (cases ss) auto
  have "parse_subfields (Some sl) (mt1, w2) = Some (mt2, w3)"
    using w3(1) chain_list [OF sl] list_each_map [of parse_subfield "\<lambda>s. repr (sub_jv idlen s :: 'd jv)" ss] sl
    by (simp add: parse_subfields_def)
  then have v: "subfields_value (str ''subfields'') (repr (JArr (map (sub_jv idlen) ss) :: 'd jv)) (mt1, w2) = Some (mt2, w3)"
    using sl by (simp add: subfields_value_def comp_def)
  have "list_each (on_pair (\<lambda>k. k = str ''subfields'') subfields_value) (Some m) (mt1, w2) = Some (mt2, w3)"
    unfolding m(1) [symmetric] list_each_map using v no_subfields [of subfields_value 0 "split_chars ind" "(mt2, w3)"]
    by (simp add: ms_def runs.simps on_pair_node)
  then have "parse_datafield tag il m (mt, w) = Some (mt2, w3)"
    using w1(1) w2(1) by (simp add: parse_datafield_def mt1_def del: upt_Suc)
  moreover have "repr (JObj ms) = json_object (Some m)" using m(1) by (simp only: repr_JObj)
  moreover have "field_jv idlen n = JObj [(tag, JObj ms)]" using YAZ_MARC_DATAFIELD by (simp add: ms_def)
  ultimately have "parse_field_object il (Some (repr (field_jv idlen n :: 'd jv))) (mt, w) = Some (mt2, w3)"
    using m(2) ok(1) by (simp add: repr_JObj [of "[_]"] parse_field_object_def parse_field_def on_pair_node field_value_def)
  then show ?thesis using plus w3(2) by blast
qed (use assms(1) in \<open>simp_all add: json_field_ok_def\<close>)

lemma fields_parsed:
  assumes "\<forall>n \<in> set ns. json_field_ok il idlen n" and "il \<le> 9" and "\<not> marc_debug mt" and "wrbuf_wf w"
  shows "\<exists>mt' w'. runs (\<lambda>n. parse_field_object il (Some (repr (field_jv idlen n :: 'd jv)))) ns (mt, w) = Some (mt', w') \<and>
    plus_nodes mt ns mt'"
  using assms
proof (induction ns arbitrary: mt w)
  case Nil
  have "plus_nodes mt [] mt" unfolding plus_nodes_def by (rule exI [of _ "subfield_pp mt"]) simp
  then show ?case by simp
next
  case (Cons n ns)
  obtain mt1 w1 where 1: "parse_field_object il (Some (repr (field_jv idlen n :: 'd jv))) (mt, w) = Some (mt1, w1)" "plus_nodes mt [n] mt1" "wrbuf_wf w1"
    using field_parsed [of il idlen n mt w, where 'd = 'd] Cons.prems by auto
  obtain mt2 w2 where 2: "runs (\<lambda>n. parse_field_object il (Some (repr (field_jv idlen n :: 'd jv)))) ns (mt1, w1) = Some (mt2, w2)" "plus_nodes mt1 ns mt2"
    using Cons.IH [of mt1 w1] Cons.prems plus_nodes_debug [OF 1(2)] 1(3) by auto
  show ?case using 1(1) 2(1) plus_nodes_trans [OF 1(2) 2(2)] by (simp add: runs.simps)
qed

lemma record_tree_read:
  assumes "leader_ok il lde lst l" and "sizes_ok il lde lst" and "atoi_n_check (take 5 (drop 12 l)) 0 = (True, int base)" and "no_nul l"
    and "\<forall>n \<in> set ns. json_field_ok il idlen n" and "leader_spec mt = None" and "\<not> marc_debug mt"
  shows "\<exists>r. yaz_marc_read_json_node mt (Some (repr (record_jv idlen l ns :: 'd jv))) = Some (True, r) \<and> plus_nodes mt (YAZ_MARC_LEADER l # ns) r"
proof -
  define mt1 where "mt1 = mt\<lparr>nodes := nodes mt @ [YAZ_MARC_LEADER l]\<rparr>"
  obtain li where li: "yaz_marc_set_leader mt l = (li, mt1)" "indicator_length li = int il"
    using leader_kept [OF assms(1-3,6,7)] by (auto simp: mt1_def)
  have l: "length l = 24" using assms(1) by (simp add: leader_ok_def)
  have il: "il \<le> 9" using assms(2) by (simp add: sizes_ok_def)
  obtain r w where r: "runs (\<lambda>n. parse_field_object il (Some (repr (field_jv idlen n :: 'd jv)))) ns (mt1, wrbuf_alloc (marc_fresh mt)) = Some (r, w)"
      "plus_nodes mt1 ns r"
    using fields_parsed [OF assms(5) il, of mt1 "wrbuf_alloc (marc_fresh mt)", where 'd = 'd] assms(7) wrbuf_alloc_wf(1) by (auto simp: mt1_def)
  have f: "fields_value il k (repr (JArr (map (field_jv idlen) ns) :: 'd jv)) (mt1, wrbuf_alloc (marc_fresh mt)) = Some (r, w)" for k
  proof (cases "chain (map (\<lambda>n. repr (field_jv idlen n :: 'd jv)) ns)")
    case None
    then have "ns = []" by (cases ns) simp_all
    then show ?thesis using r(1) by (simp add: fields_value_def)
  next
    case (Some m)
    then show ?thesis using r(1) chain_list [OF Some] list_each_map [of "parse_field_object il" "\<lambda>n. repr (field_jv idlen n :: 'd jv)" ns]
      by (simp add: fields_value_def comp_def)
  qed
  have "mt1 = mt\<lparr>nodes := nodes mt @ [YAZ_MARC_LEADER l], subfield_pp := subfield_pp mt\<rparr>" by (simp add: mt1_def)
  then have "plus_nodes mt [YAZ_MARC_LEADER l] mt1" unfolding plus_nodes_def by blast
  from plus_nodes_trans [OF this r(2)] show ?thesis
    using f li l assms(4) by (simp add: yaz_marc_read_json_node_def record_jv_def repr_JObj on_pair_node leader_value_def)
qed

section \<open>The text of a record\<close>

abbreviation esc :: "byte list \<Rightarrow> byte list" where
  "esc s \<equiv> concat (map json_escape s)"

definition nl :: "nat \<Rightarrow> byte list" where
  "nl n = 10 # replicate n 32"

lemma ws_nls [simp]: "ws (nl n)" and ws_blanks [simp]: "ws (replicate n 32)"
  by (auto simp: ws_def nl_def)

definition sub_text :: "int \<Rightarrow> byte list \<Rightarrow> byte list" where
  "sub_text idlen s = (let k = get_subfield_len s idlen in
     replicate 10 32 @ 123 # (nl 12 @ 34 # esc (take k s) @ 34 # [] @ 58 # [32] @ 34 # esc (drop k s) @ [34]) @ nl 10 @ [125])"

fun subs_text :: "int \<Rightarrow> byte list \<Rightarrow> byte list list \<Rightarrow> byte list" where
  "subs_text idlen sep [] = []"
| "subs_text idlen sep (s # ss) = sep @ sub_text idlen s @ subs_text idlen [44, 10] ss"

fun inds_text :: "nat \<Rightarrow> byte list list \<Rightarrow> byte list" where
  "inds_text i [] = []"
| "inds_text i (c # cs) = 44 # (nl 8 @ 34 # (str ''ind'' @ str (dec_digits (i + 1))) @ 34 # [] @ 58 # [32] @ 34 # esc c @ [34]) @ inds_text (i + 1) cs"

fun field_text :: "int \<Rightarrow> marc_node \<Rightarrow> byte list" where
  "field_text idlen (YAZ_MARC_CONTROLFIELD tag data) =
     nl 4 @ 123 # (nl 6 @ 34 # esc tag @ 34 # [] @ 58 # [32] @ 34 # esc data @ [34]) @ nl 4 @ [125]"
| "field_text idlen (YAZ_MARC_DATAFIELD tag ind ss) =
     nl 4 @ 123 # (nl 6 @ 34 # esc tag @ 34 # [] @ 58 # [32] @ 123 # ((nl 8 @ 34 # str ''subfields'' @ 34 # [] @ 58 # [32] @
       91 # ([10] @ subs_text idlen [] ss) @ nl 8 @ [93]) @ inds_text 0 (split_chars ind)) @ nl 6 @ [125]) @ nl 4 @ [125]"
| "field_text idlen n = []"

fun fields_text :: "int \<Rightarrow> bool \<Rightarrow> marc_node list \<Rightarrow> byte list" where
  "fields_text idlen first [] = []"
| "fields_text idlen first (n # ns) = (if first then [] else [44]) @ field_text idlen n @ fields_text idlen False ns"

definition record_json :: "int \<Rightarrow> byte list \<Rightarrow> marc_node list \<Rightarrow> byte list" where
  "record_json idlen l ns =
     123 # ((nl 2 @ 34 # str ''leader'' @ 34 # [] @ 58 # [32] @ 34 # esc l @ [34]) @ 44 #
       (nl 2 @ 34 # str ''fields'' @ 34 # [] @ 58 # [32] @ 91 # fields_text idlen True ns @ (if ns = [] then [] else nl 2) @ [93])) @ [10] @ [125]"

lemma object_textI: "ws w0 \<Longrightarrow> members_text strtod ms t \<Longrightarrow> ws w \<Longrightarrow> json_text strtod (JObj ms) (w0 @ 123 # t @ w @ [125])"
  by (rule text_space, assumption) (rule text_object)

lemma string_textI: "no_nul s \<Longrightarrow> json_text strtod (JStr s) ([32] @ 34 # esc s @ [34])"
  by (rule text_space) (auto simp: ws_blank intro: text_string str_text_escape)

lemma member_textI: "ws w \<Longrightarrow> str_text k t \<Longrightarrow> json_text strtod v u \<Longrightarrow> member_text strtod (k, v) (w @ 34 # t @ 34 # [] @ 58 # u)"
  unfolding member_text_def by (intro exI [of _ w] exI [of _ t] exI [of _ "[]"] exI [of _ u]) simp

lemma sub_json: "no_nul s \<Longrightarrow> json_text strtod (sub_jv idlen s) (sub_text idlen s)"
  unfolding sub_text_def sub_jv_def Let_def
  by (intro object_textI members_textI(1) member_textI string_textI str_text_escape) (auto dest: in_set_takeD in_set_dropD)

lemma subs_json:
  assumes "\<forall>s \<in> set ss. no_nul s" and "ss \<noteq> []"
  shows "elements_text strtod (map (sub_jv idlen) ss) (subs_text idlen [] ss)"
proof -
  have "elements_text strtod (map (sub_jv idlen) (s # ss)) (sub_text idlen s @ subs_text idlen [44, 10] ss)"
    if "\<forall>s \<in> set (s # ss). no_nul s" for s ss
    using that
  proof (induction ss arbitrary: s)
    case Nil
    then show ?case using elements_one [OF sub_json [of s strtod idlen]] by simp
  next
    case (Cons t ss)
    have "elements_text strtod (map (sub_jv idlen) (t # ss)) ([10] @ sub_text idlen t @ subs_text idlen [44, 10] ss)"
      by (rule elements_space) (use Cons in auto)
    from elements_more [OF sub_json [of s strtod idlen] _ this, of "[]"] show ?case using Cons.prems by simp
  qed
  from this [of "hd ss" "tl ss"] show ?thesis using assms by (cases ss) auto
qed

text \<open>Letters and digits are written as they are.\<close>

lemma plain_escape: "\<forall>c \<in> set s. yaz_isdigit c \<or> yaz_islower c \<Longrightarrow> esc s = s"
proof (induction s)
  case (Cons c s)
  then have "48 \<le> unat c \<and> unat c \<le> 57 \<or> 97 \<le> unat c \<and> unat c \<le> 122"
    by (auto simp: yaz_isdigit_def yaz_islower_def word_le_nat_alt)
  moreover from this have "c \<noteq> 34" "c \<noteq> 92" by auto
  ultimately have "json_escape c = [c]" using schar_pos_iff [of c] by (auto simp: json_escape_def)
  then show ?case using Cons by simp
qed simp

lemma key_text:
  assumes "\<forall>c \<in> set s. yaz_isdigit c \<or> yaz_islower c"
  shows "str_text s s"
proof -
  have "no_nul s" using assms by (force simp: yaz_isdigit_def yaz_islower_def)
  then show ?thesis using str_text_escape [of s] plain_escape [OF assms] by simp
qed

lemma inds_json:
  assumes "\<forall>c \<in> set cs. no_nul c" and "member_text strtod m t"
  shows "members_text strtod (m # ind_members i cs) (t @ inds_text i cs)"
  using assms
proof (induction cs arbitrary: i m t)
  case Nil
  then show ?case using members_textI(1) [of strtod m t] by simp
next
  case (Cons c cs)
  let ?k = "str ''ind'' @ str (dec_digits (i + 1))"
  have "str_text ?k ?k"
    using dec_isdigit [of _ "i + 1"] by (intro key_text) (auto simp: yaz_islower_def)
  then have "member_text strtod (?k, JStr c) (nl 8 @ 34 # ?k @ 34 # [] @ 58 # [32] @ 34 # esc c @ [34])"
    using Cons.prems(1) by (intro member_textI string_textI) simp_all
  from members_textI(2) [OF Cons.prems(2) Cons.IH [OF _ this]] show ?case using Cons.prems(1) by simp
qed

lemma field_json:
  assumes "json_field_ok il idlen n"
  shows "json_text strtod (field_jv idlen n) (field_text idlen n)"
proof (cases n)
  case (YAZ_MARC_CONTROLFIELD tag data)
  then show ?thesis using assms unfolding YAZ_MARC_CONTROLFIELD field_text.simps field_jv.simps json_field_ok_def
    by (intro object_textI members_textI(1) member_textI string_textI str_text_escape) simp_all
next
  case (YAZ_MARC_DATAFIELD tag ind ss)
  then have ok: "no_nul tag" "no_nul ind" "ss \<noteq> []" "\<forall>s \<in> set ss. no_nul s" using assms by (auto simp: json_field_ok_def)
  have "json_text strtod (JArr (map (sub_jv idlen) ss)) ([32] @ 91 # ([10] @ subs_text idlen [] ss) @ nl 8 @ [93])"
    using ok by (intro text_space text_array elements_space subs_json) simp_all
  moreover have "str_text (str ''subfields'') (str ''subfields'')"
    by (rule key_text) (simp add: yaz_islower_def)
  ultimately have "members_text strtod ((str ''subfields'', JArr (map (sub_jv idlen) ss)) # ind_members 0 (split_chars ind))
      ((nl 8 @ 34 # str ''subfields'' @ 34 # [] @ 58 # [32] @ 91 # ([10] @ subs_text idlen [] ss) @ nl 8 @ [93]) @ inds_text 0 (split_chars ind))"
    using split_chars_no_nul [OF ok(2)] by (intro inds_json member_textI) simp_all
  then have "json_text strtod (field_jv idlen n) (field_text idlen n)"
    unfolding YAZ_MARC_DATAFIELD field_text.simps field_jv.simps using ok(1)
    by (intro object_textI members_textI(1) member_textI str_text_escape) simp_all
  then show ?thesis .
qed (use assms in \<open>simp_all add: json_field_ok_def\<close>)

lemma fields_json:
  assumes "\<forall>n \<in> set (n # ns). json_field_ok il idlen n"
  shows "elements_text strtod (map (field_jv idlen) (n # ns)) (field_text idlen n @ fields_text idlen False ns)"
  using assms
proof (induction ns arbitrary: n)
  case Nil
  then show ?case using elements_one [OF field_json [of il idlen n strtod]] by simp
next
  case (Cons m ns)
  have "elements_text strtod (map (field_jv idlen) (m # ns)) (field_text idlen m @ fields_text idlen False ns)"
    using Cons by simp
  from elements_more [OF field_json [of il idlen n strtod] _ this, of "[]"] show ?case using Cons.prems by simp
qed

lemma record_json_text:
  assumes "no_nul l" and "\<forall>n \<in> set ns. json_field_ok il idlen n"
  shows "json_text strtod (record_jv idlen l ns) (record_json idlen l ns)"
proof -
  have f: "json_text strtod (JArr (map (field_jv idlen) ns)) ([32] @ 91 # fields_text idlen True ns @ (if ns = [] then [] else nl 2) @ [93])"
  proof (cases ns)
    case Nil
    then show ?thesis using text_space [OF ws_blank text_array0 [OF ws_Nil, of strtod]] by simp
  next
    case (Cons n ms)
    then show ?thesis using text_space [OF ws_blank text_array [OF fields_json [of n ms il idlen strtod] ws_nls(1) [of 2]]] assms(2) by simp
  qed
  have k: "str_text (str ''leader'') (str ''leader'')" "str_text (str ''fields'') (str ''fields'')"
    by (rule key_text, simp add: yaz_islower_def)+
  have "json_text strtod (record_jv idlen l ns) ([] @ record_json idlen l ns)"
    unfolding record_json_def record_jv_def
    by (intro object_textI members_textI member_textI string_textI assms(1) f k) simp_all
  then show ?thesis by simp
qed

section \<open>The writer\<close>

lemma c_texts:
  "c_text ''          {~            `'' = replicate 10 32 @ 123 # nl 12 @ [34]" "c_text ''`: `'' = [34, 58, 32, 34]"
  "c_text ''`~          }'' = 34 # nl 10 @ [125]" "c_text '',~'' = [44, 10]" "c_text ''`'' = [34]" "c_text '''' = []" "c_text '','' = [44]"
  "c_text '',~        `ind'' = 44 # nl 8 @ 34 # str ''ind''" "c_text ''~    {~      `'' = nl 4 @ 123 # nl 6 @ [34]"
  "c_text ''`~    }'' = 34 # nl 4 @ [125]" "c_text ''`: {~        `subfields`: [~'' = 34 # 58 # 32 # 123 # nl 8 @ 34 # str ''subfields'' @ [34, 58, 32, 91, 10]"
  "c_text ''~        ]'' = nl 8 @ [93]" "c_text ''~      }'' = nl 6 @ [125]" "c_text ''~    }'' = nl 4 @ [125]"
  "c_text ''{~'' = [123, 10]" "c_text ''  `leader`: `'' = 32 # 32 # 34 # str ''leader'' @ [34, 58, 32, 34]" "c_text ''`,~'' = [34, 44, 10]"
  "c_text ''  `fields`: ['' = 32 # 32 # 34 # str ''fields'' @ [34, 58, 32, 91]" "c_text ''~  '' = nl 2" "c_text '']~'' = [93, 10]" "c_text ''}~'' = [125, 10]"
  by code_simp+

lemma nl_no_nul [simp]: "no_nul (nl n)" "length (nl n) = Suc n"
  by (simp_all add: nl_def)

lemmas json_appends = puts_appends_text printf_appends json_write_appends

lemma subfield_written:
  assumes "get_subfield_len s idlen \<le> length s"
  shows "wr_appends (json_subfield idlen s) (sub_text idlen s)"
proof -
  let ?k = "get_subfield_len s idlen"
  have "json_subfield idlen s = writes [put_text (c_text ''          {~            `''), put_json (take ?k s), put_text (c_text ''`: `''), put_json (drop ?k s),
      put_text (c_text ''`~          }'')]"
    using assms by (simp add: fun_eq_iff json_subfield_def split_subfield_def Let_def)
  moreover have "wr_appends (writes [put_text (c_text ''          {~            `''), put_json (take ?k s), put_text (c_text ''`: `''), put_json (drop ?k s),
      put_text (c_text ''`~          }'')]) (c_text ''          {~            `'' @ esc (take ?k s) @ c_text ''`: `'' @ esc (drop ?k s) @ c_text ''`~          }'')"
    by (intro writes_Cons writes_one json_appends) (simp_all add: c_texts)
  ultimately show ?thesis by (simp add: sub_text_def Let_def c_texts)
qed

lemma subfields_written:
  assumes "\<forall>s \<in> set ss. get_subfield_len s idlen \<le> length s" and "no_nul sep"
  shows "wr_appends (json_subfields idlen sep ss) (subs_text idlen sep ss)"
  using assms
proof (induction ss arbitrary: sep)
  case Nil
  then show ?case using wr.appends_nothing by (simp add: appends_to_def)
next
  case (Cons s ss)
  have "wr_appends (\<lambda>wr. do {wr1 \<leftarrow> writes [put_text sep, json_subfield idlen s] wr; json_subfields idlen (c_text '',~'') ss wr1})
      ((sep @ sub_text idlen s) @ subs_text idlen [44, 10] ss)"
    using Cons by (intro wr.appends_bind writes_two puts_appends_text subfield_written) (simp_all add: c_texts)
  then show ?case by (simp add: appends_to_def)
qed

lemma indicators_written:
  assumes "i + length cs \<le> 9"
  shows "wr_appends (json_indicators i cs) (inds_text i cs)"
  using assms
proof (induction cs arbitrary: i)
  case Nil
  then show ?case using wr.appends_nothing by (simp add: appends_to_def)
next
  case (Cons c cs)
  let ?k = "c_text '',~        `ind'' @ str (dec_digits (i + 1)) @ c_text ''`: `''"
  have "wr_appends (\<lambda>wr. do {wr1 \<leftarrow> writes [print_text ?k, put_json c, print_text (c_text ''`'')] wr; json_indicators (i + 1) cs wr1})
      ((?k @ esc c @ c_text ''`'') @ inds_text (i + 1) cs)"
    using Cons dec_length [of "i + 1" 0] indicator_no_nul [of "i + 1"]
    by (intro wr.appends_bind writes_Cons writes_one json_appends) (simp_all add: c_texts)
  then show ?case by (simp add: appends_to_def c_texts)
qed

lemma field_written:
  assumes "json_field_ok il idlen n" and "il \<le> 9" and "wrbuf_wf wr"
  shows "\<exists>w. marc_json_node idlen first n wr = Some (False, w) \<and> wrbuf_wf w \<and>
    wrbuf_content w = wrbuf_content wr @ (if first then [] else [44]) @ field_text idlen n"
proof (cases n)
  case (YAZ_MARC_CONTROLFIELD tag data)
  then have nn: "no_nul tag" "no_nul data" using assms(1) by (simp_all add: json_field_ok_def)
  let ?fs = "[put_text (c_text (if first then '''' else '','')), put_text (c_text ''~    {~      `''), put_json (cstr tag), put_text (c_text ''`: `''),
      put_json (cstr data), put_text (c_text ''`~    }'')]"
    and ?t = "c_text (if first then '''' else '','') @ c_text ''~    {~      `'' @ esc (cstr tag) @ c_text ''`: `'' @ esc (cstr data) @ c_text ''`~    }''"
  have "wr_appends (writes ?fs) ?t" by (intro writes_Cons writes_one json_appends) (simp_all add: c_texts)
  then obtain w where w: "writes ?fs wr = Some w" "wrbuf_wf w" "wrbuf_content w = wrbuf_content wr @ ?t"
    by (rule writes_spec [OF _ assms(3)])
  have "marc_json_node idlen first n wr = Some (False, w)" using w(1) YAZ_MARC_CONTROLFIELD by simp
  moreover have "?t = (if first then [] else [44]) @ field_text idlen n" using nn YAZ_MARC_CONTROLFIELD by (simp add: c_texts)
  ultimately show ?thesis using w(2,3) by simp
next
  case (YAZ_MARC_DATAFIELD tag ind ss)
  then have ok: "no_nul tag" "length (split_chars ind) = il" "\<forall>s \<in> set ss. get_subfield_len s idlen \<le> length s"
    using assms(1) by (simp_all add: json_field_ok_def)
  let ?fs = "[put_text (c_text (if first then '''' else '','')), put_text (c_text ''~    {~      `''), put_json (cstr tag),
       put_text (c_text ''`: {~        `subfields`: [~''), json_subfields idlen [] ss, put_text (c_text ''~        ]''),
       json_indicators 0 (split_chars ind), put_text (c_text ''~      }''), put_text (c_text ''~    }'')]"
    and ?t = "c_text (if first then '''' else '','') @ c_text ''~    {~      `'' @ esc (cstr tag) @ c_text ''`: {~        `subfields`: [~'' @ subs_text idlen [] ss @
       c_text ''~        ]'' @ inds_text 0 (split_chars ind) @ c_text ''~      }'' @ c_text ''~    }''"
  have "wr_appends (writes ?fs) ?t"
    using ok assms(2) by (intro writes_Cons writes_one json_appends subfields_written indicators_written) (simp_all add: c_texts)
  then obtain w where w: "writes ?fs wr = Some w" "wrbuf_wf w" "wrbuf_content w = wrbuf_content wr @ ?t"
    by (rule writes_spec [OF _ assms(3)])
  have "marc_json_node idlen first n wr = Some (False, w)" using w(1) YAZ_MARC_DATAFIELD by simp
  moreover have "?t = (if first then [] else [44]) @ field_text idlen n" using ok(1) YAZ_MARC_DATAFIELD by (simp add: c_texts)
  ultimately show ?thesis using w(2,3) by simp
qed (use assms(1) in \<open>simp_all add: json_field_ok_def\<close>)

text \<open>The nesting of a record is at most six.\<close>

lemma fold_max_le: "\<forall>x \<in> set xs. x \<le> k \<Longrightarrow> a \<le> k \<Longrightarrow> fold max xs (a :: nat) \<le> k"
  by (induction xs arbitrary: a) simp_all

lemma ind_members_depth: "m \<in> set (ind_members i cs) \<Longrightarrow> jdepth (snd m) = 0"
  by (induction i cs rule: ind_members.induct) auto

lemma field_depth: "jdepth (field_jv idlen n) \<le> 4"
proof (cases n)
  case (YAZ_MARC_DATAFIELD tag ind ss)
  have "fold max (map (jdepth \<circ> sub_jv idlen) ss) 0 \<le> 1" by (rule fold_max_le) (auto simp: sub_jv_def Let_def)
  then have "fold max (map (\<lambda>m. jdepth (snd m)) (ind_members 0 (split_chars ind))) (Suc (fold max (map (jdepth \<circ> sub_jv idlen) ss) 0)) \<le> 2"
    by (intro fold_max_le) (auto simp: ind_members_depth)
  then show ?thesis using YAZ_MARC_DATAFIELD by simp
qed simp_all

lemma record_depth: "jdepth (record_jv idlen l ns :: 'd jv) \<le> 1000"
proof -
  have "fold max (map (jdepth \<circ> (field_jv idlen :: marc_node \<Rightarrow> 'd jv)) ns) 0 \<le> 4" by (rule fold_max_le) (auto intro: field_depth)
  then show ?thesis by (simp add: record_jv_def)
qed

lemma fields_written:
  assumes "\<forall>n \<in> set ns. json_field_ok il idlen n" and "il \<le> 9" and "wrbuf_wf wr"
  shows "\<exists>w. marc_json_nodes idlen first ns wr = Some (first \<and> ns = [], w) \<and> wrbuf_wf w \<and>
    wrbuf_content w = wrbuf_content wr @ fields_text idlen first ns"
  using assms
proof (induction ns arbitrary: first wr)
  case (Cons n ns)
  obtain w where w: "marc_json_node idlen first n wr = Some (False, w)" "wrbuf_wf w"
      "wrbuf_content w = wrbuf_content wr @ (if first then [] else [44]) @ field_text idlen n"
    using field_written [of il idlen n wr first] Cons.prems by auto
  then show ?case using Cons.IH [of w False] Cons.prems by auto
qed simp

lemma record_json_written:
  assumes "leaders mt = [l]" and "nodes mt = YAZ_MARC_LEADER l # ns" and "leader_number l 11 = Some (True, idlen)"
    and "\<forall>n \<in> set ns. json_field_ok il idlen n" and "il \<le> 9" and "no_nul l" and "wrbuf_wf wr"
  shows "\<exists>w. yaz_marc_write_json mt wr = Some (True, w) \<and> wrbuf_wf w \<and> wrbuf_content w = wrbuf_content wr @ record_json idlen l ns @ [10]"
proof -
  obtain w1 where w1: "wrbuf_puts wr (c_text ''{~'') = Some w1" "wrbuf_wf w1" "wrbuf_content w1 = wrbuf_content wr @ c_text ''{~''"
    using puts_appends_text [of "c_text ''{~''"] assms(7) by (auto simp: appends_to_def c_texts)
  let ?fs = "[put_text (c_text ''  `leader`: `''), put_json (cstr l), put_text (c_text ''`,~''), put_text (c_text ''  `fields`: ['')]"
  have "wr_appends (writes ?fs) (c_text ''  `leader`: `'' @ esc (cstr l) @ c_text ''`,~'' @ c_text ''  `fields`: ['')"
    by (intro writes_Cons writes_one json_appends) (simp_all add: c_texts)
  then obtain w2 where w2: "writes ?fs w1 = Some w2" "wrbuf_wf w2"
      "wrbuf_content w2 = wrbuf_content w1 @ c_text ''  `leader`: `'' @ esc (cstr l) @ c_text ''`,~'' @ c_text ''  `fields`: [''"
    by (rule writes_spec [OF _ w1(2)])
  obtain w3 where w3: "marc_json_nodes idlen True ns w2 = Some (ns = [], w3)" "wrbuf_wf w3" "wrbuf_content w3 = wrbuf_content w2 @ fields_text idlen True ns"
    using fields_written [OF assms(4,5) w2(2), of True] by auto
  let ?gs = "(if ns = [] then [] else [put_text (c_text ''~  '')]) @ [put_text (c_text '']~''), put_text (c_text ''}~'')]"
  have "wr_appends (writes ?gs) ((if ns = [] then [] else c_text ''~  '') @ c_text '']~'' @ c_text ''}~'')"
    by (cases "ns = []") (auto simp only: if_True if_False append_Nil append_Cons simp_thms intro!: writes_Cons writes_one json_appends, simp_all add: c_texts)
  then obtain w4 where w4: "writes ?gs w3 = Some w4" "wrbuf_wf w4"
      "wrbuf_content w4 = wrbuf_content w3 @ (if ns = [] then [] else c_text ''~  '') @ c_text '']~'' @ c_text ''}~''"
    by (rule writes_spec [OF _ w3(2)])
  have "yaz_marc_write_json mt wr = Some (True, w4)"
    using w1(1) w2(1) w3(1) w4(1) assms(1-3) by (simp add: yaz_marc_write_json_def split del: if_split)
  moreover have "wrbuf_content w4 = wrbuf_content wr @ record_json idlen l ns @ [10]"
    using w1(3) w2(3) w3(3) w4(3) assms(6) by (simp add: record_json_def c_texts nl_def numeral_2_eq_2)
  ultimately show ?thesis using w4(2) by blast
qed

section \<open>Properties\<close>

definition json_record_ok :: "nat \<Rightarrow> int \<Rightarrow> byte list \<Rightarrow> marc_node list \<Rightarrow> bool" where
  "json_record_ok il idlen l ns \<longleftrightarrow> no_nul l \<and> (\<exists>lde lst base. leader_ok il lde lst l \<and> sizes_ok il lde lst \<and>
     atoi_n_check (take 5 (drop 12 l)) 0 = (True, int base)) \<and> atoi_n_check [l ! 11] 0 = (True, idlen) \<and>
     (\<forall>n \<in> set ns. json_field_ok il idlen n)"

lemma json_record_okE:
  assumes "json_record_ok il idlen l ns"
  obtains lde lst base where "leader_ok il lde lst l" "sizes_ok il lde lst" "atoi_n_check (take 5 (drop 12 l)) 0 = (True, int base)"
    "no_nul l" "atoi_n_check [l ! 11] 0 = (True, idlen)" "\<forall>n \<in> set ns. json_field_ok il idlen n"
  using assms by (auto simp: json_record_ok_def)

lemma json_record_written:
  assumes "json_record_ok il idlen l ns" "nodes mt = YAZ_MARC_LEADER l # ns"
  shows "\<exists>w. yaz_marc_write_json mt (wrbuf_alloc mem_content) = Some (True, w) \<and> wrbuf_content w = record_json idlen l ns @ [10]"
proof -
  obtain lde lst base where ok: "leader_ok il lde lst l" "sizes_ok il lde lst" "atoi_n_check (take 5 (drop 12 l)) 0 = (True, int base)"
      "no_nul l" "atoi_n_check [l ! 11] 0 = (True, idlen)" "\<forall>n \<in> set ns. json_field_ok il idlen n"
    using json_record_okE [OF assms(1)] .
  have il: "il \<le> 9" using ok(2) by (simp add: sizes_ok_def)
  have "List.map_filter node_leader ns = []"
    using ok(6) by (induction ns) (auto simp: List.map_filter_simps json_field_ok_def split: marc_node.splits)
  then have lead: "leaders mt = [l]" using assms(2) by (simp add: leaders_def List.map_filter_simps)
  have num: "leader_number l 11 = Some (True, idlen)" using ok(1,5) by (simp add: leader_number_def leader_ok_def rd_def nth_append)
  show ?thesis
    using record_json_written [OF lead assms(2) num ok(6) il ok(4) wrbuf_alloc_wf(1)] wrbuf_alloc_wf(2) by fastforce
qed

lemma sample_json_record: "json_record_ok 2 2 sample_leader sample_fields"
proof -
  have "leader_ok 2 4 5 sample_leader" "sizes_ok 2 4 5" using sample_record_ok by (simp_all add: record_ok_def)
  moreover have "no_nul sample_leader" "atoi_n_check [sample_leader ! 11] 0 = (True, 2)"
    "atoi_n_check (take 5 (drop 12 sample_leader)) 0 = (True, int 0)" "\<forall>n \<in> set sample_fields. json_field_ok 2 2 n"
    by code_simp+
  ultimately show ?thesis unfolding json_record_ok_def by blast
qed

lemma sample_json_short: "length (record_json 2 sample_leader sample_fields) \<le> 1000"
  by code_simp

text \<open>
  C7: A MARC record that is written as JSON, parsed by the JSON parser and read from the tree is the same
  record. The leader is well formed, there are as many indicators as it says, each data field has a
  subfield, no subfield is shorter than its code, and the text has less than 2^31 - 1 bytes (the parser counts
  in an \<open>int\<close>).
\<close>

theorem marc_json_roundtrip:
  assumes "json_record_ok il idlen l ns" and "nodes mt = YAZ_MARC_LEADER l # ns" and "leader_spec mt' = None" and "\<not> marc_debug mt'"
    and "length (wrbuf_content (snd (the (yaz_marc_write_json mt (wrbuf_alloc mem_content))))) < 2147483647"
  shows "\<exists>w n r. yaz_marc_write_json mt (wrbuf_alloc mem_content) = Some (True, w) \<and>
    json_parse strtod fresh (wrbuf_content w) = Some (Some n, None) \<and>
    yaz_marc_read_json_node mt' (Some n) = Some (True, r) \<and> nodes r = nodes mt' @ YAZ_MARC_LEADER l # ns"
proof -
  obtain lde lst base where ok: "leader_ok il lde lst l" "sizes_ok il lde lst" "atoi_n_check (take 5 (drop 12 l)) 0 = (True, int base)"
      "no_nul l" "atoi_n_check [l ! 11] 0 = (True, idlen)" "\<forall>n \<in> set ns. json_field_ok il idlen n"
    using json_record_okE [OF assms(1)] .
  obtain w where w: "yaz_marc_write_json mt (wrbuf_alloc mem_content) = Some (True, w)" "wrbuf_content w = record_json idlen l ns @ [10]"
    using json_record_written [OF assms(1,2)] by blast
  have "length (record_json idlen l ns @ [10]) < json_int_max" using assms(5) w by (simp add: json_int_max_def)
  then have "json_parse strtod fresh (wrbuf_content w) = Some (Some (repr (record_jv idlen l ns)), None)"
    using parse_text [OF record_json_text [OF ok(4,6)] record_depth ws_nl, of strtod "json_parser_create fresh"] w(2) by (auto simp: json_parse_def json_parse2_def)
  moreover obtain r where "yaz_marc_read_json_node mt' (Some (repr (record_jv idlen l ns :: 'a jv))) = Some (True, r)"
      "plus_nodes mt' (YAZ_MARC_LEADER l # ns) r"
    using record_tree_read [OF ok(1-4,6) assms(3,4), where 'd = 'a] by blast
  ultimately show ?thesis using w(1) by (auto simp: plus_nodes_def)
qed

theorem marc_json_roundtrip_witness:
  "\<exists>w n r. yaz_marc_write_json ((yaz_marc_create of_nat)\<lparr>nodes := YAZ_MARC_LEADER sample_leader # sample_fields\<rparr>) (wrbuf_alloc of_nat) = Some (True, w) \<and>
    json_parse (\<lambda>s. (0 :: int, 0)) \<lparr>pbuf = [], cp = [], err_msg = None, parse_level = 0, max_level = 0, subst = []\<rparr> (wrbuf_content w) = Some (Some n, None) \<and>
    yaz_marc_read_json_node (yaz_marc_create of_nat) (Some n) = Some (True, r) \<and>
    nodes r = nodes (yaz_marc_create of_nat) @ YAZ_MARC_LEADER sample_leader # sample_fields"
proof (rule marc_json_roundtrip)
  let ?mt = "(yaz_marc_create of_nat)\<lparr>nodes := YAZ_MARC_LEADER sample_leader # sample_fields\<rparr>"
  show "json_record_ok 2 2 sample_leader sample_fields" by (rule sample_json_record)
  show "length (wrbuf_content (snd (the (yaz_marc_write_json ?mt (wrbuf_alloc of_nat))))) < 2147483647"
    using json_record_written [OF sample_json_record, of ?mt of_nat] sample_json_short by auto
qed (simp_all add: yaz_marc_create_def yaz_marc_reset_def)

text \<open>
  A data field without subfields is written as a field with an empty array; the reader looks for the type
  of its first element through the null pointer.
\<close>

lemma marc_json_empty_field:
  assumes "no_nul tag"
  shows "parse_field_object il (Some (repr (field_jv idlen (YAZ_MARC_DATAFIELD tag ind []) :: 'd jv))) (mt, w) = None"
  using assms
  by (auto simp: parse_field_object_def repr_JObj parse_field_def on_pair_node field_value_def parse_datafield_def bind_eq_None_conv
      subfields_value_def parse_subfields_def)

end
