(* ===== verification/Yaz_Uri.thy ===== *)
theory Yaz_Uri
  imports Yaz_Scan Yaz_Wrbuf
begin

text \<open>
  Text codings of web requests: Base64 (\<^verbatim>\<open>base64.c\<close>), percent encoding and the encoding of forms
  (\<^verbatim>\<open>uri.c\<close>). Strings written to memory of the caller are results here.
\<close>

section \<open>Base64 (base64.c)\<close>

definition encoding :: "byte list" where
  "encoding = str ''ABCDEFGHIJKLMNOPQRSTUVWXYZabcdefghijklmnopqrstuvwxyz0123456789+/''"

definition three_bytes :: "byte \<Rightarrow> byte \<Rightarrow> byte \<Rightarrow> nat" where
  "three_bytes b0 b1 b2 = push_bit 16 (unat b0) + push_bit 8 (unat b1) + unat b2"

definition six_bits :: "nat \<Rightarrow> nat \<Rightarrow> byte" where
  "six_bits n k = encoding ! (drop_bit k n AND 63)"

text \<open>The argument is the text of a C string; the end of the string is the end of the list.\<close>

fun yaz_base64encode :: "byte list \<Rightarrow> byte list" where
  "yaz_base64encode [] = []"
| "yaz_base64encode [b0] = (let n = three_bytes b0 0 0 in [six_bits n 18, six_bits n 12, 61, 61])"
| "yaz_base64encode [b0, b1] = (let n = three_bytes b0 b1 0 in [six_bits n 18, six_bits n 12, six_bits n 6, 61])"
| "yaz_base64encode (b0 # b1 # b2 # s) =
     (let n = three_bytes b0 b1 b2 in six_bits n 18 # six_bits n 12 # six_bits n 6 # six_bits n 0 # yaz_base64encode s)"

fun char_index :: "byte list \<Rightarrow> byte \<Rightarrow> nat option" where
  "char_index [] c = None"
| "char_index (d # m) c = (if c = d then Some 0 else map_option Suc (char_index m c))"

text \<open>The next character of the text and what is left.\<close>

datatype b64char = B64_value nat | B64_pad | B64_bad

definition next_char :: "byte list \<Rightarrow> b64char \<times> byte list" where
  "next_char s =
     (let s1 = dropWhile (\<lambda>c. c \<in> set [13, 10, 9, 12, 32]) s in
      if s1 = [] then (B64_bad, s1)
      else if hd s1 = 61 then (B64_pad, s1)
      else (case char_index encoding (hd s1) of Some k \<Rightarrow> (B64_value k, tl s1) | None \<Rightarrow> (B64_bad, s1)))"

lemma next_char_shorter: "next_char s = (B64_value k, r) \<Longrightarrow> length r < length s"
proof -
  assume "next_char s = (B64_value k, r)"
  then have "r = tl (dropWhile (\<lambda>c. c \<in> set [13, 10, 9, 12, 32]) s)" "dropWhile (\<lambda>c. c \<in> set [13, 10, 9, 12, 32]) s \<noteq> []"
    by (auto simp: next_char_def Let_def split: if_splits option.splits)
  then show ?thesis
    using length_dropWhile_le [of "\<lambda>c. c \<in> set [13, 10, 9, 12, 32]" s]
    by (cases "dropWhile (\<lambda>c. c \<in> set [13, 10, 9, 12, 32]) s") auto
qed

text \<open>The result is (return value is 0, bytes written); the terminator is written only then.\<close>

function base64_loop :: "byte list \<Rightarrow> byte list \<Rightarrow> bool \<times> byte list" where
  "base64_loop s out =
     (if length s < 4 then (True, out)
      else case next_char s of
        (B64_value i0, s1) \<Rightarrow>
          (case next_char s1 of
             (B64_value i1, s2) \<Rightarrow>
               let out1 = out @ [byte_of (push_bit 2 i0 OR drop_bit 4 i1)] in
               (case next_char s2 of
                  (B64_pad, s3) \<Rightarrow> (True, out1)
                | (B64_bad, s3) \<Rightarrow> (False, out1)
                | (B64_value i2, s3) \<Rightarrow>
                    let out2 = out1 @ [byte_of (push_bit 4 i1 OR drop_bit 2 i2)] in
                    (case next_char s3 of
                       (B64_pad, s4) \<Rightarrow> (True, out2)
                     | (B64_bad, s4) \<Rightarrow> (False, out2)
                     | (B64_value i3, s4) \<Rightarrow> base64_loop s4 (out2 @ [byte_of (push_bit 6 i2 OR i3)])))
           | _ \<Rightarrow> (False, out))
      | _ \<Rightarrow> (False, out))"
  by pat_completeness auto
termination
  by (relation "measure (\<lambda>(s, out). length s)") (auto dest!: next_char_shorter [OF sym])

declare base64_loop.simps [simp del]

definition yaz_base64decode :: "byte list \<Rightarrow> bool \<times> byte list" where
  "yaz_base64decode s = base64_loop (cstr s) []"

section \<open>Percent encoding (uri.c)\<close>

definition unreserved :: "byte \<Rightarrow> bool" where
  "unreserved c \<longleftrightarrow> yaz_isupper c \<or> yaz_islower c \<or> yaz_isdigit c \<or> c \<in> set (str ''-._~'')"

definition encode_uri_char :: "byte \<Rightarrow> byte list" where
  "encode_uri_char c = (if unreserved c then [c] else [37, hex_upper (unat c div 16), hex_upper (unat c mod 16)])"

definition yaz_encode_uri_component :: "byte list \<Rightarrow> byte list" where
  "yaz_encode_uri_component uri = concat (map encode_uri_char (cstr uri))"

text \<open>
  One character of the memory at \<open>path\<close>, of which \<open>len\<close> bytes may be used: the character and the number of
  bytes it takes. Two digits are read behind a percent sign when there is room for them, also when the
  first is not a digit.
\<close>

definition decode_uri_char :: "byte list \<Rightarrow> nat \<Rightarrow> (byte \<times> nat) cres" where
  "decode_uri_char path len =
     (case path of
        [] \<Rightarrow> None
      | c # rest \<Rightarrow>
          if c = ch CHR ''+'' then Some (32, 1)
          else if c = ch CHR ''%'' \<and> len \<ge> 3 then
            (if length rest < 2 then None
             else case (hex_value (rest ! 0), hex_value (rest ! 1)) of
               (Some d1, Some d2) \<Rightarrow> Some (byte_of (d1 * 16 + d2), 3)
             | _ \<Rightarrow> Some (c, 1))
          else Some (c, 1))"

lemma decode_uri_char_advance: "decode_uri_char path len = Some (c, k) \<Longrightarrow> 0 < k \<and> k \<le> length path \<and> (0 < len \<longrightarrow> k \<le> len)"
  by (auto simp: decode_uri_char_def split: list.splits if_splits option.splits)

function yaz_decode_uri_component :: "byte list \<Rightarrow> nat \<Rightarrow> byte list cres" where
  "yaz_decode_uri_component uri len =
     (if len = 0 then Some []
      else case decode_uri_char uri len of
        None \<Rightarrow> None
      | Some (c, sz) \<Rightarrow> map_option ((#) c) (yaz_decode_uri_component (drop sz uri) (len - sz)))"
  by pat_completeness auto
termination
  by (relation "measure (\<lambda>(uri, len). len)") (auto dest!: decode_uri_char_advance)

declare yaz_decode_uri_component.simps [simp del]

section \<open>Forms (uri.c)\<close>

fun array_to_uri_loop :: "nat \<Rightarrow> (byte list \<times> byte list) list \<Rightarrow> byte list" where
  "array_to_uri_loop i [] = []"
| "array_to_uri_loop i ((name, val) # r) =
     (if i \<noteq> 0 then [ch CHR ''&''] else []) @ cstr name @ [ch CHR ''=''] @ yaz_encode_uri_component val @ array_to_uri_loop (i + 1) r"

text \<open>The text goes to a buffer of \<open>array_to_uri_size\<close> bytes: a longer one would not fit.\<close>

definition array_to_uri_size :: "(byte list \<times> byte list) list \<Rightarrow> nat" where
  "array_to_uri_size nv = 1 + sum_list (map (\<lambda>(name, val). length (cstr name) + 3 + length (cstr val) * 3) nv)"

definition yaz_array_to_uri :: "(byte list \<times> byte list) list \<Rightarrow> byte list cres" where
  "yaz_array_to_uri nv =
     (let path = array_to_uri_loop 0 nv in
      if length path + 1 \<le> array_to_uri_size nv then Some path else None)"

abbreviation amp :: byte where
  "amp \<equiv> ch CHR ''&''"

text \<open>The names behind an ampersand look sane; \<open>cp\<close> is the text from the position of the loop on.\<close>

function sane_names :: "byte list \<Rightarrow> bool" where
  "sane_names cp =
     (let rest = dropWhile (\<lambda>c. c \<noteq> amp) cp in
      if rest = [] then True
      else let name = takeWhile (\<lambda>c. c \<noteq> ch CHR ''='' \<and> c \<noteq> amp) (tl rest) in
        if \<exists>c \<in> set name. schar c \<le> 32 \<or> schar c \<ge> 127 then False
        else sane_names (drop (length name) (tl rest)))"
  by pat_completeness auto
termination
proof (relation "measure length", goal_cases)
  case (2 cp rest name)
  then have "length rest \<le> length cp" "rest \<noteq> []" using length_dropWhile_le [of "\<lambda>c. c \<noteq> amp" cp] by auto
  then have "length (tl rest) < length cp" by (cases rest) auto
  then show ?case by simp
qed simp

declare sane_names.simps [simp del]

text \<open>A value up to the next ampersand; the terminator of the string follows the text \<open>path\<close>.\<close>

function form_value :: "byte list \<Rightarrow> (byte list \<times> byte list) cres" where
  "form_value path =
     (if path = [] \<or> hd path = amp then Some ([], path)
      else case decode_uri_char (path @ [0]) 3 of
        None \<Rightarrow> None
      | Some (c, l) \<Rightarrow> map_option (\<lambda>(v, r). (c # v, r)) (form_value (drop l path)))"
  by pat_completeness auto
termination
  by (relation "measure length") (auto dest!: decode_uri_char_advance)

declare form_value.simps [simp del]

lemma form_value_shorter: "form_value path = Some (v, r) \<Longrightarrow> length r \<le> length path"
proof (induction path arbitrary: v rule: form_value.induct)
  case (1 path)
  then show ?case
    by (subst (asm) (2) form_value.simps) (fastforce dest: decode_uri_char_advance split: if_splits option.splits)
qed

text \<open>
  The pairs of name and value; a value is a C string. Its buffer has the size of the text up to the next
  ampersand and the terminator: undefined when the decoded value and its terminator do not fit.
\<close>

function form_items :: "byte list \<Rightarrow> (byte list \<times> byte list) list cres" where
  "form_items path =
     (let p1 = dropWhile (\<lambda>c. c = amp) path in
      if p1 = [] then Some []
      else let name = takeWhile (\<lambda>c. c \<noteq> ch CHR ''='' \<and> c \<noteq> amp) p1;
               p2 = drop (length name) p1
        in if p2 \<noteq> [] \<and> hd p2 = ch CHR ''=''
           then (case form_value (tl p2) of
              None \<Rightarrow> None
            | Some (v, p3) \<Rightarrow>
                if length v + 1 > length (takeWhile (\<lambda>c. c \<noteq> amp) (tl p2)) + 1 then None
                else map_option ((#) (name, cstr v)) (form_items p3))
           else map_option ((#) (name, [])) (form_items p2))"
  by pat_completeness auto
termination
proof (relation "measure length", goal_cases)
  case (2 path p1 name p2 x v p3)
  have "length p1 \<le> length path" "length p2 \<le> length p1" using 2 by (simp_all add: length_dropWhile_le)
  moreover have "length p3 \<le> length (tl p2)" using 2 form_value_shorter [of "tl p2" v p3] by auto
  ultimately show ?case using 2(5) by (cases p2) auto
next
  case (3 path p1 name p2)
  have "length p1 \<le> length path" using 3 by (simp add: length_dropWhile_le)
  moreover have "name \<noteq> []"
  proof
    assume "name = []"
    have "p1 \<noteq> []" "p1 = dropWhile (\<lambda>c. c = amp) path" using 3 by simp_all
    then have h: "hd p1 \<noteq> amp" using hd_dropWhile [of "\<lambda>c. c = amp" path] by metis
    obtain c r where c: "p1 = c # r" using \<open>p1 \<noteq> []\<close> by (cases p1) blast+
    moreover have "name = takeWhile (\<lambda>c. c \<noteq> ch CHR ''='' \<and> c \<noteq> amp) p1" using 3 by simp
    ultimately have "c = ch CHR ''=''" using \<open>name = []\<close> h by (auto split: if_splits)
    moreover have "p2 = p1" using 3 \<open>name = []\<close> by simp
    moreover have "\<not> (p2 \<noteq> [] \<and> hd p2 = ch CHR ''='')" using 3 by blast
    ultimately show False using c by simp
  qed
  moreover have "length name \<le> length p1" using 3 by (simp add: length_takeWhile_le)
  moreover have "length p2 = length p1 - length name" using 3 by simp
  moreover have "0 < length name" using \<open>name \<noteq> []\<close> by simp
  ultimately have "length p2 < length path" by linarith
  then show ?case by simp
qed simp

declare form_items.simps [simp del]

text \<open>
  \<^const>\<open>None\<close> in the result is a form that is refused. The arrays have two more entries than there are
  ampersands; more items than fit would be written behind them.
\<close>

definition yaz_uri_to_array :: "byte list \<Rightarrow> (byte list \<times> byte list) list option cres" where
  "yaz_uri_to_array path =
     (let p = (if deref path = ch CHR ''?'' then tl path else path) in
      if p = [] \<or> \<not> sane_names p then Some None
      else do {
        items \<leftarrow> form_items p;
        if length items + 1 \<le> 2 + count_list p amp then Some (Some items) else None})"

section \<open>Base64 round trip\<close>

lemma char_index_encoding: "k < 64 \<Longrightarrow> char_index encoding (encoding ! k) = Some k"
proof -
  have "\<forall>k \<in> set [0..<64]. char_index encoding (encoding ! k) = Some k" by code_simp
  then show "k < 64 \<Longrightarrow> char_index encoding (encoding ! k) = Some k" by simp
qed

lemma encoding_class: "k < 64 \<Longrightarrow> encoding ! k \<notin> {61, 13, 10, 9, 12, 32, 0}"
proof -
  have "\<forall>c \<in> set encoding. c \<notin> {61, 13, 10, 9, 12, 32, 0}" by code_simp
  moreover have "length encoding = 64" by code_simp
  ultimately show "k < 64 \<Longrightarrow> encoding ! k \<notin> {61, 13, 10, 9, 12, 32, 0}" by (metis nth_mem)
qed

lemma next_char_encoding: "k < 64 \<Longrightarrow> next_char (encoding ! k # s) = (B64_value k, s)"
  using encoding_class [of k] by (simp add: next_char_def char_index_encoding)

lemma next_char_pad: "next_char (61 # s) = (B64_pad, 61 # s)"
  by (simp add: next_char_def)

lemma digits_mod: "r < b \<Longrightarrow> (a * b + r) mod (b * c) = b * (a mod c) + r" for a b c r :: nat
  by (simp add: mod_mult2_eq)

text \<open>The groups of six bits of three bytes, and the bytes they are put together to.\<close>

lemma six_bits_parts:
  "six_bits (three_bytes a b c) 18 = encoding ! (unat a div 4)"
  "six_bits (three_bytes a b c) 12 = encoding ! (unat a mod 4 * 16 + unat b div 16)"
  "six_bits (three_bytes a b c) 6 = encoding ! (unat b mod 16 * 4 + unat c div 64)"
  "six_bits (three_bytes a b c) 0 = encoding ! (unat c mod 64)"
proof -
  define A B C where "A = unat a" and "B = unat b" and "C = unat c"
  define n where "n = A * 65536 + B * 256 + C"
  have l: "A < 256" "B < 256" "C < 256" by (simp_all add: A_def B_def C_def)
  have n: "three_bytes a b c = n" by (simp add: three_bytes_def n_def A_def B_def C_def push_bit_eq_mult)
  have six: "six_bits n k = encoding ! (n div 2 ^ k mod 64)" for k by (simp add: six_bits_def nat_and_masks drop_bit_eq_div)
  have d: "n div 65536 = A" "n div 256 = A * 256 + B" using l by (simp_all add: n_def)
  have "n div 262144 = A div 4" using d(1) div_mult2_eq [of n 65536 4] by simp
  then show "six_bits (three_bytes a b c) 18 = encoding ! (unat a div 4)" using l by (simp add: n six flip: A_def)
  have "n div 4096 = A * 16 + B div 16" using d(2) div_mult2_eq [of n 256 16] by simp
  moreover have "(A * 16 + B div 16) mod 64 = A mod 4 * 16 + B div 16" using l digits_mod [of "B div 16" 16 A 4] by simp
  ultimately show "six_bits (three_bytes a b c) 12 = encoding ! (unat a mod 4 * 16 + unat b div 16)"
    by (simp add: n six flip: A_def B_def)
  have "n div 64 = (A * 256 + B) * 4 + C div 64"
    using div_mult_self1 [of 64 C "(A * 256 + B) * 4"] by (simp add: n_def algebra_simps)
  moreover have "(A * 256 + B) mod 16 = B mod 16" using mod_mult_self4 [of 16 "A * 16" B] by (simp add: algebra_simps)
  ultimately have "n div 64 mod 64 = B mod 16 * 4 + C div 64" using l digits_mod [of "C div 64" 4 "A * 256 + B" 16] by simp
  then show "six_bits (three_bytes a b c) 6 = encoding ! (unat b mod 16 * 4 + unat c div 64)" by (simp add: n six flip: B_def C_def)
  have "n mod 64 = C mod 64" using mod_mult_self4 [of 64 "A * 1024 + B * 4" C] by (simp add: n_def algebra_simps)
  then show "six_bits (three_bytes a b c) 0 = encoding ! (unat c mod 64)" by (simp add: n six flip: C_def)
qed

lemma six_bits_join:
  fixes x y z :: nat
  assumes "x < 256" and "y < 256" and "z < 256"
  shows "push_bit 2 (x div 4) OR drop_bit 4 (x mod 4 * 16 + y div 16) = x"
    "byte_of (push_bit 4 (x mod 4 * 16 + y div 16) OR drop_bit 2 (y mod 16 * 4 + z div 64)) = byte_of y"
    "byte_of (push_bit 6 (y mod 16 * 4 + z div 64) OR z mod 64) = byte_of z"
proof -
  have "(x mod 4 * 16 + y div 16) div 16 = x mod 4" using assms by simp
  then show "push_bit 2 (x div 4) OR drop_bit 4 (x mod 4 * 16 + y div 16) = x"
    using assms nat_shifted_or [of "(x mod 4 * 16 + y div 16) div 16" 2 "x div 4"] by (simp add: push_bit_eq_mult drop_bit_eq_div mult.commute)
  have "(y mod 16 * 4 + z div 64) div 4 = y mod 16" using assms by simp
  then have "push_bit 4 (x mod 4 * 16 + y div 16) OR drop_bit 2 (y mod 16 * 4 + z div 64) = (x mod 4 * 16 + y div 16) * 16 + y mod 16"
    using nat_shifted_or [of "y mod 16" 4 "x mod 4 * 16 + y div 16"] by (simp add: push_bit_eq_mult drop_bit_eq_div mult.commute)
  moreover have "((x mod 4 * 16 + y div 16) * 16 + y mod 16) mod 256 = y"
    using assms digits_mod [of "y mod 16" 16 "x mod 4 * 16 + y div 16" 16] by simp
  ultimately show "byte_of (push_bit 4 (x mod 4 * 16 + y div 16) OR drop_bit 2 (y mod 16 * 4 + z div 64)) = byte_of y"
    using assms by (intro byte_eqI) (simp add: unat_byte_of)
  have "push_bit 6 (y mod 16 * 4 + z div 64) OR z mod 64 = (y mod 16 * 4 + z div 64) * 64 + z mod 64"
    using nat_shifted_or [of "z mod 64" 6 "y mod 16 * 4 + z div 64"] by (simp add: push_bit_eq_mult mult.commute)
  moreover have "((y mod 16 * 4 + z div 64) * 64 + z mod 64) mod 256 = z"
    using assms digits_mod [of "z mod 64" 64 "y mod 16 * 4 + z div 64" 4] by simp
  ultimately show "byte_of (push_bit 6 (y mod 16 * 4 + z div 64) OR z mod 64) = byte_of z"
    using assms by (intro byte_eqI) (simp add: unat_byte_of)
qed

lemma group_bounds:
  fixes a b c :: byte
  shows "unat a div 4 < 64" "unat a mod 4 * 16 + unat b div 16 < 64" "unat b mod 16 * 4 + unat c div 64 < 64"
proof -
  have "unat a < 256" "unat b < 256" "unat c < 256" by simp_all
  then have "unat a div 4 < 64" "unat b div 16 < 16" "unat c div 64 < 4" by (simp_all add: less_mult_imp_div_less)
  moreover have "unat a mod 4 < 4" "unat b mod 16 < 16" by simp_all
  ultimately show "unat a div 4 < 64" "unat a mod 4 * 16 + unat b div 16 < 64" "unat b mod 16 * 4 + unat c div 64 < 64"
    by linarith+
qed

lemma base64_roundtrip: "base64_loop (yaz_base64encode s) out = (True, out @ s)"
proof (induction s arbitrary: out rule: yaz_base64encode.induct)
  case 1
  then show ?case by (simp add: base64_loop.simps)
next
  case (2 b0)
  then show ?case using six_bits_join(1) [of "unat b0" 0 0] group_bounds(1) [of b0] group_bounds(2) [of b0 0]
    by (simp add: base64_loop.simps six_bits_parts next_char_encoding next_char_pad Let_def)
next
  case (3 b0 b1)
  then show ?case using six_bits_join(1,2) [of "unat b0" "unat b1" 0] group_bounds(1) [of b0] group_bounds(2) [of b0 b1] group_bounds(3) [of b1 0]
    by (simp add: base64_loop.simps six_bits_parts next_char_encoding next_char_pad Let_def)
next
  case (4 b0 b1 b2 s)
  then show ?case using six_bits_join [of "unat b0" "unat b1" "unat b2"] group_bounds(1) [of b0] group_bounds(2) [of b0 b1] group_bounds(3) [of b1 b2]
    by (simp add: base64_loop.simps [of "_ # _"] six_bits_parts next_char_encoding Let_def)
qed

lemma base64encode_no_nul: "no_nul (yaz_base64encode s)"
proof (induction s rule: yaz_base64encode.induct)
  case (4 b0 b1 b2 s)
  have "encoding ! k \<noteq> 0" if "k < 64" for k using encoding_class [OF that] by simp
  then show ?case using 4 group_bounds(1) [of b0] group_bounds(2) [of b0 b1] group_bounds(3) [of b1 b2] by (auto simp: six_bits_parts Let_def)
qed (use encoding_class group_bounds in \<open>auto simp: six_bits_parts Let_def\<close>)

section \<open>Percent encoding round trip\<close>

lemma hex_upper_value: "d < 16 \<Longrightarrow> hex_value (hex_upper d) = Some d"
  by (auto simp: hex_upper_def hex_value_def)

lemma unreserved_class: "unreserved c \<Longrightarrow> c \<noteq> ch CHR ''+'' \<and> c \<noteq> ch CHR ''%'' \<and> c \<noteq> amp \<and> c \<noteq> ch CHR ''=''"
  by (auto simp: unreserved_def ctype_defs)

lemma decode_encoded:
  "3 \<le> len \<Longrightarrow> decode_uri_char (encode_uri_char c @ r) len = Some (c, length (encode_uri_char c))"
  "unreserved c \<Longrightarrow> decode_uri_char (encode_uri_char c @ r) len = Some (c, length (encode_uri_char c))"
  using unreserved_class [of c] hex_upper_value [of "unat c div 16"] hex_upper_value [of "unat c mod 16"]
  by (auto simp: encode_uri_char_def decode_uri_char_def byte_nibbles)

lemma component_roundtrip:
  "yaz_decode_uri_component (concat (map encode_uri_char s) @ r) (length (concat (map encode_uri_char s))) = Some s"
proof (induction s)
  case (Cons c s)
  let ?e = "concat (map encode_uri_char s)"
  have "decode_uri_char (encode_uri_char c @ ?e @ r) (length (encode_uri_char c @ ?e)) = Some (c, length (encode_uri_char c))"
  proof (cases "unreserved c")
    case False
    then show ?thesis by (intro decode_encoded(1)) (simp add: encode_uri_char_def)
  qed (rule decode_encoded(2))
  moreover have "0 < length (encode_uri_char c)" by (simp add: encode_uri_char_def)
  ultimately show ?case using Cons yaz_decode_uri_component.simps [of "encode_uri_char c @ ?e @ r" "length (encode_uri_char c @ ?e)"] by simp
qed (simp add: yaz_decode_uri_component.simps)

lemma hex_upper_large: "d < 16 \<Longrightarrow> 48 \<le> unat (hex_upper d)"
  by (simp add: hex_upper_def)

lemma encoded_chars: "d \<in> set (encode_uri_char c) \<Longrightarrow> d \<noteq> amp"
  using unreserved_class [of c] hex_upper_large [OF byte_nibbles(1), of c] hex_upper_large [OF byte_nibbles(2), of c]
  by (auto simp: encode_uri_char_def split: if_splits)

lemma form_value_encoded:
  assumes "r = [] \<or> hd r = amp"
  shows "form_value (concat (map encode_uri_char s) @ r) = Some (s, r)"
proof (induction s)
  case Nil
  then show ?case using assms by (simp add: form_value.simps [of r])
next
  case (Cons c s)
  let ?e = "concat (map encode_uri_char s)"
  obtain d t where e: "encode_uri_char c = d # t" by (cases "unreserved c") (simp_all add: encode_uri_char_def)
  then have d: "d \<noteq> amp" using encoded_chars [of d c] by simp
  have "decode_uri_char ((encode_uri_char c @ ?e @ r) @ [0]) 3 = Some (c, length (encode_uri_char c))"
    using decode_encoded(1) [of 3 c "?e @ r @ [0]"] by simp
  then show ?case using Cons e d form_value.simps [of "encode_uri_char c @ ?e @ r"] by simp
qed

section \<open>Forms round trip\<close>

text \<open>Items whose names look sane.\<close>

definition name_ok :: "byte list \<Rightarrow> bool" where
  "name_ok s \<longleftrightarrow> s \<noteq> [] \<and> (\<forall>c \<in> set s. 32 < schar c \<and> schar c < 127 \<and> c \<noteq> amp \<and> c \<noteq> ch CHR ''='')"

definition form_ok :: "(byte list \<times> byte list) list \<Rightarrow> bool" where
  "form_ok nv \<longleftrightarrow> (\<forall>(name, val) \<in> set nv. name_ok name \<and> no_nul val)"

abbreviation enc :: "byte list \<Rightarrow> byte list" where
  "enc s \<equiv> concat (map encode_uri_char s)"

lemma name_ok_no_nul: "name_ok s \<Longrightarrow> no_nul s"
  by (auto simp: name_ok_def)

lemma loop_Cons:
  assumes "form_ok ((name, val) # nv)"
  shows "array_to_uri_loop i ((name, val) # nv) = (if i \<noteq> 0 then [amp] else []) @ name @ 61 # enc val @ array_to_uri_loop (i + 1) nv"
  using assms name_ok_no_nul [of name] by (simp add: form_ok_def yaz_encode_uri_component_def)

declare array_to_uri_loop.simps(2) [simp del]

lemma loop_begins: "array_to_uri_loop (Suc i) nv = [] \<or> hd (array_to_uri_loop (Suc i) nv) = amp"
  by (cases nv) (auto simp: array_to_uri_loop.simps(2))

lemma value_fits: "length s \<le> length (takeWhile (\<lambda>c. c \<noteq> amp) (enc s @ r))"
proof -
  have "length s \<le> length (enc s)"
    by (induction s) (auto simp: encode_uri_char_def)
  moreover have "takeWhile (\<lambda>c. c \<noteq> amp) (enc s @ r) = enc s @ takeWhile (\<lambda>c. c \<noteq> amp) r"
    using encoded_chars by (intro takeWhile_append2) auto
  ultimately show ?thesis by simp
qed

lemma items_read: "form_ok nv \<Longrightarrow> form_items (array_to_uri_loop i nv) = Some nv"
proof (induction nv arbitrary: i)
  case Nil
  then show ?case by (simp add: form_items.simps)
next
  case (Cons nv1 nv)
  obtain name val where nv1: "nv1 = (name, val)" by force
  have ok: "name_ok name" "no_nul val" "form_ok nv" using Cons.prems nv1 by (auto simp: form_ok_def)
  obtain c t where c: "name = c # t" "c \<noteq> amp" using ok(1) by (cases name) (auto simp: name_ok_def)
  let ?rest = "array_to_uri_loop (i + 1) nv"
  let ?p = "name @ 61 # enc val @ ?rest"
  have d: "dropWhile (\<lambda>c. c = amp) (array_to_uri_loop i (nv1 # nv)) = ?p"
    using loop_Cons [of name val nv i] Cons.prems nv1 c by simp
  have t: "takeWhile (\<lambda>c. c \<noteq> 61 \<and> c \<noteq> amp) ?p = name"
    using ok(1) by (subst takeWhile_append2) (auto simp: name_ok_def)
  have v: "form_value (enc val @ ?rest) = Some (val, ?rest)"
    using form_value_encoded [of ?rest val] loop_begins [of i nv] by simp
  have fits: "length val \<le> length (takeWhile (\<lambda>c. c \<noteq> amp) (enc val @ ?rest))"
    by (rule value_fits)
  show ?case using d t v fits Cons.IH [OF ok(3), of "i + 1"] ok(2) nv1 c(1)
    by (subst form_items.simps) (simp add: Let_def)
qed

lemma names_sane: "form_ok nv \<Longrightarrow> amp \<notin> set pre \<Longrightarrow> sane_names (pre @ array_to_uri_loop (Suc i) nv)"
proof (induction nv arbitrary: i pre)
  case Nil
  then have "dropWhile (\<lambda>c. c \<noteq> amp) pre = []" by auto
  then show ?case by (simp add: sane_names.simps [of pre])
next
  case (Cons nv1 nv)
  obtain name val where nv1: "nv1 = (name, val)" by force
  have ok: "name_ok name" "form_ok nv" using Cons.prems nv1 by (auto simp: form_ok_def)
  let ?q = "61 # enc val @ array_to_uri_loop (Suc (Suc i)) nv"
  have l: "array_to_uri_loop (Suc i) (nv1 # nv) = amp # name @ ?q"
    using loop_Cons [of name val nv "Suc i"] Cons.prems(1) nv1 by simp
  have d: "dropWhile (\<lambda>c. c \<noteq> amp) (pre @ amp # name @ ?q) = amp # name @ ?q"
    using Cons.prems(2) by (subst dropWhile_append2) auto
  have t: "takeWhile (\<lambda>c. c \<noteq> 61 \<and> c \<noteq> amp) (name @ ?q) = name"
    using ok(1) by (subst takeWhile_append2) (auto simp: name_ok_def)
  have "amp \<notin> set (61 # enc val)" using encoded_chars by auto
  then have "sane_names ?q" using Cons.IH [OF ok(2), of "61 # enc val" "Suc i"] by simp
  moreover have "\<not> (\<exists>c \<in> set name. schar c \<le> 32 \<or> schar c \<ge> 127)" using ok(1) by (auto simp: name_ok_def)
  ultimately show ?case unfolding l using d t by (subst sane_names.simps) (simp add: Let_def)
qed

lemma form_sane:
  assumes "form_ok nv"
  shows "sane_names (array_to_uri_loop 0 nv)"
proof (cases nv)
  case Nil
  then show ?thesis by (simp add: sane_names.simps)
next
  case (Cons nv1 r)
  obtain name val where nv1: "nv1 = (name, val)" by force
  have "amp \<notin> set (name @ 61 # enc val)" using assms Cons nv1 encoded_chars by (auto simp: form_ok_def name_ok_def)
  moreover have "form_ok r" using assms Cons by (simp add: form_ok_def)
  ultimately show ?thesis using names_sane [of r "name @ 61 # enc val" 0] loop_Cons [of name val r 0] assms Cons nv1 by simp
qed

lemma form_count:
  "form_ok nv \<Longrightarrow> length nv \<le> count_list (array_to_uri_loop i nv) amp + (if i = 0 then 1 else 0)"
proof (induction nv arbitrary: i)
  case (Cons nv1 nv)
  obtain name val where nv1: "nv1 = (name, val)" by force
  have "length nv \<le> count_list (array_to_uri_loop (i + 1) nv) amp"
    using Cons.IH [of "i + 1"] Cons.prems by (simp add: form_ok_def)
  then show ?case using loop_Cons [of name val nv i] Cons.prems nv1 by (cases i) simp_all
qed simp

lemma enc_length: "length (enc s) \<le> length s * 3"
proof (induction s)
  case (Cons c s)
  have "length (encode_uri_char c) \<le> 3" by (simp add: encode_uri_char_def)
  then show ?case using Cons by simp
qed simp

lemma form_fits: "form_ok nv \<Longrightarrow> length (array_to_uri_loop i nv) + 1 \<le> array_to_uri_size nv"
proof (induction nv arbitrary: i)
  case (Cons nv1 nv)
  obtain name val where nv1: "nv1 = (name, val)" by force
  have nn: "no_nul name" "no_nul val" using Cons.prems nv1 name_ok_no_nul by (auto simp: form_ok_def)
  have "length (array_to_uri_loop (i + 1) nv) + 1 \<le> array_to_uri_size nv"
    using Cons.IH [of "i + 1"] Cons.prems by (simp add: form_ok_def)
  then show ?case using loop_Cons [of name val nv i] Cons.prems nv1 nn enc_length [of val] by (cases i) (simp_all add: array_to_uri_size_def)
qed (simp add: array_to_uri_size_def)

section \<open>Properties\<close>

text \<open>
  C8: What is encoded is decoded again: Base64 text gives back the bytes, percent encoding gives back the
  string, and a form gives back its names and values, where the names of the form look sane. The
  encoders and decoders stay inside the buffers whose sizes the code computes.
\<close>

theorem uri_roundtrip:
  assumes "no_nul s" and "form_ok nv" and "nv \<noteq> []" and "hd (fst (hd nv)) \<noteq> ch CHR ''?''"
  shows "yaz_base64decode (yaz_base64encode s) = (True, s) \<and>
    yaz_decode_uri_component (yaz_encode_uri_component s) (length (yaz_encode_uri_component s)) = Some s \<and>
    (\<exists>path. yaz_array_to_uri nv = Some path \<and> yaz_uri_to_array path = Some (Some nv))"
proof (intro conjI)
  show "yaz_base64decode (yaz_base64encode s) = (True, s)"
    using base64_roundtrip [of s "[]"] base64encode_no_nul [of s] by (simp add: yaz_base64decode_def)
  show "yaz_decode_uri_component (yaz_encode_uri_component s) (length (yaz_encode_uri_component s)) = Some s"
    using component_roundtrip [of s "[]"] assms(1) by (simp add: yaz_encode_uri_component_def)
  obtain name val r where nv: "nv = (name, val) # r" using assms(3) by (cases nv) auto
  obtain c t where c: "name = c # t" using assms(2) nv by (cases name) (auto simp: form_ok_def name_ok_def)
  let ?path = "array_to_uri_loop 0 nv"
  have "?path = c # t @ 61 # enc val @ array_to_uri_loop 1 r" using loop_Cons [of name val r 0] assms(2) nv c by simp
  then have p: "?path \<noteq> []" "deref ?path \<noteq> ch CHR ''?''" using assms(4) nv c by simp_all
  have "yaz_array_to_uri nv = Some ?path" using form_fits [OF assms(2), of 0] by (simp add: yaz_array_to_uri_def)
  moreover have "yaz_uri_to_array ?path = Some (Some nv)"
    using p form_sane [OF assms(2)] items_read [OF assms(2), of 0] form_count [OF assms(2), of 0] by (simp add: yaz_uri_to_array_def)
  ultimately show "\<exists>path. yaz_array_to_uri nv = Some path \<and> yaz_uri_to_array path = Some (Some nv)" by blast
qed

theorem uri_roundtrip_witness:
  "yaz_base64decode (yaz_base64encode (str ''user:a b'')) = (True, str ''user:a b'') \<and>
    yaz_decode_uri_component (yaz_encode_uri_component (str ''user:a b'')) (length (yaz_encode_uri_component (str ''user:a b''))) =
      Some (str ''user:a b'') \<and>
    (\<exists>path. yaz_array_to_uri [(str ''version'', str ''1.1''), (str ''query'', str ''a & b=c'')] = Some path \<and>
      yaz_uri_to_array path = Some (Some [(str ''version'', str ''1.1''), (str ''query'', str ''a & b=c'')]))"
  by (rule uri_roundtrip) (code_simp, code_simp, simp, code_simp)

text \<open>A form that ends with a percent sign is read behind its terminator.\<close>

lemma form_percent_overrun: "yaz_uri_to_array (str ''a=%'') = None"
  by code_simp

end
