(* ===== verification/Yaz_Http.thy ===== *)
theory Yaz_Http
  imports Yaz_Odr Yaz_Comstack_Laws Yaz_Uri
begin

text \<open>
  HTTP messages (\<^verbatim>\<open>http.c\<close>) and the choice between HTTP and Z39.50 packages (\<^verbatim>\<open>zgdu.c\<close>). Strings of a
  message are C strings; the content is memory of its own. The decoders work on the buffer of the ODR
  handle: a read behind it has no result. The version of YAZ is a parameter.
\<close>

section \<open>Messages (zgdu.h)\<close>

record Z_HTTP_Header =
  hname :: "byte list"
  hvalue :: "byte list"

record Z_HTTP_Request =
  req_method :: "byte list option"
  req_version :: "byte list option"
  req_path :: "byte list option"
  req_headers :: "Z_HTTP_Header list"
  req_content_buf :: "byte list option"
  req_content_len :: int

record Z_HTTP_Response =
  res_code :: int
  res_version :: "byte list"
  res_headers :: "Z_HTTP_Header list"
  res_content_buf :: "byte list option"
  res_content_len :: int

section \<open>Headers\<close>

definition nocase_eq :: "byte list \<Rightarrow> byte list \<Rightarrow> bool" where
  "nocase_eq a b \<longleftrightarrow> yaz_strcasecmp (cstr a) (cstr b) = Some 0"

definition z_HTTP_header_add :: "Z_HTTP_Header list \<Rightarrow> byte list \<Rightarrow> byte list \<Rightarrow> Z_HTTP_Header list" where
  "z_HTTP_header_add hp n v = hp @ [\<lparr>hname = cstr n, hvalue = cstr v\<rparr>]"

fun z_HTTP_header_set :: "Z_HTTP_Header list \<Rightarrow> byte list \<Rightarrow> byte list \<Rightarrow> Z_HTTP_Header list" where
  "z_HTTP_header_set [] n v = [\<lparr>hname = cstr n, hvalue = cstr v\<rparr>]"
| "z_HTTP_header_set (h # hp) n v =
     (if nocase_eq (hname h) n then h\<lparr>hvalue := cstr v\<rparr> # hp else h # z_HTTP_header_set hp n v)"

fun z_HTTP_header_remove :: "Z_HTTP_Header list \<Rightarrow> byte list \<Rightarrow> byte list option \<times> Z_HTTP_Header list" where
  "z_HTTP_header_remove [] n = (None, [])"
| "z_HTTP_header_remove (h # hp) n =
     (if nocase_eq (hname h) n then (Some (hvalue h), hp)
      else case z_HTTP_header_remove hp n of (v, hp') \<Rightarrow> (v, h # hp'))"

fun z_HTTP_header_lookup :: "Z_HTTP_Header list \<Rightarrow> byte list \<Rightarrow> byte list option" where
  "z_HTTP_header_lookup [] n = None"
| "z_HTTP_header_lookup (h # hp) n = (if nocase_eq (hname h) n then Some (hvalue h) else z_HTTP_header_lookup hp n)"

definition z_HTTP_header_add_content_type ::
    "Z_HTTP_Header list \<Rightarrow> byte list \<Rightarrow> byte list option \<Rightarrow> Z_HTTP_Header list" where
  "z_HTTP_header_add_content_type hp content_type charset =
     (case charset of
        Some cs \<Rightarrow> z_HTTP_header_add hp (str ''Content-Type'') (cstr content_type @ str ''; charset='' @ cstr cs)
      | None \<Rightarrow> z_HTTP_header_add hp (str ''Content-Type'') content_type)"

text \<open>The buffer for the encoded text has eight sixths of the length of the text and twelve bytes.\<close>

definition z_HTTP_header_add_basic_auth ::
    "Z_HTTP_Header list \<Rightarrow> byte list option \<Rightarrow> byte list option \<Rightarrow> Z_HTTP_Header list cres" where
  "z_HTTP_header_add_basic_auth hp username password =
     (case username of
        None \<Rightarrow> Some hp
      | Some u \<Rightarrow>
          let tmp = cstr u @ [ch CHR '':''] @ (case password of None \<Rightarrow> [] | Some p \<Rightarrow> cstr p);
              b = str ''Basic '' @ yaz_base64encode tmp
          in if length b + 1 \<le> length tmp * 8 div 6 + 12 then Some (z_HTTP_header_set hp (str ''Authorization'') b)
             else None)"

section \<open>New messages\<close>

definition z_get_HTTP_Request :: "byte list \<Rightarrow> Z_HTTP_Request" where
  "z_get_HTTP_Request yaz_version =
     \<lparr>req_method = Some (str ''POST''), req_version = Some (str ''1.1''), req_path = Some (str ''/''),
      req_headers = z_HTTP_header_add [] (str ''User-Agent'') (str ''YAZ/'' @ yaz_version),
      req_content_buf = None, req_content_len = 0\<rparr>"

text \<open>The part of a URL behind the scheme, and the host in front of the next slash.\<close>

definition behind_scheme :: "byte list \<Rightarrow> byte list" where
  "behind_scheme uri = (case strstr uri (str ''://'') of Some (pre, r) \<Rightarrow> drop 3 r | None \<Rightarrow> uri)"

definition host_part :: "byte list \<Rightarrow> byte list" where
  "host_part cp0 = takeWhile (\<lambda>c. c \<noteq> ch CHR ''/'') cp0"

definition z_get_HTTP_Request_host_path :: "byte list \<Rightarrow> byte list option \<Rightarrow> byte list \<Rightarrow> Z_HTTP_Request" where
  "z_get_HTTP_Request_host_path yaz_version host path =
     (let p = (z_get_HTTP_Request yaz_version)\<lparr>req_path := Some (cstr path)\<rparr> in
      case host of
        None \<Rightarrow> p
      | Some h \<Rightarrow> p\<lparr>req_headers := z_HTTP_header_add (req_headers p) (str ''Host'') (host_part (behind_scheme (cstr h)))\<rparr>)"

definition z_get_HTTP_Request_uri :: "byte list \<Rightarrow> byte list \<Rightarrow> byte list option \<Rightarrow> bool \<Rightarrow> Z_HTTP_Request" where
  "z_get_HTTP_Request_uri yaz_version uri0 args use_full_uri =
     (let p = z_get_HTTP_Request yaz_version;
          uri = cstr uri0;
          cp0 = behind_scheme uri;
          host = host_part cp0;
          cp1 = drop (length host) cp0;
          a = (case args of Some x \<Rightarrow> cstr x | None \<Rightarrow> tl cp1);
          base = (if use_full_uri then take (length uri - length cp1) uri else [])
      in p\<lparr>req_headers := z_HTTP_header_add (req_headers p) (str ''Host'') host, req_path := Some (base @ [ch CHR ''/''] @ a)\<rparr>)"

definition errmsg_table :: "(int \<times> string) list" where
  "errmsg_table =
     [(100, ''Continue''), (101, ''Switching Protocols''), (200, ''OK''), (201, ''Created''), (202, ''Accepted''),
      (203, ''Non-Authoritative Information''), (204, ''No Content''), (205, ''Reset Content''), (206, ''Partial Content''),
      (300, ''Multiple Choices''), (301, ''Moved Permenently''), (302, ''Found''), (303, ''See Other''), (304, ''Not Modified''),
      (305, ''Use Proxy''), (307, ''Temporary Redirect''), (400, ''Bad Request''), (404, ''Not Found''), (405, ''Method Not Allowed''),
      (406, ''Not Acceptable''), (407, ''Proxy Authentication Required''), (408, ''Request Timeout''), (409, ''Conflict''),
      (410, ''Gone''), (411, ''Length Required''), (412, ''Precondition Failed''), (413, ''Request Entity Too Large''),
      (414, ''Request-URI Too Long''), (415, ''Unsupported Media Type''), (416, ''Requested Range Not Satisfiable''),
      (417, ''Expectation Failed''), (500, ''Internal Error''), (501, ''Not Implemented''), (502, ''Bad Gateway''),
      (503, ''Service Unavailable''), (504, ''Gateway Timeout''), (505, ''HTTP Version Not Supported'')]"

definition z_HTTP_errmsg :: "int \<Rightarrow> byte list" where
  "z_HTTP_errmsg code = str (case map_of errmsg_table code of Some m \<Rightarrow> m | None \<Rightarrow> ''Unknown Error'')"

text \<open>The page is cut to a buffer of \<open>sz\<close> bytes, whose size does not count the name and the URL of the server.\<close>

definition error_page :: "int \<Rightarrow> byte list option \<Rightarrow> byte list \<Rightarrow> byte list \<Rightarrow> byte list" where
  "error_page code details server server_url =
     (let http_err = z_HTTP_errmsg code;
          sz = 400 + length http_err + (case details of None \<Rightarrow> 0 | Some d \<Rightarrow> length (cstr d))
      in take (sz - 1)
        (c_text ''<!DOCTYPE HTML PUBLIC `-//W3C//DTD HTML 4.01//EN` `http://www.w3.org/TR/html4/strict.dtd`>~<HTML>~ <HEAD>~  <TITLE>'' @
         cstr server @ c_text ''</TITLE>~ </HEAD>~ <BODY>~  <P><A HREF=`'' @ cstr server_url @ c_text ''`>'' @ cstr server @
         c_text ''</A></P>~  <P>Error: '' @ str (dec_int code) @ c_text ''</P>~  <P>Description: '' @ http_err @ c_text ''</P>~'' @
         (case details of None \<Rightarrow> [] | Some d \<Rightarrow> c_text ''<P>Details: '' @ cstr d @ c_text ''</P>~'') @
         c_text '' </BODY>~</HTML>~''))"

definition z_get_HTTP_Response_server :: "int \<Rightarrow> byte list option \<Rightarrow> byte list \<Rightarrow> byte list \<Rightarrow> Z_HTTP_Response" where
  "z_get_HTTP_Response_server code details server server_url =
     (let hs = z_HTTP_header_add [] (str ''Server'') server;
          hres = \<lparr>res_code = code, res_version = str ''1.1'', res_headers = hs, res_content_buf = None, res_content_len = 0\<rparr>
      in if code \<noteq> 200 then
           let page = error_page code details server server_url
           in hres\<lparr>res_content_buf := Some page, res_content_len := int (length page),
                res_headers := z_HTTP_header_add hs (str ''Content-Type'') (str ''text/html'')\<rparr>
         else hres)"

definition z_get_HTTP_Response_details :: "byte list \<Rightarrow> int \<Rightarrow> byte list option \<Rightarrow> Z_HTTP_Response" where
  "z_get_HTTP_Response_details yaz_version code details =
     z_get_HTTP_Response_server code details (str ''YAZ/'' @ yaz_version) (str ''http://www.indexdata.com/yaz'')"

definition z_get_HTTP_Response :: "byte list \<Rightarrow> int \<Rightarrow> Z_HTTP_Response" where
  "z_get_HTTP_Response yaz_version code = z_get_HTTP_Response_details yaz_version code None"

section \<open>Decoding\<close>

text \<open>The first index from \<open>i\<close> on, below \<open>lim\<close>, whose byte has a property; \<open>lim\<close> is at most the size of the buffer.\<close>

function scan_until :: "(byte \<Rightarrow> bool) \<Rightarrow> byte list \<Rightarrow> nat \<Rightarrow> nat \<Rightarrow> nat option" where
  "scan_until P b lim i = (if i \<ge> lim then None else if P (b ! i) then Some i else scan_until P b lim (i + 1))"
  by pat_completeness auto
termination
  by (relation "measure (\<lambda>(P, b, lim, i). lim - i)") auto

declare scan_until.simps [simp del]

lemma scan_until_ge: "scan_until P b lim i = Some j \<Longrightarrow> i \<le> j \<and> j < lim"
proof (induction P b lim i rule: scan_until.induct)
  case (1 P b lim i)
  then show ?case by (subst (asm) (2) scan_until.simps) (fastforce split: if_splits)
qed

text \<open>\<^verbatim>\<open>strchr\<close> also finds the terminator: a NUL ends a line as CR and LF do.\<close>

definition line_end :: "byte \<Rightarrow> bool" where
  "line_end c \<longleftrightarrow> strchr_ok [13, 10] c"

definition line_end_or_blank :: "byte \<Rightarrow> bool" where
  "line_end_or_blank c \<longleftrightarrow> strchr_ok [32, 13, 10] c"

definition not_blank :: "byte \<Rightarrow> bool" where
  "not_blank c \<longleftrightarrow> c \<noteq> 32"

text \<open>The bytes from \<open>i\<close> to \<open>j\<close> copied as a C string.\<close>

definition copy_str :: "byte list \<Rightarrow> nat \<Rightarrow> nat \<Rightarrow> byte list" where
  "copy_str b i j = cstr (take (j - i) (drop i b))"

text \<open>The value of a header, behind the colon: the index where it begins and the index of its end.\<close>

definition header_value :: "byte list \<Rightarrow> nat \<Rightarrow> nat \<times> nat" where
  "header_value b i =
     (let lim = length b - 1;
          po = (if i \<ge> lim then i else case scan_until not_blank b lim i of Some j \<Rightarrow> j | None \<Rightarrow> lim);
          e = (if po \<ge> lim then po else case scan_until line_end b lim po of Some j \<Rightarrow> j | None \<Rightarrow> lim)
      in (po, e))"

lemma header_value_ge: "i \<le> fst (header_value b i) \<and> fst (header_value b i) \<le> snd (header_value b i)"
  by (auto simp: header_value_def Let_def dest: scan_until_ge split: option.splits)

text \<open>
  The lines of the headers: \<open>None\<close> in the result is the return value 0 with the error set; otherwise the
  index of the last byte read, the headers and whether the content is chunked.
\<close>

function header_lines :: "byte list \<Rightarrow> nat \<Rightarrow> Z_HTTP_Header list \<Rightarrow> bool \<Rightarrow> (nat \<times> Z_HTTP_Header list \<times> bool) option" where
  "header_lines b i hs chunked =
     (if i + 1 < length b \<and> b ! i = 10 then
        if b ! (i + 1) = 13 \<and> i + 2 < length b \<and> b ! (i + 2) = 10 then Some (i + 2, hs, chunked)
        else if b ! (i + 1) = 10 then Some (i + 1, hs, chunked)
        else (case scan_until (\<lambda>c. c = ch CHR '':'') b (length b) (i + 1) of
           None \<Rightarrow> None
         | Some k \<Rightarrow>
             (case header_value b (k + 1) of (po, e) \<Rightarrow>
                let h = \<lparr>hname = copy_str b (i + 1) k, hvalue = copy_str b po e\<rparr>;
                    chunked1 = (chunked \<or> nocase_eq (hname h) (str ''Transfer-Encoding'') \<and> nocase_eq (hvalue h) (str ''chunked''))
                in header_lines b (if e + 1 < length b \<and> b ! e = 13 then e + 1 else e) (hs @ [h]) chunked1))
      else Some (i, hs, chunked))"
  by pat_completeness auto
termination
proof (relation "measure (\<lambda>(b, i, hs, chunked). length b - i)", goal_cases)
  case (2 b i hs chunked k po e h c1)
  have "i + 1 \<le> k" using scan_until_ge 2 by metis
  moreover have "k + 1 \<le> po" "po \<le> e" using header_value_ge [of "k + 1" b] 2 by (metis fst_conv snd_conv)+
  ultimately show ?case using 2 by auto
qed simp

declare header_lines.simps [simp del]

text \<open>The length of a chunk: letters up to Z count as digits.\<close>

definition chunk_digit :: "byte \<Rightarrow> int option" where
  "chunk_digit c =
     (if yaz_isdigit c then Some (uint c - 48)
      else if yaz_isupper c then Some (uint c - 55)
      else if yaz_islower c then Some (uint c - 87)
      else None)"

function chunk_length :: "byte list \<Rightarrow> nat \<Rightarrow> int \<Rightarrow> nat \<times> int" where
  "chunk_length b i chunk_len =
     (if i + 2 < length b then
        (case chunk_digit (b ! i) of
           Some d \<Rightarrow> chunk_length b (i + 1) (wrap32 (chunk_len * 16 + d))
         | None \<Rightarrow> (i, chunk_len))
      else (i, chunk_len))"
  by pat_completeness auto
termination
  by (relation "measure (\<lambda>(b, i, chunk_len). length b - i)") auto

declare chunk_length.simps [simp del]

lemma chunk_length_ge: "i \<le> fst (chunk_length b i l)"
proof (induction b i l rule: chunk_length.induct)
  case (1 b i l)
  then show ?case by (subst chunk_length.simps) (fastforce split: option.splits)
qed

text \<open>The extension of a chunk: skipped until there is a CR, or a LF behind the current byte.\<close>

function chunk_extension :: "byte list \<Rightarrow> nat \<Rightarrow> nat option cres" where
  "chunk_extension b i =
     (if i \<ge> length b then None
      else if b ! i = 13 then Some (Some i)
      else if i + 1 \<ge> length b then None
      else if b ! (i + 1) = 10 then Some (Some i)
      else if i + 2 \<ge> length b then Some None
      else chunk_extension b (i + 1))"
  by pat_completeness auto
termination
  by (relation "measure (\<lambda>(b, i). length b - i)") auto

declare chunk_extension.simps [simp del]

lemma chunk_extension_ge: "chunk_extension b i = Some (Some j) \<Longrightarrow> i \<le> j \<and> j < length b"
proof (induction b i rule: chunk_extension.induct)
  case (1 b i)
  then show ?case by (subst (asm) (2) chunk_extension.simps) (fastforce split: if_splits)
qed

text \<open>
  The chunks from \<open>i\<close> on, copied to a buffer of \<open>cap\<close> bytes of which \<open>got\<close> are filled. The size of a
  chunk is compared with the size of the message; a copy from behind the message or behind the buffer
  has no result.
\<close>

function read_chunks :: "byte list \<Rightarrow> nat \<Rightarrow> nat \<Rightarrow> byte list \<Rightarrow> byte list option cres" where
  "read_chunks b cap i got =
     (case chunk_length b i 0 of (i1, chunk_len) \<Rightarrow>
        (case chunk_extension b i1 of
           None \<Rightarrow> None
         | Some None \<Rightarrow> Some None
         | Some (Some i2) \<Rightarrow>
             if chunk_len = 0 then Some (Some got)
             else if chunk_len < 0 \<or> wrap32 (int (length got) + chunk_len) > int (length b) then Some None
             else if i2 + 2 + nat chunk_len > length b \<or> length got + nat chunk_len > cap then None
             else read_chunks b cap (i2 + 2 + nat chunk_len + 2) (got @ take (nat chunk_len) (drop (i2 + 2) b))))"
  by pat_completeness auto
termination
proof (relation "measure (\<lambda>(b, cap, i, got). length b - i)", goal_cases)
  case (2 b cap i got i1 chunk_len y i2)
  have "i \<le> i1" using chunk_length_ge [of i b 0] 2 by (metis fst_conv)
  moreover have "i1 \<le> i2" "i2 < length b" using chunk_extension_ge [of b i1 i2] 2 by auto
  ultimately show ?case by auto
qed simp

declare read_chunks.simps [simp del]

text \<open>\<open>None\<close> in the result is the return value 0.\<close>

definition decode_headers_content :: "byte list \<Rightarrow> nat \<Rightarrow> (Z_HTTP_Header list \<times> byte list option \<times> int) option cres" where
  "decode_headers_content b off =
     (case header_lines b off [] False of
        None \<Rightarrow> Some None
      | Some (i, hs, chunked) \<Rightarrow> do {
          c \<leftarrow> rd b i;
          if c \<noteq> 10 then Some None
          else if chunked then do {
            r \<leftarrow> read_chunks b (length b - (i + 1)) (i + 1) [];
            Some (map_option (\<lambda>got. (hs, if got = [] then None else Some got, int (length got))) r)}
          else if i + 1 = length b then Some (Some (hs, None, 0))
          else Some (Some (hs, Some (drop (i + 1) b), int (length b - (i + 1))))})"

text \<open>Up to four digits; \<open>j\<close> is the index of the first.\<close>

function status_code :: "byte list \<Rightarrow> nat \<Rightarrow> nat \<Rightarrow> int \<Rightarrow> (nat \<times> int) option" where
  "status_code b j i code =
     (if i + 1 \<ge> length b then None
      else if i > j + 3 then None
      else if \<not> yaz_isdigit (b ! i) then Some (i, code)
      else status_code b j (i + 1) (code * 10 + (uint (b ! i) - 48)))"
  by pat_completeness auto
termination
  by (relation "measure (\<lambda>(b, j, i, code). length b - i)") auto

declare status_code.simps [simp del]

text \<open>The first line of a response: (index of its last byte, code, version, message), \<open>None\<close> for the return value 0.\<close>

definition yaz_decode_http_response_first :: "byte list \<Rightarrow> (nat \<times> int \<times> byte list \<times> byte list) option" where
  "yaz_decode_http_response_first b =
     (if length b < 10 \<or> take 5 b \<noteq> str ''HTTP/'' then None
      else do {
        i \<leftarrow> scan_until line_end_or_blank b (length b - 1) 5;
        if b ! i \<noteq> 32 then None
        else do {
          (k, code) \<leftarrow> status_code b (i + 1) (i + 1) 0;
          if b ! k \<noteq> 32 then None
          else do {
            e \<leftarrow> scan_until line_end b (length b) (k + 1);
            let e1 = (if e + 1 < length b \<and> b ! e = 13 then e + 1 else e) in
            if b ! e1 \<noteq> 10 then None
            else Some (e1, code, take (i - 5) (drop 5 b), take (e - (k + 1)) (drop (k + 1) b))}}})"

definition http_error :: "odr \<Rightarrow> odr" where
  "http_error o' = o'\<lparr>error := OHTTP\<rparr>"

definition yaz_decode_http_response :: "odr \<Rightarrow> (Z_HTTP_Response option \<times> odr) cres" where
  "yaz_decode_http_response o' =
     (case yaz_decode_http_response_first (buf o') of
        None \<Rightarrow> Some (None, http_error o')
      | Some (i, code, version, msg) \<Rightarrow> do {
          r \<leftarrow> decode_headers_content (buf o') i;
          (case r of
             None \<Rightarrow> Some (None, http_error o')
           | Some (hs, c, len) \<Rightarrow>
               Some (Some \<lparr>res_code = code, res_version = cstr version, res_headers = hs, res_content_buf = c, res_content_len = len\<rparr>, o'))})"

text \<open>The method: \<open>None\<close> in the result when it is too long.\<close>

function method_end :: "byte list \<Rightarrow> nat \<Rightarrow> nat option cres" where
  "method_end b i =
     (if i \<ge> length b then None
      else if b ! i = 32 then Some (Some i)
      else if i + 5 \<ge> length b \<or> i > 30 then Some None
      else method_end b (i + 1))"
  by pat_completeness auto
termination
  by (relation "measure (\<lambda>(b, i). length b - i)") auto

declare method_end.simps [simp del]

text \<open>The end of the first line and the last blank in it (0 if there is none).\<close>

function request_line :: "byte list \<Rightarrow> nat \<Rightarrow> nat \<Rightarrow> nat \<times> nat" where
  "request_line b i lspace =
     (if i < length b \<and> \<not> line_end (b ! i) then request_line b (i + 1) (if b ! i = 32 then i else lspace)
      else (i, lspace))"
  by pat_completeness auto
termination
  by (relation "measure (\<lambda>(b, i, lspace). length b - i)") auto

declare request_line.simps [simp del]

definition yaz_decode_http_request :: "odr \<Rightarrow> (Z_HTTP_Request option \<times> odr) cres" where
  "yaz_decode_http_request o' =
     (let b = buf o' in do {
        m \<leftarrow> method_end b 0;
        (case m of
           None \<Rightarrow> Some (None, http_error o')
         | Some i \<Rightarrow>
             let po = i + 1; (e, lspace) = request_line b po 0 in
             if lspace = 0 \<or> e \<ge> length b \<or> lspace + 5 \<ge> length b \<or> take 5 (drop (lspace + 1) b) \<noteq> str ''HTTP/''
             then Some (None, http_error o')
             else let e1 = (if e + 1 < length b \<and> b ! e = 13 then e + 1 else e) in
               if b ! e1 \<noteq> 10 then Some (None, http_error o')
               else do {
                 r \<leftarrow> decode_headers_content b e1;
                 (case r of
                    None \<Rightarrow> Some (None, http_error o')
                  | Some (hs, c, len) \<Rightarrow>
                      Some (Some \<lparr>req_method = Some (copy_str b 0 i), req_version = Some (copy_str b (lspace + 6) e),
                        req_path = Some (copy_str b po lspace), req_headers = hs, req_content_buf = c, req_content_len = len\<rparr>, o'))})})"

section \<open>Encoding\<close>

text \<open>Writes whose result the code does not look at.\<close>

definition odr_puts :: "odr \<Rightarrow> byte list \<Rightarrow> odr" where
  "odr_puts o' s = snd (odr_write o' s)"

definition write_header :: "odr \<Rightarrow> Z_HTTP_Header \<Rightarrow> odr" where
  "write_header o' h = odr_puts (odr_puts (odr_puts (odr_puts o' (cstr (hname h))) (str '': '')) (cstr (hvalue h))) [13, 10]"

text \<open>The content is memory of its own; \<open>len\<close> bytes of it are written.\<close>

definition write_content :: "odr \<Rightarrow> byte list option \<Rightarrow> int \<Rightarrow> odr cres" where
  "write_content o' c len =
     (case c of
        None \<Rightarrow> Some o'
      | Some m \<Rightarrow> if 0 \<le> len \<and> nat len \<le> length m then Some (odr_puts o' (take (nat len) m)) else None)"

definition dump_http_package :: "odr \<Rightarrow> byte list \<Rightarrow> odr" where
  "dump_http_package o' m =
     (let shown = takeWhile (\<lambda>c. c \<noteq> 0) (take 8192 m);
          o1 = o'\<lparr>printed := printed o' @ text_of shown\<rparr>
      in if length shown = length m then o1
         else if length shown = 8192
         then odr_printf o1 (''(truncated from '' @ dec_int (int (length m)) @ '' to 8192'' @ [char_of (10 :: nat)])
         else odr_printf o1 (''(binary data)'' @ [char_of (10 :: nat)]))"

definition print_package :: "string \<Rightarrow> nat \<Rightarrow> odr \<Rightarrow> odr" where
  "print_package title top0 o' =
     (if direction o' = ODR_PRINT then
        odr_printf (dump_http_package (odr_printf o' (title @ [char_of (10 :: nat)])) (take (top o' - top0) (drop top0 (buf o'))))
          (''--'' @ [char_of (10 :: nat)])
      else o')"

definition yaz_encode_http_response :: "odr \<Rightarrow> Z_HTTP_Response \<Rightarrow> (bool \<times> odr) cres" where
  "yaz_encode_http_response o' hr =
     (let top0 = top o';
          first = take 79 (str ''HTTP/'' @ cstr (res_version hr) @ str '' '' @ str (dec_int (res_code hr)) @ str '' '' @
            z_HTTP_errmsg (res_code hr) @ [13, 10]);
          o1 = odr_puts o' first;
          o2 = odr_puts o1 (str ''Content-Length: '' @ str (dec_int (res_content_len hr)) @ [13, 10]);
          o3 = foldl (\<lambda>ox h. if \<not> nocase_eq (hname h) (str ''Content-Length'') \<and> \<not> nocase_eq (hname h) (str ''Transfer-Encoding'')
                 then write_header ox h else ox) o2 (res_headers hr);
          o4 = odr_puts o3 [13, 10]
      in do {
        o5 \<leftarrow> write_content o4 (res_content_buf hr) (res_content_len hr);
        Some (True, print_package ''-- HTTP response:'' top0 o5)})"

definition yaz_encode_http_request :: "odr \<Rightarrow> Z_HTTP_Request \<Rightarrow> (bool \<times> odr) cres" where
  "yaz_encode_http_request o' hr =
     (case (req_method hr, req_path hr) of
        (Some method, Some path) \<Rightarrow> do {
          version \<leftarrow> req_version hr;
          let top0 = top o';
              o1 = foldl odr_puts o' [cstr method, str '' '', takeWhile (\<lambda>c. c \<noteq> ch CHR ''#'') (cstr path), str '' HTTP/'',
                cstr version, [13, 10]];
              o2 = (if req_content_len hr \<noteq> 0 \<and> z_HTTP_header_lookup (req_headers hr) (str ''Content-Length'') = None
                then odr_puts o1 (str ''Content-Length: '' @ str (dec_int (req_content_len hr)) @ [13, 10]) else o1);
              o3 = foldl (\<lambda>ox h. if nocase_eq (hname h) (str ''Transfer-Encoding'') then ox else write_header ox h) o2 (req_headers hr);
              o4 = odr_puts o3 [13, 10]
          in do {
            o5 \<leftarrow> write_content o4 (req_content_buf hr) (req_content_len hr);
            Some (True, print_package ''-- HTTP request:'' top0 o5)}}
      | _ \<Rightarrow> Some (False, o'))"

section \<open>Any package (zgdu.c)\<close>

datatype 'a Z_GDU = GDU_Z3950 'a | GDU_HTTP_Request Z_HTTP_Request | GDU_HTTP_Response Z_HTTP_Response

text \<open>The codec of Z39.50 packages is generated; \<open>dec\<close> and \<open>enc_apdu\<close> stand for its two directions.\<close>

definition decode_GDU :: "(odr \<Rightarrow> ('a option \<times> odr) cres) \<Rightarrow> odr \<Rightarrow> ('a Z_GDU option \<times> odr) cres" where
  "decode_GDU dec o' =
     (let b = buf o' in
      if length b > 10 \<and> take 5 b = str ''HTTP/'' then
        map_option (\<lambda>(r, o1). (map_option GDU_HTTP_Response r, o1)) (yaz_decode_http_response o')
      else if length b > 5 \<and> printable (b ! 0) \<and> printable (b ! 1) \<and> printable (b ! 2) \<and> printable (b ! 3) then
        map_option (\<lambda>(r, o1). (map_option GDU_HTTP_Request r, o1)) (yaz_decode_http_request o')
      else map_option (\<lambda>(r, o1). (map_option GDU_Z3950 r, o1)) (dec o'))"

definition encode_GDU :: "('a \<Rightarrow> odr \<Rightarrow> (bool \<times> odr) cres) \<Rightarrow> 'a Z_GDU \<Rightarrow> odr \<Rightarrow> (bool \<times> odr) cres" where
  "encode_GDU enc_apdu p o' =
     (case p of
        GDU_HTTP_Response hr \<Rightarrow> yaz_encode_http_response o' hr
      | GDU_HTTP_Request hr \<Rightarrow> yaz_encode_http_request o' hr
      | GDU_Z3950 a \<Rightarrow> enc_apdu a o')"


end
