(* ===== verification/Yaz_Http_Laws.thy ===== *)
theory Yaz_Http_Laws
  imports Yaz_Http
begin

text \<open>
  What the HTTP codec writes is framed by the completeness test of the connection and read back by the
  decoder: the headers line by line, the first lines of responses and requests, and the package.
\<close>

section \<open>Searching\<close>

lemma scan_found:
  "\<forall>c \<in> set u. \<not> P c \<Longrightarrow> P c \<Longrightarrow> length p + length u < lim \<Longrightarrow>
   scan_until P (p @ u @ c # r) lim (length p) = Some (length p + length u)"
proof (induction u arbitrary: p)
  case Nil
  then show ?case by (simp add: scan_until.simps nth_append)
next
  case (Cons d u)
  then show ?case using Cons.IH [of "p @ [d]"] by (simp add: scan_until.simps [of P _ _ "length p"] nth_append)
qed

lemma line_end_iff: "line_end c \<longleftrightarrow> c = 0 \<or> c = 13 \<or> c = 10"
  by (auto simp: line_end_def strchr_ok_def)

lemma line_end_or_blank_iff: "line_end_or_blank c \<longleftrightarrow> c = 0 \<or> c = 32 \<or> c = 13 \<or> c = 10"
  by (auto simp: line_end_or_blank_def strchr_ok_def)

lemma nocase_eq_lower: "nocase_eq a b \<longleftrightarrow> map lower (cstr a) = map lower (cstr b)"
  using strncasecmp_strings [of "cstr a" "cstr b"] by (auto simp: nocase_eq_def yaz_strcasecmp_def)

section \<open>Lists of headers\<close>

lemma lookup_set:
  "z_HTTP_header_lookup (z_HTTP_header_set hp n v) k = (if nocase_eq n k then Some (cstr v) else z_HTTP_header_lookup hp k)"
  by (induction hp) (auto simp: nocase_eq_lower)

lemma lookup_add:
  "z_HTTP_header_lookup (z_HTTP_header_add hp n v) k =
     (case z_HTTP_header_lookup hp k of Some w \<Rightarrow> Some w | None \<Rightarrow> if nocase_eq n k then Some (cstr v) else None)"
  by (induction hp) (auto simp: z_HTTP_header_add_def nocase_eq_lower)

lemma lookup_remove:
  "fst (z_HTTP_header_remove hp n) = z_HTTP_header_lookup hp n"
  "\<not> nocase_eq n k \<Longrightarrow> z_HTTP_header_lookup (snd (z_HTTP_header_remove hp n)) k = z_HTTP_header_lookup hp k"
  by (induction hp) (auto simp: nocase_eq_lower split: prod.split)

text \<open>The credentials of basic authentication fit their buffer.\<close>

lemma base64_length: "length (yaz_base64encode s) = 4 * ((length s + 2) div 3)"
proof (induction s rule: yaz_base64encode.induct)
  case (4 b0 b1 b2 s)
  have "(length (b0 # b1 # b2 # s) + 2) div 3 = (length s + 2) div 3 + 1" by simp
  then show ?case using 4 by (simp only: yaz_base64encode.simps Let_def) simp
qed (simp_all add: Let_def)

lemma basic_auth_fits:
  "z_HTTP_header_add_basic_auth hp (Some u) p =
     Some (z_HTTP_header_set hp (str ''Authorization'')
       (str ''Basic '' @ yaz_base64encode (cstr u @ 58 # (case p of None \<Rightarrow> [] | Some q \<Rightarrow> cstr q))))"
proof -
  define tmp where "tmp = cstr u @ 58 # (case p of None \<Rightarrow> [] | Some q \<Rightarrow> cstr q)"
  have "4 * ((length tmp + 2) div 3) + 7 \<le> length tmp * 8 div 6 + 12" by presburger
  then have "length (str ''Basic '' @ yaz_base64encode tmp) + 1 \<le> length tmp * 8 div 6 + 12" using base64_length [of tmp] by simp
  then show ?thesis by (simp add: z_HTTP_header_add_basic_auth_def Let_def tmp_def [symmetric])
qed

section \<open>Headers\<close>

text \<open>Headers whose text is read back: a name, and a value that does not begin with a blank.\<close>

definition header_ok :: "Z_HTTP_Header \<Rightarrow> bool" where
  "header_ok h \<longleftrightarrow> hname h \<noteq> [] \<and> (\<forall>c \<in> set (hname h). \<not> line_end c \<and> c \<noteq> 58) \<and> (\<forall>c \<in> set (hvalue h). \<not> line_end c) \<and>
     (hvalue h \<noteq> [] \<longrightarrow> hd (hvalue h) \<noteq> 32)"

text \<open>Headers that say nothing about the length of the content.\<close>

definition plain_header :: "Z_HTTP_Header \<Rightarrow> bool" where
  "plain_header h \<longleftrightarrow> header_ok h \<and> \<not> nocase_eq (hname h) (str ''Content-Length'') \<and> \<not> nocase_eq (hname h) (str ''Transfer-Encoding'')"

definition header_text :: "Z_HTTP_Header \<Rightarrow> byte list" where
  "header_text h = hname h @ 58 # 32 # hvalue h @ [13, 10]"

definition length_header :: "nat \<Rightarrow> Z_HTTP_Header" where
  "length_header n = \<lparr>hname = str ''Content-Length'', hvalue = str (dec_digits n)\<rparr>"

lemma dec_not_line_end: "c \<in> set (str (dec_digits n)) \<Longrightarrow> \<not> line_end c \<and> c \<noteq> 32"
  using dec_isdigit [of c n] by (auto simp: line_end_iff yaz_isdigit_def)

lemma length_header_ok: "header_ok (length_header n)"
proof -
  have "hd (str (dec_digits n)) \<noteq> 32" using dec_not_line_end [of "hd (str (dec_digits n))" n] dec_not_empty [of n] hd_in_set by blast
  then show ?thesis using dec_not_line_end [of _ n] by (auto simp: header_ok_def length_header_def line_end_iff)
qed

lemma copy_part: "no_nul u \<Longrightarrow> copy_str (p @ u @ r) (length p) (length p + length u) = u"
  by (simp add: copy_str_def)

lemma value_found:
  assumes "\<forall>c \<in> set v. \<not> line_end c" and "v \<noteq> [] \<longrightarrow> hd v \<noteq> 32" and "r \<noteq> []"
  shows "header_value (p @ 32 # v @ 13 # r) (length p) = (Suc (length p), Suc (length p) + length v)"
proof -
  let ?b = "p @ 32 # v @ 13 # r"
  obtain d t where d: "v @ 13 # r = d # t" "d \<noteq> 32" using assms(2) by (cases v) auto
  have "scan_until not_blank ?b (length ?b - 1) (length p) = Some (Suc (length p))"
    using scan_found [of "[32]" not_blank d p "length ?b - 1" t] assms(3) d(2) unfolding d(1) [symmetric]
    by (cases r) (auto simp: not_blank_def)
  moreover have "scan_until line_end ?b (length ?b - 1) (Suc (length p)) = Some (Suc (length p) + length v)"
    using scan_found [of v line_end 13 "p @ [32]" "length ?b - 1" r] assms(1,3) by (cases r) (auto simp: line_end_iff)
  ultimately show ?thesis using assms(3) by (cases r) (simp_all add: header_value_def Let_def)
qed

lemma header_line_read:
  assumes "header_ok h" and "r \<noteq> []"
  shows "header_lines (p @ 10 # header_text h @ r) (length p) hs chunked =
    header_lines ((p @ 10 # hname h @ 58 # 32 # hvalue h @ [13]) @ 10 # r) (length (p @ 10 # hname h @ 58 # 32 # hvalue h @ [13])) (hs @ [h])
      (chunked \<or> nocase_eq (hname h) (str ''Transfer-Encoding'') \<and> nocase_eq (hvalue h) (str ''chunked''))"
proof -
  let ?n = "hname h" and ?v = "hvalue h"
  let ?b = "p @ 10 # ?n @ 58 # 32 # ?v @ 13 # 10 # r"
  let ?q = "(p @ [10]) @ ?n @ [58]"
  have ok: "?n \<noteq> []" "\<forall>c \<in> set ?n. \<not> line_end c \<and> c \<noteq> 58" "\<forall>c \<in> set ?v. \<not> line_end c" "?v \<noteq> [] \<longrightarrow> hd ?v \<noteq> 32"
    using assms(1) by (auto simp: header_ok_def)
  obtain c t where c: "?n = c # t" "c \<noteq> 13" "c \<noteq> 10" using ok(1,2) by (cases ?n) (auto simp: line_end_iff)
  have colon: "scan_until (\<lambda>c. c = ch CHR '':'') ?b (length ?b) (length p + 1) = Some (Suc (length p) + length ?n)"
  proof -
    have "\<forall>c \<in> set ?n. c \<noteq> 58" using ok(2) by blast
    then show ?thesis using scan_found [of ?n "\<lambda>c. c = 58" 58 "p @ [10]" "length ?b" "32 # ?v @ 13 # 10 # r"] by simp
  qed
  have val: "header_value ?b (Suc (length p) + length ?n + 1) = (length ?q + 1, length ?q + 1 + length ?v)"
    using value_found [OF ok(3,4), of "10 # r" ?q] by simp
  have nm: "copy_str ?b (length p + 1) (Suc (length p) + length ?n) = ?n"
    using copy_part [of ?n "p @ [10]" "58 # 32 # ?v @ 13 # 10 # r"] ok(2) by (auto simp: line_end_iff)
  have vl: "copy_str ?b (length ?q + 1) (length ?q + 1 + length ?v) = ?v"
    using copy_part [of ?v "?q @ [32]" "13 # 10 # r"] ok(3) by (auto simp: line_end_iff)
  have at: "?b ! (length ?q + 1 + length ?v) = 13" using nth_append_length [of "?q @ 32 # ?v" 13 "10 # r"] by (simp add: add.assoc)
  have first: "?b ! length p = 10" "?b ! (length p + 1) = c" using c(1) by (simp_all add: nth_append)
  have h: "\<lparr>hname = c # t, hvalue = ?v\<rparr> = h" using c(1) by (cases h) simp
  show ?thesis
    unfolding header_text_def append.simps append_assoc
    using colon val nm vl at first c assms(2) by (subst header_lines.simps) (simp add: Let_def add.assoc h)
qed

lemma header_lines_end: "header_lines (p @ 10 # 13 # 10 # r) (length p) hs chunked = Some (length p + 2, hs, chunked)"
  by (subst header_lines.simps) (simp add: nth_append)

lemma header_lines_read:
  "\<forall>h \<in> set hl. header_ok h \<and> \<not> nocase_eq (hname h) (str ''Transfer-Encoding'') \<Longrightarrow>
   header_lines (p @ 10 # concat (map header_text hl) @ 13 # 10 # r) (length p) hs False =
     Some (length p + 2 + length (concat (map header_text hl)), hs @ hl, False)"
proof (induction hl arbitrary: p hs)
  case Nil
  then show ?case by (simp add: header_lines_end)
next
  case (Cons h hl)
  let ?r = "concat (map header_text hl) @ 13 # 10 # r"
  have "header_lines (p @ 10 # header_text h @ ?r) (length p) hs False =
      header_lines ((p @ 10 # hname h @ 58 # 32 # hvalue h @ [13]) @ 10 # ?r) (length (p @ 10 # hname h @ 58 # 32 # hvalue h @ [13])) (hs @ [h]) False"
    using header_line_read [of h ?r p hs False] Cons.prems by auto
  then show ?case
    using Cons.IH [of "p @ 10 # hname h @ 58 # 32 # hvalue h @ [13]" "hs @ [h]"] Cons.prems
    by (simp add: header_text_def [of h])
qed

definition no_empty :: "byte list \<Rightarrow> byte list option" where
  "no_empty c = (if c = [] then None else Some c)"

lemma content_read:
  assumes "\<forall>h \<in> set hl. header_ok h \<and> \<not> nocase_eq (hname h) (str ''Transfer-Encoding'')"
  shows "decode_headers_content (p @ 10 # concat (map header_text hl) @ 13 # 10 # c) (length p) =
    Some (Some (hl, no_empty c, int (length c)))"
proof -
  let ?t = "concat (map header_text hl)"
  let ?b = "p @ 10 # ?t @ 13 # 10 # c"
  have "drop (Suc (length p + 2 + length ?t)) ?b = c" using append_eq_conv_conj [of "p @ 10 # ?t @ [13, 10]" c ?b] by simp
  moreover have "rd ?b (length p + 2 + length ?t) = Some 10"
    using nth_append_length [of "p @ 10 # ?t @ [13]" 10 c] by (simp add: rd_def)
  ultimately show ?thesis using header_lines_read [OF assms, of p c "[]"] by (cases c) (simp_all add: decode_headers_content_def no_empty_def)
qed

section \<open>Framing of the headers\<close>

lemma walk_line:
  "\<forall>c \<in> set u. \<not> eol c \<Longrightarrow> length p + length u \<le> 8192 \<Longrightarrow> 2 \<le> length r \<Longrightarrow>
   http_headers (p @ u @ r) ho ck cl (length p) = http_headers (p @ u @ r) ho ck cl (length p + length u)"
proof (induction u arbitrary: p)
  case (Cons c u)
  let ?b = "p @ (c # u) @ r"
  have "skip_crlf ?b (length p) = None" using Cons.prems(1) by (simp add: skip_crlf_def nth_append eol_def)
  then have "http_headers ?b ho ck cl (length p) = http_headers ?b ho ck cl (length p + 1)"
    using Cons.prems by (subst http_headers.simps) simp
  then show ?case using Cons.IH [of "p @ [c]"] Cons.prems by simp
qed simp

lemma lower_colon: "lower c = 58 \<longleftrightarrow> c = 58" "lower 58 = 58" "uint (lower c) = 58 \<longleftrightarrow> c = 58"
proof -
  show *: "lower c = 58 \<longleftrightarrow> c = 58" for c by (auto simp: lower_def ctype_defs split: if_splits)
  then show "lower 58 = 58" by blast
  show "uint (lower c) = 58 \<longleftrightarrow> c = 58" using uint_inj [of "lower c" 58] * [of c] by simp
qed

lemma strncasecmp_colon:
  "58 \<notin> set n \<Longrightarrow> 58 \<notin> set m \<Longrightarrow> yaz_strncasecmp (n @ 58 # r) (m @ [58]) (Suc (length m)) = Some 0 \<Longrightarrow> map lower n = map lower m"
proof (induction n arbitrary: m)
  case Nil
  then show ?case by (cases m) (auto simp: lower_colon uint_inj split: if_splits)
next
  case (Cons d n)
  then show ?case by (cases m) (auto simp: lower_colon uint_inj split: if_splits)
qed

lemma strncasecmp_same: "yaz_strncasecmp (s @ r) s (length s) = Some 0"
  by (induction s) auto

lemma other_name:
  assumes "58 \<notin> set n" and "no_nul n" and "58 \<notin> set m" and "no_nul m" and "\<not> nocase_eq n m"
  shows "\<not> nocase_at (p @ n @ 58 # r) (length p) (m @ [58])"
  using strncasecmp_colon [of n m r] assms by (auto simp: nocase_at_def nocase_eq_lower)

lemma header_parts:
  assumes "header_ok h"
  shows "58 \<notin> set (hname h)" "no_nul (hname h)" "\<forall>c \<in> set (hname h). \<not> eol c" "\<forall>c \<in> set (hvalue h). \<not> eol c" "hname h \<noteq> []"
  using assms by (auto simp: header_ok_def line_end_iff eol_def)

abbreviation header_line :: "Z_HTTP_Header \<Rightarrow> byte list" where
  "header_line h \<equiv> hname h @ 58 # 32 # hvalue h"

lemma walk_crlf:
  assumes "length p \<le> 8192" and "header_ok h" and "r \<noteq> []"
  shows "skip_crlf (p @ 13 # 10 # header_line h @ r) (length p) = Some (length p + 2)"
    "skip_crlf (p @ 13 # 10 # header_line h @ r) (length p + 2) = None"
  using assms header_parts(3,5) [of h] by (cases "hname h"; auto simp: skip_crlf_def nth_append eol_def)+

lemma walk_plain:
  assumes "plain_header h" and "length p + length (header_text h) \<le> 8192"
  shows "http_headers (p @ 13 # 10 # header_text h @ r) ho ck cl (length p) =
    http_headers ((p @ 13 # 10 # header_line h) @ 13 # 10 # r) ho ck cl (length (p @ 13 # 10 # header_line h))"
proof -
  let ?b = "p @ 13 # 10 # header_line h @ 13 # 10 # r"
  have ok: "header_ok h" "\<not> nocase_eq (hname h) (str ''Content-Length'')" "\<not> nocase_eq (hname h) (str ''Transfer-Encoding'')"
    using assms(1) by (auto simp: plain_header_def)
  note parts = header_parts [OF ok(1)]
  have lp: "length p \<le> 8192" using assms(2) by simp
  obtain c t where c: "hname h = c # t" using parts(5) by (cases "hname h") auto
  have "\<not> nocase_at ?b (length p + 2) (str ''Content-Length:'')" "\<not> nocase_at ?b (length p + 2) (str ''Transfer-Encoding:'')"
    using other_name [OF parts(1,2) _ _ ok(2), of "p @ [13, 10]" "32 # hvalue h @ 13 # 10 # r"]
      other_name [OF parts(1,2) _ _ ok(3), of "p @ [13, 10]" "32 # hvalue h @ 13 # 10 # r"] by simp_all
  then have "http_headers ?b ho ck cl (length p) = http_headers ?b ho ck cl (Suc (Suc (Suc (length p))))"
    using walk_crlf [OF lp ok(1), of "13 # 10 # r"] lp by (subst http_headers.simps) simp
  also have "\<dots> = http_headers ?b ho ck cl (length (p @ 13 # 10 # header_line h))"
    using walk_line [of "t @ 58 # 32 # hvalue h" "p @ [13, 10, c]" "13 # 10 # r" ho ck cl] parts(3,4) assms(2) c
    by (simp add: header_text_def eol_def ball_Un)
  finally show ?thesis by (simp add: header_text_def)
qed

lemma one_blank: "c \<noteq> 32 \<Longrightarrow> skip_blanks (p @ 32 # c # t) (length p) = Suc (length p)"
  by (simp add: skip_blanks.simps [of _ "length p"] skip_blanks.simps [of _ "Suc (length p)"] nth_append)

lemma walk_length:
  assumes "n < 2 ^ 31" and "length p \<le> 8192"
  shows "http_headers (p @ 13 # 10 # header_text (length_header n) @ r) ho ck cl (length p) =
    http_headers ((p @ 13 # 10 # header_line (length_header n)) @ 13 # 10 # r) ho ck (int n) (length (p @ 13 # 10 # header_line (length_header n)))"
proof -
  let ?d = "str (dec_digits n)"
  let ?b = "p @ 13 # 10 # str ''Content-Length'' @ 58 # 32 # ?d @ 13 # 10 # r"
  have crlf: "skip_crlf ?b (length p) = Some (length p + 2)" "skip_crlf ?b (length p + 2) = None"
    using walk_crlf [OF assms(2) length_header_ok, of "13 # 10 # r" n] by (simp_all add: length_header_def)
  have name: "nocase_at ?b (length p + 2) (str ''Content-Length:'')"
    using strncasecmp_same [of "str ''Content-Length:''" "32 # ?d @ 13 # 10 # r"] by (simp add: nocase_at_def)
  obtain c t where c: "?d = c # t" "c \<noteq> 32" using dec_not_empty [of n] dec_not_line_end [of "hd ?d" n] by (cases ?d) (auto simp del: list.map)
  have blanks: "skip_blanks ?b (length p + 2 + 15) = length p + 18"
    using one_blank [OF c(2), of "p @ 13 # 10 # str ''Content-Length:''" "t @ 13 # 10 # r"] c(1) by (simp add: numeral_eq_Suc)
  have d: "drop (length p + 18) ?b = ?d @ 13 # 10 # r"
    using append_eq_conv_conj [of "p @ 13 # 10 # str ''Content-Length: ''" "?d @ 13 # 10 # r" ?b] by simp
  have num: "yaz_atoi 10 (?d @ 13 # 10 # r) cl = (int (length ?d), int n)"
    using atoi_dec [OF assms(1), of "13 # 10 # r" cl] by (simp add: digit_value_def ctype_defs)
  define b where "b = ?b"
  have l: "length p + 18 < length b" using dec_not_empty [of n] by (cases "dec_digits n") (simp_all add: b_def)
  note facts = crlf name blanks d num one_name [of b "length p + 2"]
  have "http_headers b ho ck cl (length p) = http_headers b ho ck (int n) (length p + 18 + length ?d)"
    using facts [folded b_def] l assms(2) dec_not_empty [of n] by (subst http_headers.simps) (auto simp: Let_def simp del: list.map)
  then show ?thesis by (simp add: header_text_def length_header_def b_def numeral_eq_Suc)
qed

lemma walk_headers:
  "\<forall>h \<in> set hl. plain_header h \<Longrightarrow> length p + length (concat (map header_text hl)) \<le> 8192 \<Longrightarrow>
   \<exists>q. length q = length p + length (concat (map header_text hl)) \<and>
     p @ 13 # 10 # concat (map header_text hl) @ 13 # 10 # r = q @ 13 # 10 # 13 # 10 # r \<and>
     http_headers (p @ 13 # 10 # concat (map header_text hl) @ 13 # 10 # r) ho ck cl (length p) =
       http_headers (q @ 13 # 10 # 13 # 10 # r) ho ck cl (length q)"
proof (induction hl arbitrary: p)
  case (Cons h hl)
  let ?p = "p @ 13 # 10 # header_line h" and ?r = "concat (map header_text hl) @ 13 # 10 # r"
  have step: "http_headers (p @ 13 # 10 # header_text h @ ?r) ho ck cl (length p) = http_headers (?p @ 13 # 10 # ?r) ho ck cl (length ?p)"
    by (rule walk_plain) (use Cons.prems in simp_all)
  have len: "length ?p = length p + length (header_text h)" "p @ 13 # 10 # header_text h @ ?r = ?p @ 13 # 10 # ?r"
    by (simp_all add: header_text_def)
  show ?case using Cons.IH [of ?p] Cons.prems step len by (simp add: add.assoc)
qed auto

lemma walk_end:
  assumes "length q \<le> 8192" and "ho \<and> c = [] \<or> \<not> ho \<and> cl = int (length c) \<and> length q + 4 + length c \<le> 2147483647"
  shows "http_headers (q @ 13 # 10 # 13 # 10 # c @ m) ho False cl (length q) = int (length q + 4 + length c)"
proof -
  have "skip_crlf (q @ 13 # 10 # 13 # 10 # c @ m) (length q) = Some (length q + 2)"
    "skip_crlf (q @ 13 # 10 # 13 # 10 # c @ m) (length q + 2) = Some (length q + 4)"
    by (auto simp: skip_crlf_def nth_append)
  then show ?thesis using assms by (subst http_headers.simps) auto
qed

text \<open>The headers and the content behind the first line \<open>f\<close> are framed when their length is known at the end.\<close>

lemma framed_headers:
  assumes "\<forall>c \<in> set f. \<not> eol c" and "2 \<le> length f" and "\<forall>h \<in> set hl. plain_header h"
    and "length f + length (concat (map header_text hl)) \<le> 8192"
    and "ho \<and> c = [] \<or> \<not> ho \<and> cl = int (length c) \<and> length f + length (concat (map header_text hl)) + 4 + length c \<le> 2147483647"
  shows "http_headers (f @ 13 # 10 # concat (map header_text hl) @ 13 # 10 # c @ m) ho False cl (length f) =
    int (length (f @ 13 # 10 # concat (map header_text hl) @ 13 # 10 # c))"
proof -
  obtain q where q: "length q = length f + length (concat (map header_text hl))"
      "http_headers (f @ 13 # 10 # concat (map header_text hl) @ 13 # 10 # c @ m) ho False cl (length f) =
        http_headers (q @ 13 # 10 # 13 # 10 # c @ m) ho False cl (length q)"
    using walk_headers [OF assms(3,4), of "c @ m" ho False cl] by blast
  then show ?thesis using walk_end [of q ho c cl m] assms(4,5) by simp
qed

lemma walk_first:
  assumes "\<forall>c \<in> set f. \<not> eol c" and "2 \<le> length f" and "length f \<le> 8192"
  shows "http_headers (f @ 13 # 10 # r) ho ck cl 2 = http_headers (f @ 13 # 10 # r) ho ck cl (length f)"
proof -
  obtain a b g where "f = a # b # g" using assms(2) by (metis Suc_le_length_iff numeral_2_eq_2)
  then show ?thesis using walk_line [of g "[a, b]" "13 # 10 # r" ho ck cl] assms(1,3) by (simp add: numeral_2_eq_2)
qed

lemma framed_length:
  assumes "\<forall>c \<in> set f. \<not> eol c" and "2 \<le> length f" and "\<forall>h \<in> set hl. plain_header h"
    and "length f + length (concat (map header_text (length_header n # hl))) \<le> 8192" and "n < 2 ^ 31"
    and "ho \<and> c = [] \<or> \<not> ho \<and> n = length c \<and> length f + length (concat (map header_text (length_header n # hl))) + 4 + length c \<le> 2147483647"
  shows "http_headers (f @ 13 # 10 # concat (map header_text (length_header n # hl)) @ 13 # 10 # c @ m) ho False cl 2 =
    int (length (f @ 13 # 10 # concat (map header_text (length_header n # hl)) @ 13 # 10 # c))"
proof -
  let ?f = "f @ 13 # 10 # header_line (length_header n)" and ?t = "concat (map header_text hl)"
  have len: "length ?f = length f + length (header_text (length_header n))" by (simp add: header_text_def)
  obtain q where q: "length q = length ?f + length ?t" 
      "http_headers (?f @ 13 # 10 # ?t @ 13 # 10 # c @ m) ho False (int n) (length ?f) = http_headers (q @ 13 # 10 # 13 # 10 # c @ m) ho False (int n) (length q)"
    using walk_headers [OF assms(3), of ?f "c @ m" ho False "int n"] assms(4) len by auto
  have "http_headers (f @ 13 # 10 # header_text (length_header n) @ ?t @ 13 # 10 # c @ m) ho False cl 2 =
      http_headers (?f @ 13 # 10 # ?t @ 13 # 10 # c @ m) ho False (int n) (length ?f)"
    using walk_first [OF assms(1,2)] walk_length [OF assms(5), of f "?t @ 13 # 10 # c @ m" ho False cl] assms(4) by simp
  also have "\<dots> = http_headers (q @ 13 # 10 # 13 # 10 # c @ m) ho False (int n) (length q)" by (rule q(2))
  also have "\<dots> = int (length q + 4 + length c)" by (rule walk_end) (use q(1) len assms(4,6) in auto)
  finally show ?thesis using q(1) len by simp
qed

section \<open>First lines\<close>

lemma first_eol_found: "\<forall>c \<in> set f. \<not> eol c \<Longrightarrow> first_eol (f @ 13 # r) k = Some (k + length f)"
  by (induction f arbitrary: k) (auto simp: eol_def)

lemma blank_found:
  "\<forall>c \<in> set u. c \<noteq> 32 \<Longrightarrow> length p + length u < i \<Longrightarrow> find_blank (p @ u @ 32 # r) (length p) i = Some (length p + length u)"
proof (induction u arbitrary: p)
  case Nil
  then show ?case by (simp add: find_blank.simps nth_append)
next
  case (Cons c u)
  then show ?case using Cons.IH [of "p @ [c]"] by (simp add: find_blank.simps [of _ "length p"] nth_append)
qed

lemma status_digits:
  "\<forall>c \<in> set s. yaz_isdigit c \<Longrightarrow> r \<noteq> [] \<Longrightarrow> length p + length s \<le> j + 3 \<Longrightarrow>
   status_code (p @ s @ 32 # r) j (length p) v = Some (length p + length s, foldl (\<lambda>a c. a * 10 + (int (unat c) - 48)) v s)"
proof (induction s arbitrary: p v)
  case Nil
  then show ?case by (simp add: status_code.simps nth_append yaz_isdigit_def)
next
  case (Cons c s)
  have "uint c = int (unat c)" by (simp only: uint_nat)
  then show ?case using Cons.IH [of "p @ [c]"] Cons.prems by (simp add: status_code.simps [of _ j "length p"] nth_append)
qed

text \<open>The first line of a response, for a version without blanks and a code of three digits.\<close>

definition response_line :: "byte list \<Rightarrow> nat \<Rightarrow> byte list" where
  "response_line v n = str ''HTTP/'' @ v @ 32 # str (dec_digits n) @ 32 # z_HTTP_errmsg (int n)"

lemma errmsg_chars: "c \<in> set (z_HTTP_errmsg n) \<Longrightarrow> \<not> line_end c"
proof -
  have all: "\<forall>m \<in> set (''Unknown Error'' # map snd errmsg_table). \<forall>c \<in> set (str m). \<not> line_end c" by code_simp
  have "\<exists>m \<in> set (''Unknown Error'' # map snd errmsg_table). z_HTTP_errmsg n = str m"
    by (cases "map_of errmsg_table n") (force simp: z_HTTP_errmsg_def dest: map_of_SomeD)+
  moreover assume "c \<in> set (z_HTTP_errmsg n)"
  ultimately show ?thesis using all by metis
qed

lemma response_line_read:
  assumes "\<forall>c \<in> set v. \<not> line_end_or_blank c" and "n < 1000"
  shows "yaz_decode_http_response_first (response_line v n @ 13 # 10 # r) = Some (Suc (length (response_line v n)), int n, v, z_HTTP_errmsg (int n))"
proof -
  define msg where "msg = z_HTTP_errmsg (int n)"
  define d where "d = str (dec_digits n)"
  define h where "h = str ''HTTP/''"
  have h: "length h = 5" by (simp add: h_def)
  define b where "b = h @ v @ 32 # d @ 32 # msg @ 13 # 10 # r"
  have msg: "\<forall>c \<in> set msg. \<not> line_end c" using errmsg_chars by (auto simp: msg_def)
  have d: "\<forall>c \<in> set d. yaz_isdigit c" "d \<noteq> []" "length d \<le> 3" "foldl (\<lambda>a c. a * 10 + (int (unat c) - 48)) 0 d = int n"
    using dec_isdigit [of _ n] dec_not_empty [of n] dec_length [of n 2] dec_value [of n] assms(2) unfolding d_def by simp_all
  have l: "length b = 9 + length v + length d + length msg + length r" "2 \<le> length msg + length r + 2" by (simp_all add: b_def h)
  have s1: "scan_until line_end_or_blank b (length b - 1) 5 = Some (5 + length v)"
    using scan_found [of v line_end_or_blank 32 h "length b - 1" "d @ 32 # msg @ 13 # 10 # r"] assms(1) l(1)
    by (simp add: b_def h line_end_or_blank_iff)
  have b5: "b ! (5 + length v) = 32" using nth_append_length [of "h @ v" 32] by (simp add: b_def h)
  have s2: "status_code b (5 + length v + 1) (5 + length v + 1) 0 = Some (6 + length v + length d, int n)"
    using status_digits [OF d(1), of "msg @ 13 # 10 # r" "h @ v @ [32]" "6 + length v" 0] d(3,4) by (simp add: b_def h)
  have b6: "b ! (6 + length v + length d) = 32" using nth_append_length [of "h @ v @ 32 # d" 32 "msg @ 13 # 10 # r"] by (simp add: b_def h add.assoc)
  have s3: "scan_until line_end b (length b) (6 + length v + length d + 1) = Some (7 + length v + length d + length msg)"
    using scan_found [of msg line_end 13 "h @ v @ 32 # d @ [32]" "length b" "10 # r"] msg l(1) line_end_iff [of 13]
    by (simp add: b_def h add.assoc)
  have b7: "b ! (7 + length v + length d + length msg) = 13" "b ! Suc (7 + length v + length d + length msg) = 10"
    using nth_append_length [of "h @ v @ 32 # d @ 32 # msg" 13 "10 # r"] nth_append_length [of "h @ v @ 32 # d @ 32 # msg @ [13]" 10 r]
    by (simp_all add: b_def h add.assoc)
  have parts: "take 5 b = h" "take (length v) (drop 5 b) = v" "take (length msg) (drop (7 + length v + length d) b) = msg"
    by (simp_all add: b_def h)
  show ?thesis using l(1) d(2) h s1 b5 s2 b6 s3 b7 parts unfolding response_line_def append.simps append_assoc h_def [symmetric] d_def [symmetric] msg_def [symmetric] b_def [symmetric]
    by (simp add: yaz_decode_http_response_first_def Let_def h_def [symmetric] add.assoc del: list.map)
qed

text \<open>Codes of responses without content.\<close>

definition no_content :: "nat \<Rightarrow> bool" where
  "no_content n \<longleftrightarrow> n < 200 \<or> n = 204 \<or> n = 304"

lemma dec_three:
  assumes "100 \<le> n" and "n < 1000"
  shows "str (dec_digits n) = [byte_of (48 + n div 100), byte_of (48 + n div 10 mod 10), byte_of (48 + n mod 10)]"
proof -
  have "n div 10 div 10 = n div 100" by (simp add: div_mult2_eq [symmetric])
  moreover have "\<not> n < 10" "\<not> n div 10 < 10" "n div 100 < 10" using assms by auto
  ultimately show ?thesis using str_dec [of n] str_dec [of "n div 10"] str_dec [of "n div 100"] by (simp del: list.map)
qed

lemma dec_inj: "str (dec_digits n) = str (dec_digits k) \<Longrightarrow> n = k"
  using dec_value [of n] dec_value [of k] by (metis of_nat_eq_iff)

lemma response_status:
  assumes "\<forall>c \<in> set v. c \<noteq> 32" and "100 \<le> n" and "n < 1000"
  shows "\<exists>ho cl. http_status (response_line v n @ r) (length (response_line v n)) False = Some (ho, cl) \<and>
    (ho \<longrightarrow> no_content n)"
proof -
  define h where "h = str ''HTTP/''"
  define d where "d = str (dec_digits n)"
  define q where "q = z_HTTP_errmsg (int n)"
  define b where "b = h @ v @ 32 # d @ 32 # q @ r"
  have h: "length h = 5" "take 5 b = h" by (simp_all add: h_def b_def)
  have k: "str (dec_digits 204) = str ''204''" "str (dec_digits 304) = str ''304''" by code_simp+
  have d: "length d = 3" "d ! 0 = byte_of (48 + n div 100)" using dec_three [OF assms(2,3)] by (simp_all add: d_def)
  have nk: "\<not> no_content n \<Longrightarrow> d \<noteq> str ''204'' \<and> d \<noteq> str ''304''"
    using k dec_inj [of n 204] dec_inj [of n 304] unfolding d_def no_content_def by metis
  have "\<not> no_content n \<Longrightarrow> 2 \<le> n div 100 \<and> n div 100 < 10" using assms(2,3) by (auto simp: no_content_def)
  then have one: "\<not> no_content n \<Longrightarrow> d ! 0 \<noteq> ch CHR ''1''" using d(2) by (auto simp: word_unat_eq_iff unat_byte_of)
  have f: "find_blank b 5 (length (response_line v n)) = Some (5 + length v)"
    using blank_found [OF assms(1), of h "length (response_line v n)" "d @ 32 # q @ r"] h(1) by (simp add: b_def response_line_def)
  have at: "drop (Suc (5 + length v)) b = d @ 32 # q @ r"
    using append_eq_conv_conj [of "h @ v @ [32]" "d @ 32 # q @ r" b] h(1) by (simp add: b_def)
  have "b ! Suc (5 + length v) = d ! 0"
    using nth_append_length [of "h @ v @ [32]" "hd d" "tl d @ 32 # q @ r"] d(1) h(1) by (cases d) (simp_all add: b_def)
  moreover have "take 3 (drop (Suc (5 + length v)) b) = d" using at d(1) by simp
  moreover have "response_line v n @ r = b" by (simp add: response_line_def b_def h_def d_def q_def)
  moreover have "5 + length v + 4 \<le> length b" using h(1) d(1) by (simp add: b_def)
  ultimately show ?thesis
    using f h nk one by (cases "no_content n") (auto simp: http_status_def h_def [symmetric] simp del: list.map)
qed

text \<open>The first line of a request.\<close>

definition request_first :: "byte list \<Rightarrow> byte list \<Rightarrow> byte list \<Rightarrow> byte list" where
  "request_first meth path v = meth @ 32 # path @ 32 # str ''HTTP/'' @ v"

lemma method_found:
  "\<forall>c \<in> set u. c \<noteq> 32 \<Longrightarrow> length p + length u \<le> 31 \<Longrightarrow> 5 \<le> length r \<Longrightarrow>
   method_end (p @ u @ 32 # r) (length p) = Some (Some (length p + length u))"
proof (induction u arbitrary: p)
  case Nil
  then show ?case by (simp add: method_end.simps nth_append)
next
  case (Cons c u)
  then show ?case using Cons.IH [of "p @ [c]"] by (simp add: method_end.simps [of _ "length p"] nth_append)
qed

lemma request_line_word:
  "\<forall>c \<in> set u. \<not> line_end c \<and> c \<noteq> 32 \<Longrightarrow> request_line (p @ u @ 13 # r) (length p) k = (length p + length u, k)"
proof (induction u arbitrary: p)
  case Nil
  then show ?case by (simp add: request_line.simps nth_append line_end_iff)
next
  case (Cons c u)
  then show ?case using Cons.IH [of "p @ [c]"] by (simp add: request_line.simps [of _ "length p"] nth_append)
qed

lemma request_line_found:
  "\<forall>c \<in> set u. \<not> line_end c \<Longrightarrow> \<forall>c \<in> set w. \<not> line_end c \<and> c \<noteq> 32 \<Longrightarrow>
   request_line (p @ u @ 32 # w @ 13 # r) (length p) k = (length p + length u + 1 + length w, length p + length u)"
proof (induction u arbitrary: p k)
  case Nil
  then show ?case using request_line_word [of w "p @ [32]" r "length p"]
    by (simp add: request_line.simps [of _ "length p"] nth_append line_end_iff)
next
  case (Cons c u)
  then show ?case using Cons.IH [of "p @ [c]"] by (simp add: request_line.simps [of _ "length p"] nth_append)
qed

lemma request_read:
  assumes "\<forall>c \<in> set meth. \<not> line_end c \<and> c \<noteq> 32" and "length meth \<le> 31" and "\<forall>c \<in> set path. \<not> line_end c"
    and "\<forall>c \<in> set v. \<not> line_end c \<and> c \<noteq> 32"
    and "\<forall>h \<in> set hl. header_ok h \<and> \<not> nocase_eq (hname h) (str ''Transfer-Encoding'')"
  shows "yaz_decode_http_request (o'\<lparr>buf := request_first meth path v @ 13 # 10 # concat (map header_text hl) @ 13 # 10 # c\<rparr>) =
    Some (Some \<lparr>req_method = Some meth, req_version = Some v, req_path = Some path, req_headers = hl,
      req_content_buf = no_empty c, req_content_len = int (length c)\<rparr>,
      o'\<lparr>buf := request_first meth path v @ 13 # 10 # concat (map header_text hl) @ 13 # 10 # c\<rparr>)"
proof -
  define h where "h = str ''HTTP/''"
  define r where "r = concat (map header_text hl) @ 13 # 10 # c"
  define f where "f = meth @ 32 # path @ 32 # h @ v"
  define b where "b = f @ 13 # 10 # r"
  have h: "length h = 5" "\<forall>c \<in> set h. \<not> line_end c \<and> c \<noteq> 32" by (auto simp: h_def line_end_iff)
  have l: "length f = 7 + length meth + length path + length v" "length b = length f + 2 + length r" using h by (simp_all add: f_def b_def)
  have m: "method_end b 0 = Some (Some (length meth))"
    using method_found [of meth "[]" "path @ 32 # h @ v @ 13 # 10 # r"] assms(1,2) h(1) by (simp add: b_def f_def)
  have hv: "\<forall>c \<in> set (h @ v). \<not> line_end c \<and> c \<noteq> 32" using h(2) assms(4) by auto
  have line: "request_line b (length meth + 1) 0 = (length f, Suc (length meth + length path))"
    using request_line_found [OF assms(3) hv, of "meth @ [32]" "10 # r" 0] h(1) by (simp add: b_def f_def)
  have parts: "take 5 (drop (Suc (Suc (length meth + length path))) b) = h" using h(1) by (simp add: b_def f_def)
  have crlf: "b ! length f = 13" "b ! Suc (length f) = 10" by (simp_all add: b_def nth_append)
  have nn: "no_nul meth" "no_nul path" "no_nul v" using assms(1,3,4) by (auto simp: line_end_iff)
  have copies: "copy_str b 0 (length meth) = meth" "copy_str b (length meth + 1) (Suc (length meth + length path)) = path"
      "copy_str b (Suc (length meth + length path) + 6) (length f) = v"
    using copy_part [OF nn(1), of "[]" "32 # path @ 32 # h @ v @ 13 # 10 # r"] copy_part [OF nn(2), of "meth @ [32]" "32 # h @ v @ 13 # 10 # r"]
      copy_part [OF nn(3), of "meth @ 32 # path @ 32 # h" "13 # 10 # r"] h(1) by (simp_all add: b_def f_def ac_simps)
  have cont: "decode_headers_content b (Suc (length f)) = Some (Some (hl, no_empty c, int (length c)))"
    using content_read [OF assms(5), of "f @ [13]" c] by (simp add: b_def r_def)
  have "request_first meth path v @ 13 # 10 # concat (map header_text hl) @ 13 # 10 # c = b" by (simp add: request_first_def b_def f_def h_def r_def)
  then show ?thesis
    using m line parts crlf copies cont l by (simp add: yaz_decode_http_request_def Let_def h_def [symmetric] del: list.map)
qed

lemma response_read:
  assumes "\<forall>c \<in> set v. \<not> line_end_or_blank c" and "n < 1000"
    and "\<forall>h \<in> set hl. header_ok h \<and> \<not> nocase_eq (hname h) (str ''Transfer-Encoding'')"
  shows "yaz_decode_http_response (o'\<lparr>buf := response_line v n @ 13 # 10 # concat (map header_text hl) @ 13 # 10 # c\<rparr>) =
    Some (Some \<lparr>res_code = int n, res_version = v, res_headers = hl, res_content_buf = no_empty c, res_content_len = int (length c)\<rparr>,
      o'\<lparr>buf := response_line v n @ 13 # 10 # concat (map header_text hl) @ 13 # 10 # c\<rparr>)"
proof -
  have "no_nul v" using assms(1) by (auto simp: line_end_or_blank_iff)
  then show ?thesis
    using response_line_read [OF assms(1,2), of "concat (map header_text hl) @ 13 # 10 # c"]
      content_read [OF assms(3), of "response_line v n @ [13]" c] by (simp add: yaz_decode_http_response_def)
qed

section \<open>Writing\<close>

text \<open>\<open>o1\<close> is the handle \<open>o'\<close> after the beginning \<open>xs\<close> of a text that fits.\<close>

definition put_so_far :: "odr \<Rightarrow> nat \<Rightarrow> byte list \<Rightarrow> odr \<Rightarrow> bool" where
  "put_so_far o' n xs o1 \<longleftrightarrow> can_grow o' \<and> top o' + n \<le> odr_limit \<and> appended o' xs o1"

lemma puts_more:
  assumes "put_so_far o' n xs o1" and "length xs + length s \<le> n"
  shows "put_so_far o' n (xs @ s) (odr_puts o1 s)"
proof -
  have a: "can_grow o'" "top o' + n \<le> odr_limit" "appended o' xs o1" using assms(1) by (auto simp: put_so_far_def)
  have "at_end o1" "can_grow o1" "top o1 + length s \<le> odr_limit" using a assms(2) appended_at_end appended_frame [OF a(3)] by auto
  then obtain o2 where "odr_write o1 s = (True, o2)" "appended o1 s o2" by (rule write_append)
  then show ?thesis using a appended_trans [OF a(3)] by (simp add: put_so_far_def odr_puts_def)
qed

lemma puts_all:
  "put_so_far o' n xs o1 \<Longrightarrow> length xs + length (concat ss) \<le> n \<Longrightarrow> put_so_far o' n (xs @ concat ss) (foldl odr_puts o1 ss)"
proof (induction ss arbitrary: xs o1)
  case (Cons s ss)
  then show ?case using puts_more [of o' n xs o1 s] Cons.IH [of "xs @ s" "odr_puts o1 s"] by simp
qed simp

lemma header_written:
  assumes "put_so_far o' n xs o1" and "length xs + length (header_text h) \<le> n" and "header_ok h"
  shows "put_so_far o' n (xs @ header_text h) (write_header o1 h)"
proof -
  let ?n = "hname h" and ?v = "hvalue h"
  have nn: "cstr ?n = ?n" "cstr ?v = ?v" using assms(3) by (auto simp: header_ok_def line_end_iff intro!: cstr_no_nul)
  show ?thesis
    using puts_all [OF assms(1), of "[?n, str '': '', ?v, [13, 10]]"] assms(2) by (simp add: write_header_def nn header_text_def)
qed

lemma headers_written:
  "put_so_far o' n xs o1 \<Longrightarrow> length xs + length (concat (map header_text hl)) \<le> n \<Longrightarrow> \<forall>h \<in> set hl. header_ok h \<and> W h \<Longrightarrow>
   put_so_far o' n (xs @ concat (map header_text hl)) (foldl (\<lambda>ox h. if W h then write_header ox h else ox) o1 hl)"
proof (induction hl arbitrary: xs o1)
  case (Cons h hl)
  then show ?case using Cons.IH [of "xs @ header_text h" "write_header o1 h"] header_written [of o' n xs o1 h] by simp
qed simp

lemma content_written:
  assumes "put_so_far o' n xs o1" and "length xs + length c \<le> n"
  shows "\<exists>o2. write_content o1 (no_empty c) (int (length c)) = Some o2 \<and> put_so_far o' n (xs @ c) o2"
  using puts_more [OF assms] assms(1) by (cases "c = []") (simp_all add: write_content_def no_empty_def)

section \<open>Packages\<close>

text \<open>The headers that are sent: a response always tells the length of its content, a request when there is some.\<close>

definition response_headers :: "Z_HTTP_Response \<Rightarrow> Z_HTTP_Header list" where
  "response_headers r = length_header (length (mem (res_content_buf r))) # res_headers r"

definition request_headers :: "Z_HTTP_Request \<Rightarrow> Z_HTTP_Header list" where
  "request_headers r =
     (if req_content_buf r = None then req_headers r else length_header (length (mem (req_content_buf r))) # req_headers r)"

definition message :: "byte list \<Rightarrow> Z_HTTP_Header list \<Rightarrow> byte list \<Rightarrow> byte list" where
  "message f hl c = f @ 13 # 10 # concat (map header_text hl) @ 13 # 10 # c"

definition response_text :: "Z_HTTP_Response \<Rightarrow> byte list" where
  "response_text r = message (response_line (res_version r) (nat (res_code r))) (response_headers r) (mem (res_content_buf r))"

definition request_text :: "Z_HTTP_Request \<Rightarrow> byte list" where
  "request_text r =
     message (request_first (the (req_method r)) (the (req_path r)) (the (req_version r))) (request_headers r) (mem (req_content_buf r))"

text \<open>A message whose head is at most as long as the framing allows.\<close>

definition message_ok :: "byte list \<Rightarrow> Z_HTTP_Header list \<Rightarrow> byte list option \<Rightarrow> int \<Rightarrow> bool" where
  "message_ok f hl c len \<longleftrightarrow> int (length f + length (concat (map header_text hl))) \<le> 8192 \<and> int (length (message f hl (mem c))) \<le> 2147483647 \<and>
     c \<noteq> Some [] \<and> len = int (length (mem c))"

definition response_ok :: "Z_HTTP_Response \<Rightarrow> bool" where
  "response_ok r \<longleftrightarrow> 100 \<le> res_code r \<and> res_code r < 1000 \<and> (\<forall>c \<in> set (res_version r). \<not> line_end_or_blank c) \<and>
     (\<forall>h \<in> set (res_headers r). plain_header h) \<and> length (response_line (res_version r) (nat (res_code r))) \<le> 77 \<and>
     (no_content (nat (res_code r)) \<longrightarrow> res_content_buf r = None) \<and>
     message_ok (response_line (res_version r) (nat (res_code r))) (response_headers r) (res_content_buf r) (res_content_len r)"

definition word_ok :: "byte list \<Rightarrow> bool" where
  "word_ok s \<longleftrightarrow> (\<forall>c \<in> set s. printable c \<and> c \<noteq> 32)"

definition request_ok :: "Z_HTTP_Request \<Rightarrow> bool" where
  "request_ok r \<longleftrightarrow>
     (case (req_method r, req_path r, req_version r) of
        (Some meth, Some path, Some v) \<Rightarrow>
          word_ok meth \<and> meth \<noteq> [] \<and> length meth \<le> 31 \<and> take 5 meth \<noteq> str ''HTTP/'' \<and>
          (\<forall>c \<in> set path. printable c \<and> c \<noteq> ch CHR ''#'') \<and> word_ok v \<and>
          message_ok (request_first meth path v) (request_headers r) (req_content_buf r) (req_content_len r)
      | _ \<Rightarrow> False) \<and> (\<forall>h \<in> set (req_headers r). plain_header h)"

fun package_ok :: "'a Z_GDU \<Rightarrow> bool" where
  "package_ok (GDU_HTTP_Response r) = response_ok r"
| "package_ok (GDU_HTTP_Request r) = request_ok r"
| "package_ok (GDU_Z3950 a) = False"

fun package_text :: "'a Z_GDU \<Rightarrow> byte list" where
  "package_text (GDU_HTTP_Response r) = response_text r"
| "package_text (GDU_HTTP_Request r) = request_text r"
| "package_text (GDU_Z3950 a) = []"

fun as_received :: "'a Z_GDU \<Rightarrow> 'a Z_GDU" where
  "as_received (GDU_HTTP_Response r) = GDU_HTTP_Response (r\<lparr>res_headers := response_headers r\<rparr>)"
| "as_received (GDU_HTTP_Request r) = GDU_HTTP_Request (r\<lparr>req_headers := request_headers r\<rparr>)"
| "as_received (GDU_Z3950 a) = GDU_Z3950 a"

lemma no_empty_mem: "c \<noteq> Some [] \<Longrightarrow> no_empty (mem c) = c"
  by (cases c) (simp_all add: no_empty_def mem_def)

lemma length_header_not_encoding: "\<not> nocase_eq (hname (length_header n)) (str ''Transfer-Encoding'')"
  unfolding length_header_def by (simp add: nocase_eq_lower lower_def ctype_defs)

lemma plain_headerD: "plain_header h \<Longrightarrow> header_ok h \<and> \<not> nocase_eq (hname h) (str ''Transfer-Encoding'')"
  by (simp add: plain_header_def)

lemma sent_headers:
  "\<forall>h \<in> set (res_headers r). plain_header h \<Longrightarrow> \<forall>h \<in> set (response_headers r). header_ok h \<and> \<not> nocase_eq (hname h) (str ''Transfer-Encoding'')"
  "\<forall>h \<in> set (req_headers q). plain_header h \<Longrightarrow> \<forall>h \<in> set (request_headers q). header_ok h \<and> \<not> nocase_eq (hname h) (str ''Transfer-Encoding'')"
  using plain_headerD length_header_ok length_header_not_encoding unfolding response_headers_def request_headers_def by (auto simp del: list.map)

lemma response_decoded:
  assumes "response_ok r"
  shows "decode_GDU dec (o'\<lparr>buf := response_text r\<rparr>) = Some (Some (as_received (GDU_HTTP_Response r)), o'\<lparr>buf := response_text r\<rparr>)"
proof -
  have ok: "\<forall>c \<in> set (res_version r). \<not> line_end_or_blank c" "nat (res_code r) < 1000" "\<forall>h \<in> set (res_headers r). plain_header h"
      "res_content_buf r \<noteq> Some []" "res_content_len r = int (length (mem (res_content_buf r)))" "int (nat (res_code r)) = res_code r"
    using assms by (auto simp: response_ok_def message_ok_def)
  have "10 < length (response_text r)" "take 5 (response_text r) = str ''HTTP/''"
    using dec_not_empty [of "nat (res_code r)"] by (cases "dec_digits (nat (res_code r))"; simp add: response_text_def message_def response_line_def)+
  moreover have "yaz_decode_http_response (o'\<lparr>buf := response_text r\<rparr>) = Some (Some (r\<lparr>res_headers := response_headers r\<rparr>), o'\<lparr>buf := response_text r\<rparr>)"
    using response_read [OF ok(1,2) sent_headers(1) [OF ok(3)], where o' = o' and c = "mem (res_content_buf r)"] ok(4,5,6) no_empty_mem [OF ok(4)]
    unfolding response_text_def message_def by (cases r) simp
  ultimately show ?thesis by (simp add: decode_GDU_def del: list.map)
qed

lemma response_line_chars:
  assumes "\<forall>c \<in> set v. \<not> line_end_or_blank c"
  shows "\<forall>c \<in> set (response_line v n). \<not> eol c"
proof
  fix c assume "c \<in> set (response_line v n)"
  then consider "c \<in> set (str ''HTTP/'')" | "c \<in> set v" | "c = 32" | "c \<in> set (str (dec_digits n))" | "c \<in> set (z_HTTP_errmsg (int n))"
    unfolding response_line_def by (auto simp del: list.map)
  then show "\<not> eol c"
  proof cases
    case 1
    then show ?thesis by (auto simp: eol_def)
  next
    case 2
    then show ?thesis using assms by (auto simp: eol_def line_end_or_blank_iff)
  next
    case 3
    then show ?thesis by (simp add: eol_def)
  next
    case 4
    then show ?thesis using dec_not_line_end [of c n] by (auto simp: eol_def line_end_iff)
  next
    case 5
    then show ?thesis using errmsg_chars [of c "int n"] by (auto simp: eol_def line_end_iff)
  qed
qed

lemma response_framed:
  assumes "response_ok r"
  shows "cs_complete_auto (response_text r @ m) = Some (int (length (response_text r)))"
proof -
  let ?n = "nat (res_code r)" and ?c = "mem (res_content_buf r)"
  define f where "f = response_line (res_version r) ?n"
  have ok: "\<forall>c \<in> set (res_version r). \<not> line_end_or_blank c" "100 \<le> ?n" "?n < 1000" "\<forall>h \<in> set (res_headers r). plain_header h"
      "no_content ?n \<longrightarrow> ?c = []" "message_ok f (response_headers r) (res_content_buf r) (res_content_len r)"
    using assms by (auto simp: response_ok_def mem_def f_def)
  have f: "\<forall>c \<in> set f. \<not> eol c" "5 \<le> length f" 
    using response_line_chars [OF ok(1), of ?n] by (simp_all only: f_def) (simp add: response_line_def)
  define b where "b = response_text r @ m"
  have b: "b = f @ 13 # 10 # concat (map header_text (response_headers r)) @ 13 # 10 # ?c @ m"
    by (simp add: b_def response_text_def message_def f_def)
  obtain ho cl where st: "http_status b (length f) False = Some (ho, cl)" and body: "ho \<Longrightarrow> ?c = []"
    using response_status [of "res_version r" ?n "13 # 10 # concat (map header_text (response_headers r)) @ 13 # 10 # ?c @ m"] ok(1,2,3,5)
    by (auto simp: b f_def line_end_or_blank_iff)
  have "http_headers b ho False cl 2 = int (length (response_text r))"
    using framed_length [OF f(1) _ ok(4), of "length ?c" ho ?c m cl] f(2) ok(6) body
    by (auto simp: b response_text_def message_def message_ok_def response_headers_def f_def [symmetric])
  then have "cs_complete_http b False = Some (int (length (response_text r)))"
    using first_eol_found [OF f(1), of _ 0] st by (simp add: cs_complete_http_def b)
  moreover have "5 < length b" "printable (b ! 0)" "printable (b ! 1)" "printable (b ! 2)" "printable (b ! 3)"
    by (simp_all add: b f_def response_line_def printable_def)
  ultimately show ?thesis by (simp add: cs_complete_auto_def cs_complete_auto_x_def b_def)
qed

lemma printable_line: "printable c \<Longrightarrow> \<not> line_end c \<and> \<not> eol c"
  using printable_range [of c] by (auto simp: line_end_iff eol_def)

lemma request_okE:
  assumes "request_ok r"
  obtains meth path v where "req_method r = Some meth" "req_path r = Some path" "req_version r = Some v" "word_ok meth"
    "meth \<noteq> []" "length meth \<le> 31" "take 5 meth \<noteq> str ''HTTP/''" "\<forall>c \<in> set path. printable c \<and> c \<noteq> ch CHR ''#''" "word_ok v"
    "message_ok (request_first meth path v) (request_headers r) (req_content_buf r) (req_content_len r)"
    "\<forall>h \<in> set (req_headers r). plain_header h"
proof -
  obtain meth path v where "req_method r = Some meth" "req_path r = Some path" "req_version r = Some v"
    using assms by (cases "req_method r"; cases "req_path r"; cases "req_version r") (simp_all add: request_ok_def)
  then show thesis using assms that by (simp add: request_ok_def del: list.map)
qed

lemma take_method:
  assumes "take 5 meth \<noteq> h" and "length h = 5" and "32 \<notin> set h"
  shows "take 5 (meth @ 32 # r) \<noteq> h"
proof (cases "5 \<le> length meth")
  case False
  then have "32 \<in> set (take 5 (meth @ 32 # r))" by (cases "5 - length meth") auto
  then show ?thesis using assms(3) by auto
qed (use assms in simp)

lemma request_not_response:
  assumes "take 5 meth \<noteq> str ''HTTP/''"
  shows "take 5 (request_first meth path v @ r) \<noteq> str ''HTTP/''"
  using take_method [OF assms, of "path @ 32 # str ''HTTP/'' @ v @ r"] unfolding request_first_def by simp

lemma request_first_chars:
  assumes "word_ok meth" and "meth \<noteq> []" and "\<forall>c \<in> set path. printable c" and "word_ok v"
  shows "\<forall>c \<in> set (request_first meth path v). printable c" "8 \<le> length (request_first meth path v)"
proof -
  have "printable 32" "\<forall>c \<in> set (str ''HTTP/''). printable c" by code_simp+
  then show "\<forall>c \<in> set (request_first meth path v). printable c"
    using assms unfolding request_first_def word_ok_def by (auto simp del: list.map)
  show "8 \<le> length (request_first meth path v)" using assms(2) by (cases meth) (simp_all add: request_first_def)
qed

lemma text_begins:
  assumes "\<forall>c \<in> set f. printable c" and "8 \<le> length f"
  shows "5 < length (f @ r)" "printable ((f @ r) ! 0)" "printable ((f @ r) ! 1)" "printable ((f @ r) ! 2)" "printable ((f @ r) ! 3)"
proof -
  have "printable ((f @ r) ! k)" if "k < 8" for k using assms that by (simp add: nth_append)
  then show "5 < length (f @ r)" "printable ((f @ r) ! 0)" "printable ((f @ r) ! 1)" "printable ((f @ r) ! 2)" "printable ((f @ r) ! 3)"
    using assms(2) by simp_all
qed

lemma request_decoded:
  assumes "request_ok r"
  shows "decode_GDU dec (o'\<lparr>buf := request_text r\<rparr>) = Some (Some (as_received (GDU_HTTP_Request r)), o'\<lparr>buf := request_text r\<rparr>)"
proof -
  obtain meth path v where r: "req_method r = Some meth" "req_path r = Some path" "req_version r = Some v" "word_ok meth"
    "meth \<noteq> []" "length meth \<le> 31" "take 5 meth \<noteq> str ''HTTP/''" "\<forall>c \<in> set path. printable c \<and> c \<noteq> ch CHR ''#''" "word_ok v"
    "message_ok (request_first meth path v) (request_headers r) (req_content_buf r) (req_content_len r)"
    "\<forall>h \<in> set (req_headers r). plain_header h"
    by (rule request_okE [OF assms])
  let ?c = "mem (req_content_buf r)"
  define t where "t = request_text r"
  have t: "t = request_first meth path v @ 13 # 10 # concat (map header_text (request_headers r)) @ 13 # 10 # ?c"
    using r(1-3) by (simp add: t_def request_text_def message_def)
  have cont: "no_empty ?c = req_content_buf r" "req_content_len r = int (length ?c)" using r(10) no_empty_mem by (auto simp: message_ok_def)
  have "yaz_decode_http_request (o'\<lparr>buf := t\<rparr>) = Some (Some (r\<lparr>req_headers := request_headers r\<rparr>), o'\<lparr>buf := t\<rparr>)"
    using request_read [where meth = meth and path = path and v = v and hl = "request_headers r" and o' = o' and c = ?c] r(1-4,6,8,9) cont sent_headers(2) [OF r(11)] printable_line
    unfolding t [symmetric] by (cases r) (simp add: word_ok_def)
  moreover have "take 5 t \<noteq> str ''HTTP/''" unfolding t by (rule request_not_response [OF r(7)])
  moreover have "5 < length t" "printable (t ! 0)" "printable (t ! 1)" "printable (t ! 2)" "printable (t ! 3)"
    unfolding t using request_first_chars [OF r(4,5) _ r(9)] r(8) by (intro text_begins; blast)+
  ultimately show ?thesis unfolding t_def [symmetric] by (simp add: decode_GDU_def Let_def del: list.map)
qed

lemma request_framed:
  assumes "request_ok r"
  shows "cs_complete_auto (request_text r @ m) = Some (int (length (request_text r)))"
proof -
  obtain meth path v where r: "req_method r = Some meth" "req_path r = Some path" "req_version r = Some v" "word_ok meth"
    "meth \<noteq> []" "length meth \<le> 31" "take 5 meth \<noteq> str ''HTTP/''" "\<forall>c \<in> set path. printable c \<and> c \<noteq> ch CHR ''#''" "word_ok v"
    "message_ok (request_first meth path v) (request_headers r) (req_content_buf r) (req_content_len r)"
    "\<forall>h \<in> set (req_headers r). plain_header h"
    by (rule request_okE [OF assms])
  let ?c = "mem (req_content_buf r)"
  define f where "f = request_first meth path v"
  define b where "b = request_text r @ m"
  have b: "b = f @ 13 # 10 # concat (map header_text (request_headers r)) @ 13 # 10 # ?c @ m"
    using r(1-3) by (simp add: b_def request_text_def message_def f_def)
  have pf: "\<forall>c \<in> set f. printable c" "8 \<le> length f" using request_first_chars [OF r(4,5) _ r(9)] r(8) by (auto simp: f_def)
  then have f: "\<forall>c \<in> set f. \<not> eol c" "2 \<le> length f" "5 < length b" "printable (b ! 0)" "printable (b ! 1)" "printable (b ! 2)" "printable (b ! 3)"
    using printable_line text_begins [OF pf] by (auto simp: b)
  have ok: "message_ok f (request_headers r) (req_content_buf r) (req_content_len r)" using r(10) by (simp add: f_def)
  have "http_headers b False False 0 2 = int (length (request_text r))"
  proof (cases "req_content_buf r")
    case None
    then have "?c = []" "request_headers r = req_headers r" by (simp_all add: mem_def request_headers_def)
    then show ?thesis
      using framed_headers [OF f(1,2) r(11), of False "[]" 0 m] walk_first [OF f(1,2)] ok r(1-3)
      by (simp add: b request_text_def message_def message_ok_def f_def [symmetric])
  next
    case (Some c)
    then have "request_headers r = length_header (length ?c) # req_headers r" by (simp add: request_headers_def)
    then show ?thesis
      using framed_length [OF f(1,2) r(11), of "length ?c" False ?c m 0] ok r(1-3)
      by (simp add: b request_text_def message_def message_ok_def f_def [symmetric])
  qed
  moreover have "http_status b (length f) False = Some (False, 0)"
  proof -
    have "take 5 b \<noteq> str ''HTTP/''" using request_not_response [OF r(7)] by (simp add: b f_def del: list.map)
    then show ?thesis using f(3) by (simp add: http_status_def del: list.map)
  qed
  ultimately have "cs_complete_http b False = Some (int (length (request_text r)))"
    using first_eol_found [OF f(1), of _ 0] by (simp add: cs_complete_http_def b)
  then show ?thesis using f(3-7) by (simp add: cs_complete_auto_def cs_complete_auto_x_def b_def)
qed

lemma response_written:
  assumes "response_ok r" and "at_end o'" and "can_grow o'" and "direction o' = ODR_ENCODE" and "top o' + length (response_text r) \<le> odr_limit"
  shows "\<exists>o2. yaz_encode_http_response o' r = Some (True, o2) \<and> appended o' (response_text r) o2"
proof -
  let ?n = "nat (res_code r)" and ?c = "mem (res_content_buf r)" and ?v = "res_version r"
  let ?W = "\<lambda>h. \<not> nocase_eq (hname h) (str ''Content-Length'') \<and> \<not> nocase_eq (hname h) (str ''Transfer-Encoding'')"
  define f where "f = response_line ?v ?n"
  define lh where "lh = header_text (length_header (length ?c))"
  define hs where "hs = concat (map header_text (res_headers r))"
  define N where "N = length (response_text r)"
  have ok: "no_nul ?v" "0 \<le> res_code r" "\<forall>h \<in> set (res_headers r). header_ok h \<and> ?W h" "length f \<le> 77"
      "res_content_len r = int (length ?c)" "no_empty ?c = res_content_buf r"
    using assms(1) no_empty_mem by (auto simp: response_ok_def message_ok_def plain_header_def line_end_or_blank_iff f_def)
  have N: "N = length f + 2 + length lh + length hs + 2 + length ?c"
    by (simp add: N_def response_text_def message_def f_def lh_def hs_def response_headers_def)
  have line: "take 79 (str ''HTTP/'' @ cstr ?v @ str '' '' @ str (dec_int (res_code r)) @ str '' '' @ z_HTTP_errmsg (res_code r) @ [13, 10]) = f @ [13, 10]"
    using ok(1,2,4) by (simp add: f_def response_line_def dec_int_def)
  have len: "str ''Content-Length: '' @ str (dec_int (res_content_len r)) @ [13, 10] = lh"
    using ok(5) by (simp add: lh_def header_text_def length_header_def dec_int_def)
  have 0: "put_so_far o' N [] o'" using assms appended_Nil by (simp add: put_so_far_def N_def)
  have 1: "put_so_far o' N (f @ [13, 10]) (odr_puts o' (f @ [13, 10]))" using puts_more [OF 0, of "f @ [13, 10]"] N by simp
  have 2: "put_so_far o' N ((f @ [13, 10]) @ lh) (odr_puts (odr_puts o' (f @ [13, 10])) lh)" using puts_more [OF 1, of lh] N by simp
  obtain o3 where o3: "o3 = foldl (\<lambda>ox h. if ?W h then write_header ox h else ox) (odr_puts (odr_puts o' (f @ [13, 10])) lh) (res_headers r)" by blast
  then have 3: "put_so_far o' N (((f @ [13, 10]) @ lh) @ hs) o3" using headers_written [OF 2 _ ok(3)] N by (simp add: hs_def)
  have 4: "put_so_far o' N ((((f @ [13, 10]) @ lh) @ hs) @ [13, 10]) (odr_puts o3 [13, 10])" using puts_more [OF 3, of "[13, 10]"] N by simp
  obtain o5 where o5: "write_content (odr_puts o3 [13, 10]) (res_content_buf r) (res_content_len r) = Some o5"
      "put_so_far o' N (((((f @ [13, 10]) @ lh) @ hs) @ [13, 10]) @ ?c) o5"
    using content_written [OF 4, of ?c] N ok(5,6) by auto
  then have a: "appended o' (response_text r) o5"
    by (simp add: put_so_far_def response_text_def message_def f_def lh_def hs_def response_headers_def)
  then have "direction o5 \<noteq> ODR_PRINT" using appended_frame(1) assms(4) by simp
  then have "yaz_encode_http_response o' r = Some (True, o5)"
    using line len o3 o5(1) by (simp add: yaz_encode_http_response_def Let_def print_package_def del: list.map)
  then show ?thesis using a by blast
qed

lemma lookup_plain: "\<forall>h \<in> set hl. plain_header h \<Longrightarrow> z_HTTP_header_lookup hl (str ''Content-Length'') = None"
  by (induction hl) (auto simp: plain_header_def simp del: list.map)

lemma request_written:
  assumes "request_ok r" and "at_end o'" and "can_grow o'" and "direction o' = ODR_ENCODE" and "top o' + length (request_text r) \<le> odr_limit"
  shows "\<exists>o2. yaz_encode_http_request o' r = Some (True, o2) \<and> appended o' (request_text r) o2"
proof -
  obtain meth path v where r: "req_method r = Some meth" "req_path r = Some path" "req_version r = Some v" "word_ok meth"
    "meth \<noteq> []" "length meth \<le> 31" "take 5 meth \<noteq> str ''HTTP/''" "\<forall>c \<in> set path. printable c \<and> c \<noteq> ch CHR ''#''" "word_ok v"
    "message_ok (request_first meth path v) (request_headers r) (req_content_buf r) (req_content_len r)"
    "\<forall>h \<in> set (req_headers r). plain_header h"
    by (rule request_okE [OF assms(1)])
  let ?c = "mem (req_content_buf r)"
  let ?W = "\<lambda>h. \<not> nocase_eq (hname h) (str ''Transfer-Encoding'')"
  define lh where "lh = (if req_content_buf r = None then [] else header_text (length_header (length ?c)))"
  define hs where "hs = concat (map header_text (req_headers r))"
  define N where "N = length (request_text r)"
  have ok: "\<forall>h \<in> set (req_headers r). header_ok h \<and> ?W h" "req_content_len r = int (length ?c)" "no_empty ?c = req_content_buf r"
      "req_content_buf r \<noteq> Some []"
    using r(10,11) no_empty_mem by (auto simp: message_ok_def plain_header_def)
  have strs: "cstr meth = meth" "cstr path = path" "cstr v = v" "takeWhile (\<lambda>c. c \<noteq> 35) path = path"
    using r(4,8,9) printable_line by (auto simp: word_ok_def line_end_iff intro!: cstr_no_nul)
  have whole: "request_text r = request_first meth path v @ 13 # 10 # lh @ hs @ 13 # 10 # ?c"
    using r(1-3) by (simp add: request_text_def message_def lh_def hs_def request_headers_def)
  have N: "N = length meth + length path + length v + 9 + length lh + length hs + 2 + length ?c"
    by (simp add: N_def whole request_first_def)
  have cl: "req_content_len r = 0 \<longleftrightarrow> req_content_buf r = None" using ok(2,4) by (cases "req_content_buf r") (auto simp: mem_def)
  have len: "req_content_buf r \<noteq> None \<Longrightarrow> str ''Content-Length: '' @ str (dec_int (req_content_len r)) @ [13, 10] = lh"
    using ok(2) by (simp add: lh_def header_text_def length_header_def dec_int_def)
  have 0: "put_so_far o' N [] o'" using assms appended_Nil by (simp add: put_so_far_def N_def)
  obtain o1 where o1: "o1 = foldl odr_puts o' [meth, str '' '', path, str '' HTTP/'', v, [13, 10]]" by blast
  have 1: "put_so_far o' N (request_first meth path v @ [13, 10]) o1"
    using puts_all [OF 0, of "[meth, str '' '', path, str '' HTTP/'', v, [13, 10]]"] N o1 by (simp add: request_first_def)
  obtain o2 where o2: "o2 = (if req_content_buf r = None then o1 else odr_puts o1 lh)" by blast
  then have 2: "put_so_far o' N ((request_first meth path v @ [13, 10]) @ lh) o2"
    using puts_more [OF 1, of lh] 1 N by (auto simp: lh_def request_first_def)
  obtain o3 where o3: "o3 = foldl (\<lambda>ox h. if ?W h then write_header ox h else ox) o2 (req_headers r)" by blast
  then have 3: "put_so_far o' N (((request_first meth path v @ [13, 10]) @ lh) @ hs) o3"
    using headers_written [OF 2 _ ok(1)] N by (simp add: hs_def request_first_def)
  have 4: "put_so_far o' N ((((request_first meth path v @ [13, 10]) @ lh) @ hs) @ [13, 10]) (odr_puts o3 [13, 10])"
    using puts_more [OF 3, of "[13, 10]"] N by (simp add: request_first_def)
  obtain o5 where o5: "write_content (odr_puts o3 [13, 10]) (req_content_buf r) (req_content_len r) = Some o5"
      "put_so_far o' N (((((request_first meth path v @ [13, 10]) @ lh) @ hs) @ [13, 10]) @ ?c) o5"
    using content_written [OF 4, of ?c] N ok(2,3) by (auto simp: request_first_def)
  then have a: "appended o' (request_text r) o5" by (simp add: put_so_far_def whole)
  then have "direction o5 \<noteq> ODR_PRINT" using appended_frame(1) assms(4) by simp
  moreover have "foldl (\<lambda>ox h. if nocase_eq (hname h) (str ''Transfer-Encoding'') then ox else write_header ox h) o2 (req_headers r) = o3"
    unfolding o3 by (rule arg_cong [of _ _ "\<lambda>g. foldl g o2 (req_headers r)"]) (auto simp: fun_eq_iff simp del: list.map)
  ultimately have "yaz_encode_http_request o' r = Some (True, o5)"
    using r(1-3) cl len lookup_plain [OF r(11)] o1 o2 o5(1)
    by (cases "req_content_buf r = None") (simp_all add: yaz_encode_http_request_def Let_def print_package_def strs del: list.map)
  then show ?thesis using a by blast
qed

section \<open>Properties\<close>

text \<open>
  C4: HTTP packages survive the transport. The encoder appends the text of a well-formed request or response
  to its buffer, as long as the output stays below 2^30 bytes; the completeness test of a connection recognises exactly this text, whatever follows it;
  and the decoder gives back the package, with the length of the content as its first header.
\<close>

theorem gdu_http_roundtrip:
  assumes "package_ok p" and "at_end o'" and "can_grow o'" and "direction o' = ODR_ENCODE" and "top o' + length (package_text p) \<le> odr_limit"
  shows "(\<exists>o2. encode_GDU enc_apdu p o' = Some (True, o2) \<and> appended o' (package_text p) o2) \<and>
    cs_complete_auto (package_text p @ later) = Some (int (length (package_text p))) \<and>
    decode_GDU dec (o1\<lparr>buf := package_text p\<rparr>) = Some (Some (as_received p), o1\<lparr>buf := package_text p\<rparr>)"
proof (cases p)
  case (GDU_Z3950 a)
  then show ?thesis using assms(1) by simp
next
  case (GDU_HTTP_Request r)
  then show ?thesis using request_written [of r o'] request_framed [of r later] request_decoded [of r dec o1] assms
    by (simp add: encode_GDU_def)
next
  case (GDU_HTTP_Response r)
  then show ?thesis using response_written [of r o'] response_framed [of r later] response_decoded [of r dec o1] assms
    by (simp add: encode_GDU_def)
qed

definition sample_request :: Z_HTTP_Request where
  "sample_request =
     \<lparr>req_method = Some (str ''POST''), req_version = Some (str ''1.1''), req_path = Some (str ''/db?q=a b''),
      req_headers = [\<lparr>hname = str ''Host'', hvalue = str ''localhost''\<rparr>], req_content_buf = Some (str ''a=b''), req_content_len = 3\<rparr>"

theorem gdu_http_roundtrip_witness:
  "(\<exists>o2. encode_GDU (\<lambda>a o'. None) (GDU_HTTP_Request sample_request :: unit Z_GDU) (odr_createmem (\<lambda>i. 0) ODR_ENCODE) = Some (True, o2) \<and>
      appended (odr_createmem (\<lambda>i. 0) ODR_ENCODE) (package_text (GDU_HTTP_Request sample_request :: unit Z_GDU)) o2) \<and>
    cs_complete_auto (package_text (GDU_HTTP_Request sample_request :: unit Z_GDU) @ str ''GET'') =
      Some (int (length (package_text (GDU_HTTP_Request sample_request :: unit Z_GDU)))) \<and>
    decode_GDU (\<lambda>o'. None) ((odr_createmem (\<lambda>i. 0) ODR_DECODE)\<lparr>buf := package_text (GDU_HTTP_Request sample_request :: unit Z_GDU)\<rparr>) =
      Some (Some (as_received (GDU_HTTP_Request sample_request :: unit Z_GDU)),
        (odr_createmem (\<lambda>i. 0) ODR_DECODE)\<lparr>buf := package_text (GDU_HTTP_Request sample_request :: unit Z_GDU)\<rparr>)"
proof (rule gdu_http_roundtrip)
  show "package_ok (GDU_HTTP_Request sample_request :: unit Z_GDU)" by code_simp
  have "length (package_text (GDU_HTTP_Request sample_request :: unit Z_GDU)) \<le> 100" by code_simp
  then show "top (odr_createmem (\<lambda>i. 0) ODR_ENCODE) + length (package_text (GDU_HTTP_Request sample_request :: unit Z_GDU)) \<le> odr_limit"
    by (simp add: odr_limit_def)
qed simp_all

text \<open>
  A message that the connection takes to be complete, but whose decoding copies bytes from behind it: the
  framing ends the size of a chunk at the letter g, the decoder counts g as the digit 16.
\<close>

definition odd_chunk :: "byte list" where
  "odd_chunk = str ''HTTP/1.1 200 OK'' @ [13, 10] @ str ''Transfer-Encoding: chunked'' @ [13, 10, 13, 10] @ str ''1g'' @ [13, 10] @ str ''x'' @ [13, 10] @
     str ''0'' @ [13, 10, 13, 10]"

lemma chunk_overrun:
  "cs_complete_auto odd_chunk = Some (int (length odd_chunk)) \<and>
   yaz_decode_http_response_first odd_chunk = Some (16, 200, str ''1.1'', str ''OK'') \<and> decode_headers_content odd_chunk 16 = None"
  by (intro conjI; code_simp)

end
