(* ===== verification/Spec2Isabelle.thy ===== *)
theory Spec2Isabelle
  imports Yaz_Utf8 Yaz_Codec_Laws Yaz_Oid Yaz_Wrbuf Yaz_Json_Laws Yaz_Iconv_Laws Yaz_Receive Yaz_Pqf_Print Yaz_Marc_Json Yaz_Http_Laws
begin

text \<open>
  Verification of the YAZ toolkit, a C library for the information retrieval protocols Z39.50 and SRU.

  \<^bold>\<open>The program.\<close> A Z39.50 package is a value of an ASN.1 type. The types are built from the ODR codecs
  (\<^verbatim>\<open>odr_*.c\<close>), functions that encode, decode or print one value depending on the direction of the handle
  they are given. The codecs rest on the BER primitives (\<^verbatim>\<open>ber_*.c\<close>) and on the buffer of the handle
  (\<^verbatim>\<open>odr.c\<close>, \<^verbatim>\<open>odr_mem.c\<close>). Packages travel over a connection (\<^verbatim>\<open>comstack.c\<close>, \<^verbatim>\<open>tcpip.c\<close>, \<^verbatim>\<open>unix.c\<close>), whose
  receiving side collects bytes until the completeness test for HTTP and BER data says that a package has
  arrived; a package is a Z39.50 package or an HTTP message (\<^verbatim>\<open>zgdu.c\<close>, \<^verbatim>\<open>http.c\<close>). A package carries queries, which users write in prefix notation (\<^verbatim>\<open>pquery.c\<close>, printed by
  \<^verbatim>\<open>querytowrbuf.c\<close>) with names of attribute sets from the database of object identifiers (\<^verbatim>\<open>oid_db.c\<close>,
  \<^verbatim>\<open>oid_util.c\<close>), and records, mostly MARC (\<^verbatim>\<open>marcdisp.c\<close>, \<^verbatim>\<open>marc_read_iso2709.c\<close>, \<^verbatim>\<open>marc_read_json.c\<close>), in several character
  sets (\<^verbatim>\<open>siconv.c\<close>, \<^verbatim>\<open>utf8.c\<close>, \<^verbatim>\<open>ucs4.c\<close>). All text is put together in growing buffers (\<^verbatim>\<open>wrbuf.c\<close>). JSON
  (\<^verbatim>\<open>json.c\<close>), string comparison and globs (\<^verbatim>\<open>matchstr.c\<close>, \<^verbatim>\<open>match_glob.c\<close>), splitting of strings
  (\<^verbatim>\<open>nmemsdup.c\<close>), Base64 and URIs (\<^verbatim>\<open>base64.c\<close>, \<^verbatim>\<open>uri.c\<close>) and the reading of numbers (\<^verbatim>\<open>atoin.c\<close>) are shared utilities.

  \<^bold>\<open>The theories.\<close> File names are relative to \<^verbatim>\<open>src/src\<close>.
  \<^item> \<^verbatim>\<open>Yaz_Prelude\<close>: bytes, C strings, wrap-around, decimal text, the result type of C computations.
  \<^item> \<^verbatim>\<open>Yaz_Utf8\<close> (\<^verbatim>\<open>utf8.c\<close>): one character read and written, the validity check. The writer is shown to
    produce a reference encoding, the reader to invert it and to accept nothing else.
  \<^item> \<^verbatim>\<open>Yaz_Odr\<close> (\<^verbatim>\<open>odr.c\<close>, \<^verbatim>\<open>odr_mem.c\<close>, \<^verbatim>\<open>odr-priv.h\<close>): the record \<open>odr\<close> is the handle; the buffer is shown to be an
    append-only sequence of bytes.
  \<^item> \<^verbatim>\<open>Yaz_Ber\<close> (\<^verbatim>\<open>ber_tag.c\<close>, \<^verbatim>\<open>ber_len.c\<close>, \<^verbatim>\<open>ber_int.c\<close>, \<^verbatim>\<open>ber_bool.c\<close>, \<^verbatim>\<open>ber_null.c\<close>, \<^verbatim>\<open>ber_any.c\<close>): round trips of the
    primitives; the recogniser of complete elements is safe, stable and exact.
  \<^item> \<^verbatim>\<open>Yaz_Codec\<close> (\<^verbatim>\<open>odr_cons.c\<close>, \<^verbatim>\<open>odr_tag.c\<close>, \<^verbatim>\<open>odr_int.c\<close> and the other type codecs, \<^verbatim>\<open>ber_oct.c\<close>, \<^verbatim>\<open>ber_bit.c\<close>,
    \<^verbatim>\<open>odr_seq.c\<close>, \<^verbatim>\<open>odr_choice.c\<close>) and \<^verbatim>\<open>Yaz_Codec_Laws\<close>: the locale \<open>odr_codec\<close> is the contract of a codec; SEQUENCE OF,
    implicit and explicit tags preserve it; the simple types and strings are its interpretations. The stack
    of constructed items is an inductive reachability relation with its invariant.
  \<^item> \<^verbatim>\<open>Yaz_Oid\<close> (\<^verbatim>\<open>oid_util.c\<close>, \<^verbatim>\<open>ber_oid.c\<close>, \<^verbatim>\<open>odr_oid.c\<close>) and \<^verbatim>\<open>Yaz_OidDb\<close> (\<^verbatim>\<open>oid_db.c\<close>): arrays of arcs refine
    sequences, the dotted notation and the encoding round-trip, lookups find what was added.
  \<^item> \<^verbatim>\<open>Yaz_Wrbuf\<close> (\<^verbatim>\<open>wrbuf.c\<close>): the buffer refines a byte string; the locale \<open>byte_sink\<close> is what its clients rely on.
  \<^item> \<^verbatim>\<open>Yaz_Scan\<close> (\<^verbatim>\<open>atoin.c\<close> and the C library's number readers), \<^verbatim>\<open>Yaz_Match\<close> (\<^verbatim>\<open>matchstr.c\<close>, \<^verbatim>\<open>match_glob.c\<close>) and
    \<^verbatim>\<open>Yaz_Split\<close> (\<^verbatim>\<open>nmemsdup.c\<close>): reading and writing of numbers, the glob matcher decides an inductive relation,
    joined strings are split into their items.
  \<^item> \<^verbatim>\<open>Yaz_Json\<close>, \<^verbatim>\<open>Yaz_Json_Laws\<close> (\<^verbatim>\<open>json.c\<close>): the grammar of RFC 8259 is stated apart from the
    parser, which is total, accepts all its texts and reads back what the writer writes.
  \<^item> \<^verbatim>\<open>Yaz_Iconv\<close>, \<^verbatim>\<open>Yaz_Iconv_Laws\<close> (\<^verbatim>\<open>siconv.c\<close>, \<^verbatim>\<open>ucs4.c\<close>, \<^verbatim>\<open>iconv_encode_iso_8859_1.c\<close>): the locales \<open>char_decoder\<close>,
    \<open>char_encoder\<close> and \<open>converter\<close> prove the conversion loop once for all pairs of character sets.
  \<^item> \<^verbatim>\<open>Yaz_Comstack\<close>, \<^verbatim>\<open>Yaz_Comstack_Laws\<close>, \<^verbatim>\<open>Yaz_Receive\<close> (\<^verbatim>\<open>comstack.c\<close>, \<^verbatim>\<open>tcpip.c\<close>, \<^verbatim>\<open>unix.c\<close>): the completeness tests
    satisfy the contract \<open>framer\<close>, under which the receiving loop stays inside its buffers and delivers the
    packages of the stream. The test of responses reads behind the data of a short status line; then it has
    no result, and the contract asks nothing of the test there.
  \<^item> \<^verbatim>\<open>Yaz_Pqf\<close>, \<^verbatim>\<open>Yaz_Pqf_Laws\<close>, \<^verbatim>\<open>Yaz_Pqf_Tokens\<close>, \<^verbatim>\<open>Yaz_Pqf_Print\<close> (\<^verbatim>\<open>pquery.c\<close>, \<^verbatim>\<open>querytowrbuf.c\<close>): the parser returns a
    well-formed query or an error; what it makes of a printed query is stated exactly, with the changes to terms
    and set names that the code makes.
  \<^item> \<^verbatim>\<open>Yaz_Marc\<close>, \<^verbatim>\<open>Yaz_Marc_Laws\<close> (\<^verbatim>\<open>marcdisp.c\<close>, \<^verbatim>\<open>marc_read_iso2709.c\<close>) and \<^verbatim>\<open>Yaz_Marc_Json\<close>
    (\<^verbatim>\<open>marc_read_json.c\<close>): a record written as ISO 2709 is read back, and one written as JSON goes through the JSON
    parser and is read back from its tree.
  \<^item> \<^verbatim>\<open>Yaz_Uri\<close> (\<^verbatim>\<open>base64.c\<close>, \<^verbatim>\<open>uri.c\<close>): Base64, percent encoding and forms are decoded again.
  \<^item> \<^verbatim>\<open>Yaz_Http\<close>, \<^verbatim>\<open>Yaz_Http_Laws\<close> (\<^verbatim>\<open>http.c\<close>, \<^verbatim>\<open>zgdu.c\<close>): what the encoder writes into the buffer of the handle is framed
    by the completeness test of the connection and read back by the decoder; laws of the lists of headers.

  \<^bold>\<open>How C is modelled.\<close> A pointer into an array is the list from there to the end of the memory, or the
  array and an index. A computation that would touch memory outside its objects, read through a null
  pointer or never return has the result \<^const>\<open>None\<close> of type \<open>cres\<close>; theorems that a function returns are stated
  as such. Integers that may wrap are written with \<open>wrap32\<close> and its relatives or as words; sizes of objects
  are natural numbers. Functions that change an object through a pointer take the record of its state and
  return it updated. Freed memory is dropped, new memory has arbitrary content given by a function.

  \<^bold>\<open>Bounds.\<close> The JSON parser recurses to the depth of 1000 that the code checks, and the same number is the
  fuel of the model, so that running out of fuel is the error of the code. Decoders of nested strings take
  fuel; the theorem that one of them does not return holds for every amount. \<^verbatim>\<open>wrbuf_printf\<close> cuts its
  output at 4094 characters and \<^verbatim>\<open>yaz_marc_cprintf\<close> at 198, as the code does. The recursion of the prefix
  query parser is guarded by the length of the input, and it is shown that the guard never fails. The
  network is a script, the list of the results of the reading calls, about which nothing is assumed. Sizes
  that the code keeps in an \<open>int\<close> have a limit: the encoding buffer of a handle cannot be doubled from 2^30 bytes on
  (\<open>odr_grow_block\<close> then fails in the model and sets the field \<open>overflowed\<close>, which the C handle does not have, since the
  overflow is undefined there), so round trips are stated for less output than that (\<open>odr_limit\<close>); the parser of JSON
  strings has no result where its counter passes 2^31 - 1, so its theorems are stated for shorter texts.

  \<^bold>\<open>Parameters.\<close> The generated tables of object identifiers, the generated codec of Z39.50 packages, the version of YAZ, \<^verbatim>\<open>strtod\<close> and the output of \<^verbatim>\<open>%lg\<close> are arguments
  of the definitions that use them.

  \<^bold>\<open>Not modelled.\<close> Code generated when the program is built (the codecs of the ASN.1 modules, the CQL
  parser, tables of character sets); everything that works on trees of libxml2 (SRU, SOAP, record conversion,
  MARC XML readers); ICU; sockets, TLS, threads, processes and logging; the ZOOM client, the server frontend and
  the command line programs, which are clients of the modelled parts and of the system; CCL and CQL queries
  and their conversions.
\<close>

end
